(* ===== verification/Prelude.thy ===== *)
theory Prelude
  imports Main "HOL-Library.Word"
begin

text \<open>
  Shared vocabulary of the development: the machine integer types of the crate (a 64-bit target),
  the ways in which a Rust operation can fail to return a value, a small bind for such outcomes,
  linked-list segments in a store indexed by raw pointers, and reachability in a transition system
  with the rule that an inductive invariant holds in every reachable state.
\<close>

section \<open>Machine types\<close>

unbundle bit_operations_syntax

type_synonym usize = "64 word"
type_synonym u8 = "8 word"
type_synonym u32 = "32 word"
type_synonym ptr = usize
type_synonym tid = nat

abbreviation null :: ptr where
  "null \<equiv> 0"

lemma usize_lt: "unat (w :: usize) < 2 ^ 64"
  using unsigned_less[of w, where ?'a = nat] by simp

lemma unat_exp: "k < 64 \<Longrightarrow> unat ((2 :: usize) ^ k) = 2 ^ k"
proof -
  assume "k < 64"
  then have "(2 :: nat) ^ k < 2 ^ 64" by (intro power_strict_increasing) simp_all
  then have "unat (word_of_nat (2 ^ k) :: usize) = 2 ^ k" by (simp add: unat_of_nat del: of_nat_power)
  then show ?thesis by simp
qed

lemma takeWhile_upt: "k < n \<Longrightarrow> length (takeWhile (\<lambda>i. i \<noteq> k) [0..<n]) = k"
proof -
  assume "k < n"
  then have "[0..<n] = [0..<k] @ k # [Suc k..<n]"
    using upt_add_eq_append[of 0 k "n - k"] by (simp add: upt_conv_Cons)
  moreover have "takeWhile (\<lambda>i. i \<noteq> k) ([0..<k] @ k # [Suc k..<n]) = [0..<k]"
    by (subst takeWhile_append2) auto
  ultimately show ?thesis by simp
qed

named_theorems word_facts \<open>facts on the bits of small machine words\<close>
named_theorems seg_facts \<open>facts on list segments in a pointer store\<close>

section \<open>Outcomes\<close>

text \<open>
  A Rust operation returns a value, panics (a failed \<open>assert!\<close>, \<open>debug_assert!\<close>, \<open>unwrap\<close>, or an
  arithmetic overflow of a checked build), aborts because the allocator failed, or leaves the
  language: the crate is full of raw pointers, so out-of-bounds accesses, reads of memory that was
  never initialised and accesses to freed memory are outcomes of the model and not excluded by it.
\<close>

datatype fault =
    Panic
  | Out_of_memory
  | Out_of_bounds
  | Uninitialised
  | Dangling

type_synonym 'a outcome = "fault + 'a"

fun obind :: "'a outcome \<Rightarrow> ('a \<Rightarrow> 'b outcome) \<Rightarrow> 'b outcome" where
  "obind (Inl f) k = Inl f"
| "obind (Inr x) k = k x"

lemma obind_eq_Inr [simp]: "obind m k = Inr y \<longleftrightarrow> (\<exists>x. m = Inr x \<and> k x = Inr y)"
  by (cases m) auto

lemma obind_assoc: "obind (obind m k) l = obind m (\<lambda>x. obind (k x) l)"
  by (cases m) auto

section \<open>List segments\<close>

text \<open>
  \<open>seg nxt p xs q\<close>: following \<open>nxt\<close> from pointer \<open>p\<close> visits exactly the pointers \<open>xs\<close> and then
  arrives at \<open>q\<close>. A null-terminated list is a segment that ends in \<open>null\<close>.
\<close>

fun seg :: "('p \<Rightarrow> 'p) \<Rightarrow> 'p \<Rightarrow> 'p list \<Rightarrow> 'p \<Rightarrow> bool" where
  "seg nxt p [] q \<longleftrightarrow> p = q"
| "seg nxt p (x # xs) q \<longleftrightarrow> p = x \<and> seg nxt (nxt x) xs q"

lemma seg_append [seg_facts]:
  "seg nxt p (xs @ ys) q \<longleftrightarrow> (\<exists>m. seg nxt p xs m \<and> seg nxt m ys q)"
  by (induction xs arbitrary: p) auto

lemma seg_snoc [seg_facts]:
  "seg nxt p (xs @ [x]) q \<longleftrightarrow> seg nxt p xs x \<and> nxt x = q"
  by (auto simp: seg_append)

lemma seg_cong:
  assumes "\<And>x. x \<in> set xs \<Longrightarrow> nxt x = nxt' x"
  shows "seg nxt p xs q \<longleftrightarrow> seg nxt' p xs q"
  using assms by (induction xs arbitrary: p) auto

lemma seg_upd_other [seg_facts, simp]:
  "a \<notin> set xs \<Longrightarrow> seg (nxt(a := b)) p xs q \<longleftrightarrow> seg nxt p xs q"
  by (rule seg_cong) auto

lemma seg_hd: "seg nxt p xs q \<Longrightarrow> xs \<noteq> [] \<Longrightarrow> p = hd xs"
  by (cases xs) auto

lemma seg_null_unique:
  assumes "seg nxt p xs e" "seg nxt p ys e" "e \<notin> set xs" "e \<notin> set ys"
  shows "xs = ys"
  using assms
proof (induction xs arbitrary: p ys)
  case Nil
  then show ?case by (cases ys) auto
next
  case (Cons x xs)
  then show ?case by (cases ys) auto
qed

lemma seg_remove_hd: "seg nxt p (t # zs) e \<Longrightarrow> seg nxt (nxt t) zs e"
  by simp

lemma seg_remove_mid:
  assumes "seg nxt p (ys @ t # zs) e" "distinct (ys @ t # zs)" "ys \<noteq> []"
  shows "seg (nxt(last ys := nxt t)) p (ys @ zs) e"
proof -
  obtain us u where ys: "ys = us @ [u]" using assms(3) by (cases ys rule: rev_cases) auto
  then have "seg nxt p us u" "seg nxt (nxt t) zs e" using assms(1) by (auto simp: seg_append)
  then show ?thesis using assms(2) by (auto simp: ys seg_append)
qed

lemma seg_extend:
  assumes "seg nxt p xs e" "distinct xs" "xs \<noteq> []" "x \<notin> set xs" "nxt x = e"
  shows "seg (nxt(last xs := x)) p (xs @ [x]) e"
proof -
  obtain us u where xs: "xs = us @ [u]" using assms(3) by (cases xs rule: rev_cases) auto
  then show ?thesis using assms by (auto simp: seg_append)
qed

section \<open>Reachability\<close>

inductive reach :: "('s \<Rightarrow> bool) \<Rightarrow> ('s \<Rightarrow> 's \<Rightarrow> bool) \<Rightarrow> 's \<Rightarrow> bool" for init step where
  reach_init: "init s \<Longrightarrow> reach init step s"
| reach_step: "reach init step s \<Longrightarrow> step s s' \<Longrightarrow> reach init step s'"

text \<open>
  The contract every transition system of the development is interpreted into: an invariant that
  holds initially and that every step keeps. Its lemma is what the safety properties rest on.
\<close>

locale inductive_invariant =
  fixes init :: "'s \<Rightarrow> bool"
    and step :: "'s \<Rightarrow> 's \<Rightarrow> bool"
    and inv :: "'s \<Rightarrow> bool"
  assumes inv_init: "init s \<Longrightarrow> inv s"
    and inv_step: "inv s \<Longrightarrow> step s s' \<Longrightarrow> inv s'"
begin

lemma reach_inv: "reach init step s \<Longrightarrow> inv s"
  by (induction rule: reach.induct) (auto intro: inv_init inv_step)

lemma reach_steps_inv: "inv s \<Longrightarrow> step\<^sup>*\<^sup>* s s' \<Longrightarrow> inv s'"
  by (rotate_tac, induction rule: rtranclp_induct) (auto intro: inv_step)

end

end
