(* ===== verification/Thread_Parker.thy ===== *)
theory Thread_Parker
  imports Prelude
begin

text \<open>
  The futex-based \<open>ThreadParker\<close> of \<open>mutex/deadlock.rs\<close> and the contract of the trait
  \<open>ThreadParkerT\<close> that the parking code relies on. The futex word is non-zero while the thread has
  announced that it parks and is cleared by whoever unparks it. The blocking calls are described by
  what they observe: \<open>park\<close> returns once the futex word is zero, \<open>park_until\<close> is run against the
  sequence of readings of the futex word and of the clock that its loop makes, one pair per
  iteration.
\<close>

record thread_parker =
  futex :: u32

definition parker_new :: thread_parker where
  "parker_new = \<lparr>futex = 0\<rparr>"

definition prepare_park :: "thread_parker \<Rightarrow> thread_parker" where
  "prepare_park p = p\<lparr>futex := 1\<rparr>"

definition timed_out :: "thread_parker \<Rightarrow> bool" where
  "timed_out p \<longleftrightarrow> futex p \<noteq> 0"

definition unpark_lock :: "thread_parker \<Rightarrow> thread_parker" where
  "unpark_lock p = p\<lparr>futex := 0\<rparr>"

definition park_returns :: "thread_parker \<Rightarrow> bool" where
  "park_returns p \<longleftrightarrow> futex p = 0"

text \<open>
  One iteration of \<open>park_until\<close>: \<open>Some r\<close> when the call returns \<open>r\<close>, \<open>None\<close> when it sleeps and loops.
  The seconds of the remaining time pass through the signed \<open>time_t\<close> and back before they are
  compared, as in the source; a mismatch means sleeping without a deadline, which is \<open>park\<close>.
\<close>

definition secs_overflow :: "64 word \<Rightarrow> bool" where
  "secs_overflow secs \<longleftrightarrow> (word_of_int (sint secs) :: 64 word) \<noteq> secs"

fun park_until :: "nat \<Rightarrow> (u32 \<times> nat) list \<Rightarrow> bool option" where
  "park_until deadline [] = None"
| "park_until deadline ((f, now) # obs) =
    (if f = 0 then Some True
     else if deadline \<le> now then Some False
     else if secs_overflow (word_of_nat ((deadline - now) div 1000000000))
       then (if list_ex (\<lambda>(g, _). g = 0) obs then Some True else None)
     else park_until deadline obs)"

locale parker_contract =
  fixes new :: 'p
    and prepare :: "'p \<Rightarrow> 'p"
    and timed :: "'p \<Rightarrow> bool"
    and unpark :: "'p \<Rightarrow> 'p"
    and returns :: "'p \<Rightarrow> bool"
  assumes new_returns: "returns new"
    and prepare_blocks: "\<not> returns (prepare p)"
    and unpark_releases: "returns (unpark p)"
    and timed_iff: "timed p \<longleftrightarrow> \<not> returns p"
begin

lemma prepared_times_out: "timed (prepare p)"
  by (simp add: timed_iff prepare_blocks)

lemma unparked_no_timeout: "\<not> timed (unpark p)"
  by (simp add: timed_iff unpark_releases)

lemma unpark_wins: "\<not> timed (unpark (prepare p)) \<and> returns (unpark (prepare p))"
  by (simp add: unparked_no_timeout unpark_releases)

end

interpretation futex_parker: parker_contract parker_new prepare_park timed_out unpark_lock park_returns
  by unfold_locales (simp_all add: parker_new_def prepare_park_def timed_out_def unpark_lock_def park_returns_def)

lemma secs_never_overflow [simp]: "\<not> secs_overflow secs"
  by (simp add: secs_overflow_def)

lemma park_until_append:
  "park_until d (os @ os') = (case park_until d os of Some r \<Rightarrow> Some r | None \<Rightarrow> park_until d os')"
  by (induction d os rule: park_until.induct) auto

lemma park_until_None:
  "park_until d os = None \<longleftrightarrow> (\<forall>(f, now) \<in> set os. f \<noteq> 0 \<and> now < d)"
  by (induction d os rule: park_until.induct) auto

end
