(* ===== verification/Fair_Timeout.thy ===== *)
theory Fair_Timeout
  imports Prelude
begin

text \<open>
  \<open>FairTimeout\<close> of \<open>mutex/deadlock.rs\<close>: the clock-driven switch that makes an unlock hand the mutex
  over, with its xorshift generator. An \<open>Instant\<close> is a number of nanoseconds; the reading of
  \<open>Instant::now()\<close> is the argument \<open>now\<close>.
\<close>

record fair_timeout =
  timeout :: nat
  seed :: u32

definition fair_timeout_new :: "nat \<Rightarrow> u32 \<Rightarrow> fair_timeout" where
  "fair_timeout_new t s = \<lparr>timeout = t, seed = s\<rparr>"

definition xorshift :: "u32 \<Rightarrow> u32" where
  "xorshift s0 =
    (let s1 = s0 XOR push_bit 13 s0;
         s2 = s1 XOR drop_bit 17 s1
     in s2 XOR push_bit 5 s2)"

definition gen_u32 :: "fair_timeout \<Rightarrow> u32 \<times> fair_timeout" where
  "gen_u32 ft = (let s = xorshift (seed ft) in (s, ft\<lparr>seed := s\<rparr>))"

definition should_timeout :: "nat \<Rightarrow> fair_timeout \<Rightarrow> bool \<times> fair_timeout" where
  "should_timeout now ft =
    (if timeout ft < now
     then (case gen_u32 ft of (r, ft') \<Rightarrow>
             let nanos = r mod 1000000 in (True, ft'\<lparr>timeout := now + unat nanos\<rparr>))
     else (False, ft))"

lemma push_bit_fixpoint:
  fixes z :: "'a::len word"
  assumes "z = push_bit n z" "0 < n"
  shows "z = 0"
proof (rule bit_eqI)
  fix i
  have "\<not> bit z i"
  proof (induction i rule: less_induct)
    case (less i)
    show ?case
    proof
      assume "bit z i"
      then have "bit (push_bit n z) i" using assms(1) by simp
      then have "n \<le> i" "bit z (i - n)" by (auto simp: bit_push_bit_iff)
      with less[of "i - n"] \<open>0 < n\<close> show False by simp
    qed
  qed
  then show "bit z i \<longleftrightarrow> bit 0 i" by simp
qed

lemma drop_bit_fixpoint:
  fixes z :: "'a::len word"
  assumes "z = drop_bit n z" "0 < n"
  shows "z = 0"
proof (rule bit_eqI)
  fix i
  have "\<not> bit z i"
  proof (induction "LENGTH('a) - i" arbitrary: i rule: less_induct)
    case less
    show ?case
    proof
      assume b: "bit z i"
      then have i: "i < LENGTH('a)" by (rule bit_imp_le_length)
      from b have "bit (drop_bit n z) i" using assms(1) by simp
      then have "bit z (n + i)" by (simp add: bit_drop_bit_eq)
      moreover have "LENGTH('a) - (n + i) < LENGTH('a) - i" using i \<open>0 < n\<close> by linarith
      ultimately show False using less[of "n + i"] by blast
    qed
  qed
  then show "bit z i \<longleftrightarrow> bit 0 i" by simp
qed

lemma xor_eq_0_iff [word_facts]: "x XOR y = 0 \<longleftrightarrow> x = (y :: 'a::len word)"
  by (metis xor.assoc xor.right_neutral xor_self_eq)

lemma xor_exchange:
  fixes a b c d :: "'a::len word"
  assumes "a XOR b = c XOR d"
  shows "a XOR c = b XOR d"
proof (rule bit_eqI)
  fix i
  have "bit (a XOR b) i \<longleftrightarrow> bit (c XOR d) i" using assms by simp
  then show "bit (a XOR c) i \<longleftrightarrow> bit (b XOR d) i" by (auto simp: bit_xor_iff)
qed

lemma xor_push_inj:
  fixes x y :: "'a::len word"
  assumes "x XOR push_bit n x = y XOR push_bit n y" "0 < n"
  shows "x = y"
proof -
  have "x XOR y = push_bit n (x XOR y)"
    unfolding push_bit_xor by (rule xor_exchange[OF assms(1)])
  then show ?thesis using push_bit_fixpoint[OF _ assms(2)] xor_eq_0_iff by blast
qed

lemma xor_drop_inj:
  fixes x y :: "'a::len word"
  assumes "x XOR drop_bit n x = y XOR drop_bit n y" "0 < n"
  shows "x = y"
proof -
  have "x XOR y = drop_bit n (x XOR y)"
    unfolding drop_bit_xor by (rule xor_exchange[OF assms(1)])
  then show ?thesis using drop_bit_fixpoint[OF _ assms(2)] xor_eq_0_iff by blast
qed

lemma xorshift_inj: "xorshift x = xorshift y \<Longrightarrow> x = y"
  unfolding xorshift_def Let_def
  by (drule xor_push_inj, simp, drule xor_drop_inj, simp, drule xor_push_inj, simp)

lemma xorshift_0: "xorshift 0 = 0"
  by (simp add: xorshift_def)

lemma xorshift_eq_0_iff [simp]: "xorshift s = 0 \<longleftrightarrow> s = 0"
  using xorshift_inj[of s 0] by (auto simp: xorshift_0)

lemma should_timeout_seed:
  "seed ft \<noteq> 0 \<Longrightarrow> should_timeout now ft = (b, ft') \<Longrightarrow> seed ft' \<noteq> 0"
  by (auto simp: should_timeout_def gen_u32_def Let_def split: if_splits)

lemma unat_mod_million: "unat (r mod (1000000 :: u32)) < 1000000"
  by (simp add: unat_mod_distrib)

text \<open>
  The xorshift step behind \<open>gen_u32\<close> is a permutation of the 32-bit words whose only fixed
  trap, zero, is never entered from the non-zero seed a bucket is created with.
\<close>

theorem xorshift_permutation: "bij xorshift \<and> (\<forall>s. xorshift s = 0 \<longleftrightarrow> s = 0)"
proof -
  have "inj xorshift" by (rule injI) (rule xorshift_inj)
  then have "bij xorshift" by (simp add: bij_def finite_UNIV_inj_surj)
  then show ?thesis by simp
qed

text \<open>
  \<open>should_timeout\<close> answers \<open>true\<close> exactly when its deadline has passed; it then keeps the seed
  non-zero and sets the next deadline less than one millisecond ahead. Otherwise it changes nothing.
\<close>

theorem should_timeout_deadline:
  assumes "seed ft \<noteq> 0"
  shows "case should_timeout now ft of (fair, ft') \<Rightarrow>
      (fair \<longleftrightarrow> timeout ft < now) \<and> seed ft' \<noteq> 0 \<and>
      (if fair then now \<le> timeout ft' \<and> timeout ft' < now + 1000000 else ft' = ft)"
  using assms unat_mod_million[of "xorshift (seed ft)"]
  by (auto simp: should_timeout_def gen_u32_def Let_def)

theorem should_timeout_deadline_witness:
  "case should_timeout 10 \<lparr>timeout = 5, seed = 1\<rparr> of (fair, ft') \<Rightarrow>
      fair \<and> 10 \<le> timeout ft' \<and> timeout ft' < 1000010"
  using should_timeout_deadline[of "\<lparr>timeout = 5, seed = 1\<rparr>" 10]
  by (cases "should_timeout 10 \<lparr>timeout = 5, seed = 1\<rparr>") auto

end
