(* ===== verification/Deadlock_Data.thy ===== *)
theory Deadlock_Data
  imports Prelude "HOL-Library.Multiset"
begin

text \<open>
  The per-thread bookkeeping of \<open>deadlock_impl\<close> in \<open>mutex/deadlock.rs\<close>: the vector of resource
  keys a thread owns. \<open>acquire_resource\<close> pushes; \<open>release_resource\<close> looks for the last occurrence
  from the back (\<open>rposition\<close>) and takes it out with \<open>Vec::swap_remove\<close>. \<open>on_unpark\<close> is the hook that \<open>park\<close> runs after
  it was woken: a thread that a detector has marked as deadlocked reports itself and parks for ever. The
  sender of the report is known by whether its receiver still exists; the thread id comes from another crate.
\<close>

type_synonym resources = "usize list"

definition acquire_resource :: "usize \<Rightarrow> resources \<Rightarrow> resources" where
  "acquire_resource k rs = rs @ [k]"

definition rposition :: "usize \<Rightarrow> resources \<Rightarrow> nat option" where
  "rposition k rs = find (\<lambda>i. rs ! i = k) (rev [0..<length rs])"

definition swap_remove :: "nat \<Rightarrow> 'a list \<Rightarrow> 'a list" where
  "swap_remove p xs = butlast (xs[p := last xs])"

definition release_resource :: "usize \<Rightarrow> resources \<Rightarrow> resources" where
  "release_resource k rs =
    (case rposition k rs of
       Some p \<Rightarrow> swap_remove p rs
     | None \<Rightarrow> rs)"

record deadlock_data =
  held :: resources
  deadlocked :: bool
  backtrace_sender :: "bool option"
  thread_id :: usize

definition deadlock_data_new :: "usize \<Rightarrow> deadlock_data" where
  "deadlock_data_new i = \<lparr>held = [], deadlocked = False, backtrace_sender = None, thread_id = i\<rparr>"

datatype unpark_hook = Resumes | Reports usize

definition on_unpark :: "deadlock_data \<Rightarrow> (unpark_hook \<times> deadlock_data) outcome" where
  "on_unpark d =
    (if deadlocked d then
       (case backtrace_sender d of
          Some True \<Rightarrow> Inr (Reports (thread_id d), d\<lparr>backtrace_sender := None\<rparr>)
        | _ \<Rightarrow> Inl Panic)
     else Inr (Resumes, d))"

text \<open>Acquiring and releasing never marks a thread, so the hook of a thread that does nothing else resumes.\<close>

fun track :: "bool \<times> usize \<Rightarrow> deadlock_data \<Rightarrow> deadlock_data" where
  "track (True, k) d = d\<lparr>held := acquire_resource k (held d)\<rparr>"
| "track (False, k) d = d\<lparr>held := release_resource k (held d)\<rparr>"

lemma track_deadlocked: "deadlocked (track c d) = deadlocked d"
  by (cases "(c, d)" rule: track.cases) simp_all

lemma tracks_deadlocked: "deadlocked (fold track cs d) = deadlocked d"
  by (induction cs arbitrary: d) (simp_all add: track_deadlocked)

lemma on_unpark_resumes:
  "on_unpark (fold track cs (deadlock_data_new i)) = Inr (Resumes, fold track cs (deadlock_data_new i))"
  by (simp add: on_unpark_def tracks_deadlocked) (simp add: deadlock_data_new_def)

lemma rposition_snoc [simp]: "rposition k (rs @ [x]) = (if x = k then Some (length rs) else rposition k rs)"
proof -
  have "find (\<lambda>i. (rs @ [x]) ! i = k) (rev [0..<length rs]) = find (\<lambda>i. rs ! i = k) (rev [0..<length rs])"
    by (rule find_cong) (auto simp: nth_append)
  then show ?thesis by (simp add: rposition_def)
qed

lemma rposition_Nil [simp]: "rposition k [] = None"
  by (simp add: rposition_def)

lemma rposition_None_iff: "rposition k rs = None \<longleftrightarrow> k \<notin> set rs"
  by (induction rs rule: rev_induct) auto

lemma rposition_Some: "rposition k rs = Some p \<Longrightarrow> p < length rs \<and> rs ! p = k"
  by (induction rs rule: rev_induct) (auto simp: nth_append split: if_splits)

lemma swap_remove_last [simp]: "swap_remove (length xs) (xs @ [x]) = xs"
  by (simp add: swap_remove_def)

lemma mset_swap_remove:
  assumes "p < length xs"
  shows "mset (swap_remove p xs) = mset xs - {#xs ! p#}"
proof -
  obtain ys y where xs: "xs = ys @ [y]" using assms by (cases xs rule: rev_cases) auto
  show ?thesis
  proof (cases "p = length ys")
    case True
    then show ?thesis by (simp add: xs)
  next
    case False
    then have "p < length ys" using assms xs by simp
    then show ?thesis
      by (simp add: xs swap_remove_def list_update_append nth_append mset_update)
  qed
qed

lemma release_absent: "k \<notin> set rs \<Longrightarrow> release_resource k rs = rs"
  by (simp add: release_resource_def rposition_None_iff[THEN iffD2])

lemma release_acquire [simp]: "release_resource k (acquire_resource k rs) = rs"
  by (simp add: release_resource_def acquire_resource_def)

lemma count_acquire [simp]:
  "count (mset (acquire_resource k rs)) k' = count (mset rs) k' + (if k' = k then 1 else 0)"
  by (simp add: acquire_resource_def)

lemma mset_release: "mset (release_resource k rs) = mset rs - {#k#}"
proof (cases "rposition k rs")
  case None
  then have "k \<notin> set rs" by (simp add: rposition_None_iff)
  then show ?thesis by (simp add: release_absent)
next
  case (Some p)
  then show ?thesis using rposition_Some[OF Some] by (simp add: release_resource_def mset_swap_remove)
qed

lemma count_release [simp]:
  "count (mset (release_resource k rs)) k' = count (mset rs) k' - (if k' = k then 1 else 0)"
  by (simp add: mset_release)

text \<open>
  Releasing a resource undoes the acquisition just before it exactly, and in general removes
  one occurrence of the key and no other; for a key the thread does not own it changes nothing (the
  doc comment of \<open>release_resource\<close> announces a panic there).
\<close>

theorem release_resource_spec:
  "release_resource k (acquire_resource k rs) = rs \<and>
   mset (release_resource k rs) = mset rs - {#k#} \<and>
   (k \<in> set rs \<or> release_resource k rs = rs)"
  using release_absent mset_release by auto

end
