(* ===== verification/Park_Queue.thy ===== *)
theory Park_Queue
  imports Thread_Parker Fair_Timeout Deadlock_Data
begin

text \<open>
  The wait queues of the parking lot in \<open>mutex/deadlock.rs\<close>: \<open>ThreadData\<close> records live in a store
  indexed by their address and are linked through \<open>next_in_queue\<close>; a \<open>Bucket\<close> holds the head and the
  tail of one such list. The definitions are the bodies of \<open>park\<close> and \<open>unpark_one\<close> between taking and
  releasing the bucket lock. The pointer-chasing loops are partial functions: \<open>None\<close> is a loop
  that does not end, and a null or foreign pointer is the fault \<open>Dangling\<close>. On a well-formed bucket
  they are proved to end, to stay inside the list, and to implement operations on the list of
  waiting threads.
\<close>

section \<open>Data\<close>

datatype unpark_token = UnparkToken usize
datatype park_token = ParkToken usize

definition DEFAULT_UNPARK_TOKEN :: unpark_token where
  "DEFAULT_UNPARK_TOKEN = UnparkToken 0"

definition DEFAULT_PARK_TOKEN :: park_token where
  "DEFAULT_PARK_TOKEN = ParkToken 0"

datatype park_result = Unparked unpark_token | Invalid | TimedOut

record unpark_result =
  unparked_threads :: usize
  requeued_threads :: usize
  have_more_threads :: bool
  be_fair :: bool

definition unpark_result_default :: unpark_result where
  "unpark_result_default =
    \<lparr>unparked_threads = 0, requeued_threads = 0, have_more_threads = False, be_fair = False\<rparr>"

record thread_data =
  parker :: thread_parker
  key :: usize
  next_in_queue :: ptr
  unpark_token :: unpark_token
  park_token :: park_token
  parked_with_timeout :: bool
  owned :: resources

definition thread_data_new :: thread_data where
  "thread_data_new =
    \<lparr>parker = parker_new, key = 0, next_in_queue = null,
     unpark_token = DEFAULT_UNPARK_TOKEN, park_token = DEFAULT_PARK_TOKEN,
     parked_with_timeout = False, owned = []\<rparr>"

type_synonym tds = "ptr \<rightharpoonup> thread_data"

record bucket =
  queue_head :: ptr
  queue_tail :: ptr
  fair :: fair_timeout

definition bucket_new :: "nat \<Rightarrow> u32 \<Rightarrow> bucket" where
  "bucket_new t s = \<lparr>queue_head = null, queue_tail = null, fair = fair_timeout_new t s\<rparr>"

section \<open>Operations under the bucket lock\<close>

definition set_next :: "ptr \<Rightarrow> ptr \<Rightarrow> tds \<Rightarrow> tds outcome" where
  "set_next p q S =
    (case S p of None \<Rightarrow> Inl Dangling | Some td \<Rightarrow> Inr (S(p \<mapsto> td\<lparr>next_in_queue := q\<rparr>)))"

text \<open>The part of \<open>park\<close> that fills in the thread's own record and appends it to the queue.\<close>

definition set_parked :: "bool \<Rightarrow> usize \<Rightarrow> park_token \<Rightarrow> thread_data \<Rightarrow> thread_data" where
  "set_parked with_timeout k tok td =
    td\<lparr>parked_with_timeout := with_timeout, next_in_queue := null, key := k,
       park_token := tok, parker := prepare_park (parker td)\<rparr>"

definition park_enqueue ::
    "ptr \<Rightarrow> usize \<Rightarrow> park_token \<Rightarrow> bool \<Rightarrow> tds \<Rightarrow> bucket \<Rightarrow> (tds \<times> bucket) outcome" where
  "park_enqueue self k tok with_timeout S b =
    (case S self of
       None \<Rightarrow> Inl Dangling
     | Some td \<Rightarrow>
         let S = S(self \<mapsto> set_parked with_timeout k tok td)
         in obind (if queue_head b \<noteq> null
                   then obind (set_next (queue_tail b) self S) (\<lambda>S. Inr (S, b))
                   else Inr (S, b\<lparr>queue_head := self\<rparr>))
              (\<lambda>(S, b). Inr (S, b\<lparr>queue_tail := self\<rparr>)))"

text \<open>The cursor \<open>link\<close> of the two removal loops: the cell that holds the pointer to \<open>current\<close>.\<close>

datatype link = Head_link | Next_link ptr

definition set_link :: "link \<Rightarrow> ptr \<Rightarrow> tds \<times> bucket \<Rightarrow> (tds \<times> bucket) outcome" where
  "set_link l q Sb =
    (case l of
       Head_link \<Rightarrow> Inr (fst Sb, (snd Sb)\<lparr>queue_head := q\<rparr>)
     | Next_link p \<Rightarrow> obind (set_next p q (fst Sb)) (\<lambda>S. Inr (S, snd Sb)))"

partial_function (option) scan_key :: "tds \<Rightarrow> usize \<Rightarrow> ptr \<Rightarrow> bool outcome option" where
  "scan_key S k p =
    (if p = null then Some (Inr False)
     else case S p of
            None \<Rightarrow> Some (Inl Dangling)
          | Some td \<Rightarrow> if key td = k then Some (Inr True) else scan_key S k (next_in_queue td))"

partial_function (option) unpark_find ::
    "tds \<Rightarrow> usize \<Rightarrow> link \<Rightarrow> ptr \<Rightarrow> ptr \<Rightarrow> (link \<times> ptr \<times> ptr) option outcome option" where
  "unpark_find S k l previous current =
    (if current = null then Some (Inr None)
     else case S current of
            None \<Rightarrow> Some (Inl Dangling)
          | Some td \<Rightarrow>
              if key td = k then Some (Inr (Some (l, previous, current)))
              else unpark_find S k (Next_link current) current (next_in_queue td))"

text \<open>
  Unlinking \<open>current\<close> and finding out whether another thread waits on the same key. The default
  \<open>other\<close> is the answer when \<open>current\<close> was the tail of the queue.
\<close>

definition unlink ::
    "usize \<Rightarrow> link \<Rightarrow> ptr \<Rightarrow> ptr \<Rightarrow> tds \<Rightarrow> bucket \<Rightarrow> (bool \<times> tds \<times> bucket) outcome option" where
  "unlink k l previous current S b =
    (case S current of
       None \<Rightarrow> Some (Inl Dangling)
     | Some td \<Rightarrow>
         (let nxt = next_in_queue td in
          case set_link l nxt (S, b) of
            Inl f \<Rightarrow> Some (Inl f)
          | Inr (S, b) \<Rightarrow>
              if queue_tail b = current then Some (Inr (False, S, b\<lparr>queue_tail := previous\<rparr>))
              else map_option (\<lambda>r. obind r (\<lambda>others. Inr (others, S, b))) (scan_key S k nxt)))"

definition wake ::
    "ptr \<Rightarrow> unpark_token \<Rightarrow> tds \<Rightarrow> tds outcome" where
  "wake t tok S =
    (case S t of
       None \<Rightarrow> Inl Dangling
     | Some td \<Rightarrow> Inr (S(t \<mapsto> td\<lparr>unpark_token := tok, parker := unpark_lock (parker td)\<rparr>)))"

definition unpark_one ::
    "usize \<Rightarrow> (unpark_result \<Rightarrow> 'e \<Rightarrow> unpark_token \<times> 'e) \<Rightarrow> nat \<Rightarrow> tds \<Rightarrow> bucket \<Rightarrow> 'e
      \<Rightarrow> (unpark_result \<times> tds \<times> bucket \<times> 'e) outcome option" where
  "unpark_one k callback now S b e =
    (case unpark_find S k Head_link null (queue_head b) of
       None \<Rightarrow> None
     | Some (Inl f) \<Rightarrow> Some (Inl f)
     | Some (Inr None) \<Rightarrow>
         (let r = unpark_result_default in Some (Inr (r, S, b, snd (callback r e))))
     | Some (Inr (Some (l, previous, current))) \<Rightarrow>
         map_option
           (\<lambda>res. obind res (\<lambda>(others, S, b).
              case should_timeout now (fair b) of (fr, ft) \<Rightarrow>
              let r = unpark_result_default\<lparr>have_more_threads := others,
                        unparked_threads := 1, be_fair := fr\<rparr>;
                  (tok, e') = callback r e
              in obind (wake current tok S) (\<lambda>S. Inr (r, S, b\<lparr>fair := ft\<rparr>, e'))))
           (unlink k l previous current S b))"

partial_function (option) park_find ::
    "tds \<Rightarrow> ptr \<Rightarrow> usize \<Rightarrow> link \<Rightarrow> ptr \<Rightarrow> ptr \<Rightarrow> bool
      \<Rightarrow> (link \<times> ptr \<times> bool) option outcome option" where
  "park_find S self k l previous current was_last =
    (if current = null then Some (Inr None)
     else if current = self then Some (Inr (Some (l, previous, was_last)))
     else case S current of
            None \<Rightarrow> Some (Inl Dangling)
          | Some td \<Rightarrow>
              park_find S self k (Next_link current) current (next_in_queue td)
                (was_last \<and> key td \<noteq> k))"

text \<open>
  The end of \<open>park\<close> after the deadline passed, with the bucket locked again: unless somebody unparked
  the thread in between, it takes itself out of the queue and reports whether it was the last one
  with its key. A thread that is not in the queue trips the final \<open>debug_assert!\<close>.
\<close>

definition park_timeout ::
    "ptr \<Rightarrow> (usize \<Rightarrow> bool \<Rightarrow> 'e \<Rightarrow> 'e) \<Rightarrow> tds \<Rightarrow> bucket \<Rightarrow> 'e
      \<Rightarrow> (park_result \<times> tds \<times> bucket \<times> 'e) outcome option" where
  "park_timeout self on_timeout S b e =
    (case S self of
       None \<Rightarrow> Some (Inl Dangling)
     | Some td \<Rightarrow>
         if \<not> timed_out (parker td) then Some (Inr (Unparked (unpark_token td), S, b, e))
         else case park_find S self (key td) Head_link null (queue_head b) True of
                None \<Rightarrow> None
              | Some (Inl f) \<Rightarrow> Some (Inl f)
              | Some (Inr None) \<Rightarrow> Some (Inl Panic)
              | Some (Inr (Some (l, previous, was_last))) \<Rightarrow>
                  map_option
                    (\<lambda>res. obind res (\<lambda>(others, S, b).
                       Inr (TimedOut, S, b, on_timeout (key td) (was_last \<and> \<not> others) e)))
                    (unlink (key td) l previous self S b))"

section \<open>The list of waiting threads\<close>

definition next_of :: "tds \<Rightarrow> ptr \<Rightarrow> ptr" where
  "next_of S p = (case S p of Some td \<Rightarrow> next_in_queue td | None \<Rightarrow> null)"

definition waits_on :: "tds \<Rightarrow> usize \<Rightarrow> ptr \<Rightarrow> bool" where
  "waits_on S k p \<longleftrightarrow> (\<exists>td. S p = Some td \<and> key td = k)"

definition bucket_list :: "tds \<Rightarrow> bucket \<Rightarrow> ptr list \<Rightarrow> bool" where
  "bucket_list S b xs \<longleftrightarrow>
     seg (next_of S) (queue_head b) xs null \<and> distinct xs \<and> null \<notin> set xs \<and> set xs \<subseteq> dom S \<and>
     queue_tail b = (if xs = [] then null else last xs)"

text \<open>What the removal means on lists: the first waiter on a key and the rest of the queue.\<close>

definition list_unpark :: "('t \<Rightarrow> bool) \<Rightarrow> 't list \<Rightarrow> ('t \<times> bool \<times> 't list) option" where
  "list_unpark P xs =
    (case List.extract P xs of
       None \<Rightarrow> None
     | Some (ys, t, zs) \<Rightarrow> Some (t, list_ex P zs, ys @ zs))"


section \<open>The loops end and find what the list says\<close>

lemma next_of_Some [simp]: "S p = Some td \<Longrightarrow> next_of S p = next_in_queue td"
  by (simp add: next_of_def)

lemma waits_on_Some [simp]: "S p = Some td \<Longrightarrow> waits_on S k p \<longleftrightarrow> key td = k"
  by (simp add: waits_on_def)

lemma next_of_upd:
  "next_of (S(p \<mapsto> td)) = (next_of S)(p := next_in_queue td)"
  by (auto simp: next_of_def fun_eq_iff)

lemma waits_on_upd:
  "waits_on (S(p \<mapsto> td)) k q \<longleftrightarrow> (if q = p then key td = k else waits_on S k q)"
  by (auto simp: waits_on_def)

lemma scan_key_list:
  assumes "seg (next_of S) p xs null" "null \<notin> set xs" "set xs \<subseteq> dom S"
  shows "scan_key S k p = Some (Inr (list_ex (waits_on S k) xs))"
  using assms
proof (induction xs arbitrary: p)
  case Nil
  then show ?case by (simp add: scan_key.simps)
next
  case (Cons x xs)
  then obtain td where "S x = Some td" by auto
  with Cons show ?case
    by (subst scan_key.simps) auto
qed

lemma unpark_find_list:
  assumes "seg (next_of S) p xs null" "null \<notin> set xs" "set xs \<subseteq> dom S"
  shows "unpark_find S k l pr p =
    Some (Inr (map_option
      (\<lambda>(ys, t, zs). (if ys = [] then l else Next_link (last ys), if ys = [] then pr else last ys, t))
      (List.extract (waits_on S k) xs)))"
  using assms
proof (induction xs arbitrary: p l pr)
  case Nil
  then show ?case by (simp add: unpark_find.simps extract_Nil_code)
next
  case (Cons x xs)
  then obtain td where td: "S x = Some td" by auto
  have tl: "seg (next_of S) (next_in_queue td) xs null"
    using Cons.prems(1) td by auto
  show ?case
    using Cons.prems td Cons.IH[OF tl]
    by (subst unpark_find.simps)
      (auto simp: extract_Cons_code split: option.splits prod.splits)
qed

lemma park_find_list:
  assumes "seg (next_of S) p (ys @ self # zs) null" "null \<notin> set (ys @ self # zs)"
    "set (ys @ self # zs) \<subseteq> dom S" "self \<notin> set ys"
  shows "park_find S self k l pr p w =
    Some (Inr (Some (if ys = [] then l else Next_link (last ys), if ys = [] then pr else last ys,
      w \<and> \<not> list_ex (waits_on S k) ys)))"
  using assms
proof (induction ys arbitrary: p l pr w)
  case Nil
  then show ?case by (subst park_find.simps) auto
next
  case (Cons y ys)
  then obtain td where td: "S y = Some td" by auto
  have tl: "seg (next_of S) (next_in_queue td) (ys @ self # zs) null"
    using Cons.prems(1) td by auto
  show ?case
    using Cons.prems td Cons.IH[OF tl]
    by (subst park_find.simps) auto
qed

section \<open>Unlinking refines removal from the list\<close>

definition same_but_next :: "tds \<Rightarrow> tds \<Rightarrow> bool" where
  "same_but_next S S' \<longleftrightarrow>
     (\<forall>p. map_option (next_in_queue_update (\<lambda>_. null)) (S' p) =
          map_option (next_in_queue_update (\<lambda>_. null)) (S p))"

text \<open>Only records in \<open>X\<close> were changed.\<close>

definition only_in :: "ptr set \<Rightarrow> tds \<Rightarrow> tds \<Rightarrow> bool" where
  "only_in X S S' \<longleftrightarrow> (\<forall>p. p \<notin> X \<longrightarrow> S' p = S p)"

lemma only_in_simps [simp]: "only_in X S S" "p \<in> X \<Longrightarrow> only_in X S (S'(p \<mapsto> td)) \<longleftrightarrow> only_in X S S'"
  by (auto simp: only_in_def)

lemma only_in_mono: "only_in X S S' \<Longrightarrow> X \<subseteq> Y \<Longrightarrow> only_in Y S S'"
  by (auto simp: only_in_def)

lemma same_but_next_refl [simp]: "same_but_next S S"
  by (simp add: same_but_next_def)

lemma same_but_next_upd:
  "S p = Some td \<Longrightarrow> same_but_next S (S(p \<mapsto> td\<lparr>next_in_queue := q\<rparr>))"
  by (simp add: same_but_next_def)

lemma same_but_next_get:
  assumes "same_but_next S S'" "S p = Some td"
  obtains q where "S' p = Some (td\<lparr>next_in_queue := q\<rparr>)"
proof -
  have "map_option (next_in_queue_update (\<lambda>_. null)) (S' p) = Some (td\<lparr>next_in_queue := null\<rparr>)"
    using assms by (simp add: same_but_next_def)
  then obtain td' where td': "S' p = Some td'" "td'\<lparr>next_in_queue := null\<rparr> = td\<lparr>next_in_queue := null\<rparr>"
    by auto
  then have "td' = td\<lparr>next_in_queue := next_in_queue td'\<rparr>" by (cases td; cases td') simp
  with td' that show thesis by metis
qed

lemma same_but_next_None: "same_but_next S S' \<Longrightarrow> S' p = None \<longleftrightarrow> S p = None"
  unfolding same_but_next_def by (drule spec[of _ p]) (cases "S p"; cases "S' p"; simp)

lemma same_but_next_dom: "same_but_next S S' \<Longrightarrow> dom S' = dom S"
  by (auto simp: dom_def same_but_next_None)

lemma same_but_next_parker: "same_but_next S S' \<Longrightarrow> map_option parker (S' p) = map_option parker (S p)"
  unfolding same_but_next_def
  by (drule spec[of _ p]) (cases "S p"; cases "S' p"; auto dest: arg_cong[of _ _ parker])

lemma same_but_next_waits: "same_but_next S S' \<Longrightarrow> waits_on S' k p \<longleftrightarrow> waits_on S k p"
  unfolding waits_on_def same_but_next_def
  by (drule spec[of _ p]) (cases "S p"; cases "S' p"; auto dest: arg_cong[of _ _ key])

lemma bucket_list_Nil: "bucket_list S b [] \<longleftrightarrow> queue_head b = null \<and> queue_tail b = null"
  by (auto simp: bucket_list_def)

lemma bucket_list_upd_other:
  "bucket_list S b xs \<Longrightarrow> t \<notin> set xs \<Longrightarrow> bucket_list (S(t \<mapsto> td)) b xs"
  by (auto simp: bucket_list_def next_of_upd)

lemma bucket_list_fair [simp]: "bucket_list S (b\<lparr>fair := ft\<rparr>) xs = bucket_list S b xs"
  by (simp add: bucket_list_def)


lemma unlink_head:
  assumes "bucket_list S b (t # zs)"
  shows "\<exists>b'. unlink k Head_link null t S b = Some (Inr (list_ex (waits_on S k) zs, S, b')) \<and>
     bucket_list S b' zs \<and> fair b' = fair b"
proof -
  obtain td where td: "S t = Some td" using assms by (auto simp: bucket_list_def)
  have zs: "seg (next_of S) (next_in_queue td) zs null" "null \<notin> set zs" "set zs \<subseteq> dom S"
    using assms td by (auto simp: bucket_list_def)
  show ?thesis
  proof (cases "zs = []")
    case True
    then show ?thesis using assms td
      by (auto simp: unlink_def set_link_def bucket_list_def)
  next
    case False
    have "t \<notin> set zs" using assms by (simp add: bucket_list_def)
    then have "last zs \<noteq> t" using last_in_set[OF False] by metis
    then have "queue_tail b \<noteq> t" using assms False by (auto simp: bucket_list_def)
    then show ?thesis using assms td zs False
      by (auto simp: unlink_def set_link_def scan_key_list[OF zs] bucket_list_def)
  qed
qed

lemma unlink_mid:
  assumes bl: "bucket_list S b (ys @ t # zs)" and ys: "ys \<noteq> []"
  shows "\<exists>S' b'. unlink k (Next_link (last ys)) (last ys) t S b =
       Some (Inr (list_ex (waits_on S k) zs, S', b')) \<and>
     bucket_list S' b' (ys @ zs) \<and> fair b' = fair b \<and> same_but_next S S' \<and> only_in (set ys) S S'"
proof -
  let ?u = "last ys"
  obtain td where td: "S t = Some td" using bl by (auto simp: bucket_list_def)
  obtain tdu where tdu: "S ?u = Some tdu" using bl last_in_set[OF ys] by (auto simp: bucket_list_def)
  define S' where "S' = S(?u \<mapsto> tdu\<lparr>next_in_queue := next_in_queue td\<rparr>)"
  have sbn: "same_but_next S S'" "only_in (set ys) S S'"
    unfolding S'_def using same_but_next_upd[of S ?u tdu, OF tdu] last_in_set[OF ys] by simp_all
  have u: "?u \<notin> set zs" using bl last_in_set[OF ys] by (auto simp: bucket_list_def)
  have bl': "seg (next_of S') (queue_head b) (ys @ zs) null" "distinct (ys @ zs)"
      "null \<notin> set (ys @ zs)" "set (ys @ zs) \<subseteq> dom S'"
    using bl seg_remove_mid[of "next_of S" "queue_head b" ys t zs null] ys td
    by (auto simp: bucket_list_def S'_def next_of_upd)
  have zs: "seg (next_of S') (next_in_queue td) zs null" "null \<notin> set zs" "set zs \<subseteq> dom S'"
    using bl td u by (auto simp: bucket_list_def S'_def next_of_upd seg_append)
  have sk: "scan_key S' k (next_in_queue td) = Some (Inr (list_ex (waits_on S k) zs))"
    using scan_key_list[OF zs] same_but_next_waits[OF sbn(1)] by (simp add: list_ex_iff)
  have sl: "set_link (Next_link ?u) (next_in_queue td) (S, b) = Inr (S', b)"
    using tdu by (simp add: set_link_def set_next_def S'_def)
  show ?thesis
  proof (cases "zs = []")
    case True
    then have "queue_tail b = t" using bl by (simp add: bucket_list_def)
    then show ?thesis using True td sl bl' sbn ys by (auto simp: unlink_def bucket_list_def)
  next
    case False
    have "t \<notin> set zs" using bl by (simp add: bucket_list_def)
    then have "last zs \<noteq> t" using last_in_set[OF False] by metis
    then have "queue_tail b = last zs" "queue_tail b \<noteq> t"
      using bl False by (auto simp: bucket_list_def)
    then show ?thesis using False td sl bl' sbn sk by (auto simp: unlink_def bucket_list_def)
  qed
qed

lemma unlink_list:
  assumes "bucket_list S b (ys @ t # zs)"
  shows "\<exists>S' b'. unlink k (if ys = [] then Head_link else Next_link (last ys))
       (if ys = [] then null else last ys) t S b =
       Some (Inr (list_ex (waits_on S k) zs, S', b')) \<and>
     bucket_list S' b' (ys @ zs) \<and> fair b' = fair b \<and> same_but_next S S' \<and> only_in (set ys) S S'"
proof (cases "ys = []")
  case True
  then have "bucket_list S b (t # zs)" using assms by simp
  from unlink_head[OF this] obtain b' where
    "unlink k Head_link null t S b = Some (Inr (list_ex (waits_on S k) zs, S, b'))"
    "bucket_list S b' zs" "fair b' = fair b" by blast
  then show ?thesis using True by (intro exI[of _ S] exI[of _ b']) simp
next
  case False
  then show ?thesis using unlink_mid[OF assms False] by simp
qed


lemma list_unpark_None: "list_unpark P xs = None \<longleftrightarrow> (\<forall>x \<in> set xs. \<not> P x)"
proof -
  have "list_unpark P xs = None \<longleftrightarrow> List.extract P xs = None"
    by (auto simp: list_unpark_def split: option.splits)
  then show ?thesis by (simp add: extract_None_iff)
qed

lemma list_unpark_Some:
  assumes "list_unpark P xs = Some (t, others, rest)"
  obtains ys zs where "xs = ys @ t # zs" "\<forall>y \<in> set ys. \<not> P y" "P t" "rest = ys @ zs"
    "others = list_ex P zs"
  using assms by (auto simp: list_unpark_def extract_Some_iff split: option.splits)

lemma extract_append_Cons:
  "P t \<Longrightarrow> \<forall>y \<in> set ys. \<not> P y \<Longrightarrow> List.extract P (ys @ t # zs) = Some (ys, t, zs)"
  by (auto simp: extract_Some_iff)

lemma unpark_one_found:
  assumes bl: "bucket_list S b (ys @ t # zs)"
    and t: "waits_on S k t" "\<forall>y \<in> set ys. \<not> waits_on S k y"
    and st: "should_timeout now (fair b) = (fr, ft)"
    and r: "r = unpark_result_default\<lparr>have_more_threads := list_ex (waits_on S k) zs,
                  unparked_threads := 1, be_fair := fr\<rparr>"
    and cb: "callback r e = (tok, e')"
  shows "\<exists>S' b' td'. unpark_one k callback now S b e = Some (Inr (r, S', b', e')) \<and>
     bucket_list S' b' (ys @ zs) \<and> fair b' = ft \<and>
     S' t = Some td' \<and> unpark_token td' = tok \<and> park_returns (parker td') \<and>
     (\<forall>p k. waits_on S' k p \<longleftrightarrow> waits_on S k p) \<and> only_in (set (ys @ t # zs)) S S' \<and>
     (\<forall>p. p \<noteq> t \<longrightarrow> map_option parker (S' p) = map_option parker (S p))"
proof -
  have find: "unpark_find S k Head_link null (queue_head b) =
      Some (Inr (Some (if ys = [] then Head_link else Next_link (last ys),
        if ys = [] then null else last ys, t)))"
    using bl t by (subst unpark_find_list[of _ _ "ys @ t # zs"])
      (auto simp: bucket_list_def extract_append_Cons)
  obtain S1 b1 where ul: "unlink k (if ys = [] then Head_link else Next_link (last ys))
       (if ys = [] then null else last ys) t S b =
       Some (Inr (list_ex (waits_on S k) zs, S1, b1))"
    and bl1: "bucket_list S1 b1 (ys @ zs)" "fair b1 = fair b" "same_but_next S S1" "only_in (set ys) S S1"
    using unlink_list[OF bl] by blast
  obtain td where td: "S t = Some td" using t(1) by (auto simp: waits_on_def)
  obtain q where q: "S1 t = Some (td\<lparr>next_in_queue := q\<rparr>)"
    using same_but_next_get[OF bl1(3) td] by blast
  define td' where "td' = td\<lparr>next_in_queue := q, unpark_token := tok,
                              parker := unpark_lock (parker td)\<rparr>"
  have wake: "wake t tok S1 = Inr (S1(t \<mapsto> td'))" using q by (simp add: wake_def td'_def)
  have notin: "t \<notin> set (ys @ zs)" using bl by (auto simp: bucket_list_def)
  have w: "\<forall>p k. waits_on (S1(t \<mapsto> td')) k p \<longleftrightarrow> waits_on S k p"
    using same_but_next_waits[OF bl1(3)] td by (auto simp: waits_on_upd td'_def)
  have "unpark_one k callback now S b e = Some (Inr (r, S1(t \<mapsto> td'), b1\<lparr>fair := ft\<rparr>, e'))"
    using st cb by (simp add: unpark_one_def find ul bl1(2) r wake)
  moreover have "bucket_list (S1(t \<mapsto> td')) (b1\<lparr>fair := ft\<rparr>) (ys @ zs)"
    using bucket_list_upd_other[OF bl1(1) notin] by simp
  moreover have "park_returns (parker td')"
    by (simp add: td'_def futex_parker.unpark_releases)
  moreover have "only_in (set (ys @ t # zs)) S (S1(t \<mapsto> td'))" using only_in_mono[OF bl1(4), of "set (ys @ t # zs)"] by (simp add: le_supI1 subset_insertI2)
  ultimately show ?thesis using w same_but_next_parker[OF bl1(3)]
    by (intro exI[of _ "S1(t \<mapsto> td')"] exI[of _ "b1\<lparr>fair := ft\<rparr>"] exI[of _ td']) (simp add: td'_def)
qed

lemma unpark_one_none:
  assumes "bucket_list S b xs" "\<forall>x \<in> set xs. \<not> waits_on S k x"
  shows "unpark_one k callback now S b e =
    Some (Inr (unpark_result_default, S, b, snd (callback unpark_result_default e)))"
proof -
  have "unpark_find S k Head_link null (queue_head b) = Some (Inr None)"
    using assms by (subst unpark_find_list[of _ _ xs]) (auto simp: bucket_list_def extract_None_iff)
  then show ?thesis by (simp add: unpark_one_def Let_def)
qed


lemma park_enqueue_list:
  assumes bl: "bucket_list S b xs" and self: "S self = Some td" "self \<noteq> null" "self \<notin> set xs"
  shows "\<exists>S' b'. park_enqueue self k tok w S b = Inr (S', b') \<and>
     bucket_list S' b' (xs @ [self]) \<and> same_but_next (S(self \<mapsto> (set_parked w k tok td))) S' \<and> S' self = Some (set_parked w k tok td) \<and>
     only_in (insert self (set xs)) S S'"
proof (cases "xs = []")
  case True
  then show ?thesis using bl self
    by (simp add: park_enqueue_def Let_def bucket_list_def set_parked_def next_of_upd)
next
  case False
  let ?u = "last xs" and ?S1 = "S(self \<mapsto> (set_parked w k tok td))"
  have u: "?u \<noteq> self" using last_in_set[OF False] self(3) by metis
  obtain tdu where tdu: "S ?u = Some tdu" using bl last_in_set[OF False] by (auto simp: bucket_list_def)
  define S' where "S' = ?S1(?u \<mapsto> tdu\<lparr>next_in_queue := self\<rparr>)"
  have "queue_head b \<noteq> null" using bl False by (cases xs) (auto simp: bucket_list_def)
  then have "park_enqueue self k tok w S b = Inr (S', b\<lparr>queue_tail := self\<rparr>)"
    using bl False self tdu u
    by (simp add: park_enqueue_def Let_def bucket_list_def set_next_def S'_def set_parked_def)
  moreover have "same_but_next ?S1 S'"
    unfolding S'_def using tdu u by (intro same_but_next_upd) simp
  moreover have "next_of S' = ((next_of S)(self := null))(?u := self)"
    by (simp add: S'_def set_parked_def next_of_upd)
  then have "bucket_list S' (b\<lparr>queue_tail := self\<rparr>) (xs @ [self])"
    using bl False self seg_extend[of "(next_of S)(self := null)" "queue_head b" xs null self]
    by (auto simp: bucket_list_def S'_def)
  ultimately show ?thesis using u last_in_set[OF False] by (auto simp: S'_def)
qed

text \<open>
  Parking appends: on a bucket whose list is \<open>xs\<close>, the queue part of \<open>park\<close> succeeds, the list
  becomes \<open>xs\<close> followed by the parking thread, that thread carries the key and the park token and is
  marked as blocked, and no other thread changes the key it waits on.
\<close>

theorem park_enqueue_appends:
  assumes "bucket_list S b xs" "self \<in> dom S" "self \<noteq> null" "self \<notin> set xs"
  shows "\<exists>S' b' td'. park_enqueue self k tok w S b = Inr (S', b') \<and>
     bucket_list S' b' (xs @ [self]) \<and>
     S' self = Some td' \<and> key td' = k \<and> park_token td' = tok \<and> timed_out (parker td') \<and>
     (\<forall>p k'. p \<noteq> self \<longrightarrow> waits_on S' k' p = waits_on S k' p)"
proof -
  obtain td where td: "S self = Some td" using assms(2) by auto
  from park_enqueue_list[OF assms(1) td assms(3,4)] obtain S' b' where
    *: "park_enqueue self k tok w S b = Inr (S', b')" "bucket_list S' b' (xs @ [self])"
      "S' self = Some (set_parked w k tok td)"
      "same_but_next (S(self \<mapsto> set_parked w k tok td)) S'"
    by blast
  have "\<forall>p k'. p \<noteq> self \<longrightarrow> waits_on S' k' p = waits_on S k' p"
    using same_but_next_waits[OF *(4)] by (simp add: waits_on_upd)
  with * show ?thesis by (auto simp: set_parked_def futex_parker.prepared_times_out)
qed

theorem park_enqueue_appends_witness:
  "\<exists>S' b' td'. park_enqueue 8 5 (ParkToken 0) False [8 \<mapsto> thread_data_new] (bucket_new 0 1) = Inr (S', b') \<and>
     bucket_list S' b' ([] @ [8]) \<and>
     S' 8 = Some td' \<and> key td' = 5 \<and> park_token td' = ParkToken 0 \<and> timed_out (parker td') \<and>
     (\<forall>p k'. p \<noteq> 8 \<longrightarrow> waits_on S' k' p = waits_on [8 \<mapsto> thread_data_new] k' p)"
  by (rule park_enqueue_appends) (auto simp: bucket_list_Nil bucket_new_def)

text \<open>
  C16. \<open>unpark_one\<close> always ends on a well-formed bucket and does what the list says: it takes out the
  first thread that waits on the key and keeps the order of all others, reports exactly whether a
  further thread waits on the key, draws fairness from the bucket's deadline, hands that thread the
  token the callback chose and clears its futex; with no such thread the queue is untouched and the
  callback still runs, on the default result.
\<close>

theorem unpark_one_refines:
  assumes "bucket_list S b xs"
  shows "\<exists>r S' b'. unpark_one k callback now S b e = Some (Inr (r, S', b', snd (callback r e))) \<and>
    (case list_unpark (waits_on S k) xs of
       None \<Rightarrow> r = unpark_result_default \<and> S' = S \<and> b' = b
     | Some (t, others, rest) \<Rightarrow>
         bucket_list S' b' rest \<and> unparked_threads r = 1 \<and> have_more_threads r = others \<and>
         be_fair r = fst (should_timeout now (fair b)) \<and>
         (\<exists>td'. S' t = Some td' \<and> unpark_token td' = fst (callback r e) \<and> park_returns (parker td')))"
proof (cases "list_unpark (waits_on S k) xs")
  case None
  then have none: "\<forall>x \<in> set xs. \<not> waits_on S k x" by (simp add: list_unpark_None)
  show ?thesis using unpark_one_none[OF assms none, of callback now e] None
    by (intro exI[of _ unpark_result_default] exI[of _ S] exI[of _ b]) simp
next
  case (Some res)
  obtain t others rest where res: "res = (t, others, rest)" by (cases res)
  obtain ys zs where xs: "xs = ys @ t # zs" "\<forall>y \<in> set ys. \<not> waits_on S k y" "waits_on S k t"
    "rest = ys @ zs" "others = list_ex (waits_on S k) zs"
    using list_unpark_Some[of "waits_on S k" xs t others rest] Some res by metis
  obtain fr ft where st: "should_timeout now (fair b) = (fr, ft)" by fastforce
  define r where "r = unpark_result_default\<lparr>have_more_threads := list_ex (waits_on S k) zs,
                  unparked_threads := 1, be_fair := fr\<rparr>"
  have "callback r e = (fst (callback r e), snd (callback r e))" by simp
  from unpark_one_found[where callback = callback and e = e, OF assms[unfolded xs(1)] xs(3,2) st r_def this] Some res xs st
  show ?thesis by (auto simp: r_def intro!: exI[of _ r])
qed

theorem unpark_one_refines_witness:
  "\<exists>r S' b'. unpark_one 5 (\<lambda>r e. (UnparkToken 7, have_more_threads r # e)) 3
       [8 \<mapsto> thread_data_new\<lparr>key := 5\<rparr>] \<lparr>queue_head = 8, queue_tail = 8, fair = \<lparr>timeout = 9, seed = 1\<rparr>\<rparr> [] =
       Some (Inr (r, S', b', [have_more_threads r])) \<and>
    bucket_list S' b' [] \<and> unparked_threads r = 1 \<and> \<not> have_more_threads r"
proof -
  let ?S = "[8 \<mapsto> thread_data_new\<lparr>key := 5\<rparr>] :: tds"
  let ?b = "\<lparr>queue_head = 8, queue_tail = 8, fair = \<lparr>timeout = 9, seed = 1\<rparr>\<rparr>"
  have bl: "bucket_list ?S ?b [8]"
    by (simp add: bucket_list_def next_of_def thread_data_new_def)
  have "list_unpark (waits_on ?S 5) [8] = Some (8, False, [])"
    by (simp add: list_unpark_def extract_Cons_code)
  with unpark_one_refines[OF bl, of 5 "\<lambda>r e. (UnparkToken 7, have_more_threads r # e)" 3 "[]"]
  show ?thesis by auto
qed


lemma park_timeout_list:
  assumes bl: "bucket_list S b (ys @ self # zs)"
    and td: "S self = Some td" "timed_out (parker td)"
  shows "\<exists>S' b'. park_timeout self on_timeout S b e =
      Some (Inr (TimedOut, S', b',
        on_timeout (key td) (\<not> list_ex (waits_on S (key td)) (ys @ zs)) e)) \<and>
      bucket_list S' b' (ys @ zs) \<and> same_but_next S S' \<and> only_in (set ys) S S'"
proof -
  let ?l = "if ys = [] then Head_link else Next_link (last ys)"
  let ?pr = "if ys = [] then null else last ys"
  have "park_find S self (key td) Head_link null (queue_head b) True =
      Some (Inr (Some (?l, ?pr, True \<and> \<not> list_ex (waits_on S (key td)) ys)))"
    using bl by (intro park_find_list) (auto simp: bucket_list_def)
  then show ?thesis
    using unlink_list[OF bl, of "key td"] td by (auto simp: park_timeout_def simp del: if_split)
qed

text \<open>
  C28. A parked thread whose deadline passed before anybody unparked it takes itself, and only
  itself, out of the queue: \<open>park\<close> ends with \<open>TimedOut\<close>, the other threads keep their order, and the
  \<open>timed_out\<close> callback is told \<open>true\<close> exactly when no other thread in the queue waits on its key.
\<close>

theorem park_timeout_removes:
  assumes bl: "bucket_list S b (ys @ self # zs)"
    and td: "S self = Some td" "timed_out (parker td)"
  shows "\<exists>S' b'. park_timeout self on_timeout S b e =
      Some (Inr (TimedOut, S', b',
        on_timeout (key td) (\<not> list_ex (waits_on S (key td)) (ys @ zs)) e)) \<and>
      bucket_list S' b' (ys @ zs)"
  using park_timeout_list[OF assms, of on_timeout e] by blast

theorem park_timeout_removes_witness:
  "\<exists>S' b'. park_timeout 8 (\<lambda>k last e. (k, last))
       [8 \<mapsto> thread_data_new\<lparr>key := 5, parker := prepare_park parker_new\<rparr>]
       \<lparr>queue_head = 8, queue_tail = 8, fair = \<lparr>timeout = 9, seed = 1\<rparr>\<rparr> (0, False) =
      Some (Inr (TimedOut, S', b', (5, True))) \<and> bucket_list S' b' []"
proof -
  let ?td = "thread_data_new\<lparr>key := 5, parker := prepare_park parker_new\<rparr>"
  let ?S = "[8 \<mapsto> ?td] :: tds"
  let ?b = "\<lparr>queue_head = 8, queue_tail = 8, fair = \<lparr>timeout = 9, seed = 1\<rparr>\<rparr>"
  have bl: "bucket_list ?S ?b ([] @ 8 # [])"
    by (simp add: bucket_list_def next_of_def thread_data_new_def)
  have td: "?S 8 = Some ?td" "timed_out (parker ?td)" by (simp_all add: futex_parker.prepared_times_out)
  show ?thesis
    using park_timeout_removes[OF bl td, of "\<lambda>k last e. (k, last)" "(0, False)"]
    by (simp del: fun_upd_apply)
qed

end
