(* ===== verification/Spin_Wait.thy ===== *)
theory Spin_Wait
  imports Prelude
begin

text \<open>
  \<open>word_lock::SpinWait\<close> of \<open>mutex/deadlock.rs\<close>: the counter behind the spin phase of
  \<open>RawMutex::lock_slow\<close> and \<open>WordLock::lock_slow\<close>. \<open>spin\<close> returns its boolean, the hint it gives
  the processor or the scheduler, and the updated counter.
\<close>

record spin_wait =
  counter :: u32

datatype relax = Cpu_relax u32 | Thread_yield

definition spin_wait_new :: spin_wait where
  "spin_wait_new = \<lparr>counter = 0\<rparr>"

definition spin_wait_reset :: "spin_wait \<Rightarrow> spin_wait" where
  "spin_wait_reset sw = sw\<lparr>counter := 0\<rparr>"

definition spin :: "spin_wait \<Rightarrow> bool \<times> relax list \<times> spin_wait" where
  "spin sw =
    (if 10 \<le> counter sw then (False, [], sw)
     else let sw' = sw\<lparr>counter := counter sw + 1\<rparr> in
       (True,
        if counter sw' \<le> 3 then [Cpu_relax (push_bit (unat (counter sw')) 1)] else [Thread_yield],
        sw'))"

text \<open>\<open>n\<close> consecutive calls, as a lock loop makes them: the booleans and the hints in order.\<close>

fun spins :: "nat \<Rightarrow> spin_wait \<Rightarrow> bool list \<times> relax list \<times> spin_wait" where
  "spins 0 sw = ([], [], sw)"
| "spins (Suc n) sw =
     (case spin sw of (b, h, sw') \<Rightarrow>
        (case spins n sw' of (bs, hs, sw'') \<Rightarrow> (b # bs, h @ hs, sw'')))"

definition spin_ok :: "spin_wait \<Rightarrow> bool" where
  "spin_ok sw \<longleftrightarrow> counter sw \<le> 10"

lemma spin_ok_new: "spin_ok spin_wait_new"
  by (simp add: spin_ok_def spin_wait_new_def)

lemma unat_counter_Suc:
  "counter sw < 10 \<Longrightarrow> unat (counter sw + 1) = Suc (unat (counter sw))"
  by (simp add: word_less_nat_alt unat_word_ariths)

lemma spin_ok_spin: "spin_ok sw \<Longrightarrow> spin sw = (b, h, sw') \<Longrightarrow> spin_ok sw'"
  by (auto simp: spin_def spin_ok_def Let_def not_le word_le_nat_alt unat_counter_Suc
      word_less_nat_alt split: if_splits)

lemma spin_exhausted: "spin \<lparr>counter = 10\<rparr> = (False, [], \<lparr>counter = 10\<rparr>)"
  by (simp add: spin_def)

lemma spins_exhausted: "spins n \<lparr>counter = 10\<rparr> = (replicate n False, [], \<lparr>counter = 10\<rparr>)"
  by (induction n) (simp_all add: spin_exhausted)

lemma spins_add:
  "spins (m + n) sw =
     (case spins m sw of (bs, hs, sw') \<Rightarrow>
        (case spins n sw' of (bs', hs', sw'') \<Rightarrow> (bs @ bs', hs @ hs', sw'')))"
  by (induction m arbitrary: sw) (auto split: prod.splits)

lemma spins_first_ten:
  "spins 10 spin_wait_new =
     (replicate 10 True,
      [Cpu_relax 2, Cpu_relax 4, Cpu_relax 8] @ replicate 7 Thread_yield,
      \<lparr>counter = 10\<rparr>)"
  by code_simp

text \<open>
  A fresh \<open>SpinWait\<close> answers \<open>true\<close> exactly ten times, the first three with \<open>2\<close>, \<open>4\<close> and \<open>8\<close>
  processor relaxations and the other seven with a yield, and \<open>false\<close> without any hint from then on,
  however often it is called: the spin phase of a lock is bounded.
\<close>

theorem spin_wait_bounded:
  "spins (10 + n) spin_wait_new =
     (replicate 10 True @ replicate n False,
      [Cpu_relax 2, Cpu_relax 4, Cpu_relax 8] @ replicate 7 Thread_yield,
      \<lparr>counter = 10\<rparr>)"
  by (simp only: spins_add spins_first_ten spins_exhausted prod.case append_Nil2)

end
