(* ===== verification/Raw_Mutex.thy ===== *)
theory Raw_Mutex
  imports Park_Queue Spin_Wait
begin

text \<open>
  \<open>RawMutex\<close> of \<open>mutex/raw_mutex.rs\<close> as a transition system: any number of threads call \<open>lock\<close>,
  \<open>try_lock\<close> and \<open>unlock\<close> on one mutex, and every atomic access to its state byte, every critical
  section step under the bucket lock and every wake-up is one step. A thread's program counter
  carries its local variables. Weak compare-exchanges may fail spuriously, and the fairness answer
  of the bucket is arbitrary: both are part of the action that drives a step. Parking uses the
  operations of \<open>Park_Queue\<close> on the list of threads that wait for this mutex.
\<close>

section \<open>The mutex and its threads\<close>

definition LOCKED_BIT :: u8 where "LOCKED_BIT = 1"
definition PARKED_BIT :: u8 where "PARKED_BIT = 2"

definition TOKEN_NORMAL :: unpark_token where "TOKEN_NORMAL = UnparkToken 0"
definition TOKEN_HANDOFF :: unpark_token where "TOKEN_HANDOFF = UnparkToken 1"

datatype mpc =
    Idle
  | Lock_fast
  | Slow_load spin_wait
  | Slow_top spin_wait u8
  | Park_call spin_wait
  | Park_validate spin_wait
  | Park_append spin_wait
  | Parked spin_wait
  | Woken spin_wait unpark_token
  | Acquired
  | Held
  | Unlock_cas
  | Unpark_call
  | Unpark_scan
  | Unpark_callback tid unpark_result
  | Unpark_callback_none
  | Unpark_wake tid unpark_token
  | Try_load
  | Try_top u8

record mutex_sys =
  state :: u8
  bucket_holder :: "tid option"
  waiters :: "tid list"
  pcs :: "tid \<Rightarrow> mpc"
  res :: "tid \<Rightarrow> resources"

definition mutex_init :: mutex_sys where
  "mutex_init = \<lparr>state = 0, bucket_holder = None, waiters = [], pcs = (\<lambda>_. Idle), res = (\<lambda>_. [])\<rparr>"

datatype action = Call_lock | Call_try_lock | Call_unlock | Run bool bool

definition goto :: "tid \<Rightarrow> mpc \<Rightarrow> mutex_sys \<Rightarrow> mutex_sys" where
  "goto t pc s = s\<lparr>pcs := (pcs s)(t := pc)\<rparr>"

section \<open>Steps\<close>

text \<open>The fast path of \<open>lock\<close>: one weak compare-exchange from the free state.\<close>

definition lock_step :: "bool \<Rightarrow> tid \<Rightarrow> mutex_sys \<Rightarrow> mutex_sys" where
  "lock_step spurious t s =
    (if \<not> spurious \<and> state s = 0
     then goto t Acquired (s\<lparr>state := LOCKED_BIT\<rparr>)
     else goto t (Slow_load spin_wait_new) s)"

text \<open>The loop of \<open>lock_slow\<close> with the local copy \<open>st\<close> of the state.\<close>

definition lock_slow_step :: "bool \<Rightarrow> tid \<Rightarrow> spin_wait \<Rightarrow> u8 \<Rightarrow> mutex_sys \<Rightarrow> mutex_sys" where
  "lock_slow_step spurious t w st s =
    (if st AND LOCKED_BIT = 0 then
       (if \<not> spurious \<and> state s = st
        then goto t Acquired (s\<lparr>state := st OR LOCKED_BIT\<rparr>)
        else goto t (Slow_top w (state s)) s)
     else if st AND PARKED_BIT = 0 then
       (case spin w of (again, _, w') \<Rightarrow>
          if again then goto t (Slow_load w') s
          else if \<not> spurious \<and> state s = st
          then goto t (Park_call w') (s\<lparr>state := st OR PARKED_BIT\<rparr>)
          else goto t (Slow_top w' (state s)) s)
     else goto t (Park_call w) s)"

text \<open>After a park that did not hand the lock over: \<open>wait.spin()\<close>, then the state is read again.\<close>

definition relock :: "spin_wait \<Rightarrow> mpc" where
  "relock w = Slow_load (snd (snd (spin w)))"

definition validate :: "u8 \<Rightarrow> bool" where
  "validate st \<longleftrightarrow> st = LOCKED_BIT OR PARKED_BIT"

definition park_validate_step :: "tid \<Rightarrow> spin_wait \<Rightarrow> mutex_sys \<Rightarrow> mutex_sys" where
  "park_validate_step t w s =
    (if validate (state s) then goto t (Park_append w) s
     else goto t (relock w) (s\<lparr>bucket_holder := None\<rparr>))"

definition park_append_step :: "tid \<Rightarrow> spin_wait \<Rightarrow> mutex_sys \<Rightarrow> mutex_sys" where
  "park_append_step t w s =
    goto t (Parked w) (s\<lparr>waiters := waiters s @ [t], bucket_holder := None\<rparr>)"

definition woken_step :: "tid \<Rightarrow> spin_wait \<Rightarrow> unpark_token \<Rightarrow> mutex_sys \<Rightarrow> mutex_sys" where
  "woken_step t w tok s =
    (if tok = TOKEN_HANDOFF then goto t Acquired s else goto t (relock w) s)"

definition unlock_step :: "tid \<Rightarrow> mutex_sys \<Rightarrow> mutex_sys" where
  "unlock_step t s =
    (if state s = LOCKED_BIT then goto t Idle (s\<lparr>state := 0\<rparr>) else goto t Unpark_call s)"

text \<open>The callback closure of \<open>unlock_slow\<close>, on the state byte it captures.\<close>

definition unlock_cb :: "unpark_result \<Rightarrow> u8 \<Rightarrow> unpark_token \<times> u8" where
  "unlock_cb r st =
    (if unparked_threads r \<noteq> 0 \<and> be_fair r
     then (TOKEN_HANDOFF, if \<not> have_more_threads r then LOCKED_BIT else st)
     else (TOKEN_NORMAL, if have_more_threads r then PARKED_BIT else 0))"

definition unpark_scan_step :: "bool \<Rightarrow> tid \<Rightarrow> mutex_sys \<Rightarrow> mutex_sys" where
  "unpark_scan_step fr t s =
    (case list_unpark (\<lambda>_. True) (waiters s) of
       None \<Rightarrow> goto t Unpark_callback_none s
     | Some (t', others, rest) \<Rightarrow>
         goto t (Unpark_callback t' (unpark_result_default\<lparr>have_more_threads := others,
                    unparked_threads := 1, be_fair := fr\<rparr>))
           (s\<lparr>waiters := rest\<rparr>))"

definition unpark_callback_step :: "tid \<Rightarrow> tid \<Rightarrow> unpark_result \<Rightarrow> mutex_sys \<Rightarrow> mutex_sys" where
  "unpark_callback_step t t' r s =
    (case unlock_cb r (state s) of (tok, st) \<Rightarrow> goto t (Unpark_wake t' tok) (s\<lparr>state := st\<rparr>))"

definition unpark_none_step :: "tid \<Rightarrow> mutex_sys \<Rightarrow> mutex_sys" where
  "unpark_none_step t s =
    goto t Idle (s\<lparr>state := snd (unlock_cb unpark_result_default (state s)), bucket_holder := None\<rparr>)"

definition unpark_wake_step :: "tid \<Rightarrow> tid \<Rightarrow> unpark_token \<Rightarrow> mutex_sys \<Rightarrow> mutex_sys" where
  "unpark_wake_step t t' tok s =
    goto t Idle
      ((case pcs s t' of Parked w \<Rightarrow> goto t' (Woken w tok) s | _ \<Rightarrow> s)\<lparr>bucket_holder := None\<rparr>)"

text \<open>The loop of \<open>try_lock\<close>: on an unlocked state it sets \<open>PARKED_BIT\<close>, as the source does.\<close>

definition try_lock_step :: "bool \<Rightarrow> tid \<Rightarrow> u8 \<Rightarrow> mutex_sys \<Rightarrow> mutex_sys" where
  "try_lock_step spurious t st s =
    (if st AND LOCKED_BIT \<noteq> 0 then goto t Idle s
     else if \<not> spurious \<and> state s = st
     then goto t Acquired (s\<lparr>state := st OR PARKED_BIT\<rparr>)
     else goto t (Try_top (state s)) s)"

text \<open>One round of \<open>mark_parked_when_lock\<close>, which nothing in the crate calls: \<open>Inr\<close> is its answer, \<open>Inl\<close> the value it goes on with.\<close>

definition mark_parked_step :: "bool \<Rightarrow> u8 \<Rightarrow> mutex_sys \<Rightarrow> (u8 + bool) \<times> mutex_sys" where
  "mark_parked_step spurious st s =
    (if st AND LOCKED_BIT = 0 then (Inr False, s)
     else if \<not> spurious \<and> state s = st then (Inr True, s\<lparr>state := st OR PARKED_BIT\<rparr>)
     else (Inl (state s), s))"

lemma mark_parked_answer:
  "mark_parked_step spurious st s = (Inr b, s') \<Longrightarrow>
    (if b then state s AND LOCKED_BIT \<noteq> 0 \<and> state s' = state s OR PARKED_BIT else st AND LOCKED_BIT = 0 \<and> s' = s)"
  by (auto simp: mark_parked_step_def split: if_splits)

text \<open>\<open>SmallMutex::force_unlock\<close> calls \<open>unlock\<close> with no guard to show for it; it is a safe function, so any thread may.\<close>

definition force_unlock_call :: "usize \<Rightarrow> tid \<Rightarrow> mutex_sys \<Rightarrow> mutex_sys option" where
  "force_unlock_call addr t s =
    (if pcs s t = Idle then Some (goto t Unlock_cas (s\<lparr>res := (res s)(t := release_resource addr (res s t))\<rparr>)) else None)"

definition lock_bucket_step :: "tid \<Rightarrow> mpc \<Rightarrow> mutex_sys \<Rightarrow> mutex_sys option" where
  "lock_bucket_step t pc s =
    (if bucket_holder s = None then Some (goto t pc (s\<lparr>bucket_holder := Some t\<rparr>)) else None)"

definition run_step :: "usize \<Rightarrow> bool \<Rightarrow> bool \<Rightarrow> tid \<Rightarrow> mutex_sys \<Rightarrow> mutex_sys option" where
  "run_step addr spurious fr t s =
    (case pcs s t of
       Idle \<Rightarrow> None
     | Held \<Rightarrow> None
     | Parked w \<Rightarrow> None
     | Lock_fast \<Rightarrow> Some (lock_step spurious t s)
     | Slow_load w \<Rightarrow> Some (goto t (Slow_top w (state s)) s)
     | Slow_top w st \<Rightarrow> Some (lock_slow_step spurious t w st s)
     | Park_call w \<Rightarrow> lock_bucket_step t (Park_validate w) s
     | Park_validate w \<Rightarrow> Some (park_validate_step t w s)
     | Park_append w \<Rightarrow> Some (park_append_step t w s)
     | Woken w tok \<Rightarrow> Some (woken_step t w tok s)
     | Acquired \<Rightarrow> Some (goto t Held (s\<lparr>res := (res s)(t := acquire_resource addr (res s t))\<rparr>))
     | Unlock_cas \<Rightarrow> Some (unlock_step t s)
     | Unpark_call \<Rightarrow> lock_bucket_step t Unpark_scan s
     | Unpark_scan \<Rightarrow> Some (unpark_scan_step fr t s)
     | Unpark_callback t' r \<Rightarrow> Some (unpark_callback_step t t' r s)
     | Unpark_callback_none \<Rightarrow> Some (unpark_none_step t s)
     | Unpark_wake t' tok \<Rightarrow> Some (unpark_wake_step t t' tok s)
     | Try_load \<Rightarrow> Some (goto t (Try_top (state s)) s)
     | Try_top st \<Rightarrow> Some (try_lock_step spurious t st s))"

fun mutex_step :: "usize \<Rightarrow> action \<Rightarrow> tid \<Rightarrow> mutex_sys \<Rightarrow> mutex_sys option" where
  "mutex_step addr Call_lock t s = (if pcs s t = Idle then Some (goto t Lock_fast s) else None)"
| "mutex_step addr Call_try_lock t s = (if pcs s t = Idle then Some (goto t Try_load s) else None)"
| "mutex_step addr Call_unlock t s =
     (if pcs s t = Held
      then Some (goto t Unlock_cas (s\<lparr>res := (res s)(t := release_resource addr (res s t))\<rparr>))
      else None)"
| "mutex_step addr (Run spurious fr) t s = run_step addr spurious fr t s"

text \<open>The runs of threads that only use \<open>lock\<close> and \<open>unlock\<close>, and the runs that may use \<open>try_lock\<close> too.\<close>

inductive lock_unlock :: "usize \<Rightarrow> mutex_sys \<Rightarrow> mutex_sys \<Rightarrow> bool" for addr where
  "mutex_step addr a t s = Some s' \<Longrightarrow> a \<noteq> Call_try_lock \<Longrightarrow> lock_unlock addr s s'"

inductive any_call :: "usize \<Rightarrow> mutex_sys \<Rightarrow> mutex_sys \<Rightarrow> bool" for addr where
  "mutex_step addr a t s = Some s' \<Longrightarrow> any_call addr s s'"

inductive_cases lock_unlockE: "lock_unlock addr s s'"

fun run_actions :: "usize \<Rightarrow> (action \<times> tid) list \<Rightarrow> mutex_sys \<Rightarrow> mutex_sys option" where
  "run_actions addr [] s = Some s"
| "run_actions addr ((a, t) # as) s =
     (case mutex_step addr a t s of None \<Rightarrow> None | Some s' \<Rightarrow> run_actions addr as s')"

end
