(* ===== verification/Mutex_Safety.thy ===== *)
theory Mutex_Safety
  imports Raw_Mutex
begin

text \<open>
  Safety and progress of the \<open>RawMutex\<close> machine. The invariant ties the state byte, the bucket lock,
  the wait queue and the program counters together; every step of a run without \<open>try_lock\<close> is one of
  the kinds of \<open>event\<close> below, and each part of the invariant is kept by each kind. Mutual exclusion,
  the documented state table, the absence of lost wake-ups and the fair hand-over are read off it. The
  last property shows what \<open>try_lock\<close> does to mutual exclusion.
\<close>

section \<open>The invariant\<close>

fun owns :: "mpc \<Rightarrow> bool" where
  "owns Acquired = True"
| "owns Held = True"
| "owns Unlock_cas = True"
| "owns Unpark_call = True"
| "owns Unpark_scan = True"
| "owns (Unpark_callback t r) = True"
| "owns Unpark_callback_none = True"
| "owns (Unpark_wake t tok) = (tok = TOKEN_HANDOFF)"
| "owns (Woken w tok) = (tok = TOKEN_HANDOFF)"
| "owns _ = False"

fun in_bucket :: "mpc \<Rightarrow> bool" where
  "in_bucket (Park_validate w) = True"
| "in_bucket (Park_append w) = True"
| "in_bucket Unpark_scan = True"
| "in_bucket (Unpark_callback t r) = True"
| "in_bucket Unpark_callback_none = True"
| "in_bucket (Unpark_wake t tok) = True"
| "in_bucket _ = False"

fun contended :: "mpc \<Rightarrow> bool" where
  "contended (Park_append w) = True"
| "contended Unpark_call = True"
| "contended Unpark_scan = True"
| "contended (Unpark_callback t r) = True"
| "contended Unpark_callback_none = True"
| "contended _ = False"

fun awake :: "mpc \<Rightarrow> bool" where
  "awake (Slow_load w) = True"
| "awake (Slow_top w st) = True"
| "awake (Park_call w) = True"
| "awake (Park_validate w) = True"
| "awake (Woken w tok) = True"
| "awake (Unpark_wake t tok) = True"
| "awake _ = False"

fun is_parked :: "mpc \<Rightarrow> bool" where
  "is_parked (Parked w) = True"
| "is_parked _ = False"

fun heading :: "mpc \<Rightarrow> bool" where
  "heading (Park_call w) = True"
| "heading (Park_validate w) = True"
| "heading (Park_append w) = True"
| "heading _ = False"

fun calls_back :: "mpc \<Rightarrow> bool" where
  "calls_back (Unpark_callback t r) = True"
| "calls_back _ = False"

fun unparks :: "mpc \<Rightarrow> tid option" where
  "unparks (Unpark_callback t r) = Some t"
| "unparks (Unpark_wake t tok) = Some t"
| "unparks _ = None"

fun tries :: "mpc \<Rightarrow> bool" where
  "tries Try_load = True"
| "tries (Try_top st) = True"
| "tries _ = False"

definition locked :: "u8 \<Rightarrow> bool" where
  "locked st \<longleftrightarrow> st AND LOCKED_BIT \<noteq> 0"

definition parked :: "u8 \<Rightarrow> bool" where
  "parked st \<longleftrightarrow> st AND PARKED_BIT \<noteq> 0"

definition valid_states :: "u8 set" where
  "valid_states = {0, 1, 2, 3}"

definition inv_owner :: "mutex_sys \<Rightarrow> bool" where
  "inv_owner s \<longleftrightarrow>
     (\<forall>t. owns (pcs s t) \<longrightarrow> locked (state s)) \<and>
     (\<forall>t u. owns (pcs s t) \<and> owns (pcs s u) \<longrightarrow> t = u) \<and>
     (locked (state s) \<longrightarrow> (\<exists>t. owns (pcs s t)))"

definition inv_bucket :: "mutex_sys \<Rightarrow> bool" where
  "inv_bucket s \<longleftrightarrow> (\<forall>t. in_bucket (pcs s t) \<longleftrightarrow> bucket_holder s = Some t)"

text \<open>The thread that has been taken out of the queue by the bucket holder and is not yet woken.\<close>

definition in_flight :: "mutex_sys \<Rightarrow> tid option" where
  "in_flight s = (case bucket_holder s of None \<Rightarrow> None | Some u \<Rightarrow> unparks (pcs s u))"

fun scan_ok :: "tid list \<Rightarrow> mpc \<Rightarrow> bool" where
  "scan_ok ws (Unpark_callback v r) = (unparked_threads r = 1 \<and> have_more_threads r = (ws \<noteq> []))"
| "scan_ok ws Unpark_callback_none = (ws = [])"
| "scan_ok ws _ = True"

definition inv_queue :: "mutex_sys \<Rightarrow> bool" where
  "inv_queue s \<longleftrightarrow> distinct (waiters s) \<and>
     (\<forall>t. is_parked (pcs s t) \<longleftrightarrow> t \<in> set (waiters s) \<or> in_flight s = Some t) \<and>
     (\<forall>t. in_flight s = Some t \<longrightarrow> t \<notin> set (waiters s)) \<and>
     (\<forall>t. scan_ok (waiters s) (pcs s t))"

definition inv_state :: "mutex_sys \<Rightarrow> bool" where
  "inv_state s \<longleftrightarrow> state s \<in> valid_states \<and>
     (waiters s \<noteq> [] \<longrightarrow> parked (state s)) \<and>
     (\<forall>t. contended (pcs s t) \<longrightarrow> state s = 3) \<and>
     (\<forall>t. \<not> tries (pcs s t))"

definition inv_wakeup :: "mutex_sys \<Rightarrow> bool" where
  "inv_wakeup s \<longleftrightarrow> (waiters s \<noteq> [] \<and> \<not> locked (state s) \<longrightarrow> (\<exists>t. awake (pcs s t)))"

text \<open>
  Whom \<open>PARKED_BIT\<close> stands for: on a free mutex for threads in the queue; on a locked one for a queued
  thread, a thread on its way into the queue, or one that an unlocker has just taken out of it.
\<close>

definition inv_parked :: "mutex_sys \<Rightarrow> bool" where
  "inv_parked s \<longleftrightarrow> (state s = 2 \<longrightarrow> waiters s \<noteq> []) \<and>
     (state s = 3 \<longrightarrow> waiters s \<noteq> [] \<or> (\<exists>t. heading (pcs s t) \<or> calls_back (pcs s t)))"

definition inv_res :: "usize \<Rightarrow> mutex_sys \<Rightarrow> bool" where
  "inv_res addr s \<longleftrightarrow> (\<forall>t. count (mset (res s t)) addr = (if pcs s t = Held then 1 else 0))"

definition mutex_inv :: "usize \<Rightarrow> mutex_sys \<Rightarrow> bool" where
  "mutex_inv addr s \<longleftrightarrow>
     inv_owner s \<and> inv_bucket s \<and> inv_queue s \<and> inv_state s \<and> inv_wakeup s \<and> inv_res addr s \<and>
     inv_parked s"

lemmas bit_defs = LOCKED_BIT_def PARKED_BIT_def locked_def parked_def valid_states_def validate_def
lemmas token_defs = TOKEN_NORMAL_def TOKEN_HANDOFF_def

lemma goto_sel [simp]:
  "state (goto t pc s) = state s" "bucket_holder (goto t pc s) = bucket_holder s"
  "waiters (goto t pc s) = waiters s" "pcs (goto t pc s) = (pcs s)(t := pc)" "res (goto t pc s) = res s"
  by (simp_all add: goto_def)

lemma mutex_inv_init: "mutex_inv addr mutex_init"
  by (simp add: mutex_inv_def mutex_init_def inv_owner_def inv_bucket_def inv_queue_def inv_state_def
      inv_wakeup_def inv_res_def inv_parked_def in_flight_def bit_defs)

text \<open>Each part of the invariant is kept by every step of a run without \<open>try_lock\<close>.\<close>

lemmas step_defs = run_step_def lock_step_def lock_slow_step_def lock_bucket_step_def
  park_validate_step_def park_append_step_def woken_step_def unlock_step_def unlock_cb_def
  unpark_scan_step_def unpark_callback_step_def unpark_none_step_def unpark_wake_step_def relock_def

lemma relock_pred [simp]:
  "\<not> owns (relock w)" "\<not> in_bucket (relock w)" "\<not> contended (relock w)" "awake (relock w)"
  "\<not> is_parked (relock w)" "unparks (relock w) = None" "\<not> tries (relock w)" "\<not> heading (relock w)" "\<not> calls_back (relock w)" "relock w \<noteq> Held"
  "relock w \<noteq> Unpark_callback_none" "relock w \<noteq> Unpark_callback t r"
  by (simp_all add: relock_def)

section \<open>Kinds of steps\<close>

fun roaming :: "mpc \<Rightarrow> bool" where
  "roaming Lock_fast = True"
| "roaming (Slow_load w) = True"
| "roaming (Slow_top w st) = True"
| "roaming (Park_call w) = True"
| "roaming (Woken w tok) = (tok \<noteq> TOKEN_HANDOFF)"
| "roaming _ = False"

lemma roaming_pred:
  assumes "roaming pc"
  shows "\<not> owns pc" "\<not> in_bucket pc" "\<not> contended pc" "\<not> is_parked pc" "unparks pc = None"
    "\<not> tries pc" "pc \<noteq> Held" "pc \<noteq> Unpark_callback_none" "pc \<noteq> Unpark_callback t r"
  using assms by (cases pc; simp)+

lemma roaming_relock [simp]: "roaming (relock w)"
  by (simp add: relock_def)

inductive event :: "usize \<Rightarrow> tid \<Rightarrow> mutex_sys \<Rightarrow> mutex_sys \<Rightarrow> bool" for addr t s where
  roam: "roaming (pcs s t) \<Longrightarrow> \<not> heading (pcs s t) \<Longrightarrow> roaming pc \<Longrightarrow> awake pc \<Longrightarrow> event addr t s (goto t pc s)"
| take: "roaming (pcs s t) \<Longrightarrow> \<not> heading (pcs s t) \<Longrightarrow> \<not> locked (state s) \<Longrightarrow>
    event addr t s (goto t Acquired (s\<lparr>state := state s OR LOCKED_BIT\<rparr>))"
| mark: "roaming (pcs s t) \<Longrightarrow> \<not> heading (pcs s t) \<Longrightarrow> locked (state s) \<Longrightarrow> \<not> parked (state s) \<Longrightarrow>
    event addr t s (goto t (Park_call w) (s\<lparr>state := state s OR PARKED_BIT\<rparr>))"
| enter: "pcs s t = Park_call w \<Longrightarrow> bucket_holder s = None \<Longrightarrow>
    event addr t s (goto t (Park_validate w) (s\<lparr>bucket_holder := Some t\<rparr>))"
| invalid: "pcs s t = Park_validate w \<Longrightarrow> state s \<noteq> 3 \<Longrightarrow>
    event addr t s (goto t (relock w) (s\<lparr>bucket_holder := None\<rparr>))"
| valid: "pcs s t = Park_validate w \<Longrightarrow> state s = 3 \<Longrightarrow> event addr t s (goto t (Park_append w) s)"
| append: "pcs s t = Park_append w \<Longrightarrow>
    event addr t s (goto t (Parked w) (s\<lparr>waiters := waiters s @ [t], bucket_holder := None\<rparr>))"
| handed: "pcs s t = Woken w TOKEN_HANDOFF \<Longrightarrow> event addr t s (goto t Acquired s)"
| recorded: "pcs s t = Acquired \<Longrightarrow>
    event addr t s (goto t Held (s\<lparr>res := (res s)(t := acquire_resource addr (res s t))\<rparr>))"
| free: "pcs s t = Unlock_cas \<Longrightarrow> state s = 1 \<Longrightarrow> event addr t s (goto t Idle (s\<lparr>state := 0\<rparr>))"
| slow: "pcs s t = Unlock_cas \<Longrightarrow> state s \<noteq> 1 \<Longrightarrow> event addr t s (goto t Unpark_call s)"
| scan: "pcs s t = Unpark_call \<Longrightarrow> bucket_holder s = None \<Longrightarrow>
    event addr t s (goto t Unpark_scan (s\<lparr>bucket_holder := Some t\<rparr>))"
| nobody: "pcs s t = Unpark_scan \<Longrightarrow> waiters s = [] \<Longrightarrow> event addr t s (goto t Unpark_callback_none s)"
| first: "pcs s t = Unpark_scan \<Longrightarrow> waiters s = v # vs \<Longrightarrow> unparked_threads r = 1 \<Longrightarrow>
    have_more_threads r = (vs \<noteq> []) \<Longrightarrow> event addr t s (goto t (Unpark_callback v r) (s\<lparr>waiters := vs\<rparr>))"
| hand: "pcs s t = Unpark_callback v r \<Longrightarrow> st = (if have_more_threads r then state s else 1) \<Longrightarrow>
    event addr t s (goto t (Unpark_wake v TOKEN_HANDOFF) (s\<lparr>state := st\<rparr>))"
| release: "pcs s t = Unpark_callback v r \<Longrightarrow> st = (if have_more_threads r then 2 else 0) \<Longrightarrow>
    event addr t s (goto t (Unpark_wake v TOKEN_NORMAL) (s\<lparr>state := st\<rparr>))"
| vacate: "pcs s t = Unpark_callback_none \<Longrightarrow>
    event addr t s (goto t Idle (s\<lparr>state := 0, bucket_holder := None\<rparr>))"
| wake: "pcs s t = Unpark_wake v tok \<Longrightarrow> pcs s v = Parked w \<Longrightarrow>
    event addr t s (goto t Idle ((goto v (Woken w tok) s)\<lparr>bucket_holder := None\<rparr>))"
| call: "pcs s t = Idle \<Longrightarrow> event addr t s (goto t Lock_fast s)"
| unlock: "pcs s t = Held \<Longrightarrow>
    event addr t s (goto t Unlock_cas (s\<lparr>res := (res s)(t := release_resource addr (res s t))\<rparr>))"

lemma bit_cases:
  assumes "st \<in> valid_states"
  shows "st AND LOCKED_BIT = 0 \<longleftrightarrow> \<not> locked st" "st AND PARKED_BIT = 0 \<longleftrightarrow> \<not> parked st"
  using assms by (auto simp: bit_defs)

lemma list_unpark_all: "list_unpark (\<lambda>_. True) xs = (case xs of [] \<Rightarrow> None | x # ys \<Rightarrow> Some (x, ys \<noteq> [], ys))"
  by (cases xs) (auto simp: list_unpark_def extract_Nil_code extract_Cons_code list_ex_iff ex_in_conv)

lemma run_step_event:
  assumes inv: "inv_bucket s" "inv_queue s" "inv_state s" and step: "run_step addr sp fr t s = Some s'"
  shows "event addr t s s'"
proof -
  have nt: "\<not> tries (pcs s t)" using inv(3) by (simp add: inv_state_def)
  show ?thesis
  proof (cases "pcs s t")
    case (Slow_top w st)
    then have "s' = lock_slow_step sp t w st s" using step by (simp add: run_step_def)
    then show ?thesis using Slow_top
      by (auto simp: lock_slow_step_def locked_def parked_def roaming_pred intro: roam take mark split: prod.splits)
  next
    case (Unpark_wake v tok)
    then have "bucket_holder s = Some t" using inv(1) unfolding inv_bucket_def by (metis in_bucket.simps(6))
    then have "in_flight s = Some v" using Unpark_wake by (simp add: in_flight_def)
    then have "is_parked (pcs s v)" using inv(2) by (simp add: inv_queue_def)
    then obtain w where "pcs s v = Parked w" by (cases "pcs s v") auto
    then show ?thesis using step Unpark_wake by (auto simp: run_step_def unpark_wake_step_def intro: wake)
  next
    case Lock_fast
    then have "event addr t s (goto t Acquired (s\<lparr>state := LOCKED_BIT\<rparr>))" if "state s = 0"
      using take[of s t addr] that by (simp add: locked_def)
    then show ?thesis using step Lock_fast
      by (auto simp: run_step_def lock_step_def intro: roam split: if_splits)
  next
    case (Unpark_callback v r)
    then have "unparked_threads r = 1" using inv(2) unfolding inv_queue_def by (metis scan_ok.simps(1))
    then show ?thesis using step Unpark_callback
      using hand[of s t v r "state s" addr]
      by (auto simp: run_step_def unpark_callback_step_def unlock_cb_def bit_defs intro: hand release split: if_splits)
  next
    case Unpark_scan
    then show ?thesis using step
      by (auto simp: run_step_def unpark_scan_step_def list_unpark_all intro!: nobody first split: list.splits)
  qed (use step nt in \<open>auto simp: run_step_def lock_bucket_step_def park_validate_step_def park_append_step_def
     woken_step_def unlock_step_def unpark_none_step_def unlock_cb_def unpark_result_default_def bit_defs
     intro: event.intros split: if_splits\<close>)
qed



lemma inv_owner_same:
  assumes "inv_owner s" "locked (state s') = locked (state s)" "owns (pcs s' t) = owns (pcs s t)"
    "\<forall>u. u \<noteq> t \<longrightarrow> pcs s' u = pcs s u"
  shows "inv_owner s'"
proof -
  have "owns (pcs s' u) = owns (pcs s u)" for u using assms(3,4) by (cases "u = t") auto
  then show ?thesis using assms(1,2) by (simp add: inv_owner_def)
qed

lemma inv_owner_take:
  assumes "inv_owner s" "\<not> locked (state s)" "owns (pcs s' t)" "locked (state s')"
    "\<forall>u. u \<noteq> t \<longrightarrow> pcs s' u = pcs s u"
  shows "inv_owner s'"
  using assms unfolding inv_owner_def by metis

lemma inv_owner_drop:
  assumes "inv_owner s" "owns (pcs s t)" "\<not> owns (pcs s' t)" "\<not> locked (state s')"
    "\<forall>u. u \<noteq> t \<longrightarrow> pcs s' u = pcs s u"
  shows "inv_owner s'"
  using assms unfolding inv_owner_def by metis

lemma inv_owner_give:
  assumes "inv_owner s" "owns (pcs s t)" "\<not> owns (pcs s' t)" "locked (state s')" "owns (pcs s' v)"
    "\<forall>u. u \<noteq> t \<and> u \<noteq> v \<longrightarrow> pcs s' u = pcs s u"
  shows "inv_owner s'"
  using assms unfolding inv_owner_def by metis

lemma owns_locked: "inv_owner s \<Longrightarrow> owns (pcs s t) \<Longrightarrow> locked (state s)"
  by (auto simp: inv_owner_def)

lemma locked_or [simp]: "locked (st OR LOCKED_BIT)" "locked (st OR PARKED_BIT) = locked st"
  "parked (st OR PARKED_BIT)" "parked (st OR LOCKED_BIT) = parked st"
  by (simp_all add: locked_def parked_def LOCKED_BIT_def PARKED_BIT_def bit.conj_disj_distrib2)

lemma locked_num [simp]: "\<not> locked 0" "locked 1" "\<not> locked 2" "locked 3"
  "\<not> parked 0" "\<not> parked 1" "parked 2" "parked 3"
  by (simp_all add: bit_defs)

lemma inv_owner_step:
  assumes "inv_owner s" "event addr t s s'" shows "inv_owner s'"
  using assms(2)
proof cases
  case (release v r st)
  then show ?thesis using assms(1) by (intro inv_owner_drop[of s t s']) (auto simp: TOKEN_HANDOFF_def TOKEN_NORMAL_def)
next
  case (hand v r st)
  then show ?thesis using assms(1) owns_locked[OF assms(1), of t] by (intro inv_owner_same[of s s' t]) (auto)
next
  case (wake v tok w)
  then have "v \<noteq> t" by auto
  show ?thesis
  proof (cases "tok = TOKEN_HANDOFF")
    case True
    then show ?thesis using wake assms(1) owns_locked[OF assms(1), of t] by (intro inv_owner_give[of s t s' v]) auto
  next
    case False
    then show ?thesis using wake assms(1) \<open>v \<noteq> t\<close> 
      by (intro inv_owner_same[of "goto v (Woken w tok) s" s' t] inv_owner_same[of s "goto v (Woken w tok) s" v]) auto
  qed
next
  case take
  then show ?thesis using assms(1) by (intro inv_owner_take[of s s' t]) (auto)
next
  case free
  then show ?thesis using assms(1) by (intro inv_owner_drop[of s t s']) (auto)
next
  case vacate
  then show ?thesis using assms(1) by (intro inv_owner_drop[of s t s']) (auto)
qed (use assms(1) in \<open>auto intro!: inv_owner_same[where s = s and t = t] simp: roaming_pred\<close>)


lemma inv_bucket_same:
  assumes "inv_bucket s" "bucket_holder s' = bucket_holder s" "in_bucket (pcs s' t) = in_bucket (pcs s t)"
    "\<forall>u. u \<noteq> t \<longrightarrow> pcs s' u = pcs s u"
  shows "inv_bucket s'"
proof -
  have "in_bucket (pcs s' u) = in_bucket (pcs s u)" for u using assms(3,4) by (cases "u = t") auto
  then show ?thesis using assms(1,2) by (simp add: inv_bucket_def)
qed

lemma inv_bucket_enter:
  assumes "inv_bucket s" "bucket_holder s = None" "bucket_holder s' = Some t" "in_bucket (pcs s' t)"
    "\<forall>u. u \<noteq> t \<longrightarrow> pcs s' u = pcs s u"
  shows "inv_bucket s'"
  using assms unfolding inv_bucket_def by (metis option.distinct(1) option.inject)

lemma inv_bucket_leave:
  assumes "inv_bucket s" "in_bucket (pcs s t)" "bucket_holder s' = None" "\<not> in_bucket (pcs s' t)"
    "\<forall>u. u \<noteq> t \<longrightarrow> pcs s' u = pcs s u"
  shows "inv_bucket s'"
  using assms unfolding inv_bucket_def by (metis option.distinct(1) option.inject)


lemma inv_bucket_step:
  assumes b: "inv_bucket s" and e: "event addr t s s'" shows "inv_bucket s'"
  using e
proof cases
  case (wake v tok w)
  have "inv_bucket (goto v (Woken w tok) s)"
    by (rule inv_bucket_same[where s = s and t = v]) (simp_all add: b wake)
  then show ?thesis
    by (rule inv_bucket_leave[where t = t]) (use wake in auto)
next
  case enter
  then show ?thesis by (intro inv_bucket_enter[OF b, where t = t]) auto
next
  case scan
  then show ?thesis by (intro inv_bucket_enter[OF b, where t = t]) auto
next
  case invalid
  then show ?thesis by (intro inv_bucket_leave[OF b, where t = t]) auto
next
  case append
  then show ?thesis by (intro inv_bucket_leave[OF b, where t = t]) auto
next
  case vacate
  then show ?thesis by (intro inv_bucket_leave[OF b, where t = t]) auto
qed (auto intro!: inv_bucket_same[OF b, where t = t] simp: roaming_pred)

lemma unparks_in_bucket: "unparks pc = Some v \<Longrightarrow> in_bucket pc"
  by (cases pc) auto

lemma not_in_bucket: "\<not> in_bucket pc \<Longrightarrow> unparks pc = None" "\<not> in_bucket pc \<Longrightarrow> scan_ok ws pc"
  by (cases pc; auto)+

lemma in_flight_outside:
  assumes "inv_bucket s" "\<not> in_bucket (pcs s t)" "bucket_holder s' = bucket_holder s"
    "\<forall>u. u \<noteq> t \<longrightarrow> pcs s' u = pcs s u"
  shows "in_flight s' = in_flight s"
proof -
  have "bucket_holder s \<noteq> Some t" using assms(1,2) by (simp add: inv_bucket_def)
  then show ?thesis using assms(3,4) by (auto simp: in_flight_def split: option.splits)
qed

lemma in_flight_holder: "bucket_holder s = Some t \<Longrightarrow> in_flight s = unparks (pcs s t)"
  by (simp add: in_flight_def)

lemma in_flight_none [simp]: "bucket_holder s = None \<Longrightarrow> in_flight s = None"
  by (simp add: in_flight_def)

lemma holder: "inv_bucket s \<Longrightarrow> in_bucket (pcs s t) \<Longrightarrow> bucket_holder s = Some t"
  by (simp add: inv_bucket_def)

text \<open>Steps that leave the wait queue alone.\<close>

lemma inv_queue_same:
  assumes "inv_queue s" "waiters s' = waiters s" "in_flight s' = in_flight s"
    "is_parked (pcs s' t) = is_parked (pcs s t)" "scan_ok (waiters s) (pcs s' t)"
    "\<forall>u. u \<noteq> t \<longrightarrow> pcs s' u = pcs s u"
  shows "inv_queue s'"
proof -
  have "is_parked (pcs s' u) = is_parked (pcs s u)" for u
    using assms(4,6) by (cases "u = t") auto
  moreover have "scan_ok (waiters s) (pcs s' u)" for u
    using assms(1,5,6) by (cases "u = t") (auto simp: inv_queue_def)
  ultimately show ?thesis using assms(1-3) by (simp add: inv_queue_def)
qed

lemma inv_queue_step:
  assumes q: "inv_queue s" and b: "inv_bucket s" and e: "event addr t s s'" shows "inv_queue s'"
proof -
  have b': "inv_bucket s'" by (rule inv_bucket_step[OF b e])
  have hold: "bucket_holder s = Some t" if "in_bucket (pcs s t)" using b that by (rule holder)
  have hold': "bucket_holder s' = Some t" if "in_bucket (pcs s' t)" using b' that by (rule holder)
  have away: "t \<notin> set (waiters s)" if "\<not> is_parked (pcs s t)" using q that by (auto simp: inv_queue_def)
  have outside: "scan_ok ws (pcs s u)" if "in_bucket (pcs s t)" "u \<noteq> t" for u ws
    using that b hold by (intro not_in_bucket(2)) (auto simp: inv_bucket_def)
  from e show ?thesis
  proof cases
    case (append w)
    then have "t \<notin> set (waiters s)" using away by simp
    with append show ?thesis using q hold outside
      by (auto simp: inv_queue_def in_flight_holder)
  next
    case (first v vs r)
    then have "t \<notin> set (waiters s)" using away by simp
    with first show ?thesis using q hold outside
      by (auto simp: inv_queue_def in_flight_holder)
  next
    case (wake v tok w)
    then have "t \<notin> set (waiters s)" using away by simp
    with wake show ?thesis using q hold outside
      by (auto simp: inv_queue_def in_flight_holder)
  qed (intro inv_queue_same[OF q, where t = t]; use q hold in \<open>auto intro: in_flight_outside[OF b, where t = t]
      not_in_bucket(2) simp: roaming_pred in_flight_holder not_in_bucket\<close>)+
qed


lemma contended_unique:
  assumes "inv_owner s" "inv_bucket s" "owns (pcs s t)" "in_bucket (pcs s t)" "contended (pcs s u)"
  shows "u = t"
proof -
  have "owns (pcs s u) \<or> in_bucket (pcs s u)" using assms(5) by (cases "pcs s u") auto
  then show ?thesis using assms(1-4) by (auto simp: inv_owner_def inv_bucket_def)
qed

lemma valid_or [simp]: "st \<in> valid_states \<Longrightarrow> st OR LOCKED_BIT \<in> valid_states"
  "st \<in> valid_states \<Longrightarrow> locked st \<Longrightarrow> st OR PARKED_BIT = 3"
  "0 \<in> valid_states" "1 \<in> valid_states" "2 \<in> valid_states" "3 \<in> valid_states"
  by (auto simp: bit_defs)

lemma valid_locked: "st \<in> valid_states \<Longrightarrow> locked st \<Longrightarrow> st \<noteq> 1 \<Longrightarrow> st = 3"
  by (auto simp: bit_defs)

lemma inv_state_same:
  assumes "inv_state s" "state s' = state s" "waiters s' = waiters s" 
    "contended (pcs s' t) \<longrightarrow> state s = 3" "\<not> tries (pcs s' t)"
    "\<forall>u. u \<noteq> t \<longrightarrow> pcs s' u = pcs s u"
  shows "inv_state s'"
proof -
  have "contended (pcs s' u) \<Longrightarrow> state s = 3" "\<not> tries (pcs s' u)" for u
    using assms(1,4-6) by (cases "u = t"; auto simp: inv_state_def)+
  then show ?thesis using assms(1-3) by (simp add: inv_state_def)
qed

lemma inv_state_alone:
  assumes "inv_state s" "state s' \<in> valid_states" "waiters s' \<noteq> [] \<longrightarrow> parked (state s')"
    "\<forall>u. u \<noteq> t \<longrightarrow> \<not> contended (pcs s u)" "contended (pcs s' t) \<longrightarrow> state s' = 3" "\<not> tries (pcs s' t)"
    "\<forall>u. u \<noteq> t \<longrightarrow> pcs s' u = pcs s u"
  shows "inv_state s'"
proof -
  have "contended (pcs s' u) \<Longrightarrow> state s' = 3" "\<not> tries (pcs s' u)" for u
    using assms(1,4-7) by (cases "u = t"; auto simp: inv_state_def)+
  then show ?thesis using assms(1-3) by (simp add: inv_state_def)
qed

text \<open>The steps that write the state word: taking, marking and freeing the mutex, and the callback of \<open>unlock_slow\<close>.\<close>

lemma inv_state_write:
  assumes inv: "mutex_inv addr s" and e: "event addr t s s'" and w: "state s' \<noteq> state s" shows "inv_state s'"
proof -
  have st: "inv_state s" and o: "inv_owner s" and b: "inv_bucket s" and q: "inv_queue s"
    using inv by (simp_all add: mutex_inv_def)
  have v: "state s \<in> valid_states" and wp: "waiters s \<noteq> [] \<longrightarrow> parked (state s)" using st by (simp_all add: inv_state_def)
  have none: "\<not> contended (pcs s u)" if "state s \<noteq> 3" for u using st that by (auto simp: inv_state_def)
  have three: "state s = 3" if "contended (pcs s u)" for u using none that by blast
  have alone: "\<not> contended (pcs s u)" if "u \<noteq> t" "owns (pcs s t)" "in_bucket (pcs s t)" for u
    using contended_unique[OF o b that(2,3)] that(1) by blast
  have sc: "scan_ok (waiters s) (pcs s t)" using q by (simp add: inv_queue_def)
  note alone_rule = inv_state_alone[OF st, where t = t]
  from e show ?thesis
  proof cases
    case take
    then have "state s \<noteq> 3" by auto
    then show ?thesis using take v wp none by (intro alone_rule) auto
  next
    case (mark w)
    then have "state s \<noteq> 3" by auto
    then show ?thesis using mark v wp none by (intro alone_rule) auto
  next
    case free
    then show ?thesis using wp none by (intro alone_rule) auto
  next
    case (hand v r st')
    then show ?thesis using three[of t] alone sc wp by (intro alone_rule) auto
  next
    case (release v r st')
    then show ?thesis using alone sc by (intro alone_rule) auto
  next
    case vacate
    then show ?thesis using alone sc by (intro alone_rule) auto
  qed (use w in auto)
qed

lemma inv_state_step:
  assumes inv: "mutex_inv addr s" and e: "event addr t s s'" shows "inv_state s'"
proof -
  have st: "inv_state s" and o: "inv_owner s" using inv by (simp_all add: mutex_inv_def)
  have three: "state s = 3" if "contended (pcs s u)" for u using st that by (auto simp: inv_state_def)
  show ?thesis
  proof (cases "state s' = state s")
    case same: True
    from e show ?thesis
    proof cases
      case slow
      have "state s = 3" using valid_locked owns_locked[OF o, of t] slow st by (simp add: inv_state_def)
      then show ?thesis using slow by (intro inv_state_same[OF st, where t = t]) auto
    next
      case (append w)
      then show ?thesis using three[of t] st by (auto simp: inv_state_def)
    next
      case (first v vs r)
      then show ?thesis using three[of t] st by (auto simp: inv_state_def)
    next
      case (wake v tok w)
      then show ?thesis using st by (auto simp: inv_state_def)
    qed (use three[of t] same in \<open>auto intro!: inv_state_same[OF st, where t = t] simp: roaming_pred\<close>)
  qed (rule inv_state_write[OF inv e])
qed

lemma inv_wakeup_step:
  assumes inv: "mutex_inv addr s" and e: "event addr t s s'" shows "inv_wakeup s'"
proof (cases "locked (state s')")
  case True
  then show ?thesis by (simp add: inv_wakeup_def)
next
  case False
  have w: "inv_wakeup s" and o: "inv_owner s" and st: "inv_state s" and q: "inv_queue s"
    using inv by (simp_all add: mutex_inv_def)
  have three: "state s = 3" if "contended (pcs s t)" using st that by (auto simp: inv_state_def)
  have lk: "locked (state s)" if "owns (pcs s t)" using o that by (auto simp: inv_owner_def)
  have sc: "scan_ok (waiters s) (pcs s t)" using q by (simp add: inv_queue_def)
  from e show ?thesis
  proof cases
    case call
    then obtain u where "waiters s \<noteq> [] \<longrightarrow> awake (pcs s u)" using w False by (auto simp: inv_wakeup_def)
    moreover have "awake (pcs s u) \<longrightarrow> u \<noteq> t" using call by auto
    ultimately show ?thesis using call by (auto simp: inv_wakeup_def intro!: exI[of _ u])
  qed (use False three lk sc st in \<open>auto simp: inv_wakeup_def inv_state_def\<close>)
qed

lemma inv_res_step:
  assumes inv: "inv_res addr s" and e: "event addr t s s'" shows "inv_res addr s'"
  using e
proof cases
  case unlock
  have "count (mset (release_resource addr (res s t))) addr = 0"
    using inv unlock by (simp only: count_release inv_res_def) simp
  then have "count (mset (res s' u)) addr = (if pcs s' u = Held then 1 else 0)" for u
    using unlock inv[unfolded inv_res_def, rule_format, of u]
    by (cases "u = t") (simp_all del: count_mset_0_iff)
  then show ?thesis by (simp add: inv_res_def del: count_mset_0_iff)
qed (use inv in \<open>auto simp: inv_res_def roaming_pred split: if_splits\<close>)

lemma inv_parked_same:
  assumes "inv_parked s" "state s' = state s" "waiters s' = waiters s"
    "heading (pcs s t) \<or> calls_back (pcs s t) \<Longrightarrow> state s = 3 \<Longrightarrow> heading (pcs s' t) \<or> calls_back (pcs s' t)"
    "\<forall>u. u \<noteq> t \<longrightarrow> pcs s' u = pcs s u"
  shows "inv_parked s'"
  using assms unfolding inv_parked_def by metis

lemma roaming_back: "roaming pc \<Longrightarrow> \<not> calls_back pc"
  by (cases pc) auto

lemma inv_parked_step:
  assumes inv: "mutex_inv addr s" and e: "event addr t s s'" shows "inv_parked s'"
proof -
  have p: "inv_parked s" and st: "inv_state s" and q: "inv_queue s" using inv by (simp_all add: mutex_inv_def)
  have sc: "scan_ok (waiters s) (pcs s t)" using q by (simp add: inv_queue_def)
  have three: "state s = 3" if "contended (pcs s t)" using st that by (auto simp: inv_state_def)
  from e show ?thesis
  proof cases
    case take
    have "waiters s \<noteq> []" if "state s OR LOCKED_BIT = 3"
      using that take p st by (auto simp: inv_parked_def inv_state_def bit_defs)
    moreover have "state s OR LOCKED_BIT \<noteq> 2" using locked_or(1)[of "state s"] by (metis locked_num(3))
    ultimately show ?thesis using take by (auto simp: inv_parked_def)
  next
    case (mark w)
    moreover have "state s OR PARKED_BIT \<noteq> 2" using mark by (metis locked_num(3) locked_or(2))
    ultimately show ?thesis by (auto simp: inv_parked_def intro!: exI[of _ t])
  next
    case (wake v tok w)
    have "inv_parked (goto v (Woken w tok) s)"
      using wake by (intro inv_parked_same[OF p, where t = v]) auto
    then show ?thesis by (rule inv_parked_same[where t = t]) (use wake in \<open>auto split: if_splits\<close>)
  next
    case (first v vs r)
    then show ?thesis using three by (auto simp: inv_parked_def intro!: exI[of _ t])
  next
    case (hand v r st')
    then show ?thesis using sc three by (auto simp: inv_parked_def)
  next
    case (release v r st')
    then show ?thesis using sc by (auto simp: inv_parked_def)
  next
    case append
    then show ?thesis by (simp add: inv_parked_def)
  next
    case free
    then show ?thesis by (simp add: inv_parked_def)
  next
    case vacate
    then show ?thesis by (simp add: inv_parked_def)
  qed (use p in \<open>auto intro!: inv_parked_same[OF p, where t = t] simp: roaming_back\<close>)
qed

lemma mutex_inv_event: "mutex_inv addr s \<Longrightarrow> event addr t s s' \<Longrightarrow> mutex_inv addr s'"
  using inv_owner_step inv_bucket_step inv_queue_step inv_state_step inv_wakeup_step inv_res_step inv_parked_step
  unfolding mutex_inv_def by metis

lemma mutex_step_event:
  "mutex_inv addr s \<Longrightarrow> mutex_step addr a t s = Some s' \<Longrightarrow> a \<noteq> Call_try_lock \<Longrightarrow> event addr t s s'"
  by (cases a) (auto simp: mutex_inv_def intro: call unlock run_step_event split: if_splits)

lemma lock_unlock_event: "mutex_inv addr s \<Longrightarrow> lock_unlock addr s s' \<Longrightarrow> \<exists>t. event addr t s s'"
  using mutex_step_event by (elim lock_unlockE) blast

interpretation mutex_runs: inductive_invariant "\<lambda>s. s = mutex_init" "lock_unlock addr" "mutex_inv addr" for addr
  using mutex_inv_init mutex_inv_event lock_unlock_event by unfold_locales blast+

text \<open>A step that clears \<open>PARKED_BIT\<close> is a step of the thread that holds the bucket lock.\<close>

lemma event_clears_parked:
  assumes "inv_bucket s" "event addr t s s'" "parked (state s)" "\<not> parked (state s')"
  shows "bucket_holder s = Some t"
  using assms(2)
proof cases
  case free
  then show ?thesis using assms(3) by simp
qed (use assms in \<open>auto simp: holder\<close>)

lemma run_actions_reach:
  "reach (\<lambda>s. s = mutex_init) (lock_unlock addr) s \<Longrightarrow> run_actions addr as s = Some s' \<Longrightarrow>
   \<forall>(a, t) \<in> set as. a \<noteq> Call_try_lock \<Longrightarrow> reach (\<lambda>s. s = mutex_init) (lock_unlock addr) s'"
proof (induction as arbitrary: s)
  case (Cons at as)
  obtain a t where at: "at = (a, t)" by (cases at)
  then obtain s1 where s1: "mutex_step addr a t s = Some s1" "run_actions addr as s1 = Some s'"
    using Cons.prems(2) by (auto split: option.splits)
  then have "lock_unlock addr s s1" using Cons.prems(3) at by (auto intro: lock_unlock.intros)
  then show ?case using Cons.IH[of s1] Cons.prems s1 at by (auto intro: reach_step)
qed auto

lemma mutex_reach_inv: "reach (\<lambda>s. s = mutex_init) (lock_unlock addr) s \<Longrightarrow> mutex_inv addr s"
  by (rule mutex_runs.reach_inv)

section \<open>Progress\<close>

definition enabled :: "usize \<Rightarrow> mutex_sys \<Rightarrow> tid \<Rightarrow> bool" where
  "enabled addr s t \<longleftrightarrow> run_step addr False False t s \<noteq> None"

fun blocks :: "mpc \<Rightarrow> bool" where
  "blocks (Park_call w) = True"
| "blocks Unpark_call = True"
| "blocks _ = False"

lemma enabled_cases:
  "enabled addr s t \<longleftrightarrow> pcs s t \<noteq> Idle \<and> pcs s t \<noteq> Held \<and> \<not> is_parked (pcs s t) \<and>
     (blocks (pcs s t) \<longrightarrow> bucket_holder s = None)"
  by (cases "pcs s t") (simp_all add: enabled_def run_step_def lock_bucket_step_def)

lemma in_bucket_enabled: "in_bucket (pcs s t) \<Longrightarrow> enabled addr s t"
  by (cases "pcs s t") (simp_all add: enabled_cases)

lemma busy_enabled:
  assumes "inv_bucket s" "pcs s t \<noteq> Idle" "pcs s t \<noteq> Held" "\<not> is_parked (pcs s t)"
  shows "\<exists>u. enabled addr s u"
proof (cases "bucket_holder s")
  case None
  then show ?thesis using assms enabled_cases by blast
next
  case (Some u)
  then show ?thesis using assms(1) in_bucket_enabled[of s u addr] by (auto simp: inv_bucket_def)
qed

lemma owner_progress:
  assumes "inv_bucket s" "owns (pcs s t)"
  shows "pcs s t = Held \<or> (\<exists>u. enabled addr s u)"
proof -
  have "pcs s t \<noteq> Idle \<and> \<not> is_parked (pcs s t)" using assms(2) by (cases "pcs s t") simp_all
  then show ?thesis using busy_enabled[OF assms(1), of t addr] by blast
qed

lemma awake_progress: "inv_bucket s \<Longrightarrow> awake (pcs s t) \<Longrightarrow> \<exists>u. enabled addr s u"
  by (rule busy_enabled[of s t]) (cases "pcs s t"; simp)+

lemma parked_progress:
  assumes inv: "mutex_inv addr s" and p: "is_parked (pcs s t)"
  shows "\<exists>u. pcs s u = Held \<or> enabled addr s u"
proof -
  have b: "inv_bucket s" and q: "inv_queue s" and o: "inv_owner s" and w: "inv_wakeup s"
    using inv by (simp_all add: mutex_inv_def)
  from p q consider "t \<in> set (waiters s)" | "in_flight s = Some t" by (auto simp: inv_queue_def)
  then show ?thesis
  proof cases
    case 1
    then have "waiters s \<noteq> []" by auto
    then show ?thesis
      using owner_progress[OF b] awake_progress[OF b] o w unfolding inv_owner_def inv_wakeup_def by metis
  next
    case 2
    then obtain u where "bucket_holder s = Some u" by (auto simp: in_flight_def split: option.splits)
    then show ?thesis using b in_bucket_enabled[of s u addr] by (auto simp: inv_bucket_def)
  qed
qed

lemma parked_bit_somebody:
  assumes inv: "mutex_inv addr s" and p: "parked (state s)"
  shows "\<exists>t. is_parked (pcs s t) \<or> heading (pcs s t)"
proof -
  have b: "inv_bucket s" and q: "inv_queue s" and v: "state s \<in> valid_states" and k: "inv_parked s"
    using inv by (simp_all add: mutex_inv_def inv_state_def)
  have "state s = 2 \<or> state s = 3" using p v by (auto simp: valid_states_def)
  then consider "waiters s \<noteq> []" | t where "heading (pcs s t)" | t where "calls_back (pcs s t)"
    using k unfolding inv_parked_def by blast
  then show ?thesis
  proof cases
    case 1
    then show ?thesis using q unfolding inv_queue_def by (metis hd_in_set)
  next
    case (3 t)
    then obtain v r where c: "pcs s t = Unpark_callback v r" by (cases "pcs s t") auto
    then have "in_flight s = Some v" using holder[OF b, of t] by (simp add: in_flight_def)
    then show ?thesis using q by (auto simp: inv_queue_def)
  qed blast
qed

section \<open>Properties\<close>

text \<open>
  C1. Mutual exclusion: in every state that threads reach by calling \<open>lock\<close> and \<open>unlock\<close> on one
  \<open>RawMutex\<close>, in any interleaving, with spurious failures of weak compare-exchanges and with any
  fairness decisions, while a thread holds the mutex \<open>LOCKED_BIT\<close> of the state byte is set and no other
  thread holds it.
\<close>

theorem mutual_exclusion:
  assumes "reach (\<lambda>s. s = mutex_init) (lock_unlock addr) s" "pcs s t = Held"
  shows "state s AND LOCKED_BIT \<noteq> 0 \<and> (\<forall>u. pcs s u = Held \<longrightarrow> u = t)"
proof -
  have "inv_owner s" using mutex_reach_inv[OF assms(1)] by (simp add: mutex_inv_def)
  then show ?thesis using assms(2) unfolding inv_owner_def locked_def by (metis owns.simps(2))
qed

text \<open>A run in which thread 1 takes the mutex and thread 2 runs into it, spins and parks.\<close>

definition contended_run :: "(action \<times> tid) list" where
  "contended_run =
     [(Call_lock, 1), (Run False False, 1), (Run False False, 1), (Call_lock, 2)] @
     replicate 26 (Run False False, 2)"

definition contended_state :: mutex_sys where
  "contended_state = (case run_actions 8 contended_run mutex_init of Some s \<Rightarrow> s | None \<Rightarrow> mutex_init)"

lemma contended_run_facts:
  "(case run_actions 8 contended_run mutex_init of Some s \<Rightarrow>
     pcs s 1 = Held \<and> is_parked (pcs s 2) \<and> waiters s = [2] \<and> bucket_holder s = None | None \<Rightarrow> False)"
  by code_simp

lemma contended_state_facts:
  "pcs contended_state 1 = Held" "is_parked (pcs contended_state 2)" "waiters contended_state = [2]"
  "bucket_holder contended_state = None"
  using contended_run_facts by (auto simp: contended_state_def split: option.splits)

lemma contended_state_reachable: "reach (\<lambda>s. s = mutex_init) (lock_unlock 8) contended_state"
proof -
  obtain s where s: "run_actions 8 contended_run mutex_init = Some s"
    using contended_run_facts by (auto split: option.splits)
  have "\<forall>(a, t) \<in> set contended_run. a \<noteq> Call_try_lock" by (simp add: contended_run_def)
  then have "reach (\<lambda>s. s = mutex_init) (lock_unlock 8) s"
    by (intro run_actions_reach[OF _ s]) (auto intro: reach_init)
  then show ?thesis by (simp add: contended_state_def s)
qed

theorem mutual_exclusion_witness:
  "pcs contended_state 1 = Held \<and> pcs contended_state 2 \<noteq> Held \<and> state contended_state AND LOCKED_BIT \<noteq> 0"
proof -
  note excl = mutual_exclusion[OF contended_state_reachable contended_state_facts(1)]
  have "pcs contended_state 2 \<noteq> Held" using excl[THEN conjunct2, THEN spec, of 2] by simp
  with excl contended_state_facts(1) show ?thesis by blast
qed

text \<open>
  C26. The state table in the comment of \<open>RawMutex\<close>. In every reachable state the byte is one of \<open>0\<close> to
  \<open>3\<close>. \<open>LOCKED_BIT\<close> is set exactly when one thread owns the mutex, from the moment it obtains it until
  it gives it back or over. Without \<open>PARKED_BIT\<close> nobody is in the queue; with it some thread is parked or
  about to park. In the row \<open>10\<close> a thread is in the queue, and some other thread has been or is about to
  be unparked, or is on its way to park and will try again. And the rule of row \<open>11\<close>: \<open>PARKED_BIT\<close> is
  only ever cleared by a step of the thread that holds the bucket lock.
\<close>

theorem state_table:
  assumes "reach (\<lambda>s. s = mutex_init) (lock_unlock addr) s"
  shows "state s \<in> {0, 1, 2, 3} \<and>
    (state s AND LOCKED_BIT \<noteq> 0 \<longleftrightarrow> (\<exists>!t. owns (pcs s t))) \<and>
    (state s AND PARKED_BIT = 0 \<longrightarrow> waiters s = []) \<and>
    (state s AND PARKED_BIT \<noteq> 0 \<longrightarrow> (\<exists>t. is_parked (pcs s t) \<or> heading (pcs s t))) \<and>
    (state s = PARKED_BIT \<longrightarrow> waiters s \<noteq> [] \<and> (\<exists>t. awake (pcs s t))) \<and>
    (\<forall>a t s'. a \<noteq> Call_try_lock \<longrightarrow> mutex_step addr a t s = Some s' \<longrightarrow>
       state s AND PARKED_BIT \<noteq> 0 \<longrightarrow> state s' AND PARKED_BIT = 0 \<longrightarrow> bucket_holder s = Some t)"
proof -
  note all = mutex_reach_inv[OF assms]
  then have inv: "inv_owner s" "inv_state s" "inv_bucket s" "inv_wakeup s" by (simp_all add: mutex_inv_def)
  have "locked (state s) \<longleftrightarrow> (\<exists>!t. owns (pcs s t))" using inv(1) unfolding inv_owner_def by metis
  moreover have "state s \<in> valid_states" "\<not> parked (state s) \<longrightarrow> waiters s = []"
    using inv(2) by (auto simp: inv_state_def)
  moreover have "parked (state s) \<longrightarrow> (\<exists>t. is_parked (pcs s t) \<or> heading (pcs s t))"
    using parked_bit_somebody[OF all] by blast
  moreover have "state s = 2 \<longrightarrow> waiters s \<noteq> [] \<and> (\<exists>t. awake (pcs s t))"
    using all inv(4) by (auto simp: mutex_inv_def inv_parked_def inv_wakeup_def)
  moreover have "bucket_holder s = Some t"
    if "a \<noteq> Call_try_lock" "mutex_step addr a t s = Some s'" "parked (state s)" "\<not> parked (state s')" for a t s'
    using event_clears_parked[OF inv(3) mutex_step_event[OF all that(2,1)] that(3,4)] .
  ultimately show ?thesis unfolding locked_def parked_def valid_states_def PARKED_BIT_def[symmetric]
    by (simp add: PARKED_BIT_def)
qed

theorem state_table_witness:
  "(state contended_state AND LOCKED_BIT \<noteq> 0 \<longleftrightarrow> (\<exists>!t. owns (pcs contended_state t))) \<and>
   state contended_state AND PARKED_BIT \<noteq> 0"
proof -
  note rows = state_table[OF contended_state_reachable, THEN conjunct2]
  have "waiters contended_state \<noteq> []" using contended_state_facts(3) by simp
  then have "state contended_state AND PARKED_BIT \<noteq> 0" using rows[THEN conjunct2, THEN conjunct1] by (rule contrapos_nn[OF _ mp])
  with rows[THEN conjunct1] show ?thesis by (rule conjI)
qed

text \<open>
  C18. No lost wake-up: a thread that sleeps in a reachable state is in the queue and \<open>PARKED_BIT\<close> is set,
  so that the next \<open>unlock\<close> looks for it, or the unlocker that holds the bucket lock has taken it out of
  the queue and is about to wake it. And either some thread holds the mutex (and its \<open>unlock\<close> is still to
  come) or some thread is inside \<open>lock\<close> or \<open>unlock\<close> and can take its next step right away: the system
  never gets stuck with sleeping threads only.
\<close>

theorem no_lost_wakeup:
  assumes "reach (\<lambda>s. s = mutex_init) (lock_unlock addr) s" "pcs s t = Parked w"
  shows "(t \<in> set (waiters s) \<and> state s AND PARKED_BIT \<noteq> 0 \<or>
      (\<exists>u. bucket_holder s = Some u \<and> unparks (pcs s u) = Some t)) \<and>
    (\<exists>u. pcs s u = Held \<or> run_step addr False False u s \<noteq> None)"
proof -
  note inv = mutex_reach_inv[OF assms(1)]
  then have "inv_queue s" "inv_state s" by (simp_all add: mutex_inv_def)
  then have "t \<in> set (waiters s) \<and> parked (state s) \<or> in_flight s = Some t"
    using assms(2) unfolding inv_queue_def inv_state_def by (metis empty_iff empty_set is_parked.simps(1))
  then show ?thesis using parked_progress[OF inv, of t] assms(2)
    by (auto simp: enabled_def parked_def in_flight_def split: option.splits)
qed

theorem no_lost_wakeup_witness:
  "2 \<in> set (waiters contended_state) \<and> state contended_state AND PARKED_BIT \<noteq> 0"
proof -
  obtain w where "pcs contended_state 2 = Parked w"
    using contended_state_facts(2) by (cases "pcs contended_state 2") auto
  note awaited = no_lost_wakeup[OF contended_state_reachable this, THEN conjunct1]
  then show ?thesis by (simp only: contended_state_facts(4)) blast
qed

text \<open>
  The deadlock bookkeeping follows the mutex: in every reachable state a thread's resource
  vector contains the address of the mutex once if the thread holds it and not at all otherwise.
\<close>

theorem resources_follow_lock:
  assumes "reach (\<lambda>s. s = mutex_init) (lock_unlock addr) s"
  shows "count (mset (res s t)) addr = (if pcs s t = Held then 1 else 0)"
  using mutex_reach_inv[OF assms] unfolding mutex_inv_def inv_res_def by blast

theorem resources_follow_lock_witness: "count (mset (res contended_state 1)) 8 = 1"
  using resources_follow_lock[OF contended_state_reachable, of 1] contended_state_facts(1) by simp

text \<open>
  Uncontended round trip: on a free mutex, \<open>lock\<close> followed by \<open>unlock\<close> of the same thread succeeds
  on the fast path and restores the state of the whole system exactly.
\<close>

theorem uncontended_round_trip:
  assumes "state s = 0" "pcs s t = Idle"
  shows "run_actions addr [(Call_lock, t), (Run False fr, t), (Run False fr, t)] s =
      Some (s\<lparr>state := LOCKED_BIT, pcs := (pcs s)(t := Held),
              res := (res s)(t := acquire_resource addr (res s t))\<rparr>) \<and>
    run_actions addr [(Call_lock, t), (Run False fr, t), (Run False fr, t),
                      (Call_unlock, t), (Run False fr, t)] s = Some s"
proof -
  have "(pcs s)(t := Idle) = pcs s" using assms(2) by auto
  then show ?thesis using assms
    by (simp add: goto_def run_step_def lock_step_def unlock_step_def)
qed

theorem uncontended_round_trip_witness:
  "run_actions 8 [(Call_lock, 3), (Run False True, 3), (Run False True, 3),
                      (Call_unlock, 3), (Run False True, 3)] mutex_init = Some mutex_init"
  using uncontended_round_trip[of mutex_init 3 8 True] by (simp add: mutex_init_def)

text \<open>
  C27. Fair hand-over: when the unlocking thread finds \<open>v\<close> at the front of the queue and the bucket asks for
  fairness, its next three steps and one step of \<open>v\<close> give the mutex to \<open>v\<close>, and \<open>LOCKED_BIT\<close> is set after each
  of them, so that no other thread can get in between: \<open>v\<close> leaves \<open>lock_slow\<close> as the owner with no further
  access to the state byte.
\<close>

theorem fair_handover:
  assumes "reach (\<lambda>s. s = mutex_init) (lock_unlock addr) s" "pcs s t = Unpark_scan" "waiters s = v # vs"
  shows "\<exists>s1 s2 s3 s4. mutex_step addr (Run sp True) t s = Some s1 \<and> mutex_step addr (Run sp True) t s1 = Some s2 \<and>
      mutex_step addr (Run sp True) t s2 = Some s3 \<and> mutex_step addr (Run sp True) v s3 = Some s4 \<and>
      list_all (\<lambda>s. state s AND LOCKED_BIT \<noteq> 0) [s, s1, s2, s3, s4] \<and>
      pcs s4 v = Acquired \<and> pcs s4 t = Idle \<and> waiters s4 = vs \<and> state s4 = state s3 \<and> bucket_holder s4 = None"
proof -
  have inv: "inv_queue s" "inv_state s" using mutex_reach_inv[OF assms(1)] by (simp_all add: mutex_inv_def)
  have three: "state s = 3" using inv(2) assms(2) unfolding inv_state_def by (metis contended.simps(3))
  have "is_parked (pcs s v)" using inv(1) assms(3) by (auto simp: inv_queue_def)
  then obtain w where w: "pcs s v = Parked w" by (cases "pcs s v") auto
  then have "v \<noteq> t" using assms(2) by auto
  then show ?thesis using assms(2,3) w three
    by (auto simp: run_step_def unpark_scan_step_def list_unpark_all unpark_callback_step_def unlock_cb_def
        unpark_wake_step_def woken_step_def bit_defs)
qed

text \<open>The contended run continued until thread 1, unlocking, is about to search the queue.\<close>

definition unlocking_run :: "(action \<times> tid) list" where
  "unlocking_run = contended_run @ [(Call_unlock, 1), (Run False False, 1), (Run False False, 1)]"

theorem fair_handover_witness:
  "\<exists>s s1 s2 s3 s4. run_actions 8 unlocking_run mutex_init = Some s \<and>
     mutex_step 8 (Run False True) 1 s = Some s1 \<and> mutex_step 8 (Run False True) 1 s1 = Some s2 \<and>
     mutex_step 8 (Run False True) 1 s2 = Some s3 \<and> mutex_step 8 (Run False True) 2 s3 = Some s4 \<and>
     state s2 AND LOCKED_BIT \<noteq> 0 \<and> pcs s4 2 = Acquired \<and> waiters s4 = []"
proof -
  have run: "case run_actions 8 unlocking_run mutex_init of Some s \<Rightarrow>
      pcs s 1 = Unpark_scan \<and> waiters s = [2] | None \<Rightarrow> False"
    by code_simp
  then obtain s where s: "run_actions 8 unlocking_run mutex_init = Some s" "pcs s 1 = Unpark_scan" "waiters s = [2]"
    by (auto split: option.splits)
  have "\<forall>(a, t) \<in> set unlocking_run. a \<noteq> Call_try_lock" by (simp add: unlocking_run_def contended_run_def)
  then have "reach (\<lambda>s. s = mutex_init) (lock_unlock 8) s"
    by (intro run_actions_reach[OF _ s(1)]) (auto intro: reach_init)
  from fair_handover[OF this s(2,3), of False] s(1) show ?thesis by (simp only: list.pred_inject) blast
qed

lemma run_actions_any:
  "reach (\<lambda>s. s = mutex_init) (any_call addr) s \<Longrightarrow> run_actions addr as s = Some s' \<Longrightarrow>
   reach (\<lambda>s. s = mutex_init) (any_call addr) s'"
proof (induction as arbitrary: s)
  case (Cons at as)
  obtain a t where at: "at = (a, t)" by (cases at)
  then obtain s1 where "mutex_step addr a t s = Some s1" "run_actions addr as s1 = Some s'"
    using Cons.prems(2) by (auto split: option.splits)
  then show ?case using Cons.IH[of s1] Cons.prems(1) by (auto intro: reach_step any_call.intros)
qed auto

text \<open>
  C37. \<open>try_lock\<close> does not lock: a successful call sets \<open>PARKED_BIT\<close> where it should set
  \<open>LOCKED_BIT\<close>, so two threads can both be told that they hold the mutex, with \<open>LOCKED_BIT\<close> clear.
\<close>

theorem try_lock_not_exclusive:
  "\<exists>s. reach (\<lambda>s. s = mutex_init) (any_call 8) s \<and>
     pcs s 1 = Held \<and> pcs s 2 = Held \<and> state s AND LOCKED_BIT = 0"
proof -
  let ?as = "concat (map (\<lambda>t. (Call_try_lock, t) # replicate 3 (Run False False, t)) [1, 2])"
  have "case run_actions 8 ?as mutex_init of
      Some s \<Rightarrow> pcs s 1 = Held \<and> pcs s 2 = Held \<and> state s AND LOCKED_BIT = 0 | None \<Rightarrow> False"
    by code_simp
  then obtain s where "run_actions 8 ?as mutex_init = Some s"
    "pcs s 1 = Held \<and> pcs s 2 = Held \<and> state s AND LOCKED_BIT = 0"
    by (auto split: option.splits)
  moreover have "reach (\<lambda>s. s = mutex_init) (any_call 8) mutex_init" by (rule reach_init) simp
  ultimately show ?thesis using run_actions_any by blast
qed

text \<open>\<open>force_unlock\<close> of a thread that holds nothing frees the mutex under its holder: the next \<open>lock\<close> succeeds while the first guard is alive.\<close>

theorem force_unlock_not_exclusive:
  "\<exists>s s' s''. run_actions 8 [(Call_lock, 1), (Run False False, 1), (Run False False, 1)] mutex_init = Some s \<and>
    force_unlock_call 8 2 s = Some s' \<and>
    run_actions 8 [(Run False False, 2), (Call_lock, 3), (Run False False, 3), (Run False False, 3)] s' = Some s'' \<and>
    pcs s'' 1 = Held \<and> pcs s'' 3 = Held"
  by (simp add: run_step_def lock_step_def unlock_step_def force_unlock_call_def goto_def mutex_init_def bit_defs)

end
