(* ===== verification/Small_Mutex.thy ===== *)
theory Small_Mutex
  imports Raw_Mutex
begin

text \<open>
  \<open>SmallMutex\<close>, its guards and the trait \<open>Mutexable\<close> of \<open>mutex/mod.rs\<close>, as one thread sees them while
  no other thread touches the mutex. The operations are generic over the trait, so the definitions
  take its methods as arguments: \<open>lock\<close> answers \<open>None\<close> when the caller blocks. \<open>RawMutex\<close> supplies
  the solo behaviour of the machine of \<open>Raw_Mutex\<close>, to which it is tied by the lemmas on solo runs.
\<close>

section \<open>SmallMutex and its guards\<close>

record ('m, 'd) small_mutex =
  raw :: 'm
  data :: 'd

definition small_new :: "'m \<Rightarrow> 'd \<Rightarrow> ('m, 'd) small_mutex" where
  "small_new INIT v = \<lparr>raw = INIT, data = v\<rparr>"

definition small_into_inner :: "('m, 'd) small_mutex \<Rightarrow> 'd" where
  "small_into_inner m = data m"

text \<open>A guard is a reference to its mutex; a mapped guard also knows which part of the data it sees.\<close>

datatype mutex_guard = MutexGuard
datatype 'lens map_guard = MapMutexGuard 'lens

definition small_lock ::
    "('m \<Rightarrow> 'm option) \<Rightarrow> ('m, 'd) small_mutex \<Rightarrow> (mutex_guard \<times> ('m, 'd) small_mutex) option" where
  "small_lock lock m = map_option (\<lambda>r. (MutexGuard, m\<lparr>raw := r\<rparr>)) (lock (raw m))"

definition small_try_lock ::
    "('m \<Rightarrow> bool \<times> 'm) \<Rightarrow> ('m, 'd) small_mutex \<Rightarrow> bool \<times> ('m, 'd) small_mutex" where
  "small_try_lock try_lock m = (case try_lock (raw m) of (b, r) \<Rightarrow> (b, m\<lparr>raw := r\<rparr>))"

definition small_force_unlock :: "('m \<Rightarrow> 'm) \<Rightarrow> ('m, 'd) small_mutex \<Rightarrow> ('m, 'd) small_mutex" where
  "small_force_unlock unlock m = m\<lparr>raw := unlock (raw m)\<rparr>"

definition guard_deref :: "mutex_guard \<Rightarrow> ('m, 'd) small_mutex \<Rightarrow> 'd" where
  "guard_deref g m = data m"

definition guard_deref_mut :: "mutex_guard \<Rightarrow> ('d \<Rightarrow> 'd) \<Rightarrow> ('m, 'd) small_mutex \<Rightarrow> ('m, 'd) small_mutex" where
  "guard_deref_mut g f m = m\<lparr>data := f (data m)\<rparr>"

definition guard_drop :: "('m \<Rightarrow> 'm) \<Rightarrow> mutex_guard \<Rightarrow> ('m, 'd) small_mutex \<Rightarrow> ('m, 'd) small_mutex" where
  "guard_drop unlock g m = m\<lparr>raw := unlock (raw m)\<rparr>"

text \<open>
  \<open>MutexGuard::map\<close> forgets the guard, so that its destructor does not run, and builds a \<open>MapMutexGuard\<close>;
  \<open>MapMutexGuard::map\<close> narrows it further.
\<close>

definition guard_map :: "'lens \<Rightarrow> mutex_guard \<Rightarrow> ('m, 'd) small_mutex \<Rightarrow> 'lens map_guard \<times> ('m, 'd) small_mutex" where
  "guard_map l g m = (MapMutexGuard l, m)"

definition map_guard_map :: "('lens \<Rightarrow> 'lens2) \<Rightarrow> 'lens map_guard \<Rightarrow> 'lens2 map_guard" where
  "map_guard_map f g = (case g of MapMutexGuard l \<Rightarrow> MapMutexGuard (f l))"

section \<open>The trait \<open>Mutexable\<close>\<close>

locale mutexable =
  fixes INIT :: 'm
    and lock :: "'m \<Rightarrow> 'm option"
    and unlock :: "'m \<Rightarrow> 'm"
    and taken :: "'m \<Rightarrow> bool"
  assumes init_free: "\<not> taken INIT"
    and lock_free: "\<not> taken m \<Longrightarrow> \<exists>m'. lock m = Some m' \<and> taken m'"
    and lock_taken: "taken m \<Longrightarrow> lock m = None"
    and unlock_frees: "\<not> taken (unlock m)"
begin

lemma lock_Some: "lock m = Some m' \<Longrightarrow> \<not> taken m \<and> taken m'"
  using lock_free lock_taken by (metis option.distinct(1) option.inject)

lemma small_lock_new: "\<exists>m'. small_lock lock (small_new INIT v) = Some (MutexGuard, m') \<and> data m' = v \<and> taken (raw m')"
  using lock_free[OF init_free] by (auto simp: small_lock_def small_new_def)

lemma critical_section:
  assumes "small_lock lock m = Some (g, m1)"
  shows "data (guard_drop unlock g (guard_deref_mut g f m1)) = f (data m) \<and>
    \<not> taken (raw (guard_drop unlock g (guard_deref_mut g f m1)))"
  using assms unlock_frees by (auto simp: small_lock_def guard_drop_def guard_deref_mut_def)

lemma small_lock_held:
  assumes "small_lock lock m = Some (g, m1)"
  shows "lock (raw m1) = None"
proof -
  obtain r where r: "lock (raw m) = Some r" "m1 = m\<lparr>raw := r\<rparr>"
    using assms by (auto simp: small_lock_def)
  have "taken r" using lock_Some[OF r(1)] by simp
  then show ?thesis using lock_taken r(2) by simp
qed

lemma no_second_guard:
  "small_lock lock m = Some (g, m1) \<Longrightarrow> small_lock lock (guard_deref_mut g f m1) = None"
  using small_lock_held[of m g m1] by (simp add: small_lock_def guard_deref_mut_def)

lemma relock_after_drop:
  "\<exists>g' m2. small_lock lock (guard_drop unlock g m1) = Some (g', m2) \<and> data m2 = data m1"
  using lock_free[OF unlock_frees, of "raw m1"] by (auto simp: small_lock_def guard_drop_def)

end

section \<open>RawMutex, alone\<close>

text \<open>
  What a call of \<open>lock\<close>, \<open>try_lock\<close> and \<open>unlock\<close> does to the state byte when the caller is the only thread: \<open>PtrGuard\<close>
  in the queue of one thread uses its mutex this way. The lemmas on solo runs below derive them from the
  steps of \<open>Raw_Mutex\<close>, in particular that a \<open>lock\<close> of a locked mutex does not return in such a run.
\<close>

definition raw_INIT :: u8 where
  "raw_INIT = 0"

definition raw_lock :: "u8 \<Rightarrow> u8 option" where
  "raw_lock st = (if st AND LOCKED_BIT = 0 then Some (st OR LOCKED_BIT) else None)"

definition raw_try_lock :: "u8 \<Rightarrow> bool \<times> u8" where
  "raw_try_lock st = (if st AND LOCKED_BIT \<noteq> 0 then (False, st) else (True, st OR PARKED_BIT))"

definition raw_unlock :: "u8 \<Rightarrow> u8" where
  "raw_unlock st = (if st = LOCKED_BIT then 0 else snd (unlock_cb unpark_result_default st))"

lemma LOCKED_BIT_nonzero [simp]: "LOCKED_BIT \<noteq> 0"
  by (simp add: LOCKED_BIT_def)

lemma raw_unlock_0 [simp]: "raw_unlock st = 0"
  by (simp add: raw_unlock_def unlock_cb_def unpark_result_default_def LOCKED_BIT_def)

interpretation raw_mutexable: mutexable raw_INIT raw_lock raw_unlock "\<lambda>st. st AND LOCKED_BIT \<noteq> 0"
  by unfold_locales (auto simp: raw_INIT_def raw_lock_def)

text \<open>The solo operations are what the machine does when a single thread runs it.\<close>

lemma solo_lock_run:
  assumes "pcs s t = Idle" "state s AND LOCKED_BIT = 0"
  shows "\<exists>as s'. (\<forall>(a, u) \<in> set as. u = t) \<and> run_actions addr as s = Some s' \<and> pcs s' t = Held \<and>
    raw_lock (state s) = Some (state s')"
proof (cases "state s = 0")
  case True
  then show ?thesis using assms
    by (intro exI[of _ "[(Call_lock, t), (Run False False, t), (Run False False, t)]"])
      (auto simp: goto_def run_step_def lock_step_def raw_lock_def)
next
  case False
  then show ?thesis using assms
    by (intro exI[of _ "(Call_lock, t) # replicate 4 (Run False False, t)"])
      (auto simp: numeral_eq_Suc goto_def run_step_def lock_step_def lock_slow_step_def raw_lock_def)
qed

fun waiting :: "mpc \<Rightarrow> bool" where
  "waiting Lock_fast = True"
| "waiting (Slow_load w) = True"
| "waiting (Slow_top w st) = True"
| "waiting (Park_call w) = True"
| "waiting (Park_validate w) = True"
| "waiting (Park_append w) = True"
| "waiting (Parked w) = True"
| "waiting _ = False"

lemma waiting_step:
  assumes "waiting (pcs s t)" "state s AND LOCKED_BIT \<noteq> 0" "run_step addr sp fr t s = Some s'"
  shows "waiting (pcs s' t) \<and> state s' AND LOCKED_BIT \<noteq> 0"
proof (cases "pcs s t")
  case (Slow_top w st)
  have "(st OR PARKED_BIT) AND LOCKED_BIT = st AND LOCKED_BIT"
    by (simp add: bit.conj_disj_distrib2 LOCKED_BIT_def PARKED_BIT_def)
  then show ?thesis using Slow_top assms(2,3)
    by (auto simp: run_step_def lock_slow_step_def goto_def split: if_splits prod.splits)
qed (use assms in \<open>auto simp: run_step_def lock_step_def lock_bucket_step_def park_validate_step_def park_append_step_def
    goto_def relock_def split: if_splits\<close>)

lemma solo_lock_blocks:
  assumes "waiting (pcs s t)" "state s AND LOCKED_BIT \<noteq> 0" "run_actions addr as s = Some s'"
    "\<forall>x \<in> set as. \<exists>sp fr. x = (Run sp fr, t)"
  shows "pcs s' t \<noteq> Held \<and> raw_lock (state s) = None"
proof -
  have "waiting (pcs s' t)" using assms
  proof (induction as arbitrary: s)
    case (Cons x as)
    then obtain sp fr s1 where "run_step addr sp fr t s = Some s1" "run_actions addr as s1 = Some s'"
      by (fastforce split: option.splits)
    then show ?case using Cons.IH[of s1] waiting_step[OF Cons.prems(1,2)] Cons.prems(4) by simp
  qed simp
  then show ?thesis using assms(2) by (auto simp: raw_lock_def)
qed

lemma solo_try_lock_run:
  assumes "pcs s t = Idle"
  shows "\<exists>as s'. (\<forall>(a, u) \<in> set as. u = t) \<and> run_actions addr as s = Some s' \<and>
    raw_try_lock (state s) = (pcs s' t = Held, state s')"
proof (cases "state s AND LOCKED_BIT = 0")
  case True
  then show ?thesis using assms
    by (intro exI[of _ "(Call_try_lock, t) # replicate 3 (Run False False, t)"])
      (auto simp: numeral_eq_Suc goto_def run_step_def try_lock_step_def raw_try_lock_def)
next
  case False
  then show ?thesis using assms
    by (intro exI[of _ "(Call_try_lock, t) # replicate 2 (Run False False, t)"])
      (auto simp: numeral_eq_Suc goto_def run_step_def try_lock_step_def raw_try_lock_def)
qed

lemma solo_unlock_run:
  assumes "pcs s t = Held" "waiters s = []" "bucket_holder s = None"
  shows "\<exists>as s'. (\<forall>(a, u) \<in> set as. u = t) \<and> run_actions addr as s = Some s' \<and> pcs s' t = Idle \<and>
    state s' = raw_unlock (state s)"
proof (cases "state s = LOCKED_BIT")
  case True
  then show ?thesis using assms
    by (intro exI[of _ "[(Call_unlock, t), (Run False False, t)]"])
      (auto simp: goto_def run_step_def unlock_step_def)
next
  case False
  then show ?thesis using assms
    by (intro exI[of _ "(Call_unlock, t) # replicate 4 (Run False False, t)"])
      (auto simp: numeral_eq_Suc goto_def run_step_def unlock_step_def lock_bucket_step_def unpark_scan_step_def
        list_unpark_def extract_Nil_code unpark_none_step_def unlock_cb_def unpark_result_default_def)
qed

section \<open>Properties\<close>

text \<open>
  \<open>Mootex\<close>, the mutex of the crate: the guard of a fresh mutex gives access to its value,
  what is written through the guard is there for the next guard, no second guard can be obtained
  while the first one lives, and dropping the guard frees the mutex again.
\<close>

theorem mootex_guard_protocol:
  "\<exists>g m1. small_lock raw_lock (small_new raw_INIT v) = Some (g, m1) \<and> guard_deref g m1 = v \<and>
     small_lock raw_lock (guard_deref_mut g f m1) = None \<and>
     (\<exists>g' m2. small_lock raw_lock (guard_drop raw_unlock g (guard_deref_mut g f m1)) = Some (g', m2) \<and>
        guard_deref g' m2 = f v)"
proof -
  obtain m1 where m1: "small_lock raw_lock (small_new raw_INIT v) = Some (MutexGuard, m1)" "data m1 = v"
    using raw_mutexable.small_lock_new[of v] by blast
  obtain g' m2 where m2: "small_lock raw_lock (guard_drop raw_unlock MutexGuard (guard_deref_mut MutexGuard f m1)) =
      Some (g', m2)" "data m2 = data (guard_deref_mut MutexGuard f m1)"
    using raw_mutexable.relock_after_drop[of MutexGuard "guard_deref_mut MutexGuard f m1"] by blast
  have "guard_deref g' m2 = f v" using m1(2) m2(2) by (simp add: guard_deref_def guard_deref_mut_def)
  moreover have "guard_deref MutexGuard m1 = v" using m1(2) by (simp add: guard_deref_def)
  ultimately show ?thesis using m1(1) m2(1) raw_mutexable.no_second_guard[OF m1(1), of f] by blast
qed

end
