(* ===== verification/Own_Ref.thy ===== *)
theory Own_Ref
  imports Prelude
begin

text \<open>
  The pointer types of \<open>queue/own_ref.rs\<close>: tagged machine words, \<open>Atomic\<close>, \<open>Owned\<close> and \<open>Shared\<close>,
  and the trait \<open>Pointer\<close> that \<open>Owned\<close> and \<open>Shared\<close> implement. The alignment of the pointee,
  \<open>mem::align_of::<T>()\<close>, is the parameter \<open>al\<close>. Boxes live in a heap \<open>ptr \<rightharpoonup> 'v\<close>; the global
  allocator is a parameter that returns an address for the next box, or nothing when it fails.
  Debug assertions are on.
\<close>

section \<open>Tagged words\<close>

definition trailing_zeros :: "usize \<Rightarrow> nat" where
  "trailing_zeros w = length (takeWhile (\<lambda>i. \<not> bit w i) [0..<64])"

definition low_bits :: "usize \<Rightarrow> usize" where
  "low_bits al = push_bit (trailing_zeros al) 1 - 1"

definition ensure_aligned :: "usize \<Rightarrow> ptr \<Rightarrow> unit outcome" where
  "ensure_aligned al raw = (if raw AND low_bits al = 0 then Inr () else Inl Panic)"

definition data_with_tag :: "usize \<Rightarrow> usize \<Rightarrow> usize \<Rightarrow> usize" where
  "data_with_tag al data tag = (data AND NOT (low_bits al)) OR (tag AND low_bits al)"

definition decompose_data :: "usize \<Rightarrow> usize \<Rightarrow> ptr" where
  "decompose_data al data = data AND NOT (low_bits al)"

section \<open>The three pointer types\<close>

datatype atomic = Atomic (atomic_data: usize)
datatype owned = Owned (owned_data: usize)
datatype shared = Shared (shared_data: usize)

type_synonym 'v heap = "ptr \<rightharpoonup> 'v"
type_synonym 'v allocator = "'v heap \<Rightarrow> ptr option"

definition box_new :: "'v allocator \<Rightarrow> 'v \<Rightarrow> 'v heap \<Rightarrow> (ptr \<times> 'v heap) outcome" where
  "box_new alloc v h = (case alloc h of None \<Rightarrow> Inl Out_of_memory | Some p \<Rightarrow> Inr (p, h(p \<mapsto> v)))"

definition box_drop :: "ptr \<Rightarrow> 'v heap \<Rightarrow> 'v heap outcome" where
  "box_drop p h = (if h p = None then Inl Dangling else Inr (h(p := None)))"

definition deref :: "ptr \<Rightarrow> 'v heap \<Rightarrow> 'v outcome" where
  "deref p h = (case h p of None \<Rightarrow> Inl Dangling | Some v \<Rightarrow> Inr v)"

subsection \<open>Owned\<close>

definition owned_from_raw :: "usize \<Rightarrow> ptr \<Rightarrow> owned outcome" where
  "owned_from_raw al raw = obind (ensure_aligned al raw) (\<lambda>_. Inr (Owned raw))"

definition owned_new :: "usize \<Rightarrow> 'v allocator \<Rightarrow> 'v \<Rightarrow> 'v heap \<Rightarrow> (owned \<times> 'v heap) outcome" where
  "owned_new al alloc v h =
    obind (box_new alloc v h) (\<lambda>(p, h). obind (owned_from_raw al p) (\<lambda>ow. Inr (ow, h)))"

definition owned_from_usize :: "usize \<Rightarrow> owned outcome" where
  "owned_from_usize data = (if data = 0 then Inl Panic else Inr (Owned data))"

definition owned_null :: owned where
  "owned_null = Owned 0"

definition owned_as_raw :: "usize \<Rightarrow> owned \<Rightarrow> ptr" where
  "owned_as_raw al ow = decompose_data al (owned_data ow)"

definition owned_is_null :: "usize \<Rightarrow> owned \<Rightarrow> bool" where
  "owned_is_null al ow \<longleftrightarrow> owned_as_raw al ow = null"

definition owned_into_usize :: "owned \<Rightarrow> usize" where
  "owned_into_usize ow = owned_data ow"

definition shared_from_usize :: "usize \<Rightarrow> shared outcome" where
  "shared_from_usize data = Inr (Shared data)"

definition owned_into_shared :: "owned \<Rightarrow> shared outcome" where
  "owned_into_shared ow = shared_from_usize (owned_into_usize ow)"

definition owned_drop :: "usize \<Rightarrow> owned \<Rightarrow> 'v heap \<Rightarrow> 'v heap outcome" where
  "owned_drop al ow h = box_drop (decompose_data al (owned_data ow)) h"

definition owned_deref :: "usize \<Rightarrow> owned \<Rightarrow> 'v heap \<Rightarrow> 'v outcome" where
  "owned_deref al ow h = deref (owned_as_raw al ow) h"

text \<open>\<open>deref_mut\<close> uses the stored word as it is, without taking the tag off.\<close>

definition owned_deref_mut :: "owned \<Rightarrow> ptr" where
  "owned_deref_mut ow = owned_data ow"

definition owned_clone ::
    "usize \<Rightarrow> 'v allocator \<Rightarrow> ('v \<Rightarrow> 'v) \<Rightarrow> owned \<Rightarrow> 'v heap \<Rightarrow> (owned \<times> 'v heap) outcome" where
  "owned_clone al alloc clone ow h =
    obind (owned_deref al ow h) (\<lambda>v. owned_new al alloc (clone v) h)"

subsection \<open>Shared\<close>

definition shared_null :: shared where
  "shared_null = Shared 0"

definition shared_as_raw :: "usize \<Rightarrow> shared \<Rightarrow> ptr" where
  "shared_as_raw al sh = decompose_data al (shared_data sh)"

definition shared_is_null :: "usize \<Rightarrow> shared \<Rightarrow> bool" where
  "shared_is_null al sh \<longleftrightarrow> shared_as_raw al sh = null"

definition shared_from_raw :: "usize \<Rightarrow> ptr \<Rightarrow> shared outcome" where
  "shared_from_raw al raw = obind (ensure_aligned al raw) (\<lambda>_. Inr (Shared raw))"

definition shared_into_owned :: "shared \<Rightarrow> owned outcome" where
  "shared_into_owned sh = owned_from_usize (shared_data sh)"

definition shared_into_usize :: "shared \<Rightarrow> usize" where
  "shared_into_usize sh = shared_data sh"

definition shared_deref :: "usize \<Rightarrow> shared \<Rightarrow> 'v heap \<Rightarrow> 'v outcome" where
  "shared_deref al sh h = deref (shared_as_raw al sh) h"

definition shared_deref_mut :: "shared \<Rightarrow> ptr" where
  "shared_deref_mut sh = shared_data sh"

subsection \<open>Atomic\<close>

text \<open>
  The operations that are generic over \<open>P: Pointer<T>\<close> take the implementation's \<open>into_usize\<close>. A
  failed \<open>compare_set\<close> returns the word it tried to store, not the word it found.
\<close>

definition atomic_from_usize :: "usize \<Rightarrow> atomic outcome" where
  "atomic_from_usize data = (if data = 0 then Inl Panic else Inr (Atomic data))"

definition atomic_null :: atomic where
  "atomic_null = Atomic 0"

definition atomic_from_owned :: "owned \<Rightarrow> atomic outcome" where
  "atomic_from_owned ow = atomic_from_usize (owned_data ow)"

definition atomic_from_shared :: "shared \<Rightarrow> atomic outcome" where
  "atomic_from_shared sh = atomic_from_usize (shared_data sh)"

definition atomic_from_raw :: "ptr \<Rightarrow> atomic outcome" where
  "atomic_from_raw raw = atomic_from_usize raw"

definition atomic_new :: "usize \<Rightarrow> 'v allocator \<Rightarrow> 'v \<Rightarrow> 'v heap \<Rightarrow> (atomic \<times> 'v heap) outcome" where
  "atomic_new al alloc v h =
    obind (owned_new al alloc v h) (\<lambda>(ow, h). obind (atomic_from_owned ow) (\<lambda>a. Inr (a, h)))"

definition atomic_load :: "atomic \<Rightarrow> shared" where
  "atomic_load a = Shared (atomic_data a)"

definition atomic_store :: "('p \<Rightarrow> usize) \<Rightarrow> 'p \<Rightarrow> atomic" where
  "atomic_store into_usize new = Atomic (into_usize new)"

definition compare_set ::
    "('p \<Rightarrow> usize) \<Rightarrow> atomic \<Rightarrow> shared \<Rightarrow> 'p \<Rightarrow> atomic \<times> (shared + shared)" where
  "compare_set into_usize a cur new =
    (let n = into_usize new; c = shared_into_usize cur in
     if atomic_data a = c then (Atomic n, Inr (Shared c)) else (a, Inl (Shared n)))"

definition compare_set_weak ::
    "bool \<Rightarrow> ('p \<Rightarrow> usize) \<Rightarrow> atomic \<Rightarrow> shared \<Rightarrow> 'p \<Rightarrow> atomic \<times> (shared + shared)" where
  "compare_set_weak spurious into_usize a cur new =
    (let n = into_usize new; c = shared_into_usize cur in
     if \<not> spurious \<and> atomic_data a = c then (Atomic n, Inr (Shared c)) else (a, Inl (Shared n)))"

definition atomic_fetch_add :: "usize \<Rightarrow> atomic \<Rightarrow> atomic \<times> shared" where
  "atomic_fetch_add v a = (Atomic (atomic_data a + v), Shared (atomic_data a))"

definition atomic_into_owned :: "atomic \<Rightarrow> owned outcome" where
  "atomic_into_owned a = owned_from_usize (atomic_data a)"

section \<open>The trait \<open>Pointer\<close>\<close>

text \<open>
  The contract of the trait: \<open>from_usize\<close> undoes \<open>into_usize\<close> on non-null words, and whatever it
  accepts it keeps. With it \<open>Atomic::store\<close> and \<open>Atomic::compare_set\<close> are the same for every
  implementation.
\<close>

locale pointer_trait =
  fixes into_usize :: "'p \<Rightarrow> usize"
    and from_usize :: "usize \<Rightarrow> 'p outcome"
  assumes from_into: "into_usize p \<noteq> 0 \<Longrightarrow> from_usize (into_usize p) = Inr p"
    and into_from: "from_usize d = Inr p \<Longrightarrow> into_usize p = d"
begin

lemma load_store: "atomic_load (atomic_store into_usize p) = Shared (into_usize p)"
  by (simp add: atomic_load_def atomic_store_def)

lemma compare_set_ok:
  "snd (compare_set into_usize a cur new) = Inr cur \<longleftrightarrow> atomic_load a = cur"
  by (cases cur) (auto simp: compare_set_def atomic_load_def shared_into_usize_def Let_def)

lemma compare_set_stores:
  "atomic_load a = cur \<Longrightarrow> fst (compare_set into_usize a cur new) = atomic_store into_usize new"
  by (auto simp: compare_set_def atomic_load_def atomic_store_def shared_into_usize_def Let_def)

lemma compare_set_fails:
  "atomic_load a \<noteq> cur \<Longrightarrow>
   compare_set into_usize a cur new = (a, Inl (Shared (into_usize new)))"
  by (cases cur) (auto simp: compare_set_def atomic_load_def shared_into_usize_def Let_def)

lemma stored_round_trip:
  "into_usize p \<noteq> 0 \<Longrightarrow> from_usize (shared_data (atomic_load (atomic_store into_usize p))) = Inr p"
  by (simp add: load_store from_into)

end

interpretation owned_ptr: pointer_trait owned_into_usize owned_from_usize
  by unfold_locales (auto simp: owned_into_usize_def owned_from_usize_def split: if_splits)

interpretation shared_ptr: pointer_trait shared_into_usize shared_from_usize
  by unfold_locales (auto simp: shared_into_usize_def shared_from_usize_def)

section \<open>Tags\<close>

lemma bit_exp_word: "bit ((2 :: usize) ^ k) i \<longleftrightarrow> i = k \<and> k < 64"
  by (auto simp: bit_exp_iff)

lemma trailing_zeros_exp: "k < 64 \<Longrightarrow> trailing_zeros (2 ^ k) = k"
  using takeWhile_upt[of k 64] by (simp add: trailing_zeros_def bit_exp_word)

lemma low_bits_exp: "k < 64 \<Longrightarrow> low_bits (2 ^ k) = mask k"
  by (simp add: low_bits_def trailing_zeros_exp mask_eq_exp_minus_1 push_bit_of_1)

lemma decompose_tagged: "decompose_data al (data_with_tag al d t) = decompose_data al d"
  by (rule bit_eqI) (auto simp: decompose_data_def data_with_tag_def bit_and_iff bit_or_iff bit_not_iff)

lemma tag_of_tagged: "data_with_tag al d t AND low_bits al = t AND low_bits al"
  by (rule bit_eqI) (auto simp: data_with_tag_def bit_and_iff bit_or_iff bit_not_iff)

lemma aligned_decompose: "ensure_aligned al p = Inr () \<longleftrightarrow> decompose_data al p = p"
proof -
  have "p AND low_bits al = 0 \<longleftrightarrow> p AND NOT (low_bits al) = p"
    by (auto simp: bit_eq_iff bit_and_iff bit_not_iff)
  then show ?thesis by (simp add: ensure_aligned_def decompose_data_def)
qed


text \<open>
  What the crate needs of the global allocator: an address it returns is unused, not null and
  aligned for the type.
\<close>

definition good_alloc :: "usize \<Rightarrow> 'v allocator \<Rightarrow> bool" where
  "good_alloc al alloc \<longleftrightarrow>
     (\<forall>h p. alloc h = Some p \<longrightarrow> h p = None \<and> p \<noteq> null \<and> ensure_aligned al p = Inr ())"

text \<open>A first-fit allocator over a small arena of 8-aligned addresses satisfies it.\<close>

definition arena_alloc :: "'v allocator" where
  "arena_alloc h = find (\<lambda>p. h p = None) [8, 16, 24, 32, 40, 48, 56, 64]"

lemma arena_alloc_good: "good_alloc 8 arena_alloc"
proof -
  have lb: "low_bits 8 = 7" using low_bits_exp[of 3] by (simp add: mask_eq_exp_minus_1)
  show ?thesis
    by (auto simp: good_alloc_def arena_alloc_def ensure_aligned_def lb split: if_splits)
qed

text \<open>Memory for \<open>N\<close> boxes: the allocator succeeds while fewer are in use.\<close>

definition roomy :: "'v allocator \<Rightarrow> nat \<Rightarrow> bool" where
  "roomy alloc N \<longleftrightarrow> (\<forall>h. card (dom h) < N \<longrightarrow> alloc h \<noteq> None)"

lemma arena_roomy: "roomy arena_alloc 8"
  unfolding roomy_def
proof (intro allI impI)
  fix h :: "'v heap"
  assume a: "card (dom h) < 8"
  let ?ps = "[8, 16, 24, 32, 40, 48, 56, 64] :: ptr list"
  have "card (set ?ps) = 8" by simp
  then have "\<not> set ?ps \<subseteq> dom h" using a card_mono[of "dom h" "set ?ps"] by auto
  then obtain p where "p \<in> set ?ps" "h p = None" by blast
  then have "find (\<lambda>p. h p = None) ?ps \<noteq> None" unfolding find_None_iff by blast
  then show "arena_alloc h \<noteq> None" unfolding arena_alloc_def .
qed

lemma roomy_mono: "roomy alloc N \<Longrightarrow> M \<le> N \<Longrightarrow> roomy alloc M"
  by (auto simp: roomy_def)

lemma owned_new_ok:
  assumes "good_alloc al alloc" "alloc h = Some p"
  shows "owned_new al alloc v h = Inr (Owned p, h(p \<mapsto> v))"
  using assms by (simp add: owned_new_def box_new_def owned_from_raw_def good_alloc_def)

lemma good_alloc_as_raw:
  assumes "good_alloc al alloc" "alloc h = Some p"
  shows "decompose_data al p = p" "p \<noteq> null" "h p = None"
  using assms aligned_decompose by (auto simp: good_alloc_def)

section \<open>Properties\<close>

text \<open>
  C38. Tags: for a type aligned to \<open>2\<^sup>k\<close> bytes, an aligned pointer can be tagged with any value
  of its \<open>k\<close> low bits; both come back, a stale tag is replaced and not accumulated, and only the
  pointer part decides whether the result counts as null.
\<close>

theorem tagged_pointer_round_trip:
  assumes "k < 64" "ensure_aligned (2 ^ k) p = Inr ()" "t AND mask k = t"
  shows "decompose_data (2 ^ k) (data_with_tag (2 ^ k) p t) = p \<and>
    data_with_tag (2 ^ k) p t AND mask k = t \<and>
    data_with_tag (2 ^ k) (data_with_tag (2 ^ k) p t') t = data_with_tag (2 ^ k) p t \<and>
    (shared_is_null (2 ^ k) (Shared (data_with_tag (2 ^ k) p t)) \<longleftrightarrow> p = null)"
proof -
  have "decompose_data (2 ^ k) (data_with_tag (2 ^ k) p t) = p"
    using assms(2) by (simp add: decompose_tagged aligned_decompose)
  moreover have "data_with_tag (2 ^ k) p t AND mask k = t"
    using assms(1,3) tag_of_tagged[of "2 ^ k" p t] by (simp add: low_bits_exp)
  moreover have "data_with_tag (2 ^ k) (data_with_tag (2 ^ k) p t') t = data_with_tag (2 ^ k) p t"
    using decompose_tagged[of "2 ^ k" p t'] by (simp add: data_with_tag_def decompose_data_def)
  ultimately show ?thesis by (simp add: shared_is_null_def shared_as_raw_def)
qed

theorem tagged_pointer_round_trip_witness:
  "decompose_data (2 ^ 3) (data_with_tag (2 ^ 3) 64 5) = 64 \<and>
   data_with_tag (2 ^ 3) 64 5 AND mask 3 = 5"
proof -
  have "ensure_aligned (2 ^ 3) 64 = Inr ()"
    using low_bits_exp[of 3] by (simp add: ensure_aligned_def mask_eq_exp_minus_1)
  then show ?thesis
    using tagged_pointer_round_trip[of 3 64 5 0] by (simp add: mask_eq_exp_minus_1)
qed

text \<open>
  \<open>compare_set\<close> succeeds exactly when the atomic holds the expected pointer, stores the new
  one and returns the old one; otherwise it leaves the atomic alone and hands back the pointer it
  was asked to store, for \<open>Owned\<close> and \<open>Shared\<close> arguments alike.
\<close>

theorem compare_set_outcome:
  "compare_set shared_into_usize a cur new =
     (if atomic_load a = cur then (atomic_store shared_into_usize new, Inr cur) else (a, Inl new)) \<and>
   compare_set owned_into_usize a cur ow =
     (if atomic_load a = cur then (atomic_store owned_into_usize ow, Inr cur)
      else (a, Inl (Shared (owned_data ow))))"
proof -
  have "snd (compare_set shared_into_usize a cur new) = Inr cur"
    "snd (compare_set owned_into_usize a cur ow) = Inr cur" if "atomic_load a = cur"
    using that shared_ptr.compare_set_ok owned_ptr.compare_set_ok by blast+
  then show ?thesis
    using shared_ptr.compare_set_stores[of a cur new] owned_ptr.compare_set_stores[of a cur ow]
      shared_ptr.compare_set_fails[of a cur new] owned_ptr.compare_set_fails[of a cur ow]
    by (auto simp: prod_eq_iff shared_into_usize_def owned_into_usize_def)
qed

text \<open>
  Ownership of a box: \<open>Owned::new\<close> allocates it, the conversion to \<open>Shared\<close> and back is the
  identity and keeps the box readable, dropping the \<open>Owned\<close> frees exactly this box, and dropping a
  second \<open>Owned\<close> made from the same \<open>Shared\<close> touches freed memory.
\<close>

theorem box_life_cycle:
  assumes "good_alloc al alloc" "alloc h = Some p"
  shows "owned_new al alloc v h = Inr (Owned p, h(p \<mapsto> v)) \<and>
    obind (owned_into_shared (Owned p)) shared_into_owned = Inr (Owned p) \<and>
    shared_deref al (Shared p) (h(p \<mapsto> v)) = Inr v \<and>
    owned_drop al (Owned p) (h(p \<mapsto> v)) = Inr h \<and>
    obind (owned_drop al (Owned p) (h(p \<mapsto> v))) (owned_drop al (Owned p)) = Inl Dangling"
proof -
  note p = good_alloc_as_raw[OF assms]
  have "h(p := None) = h" using p(3) by auto
  then show ?thesis using p owned_new_ok[OF assms]
    by (simp add: owned_into_shared_def shared_from_usize_def owned_into_usize_def shared_into_owned_def
        owned_from_usize_def shared_deref_def shared_as_raw_def deref_def owned_drop_def box_drop_def)
qed

theorem box_life_cycle_witness:
  "owned_drop 8 (Owned 8) [8 \<mapsto> ''node''] = Inr Map.empty \<and>
   obind (owned_drop 8 (Owned 8) [8 \<mapsto> ''node'']) (owned_drop 8 (Owned 8)) = Inl Dangling"
proof -
  have "arena_alloc Map.empty = Some 8" by (simp add: arena_alloc_def)
  from box_life_cycle[OF arena_alloc_good this, of "''node''"] show ?thesis by blast
qed

text \<open>
  \<open>Deref\<close> and \<open>DerefMut\<close> of a pointer reach the same address only when its tag is zero:
  \<open>deref\<close> takes the tag off, \<open>deref_mut\<close> does not.
\<close>

theorem deref_mut_needs_clean_tag:
  "(owned_deref_mut (Owned d) = owned_as_raw al (Owned d) \<longleftrightarrow> d AND low_bits al = 0) \<and>
   (shared_deref_mut (Shared d) = shared_as_raw al (Shared d) \<longleftrightarrow> d AND low_bits al = 0)"
proof -
  have "d = decompose_data al d \<longleftrightarrow> d AND low_bits al = 0"
    using aligned_decompose[of al d] by (auto simp: ensure_aligned_def split: if_splits)
  then show ?thesis
    by (simp add: owned_deref_mut_def owned_as_raw_def shared_deref_mut_def shared_as_raw_def)
qed

end
