(* ===== verification/Shift_Guard.thy ===== *)
theory Shift_Guard
  imports Own_Ref Small_Mutex
begin

text \<open>
  \<open>PtrGuard\<close> of \<open>queue/shift_guard.rs\<close>: a fixed array of \<open>cap\<close> cells behind an atomic pointer, an
  atomic length and a \<open>Mootex<()>\<close>. The allocation is a list of cells in which \<open>None\<close> is memory that
  was never written; reading it, or reading past the end, is a fault. \<open>push\<close> and \<open>pop\<close> are given as
  their atomic steps, so that they can be run alone and interleaved.
\<close>

record 'a ptr_guard =
  guard :: atomic
  cap :: usize
  len :: usize
  cells :: "'a option list"
  glock :: "(u8, unit) small_mutex"

text \<open>
  \<open>atomic_ptr\<close>: the layout of \<open>cap\<close> elements of \<open>sz\<close> bytes, rounded up to their alignment \<open>al\<close>, must
  fit into a \<open>usize\<close> (otherwise \<open>unwrap\<close> panics), the allocator \<open>galloc\<close> may fail, and what it returns
  goes through \<open>Atomic::from\<close>.
\<close>

definition atomic_ptr :: "usize \<Rightarrow> usize \<Rightarrow> (nat \<Rightarrow> ptr option) \<Rightarrow> usize \<Rightarrow> atomic outcome" where
  "atomic_ptr al sz galloc c =
    (let bytes = unat c * unat sz in
     if 2 ^ 64 - unat al < bytes then Inl Panic
     else case galloc bytes of None \<Rightarrow> Inl Out_of_memory | Some p \<Rightarrow> atomic_from_raw p)"

definition pg_with :: "usize \<Rightarrow> usize \<Rightarrow> (nat \<Rightarrow> ptr option) \<Rightarrow> usize \<Rightarrow> 'a ptr_guard outcome" where
  "pg_with al sz galloc threads =
    obind (atomic_ptr al sz galloc threads) (\<lambda>a.
      Inr \<lparr>guard = a, cap = threads, len = 0, cells = replicate (unat threads) None,
           glock = small_new raw_INIT ()\<rparr>)"

text \<open>
  \<open>num_threads\<close> of \<open>queue/mod.rs\<close> caches \<open>num_cpus::get()\<close> in a static behind a \<open>Once\<close>; \<open>PtrGuard::new\<close>
  takes its capacity from there.
\<close>

definition num_threads :: "usize \<Rightarrow> usize option \<Rightarrow> usize \<times> usize option" where
  "num_threads cpus threads =
    (case threads of None \<Rightarrow> (cpus, Some cpus) | Some n \<Rightarrow> (n, Some n))"

definition pg :: "usize \<Rightarrow> usize \<Rightarrow> (nat \<Rightarrow> ptr option) \<Rightarrow> usize \<Rightarrow> usize option \<Rightarrow> ('a ptr_guard \<times> usize option) outcome" where
  "pg al sz galloc cpus threads =
    (case num_threads cpus threads of (n, threads) \<Rightarrow>
       obind (pg_with al sz galloc n) (\<lambda>g. Inr (g, threads)))"

definition pg_len :: "'a ptr_guard \<Rightarrow> usize" where
  "pg_len g = len g"

definition pg_is_empty :: "'a ptr_guard \<Rightarrow> bool" where
  "pg_is_empty g \<longleftrightarrow> len g = 0"

definition pg_try_lock :: "'a ptr_guard \<Rightarrow> bool \<times> 'a ptr_guard" where
  "pg_try_lock g = (case small_try_lock raw_try_lock (glock g) of (b, m) \<Rightarrow> (b, g\<lparr>glock := m\<rparr>))"

definition pg_lock :: "'a ptr_guard \<Rightarrow> (mutex_guard \<times> 'a ptr_guard) option" where
  "pg_lock g = map_option (\<lambda>(mg, m). (mg, g\<lparr>glock := m\<rparr>)) (small_lock raw_lock (glock g))"

definition pg_unlock :: "'a ptr_guard \<Rightarrow> 'a ptr_guard" where
  "pg_unlock g = g\<lparr>glock := small_force_unlock raw_unlock (glock g)\<rparr>"

section \<open>push and pop in atomic steps\<close>

datatype 'a push_pc =
    Push_load 'a
  | Push_write 'a usize
  | Push_cas usize
  | Push_done "'a + unit"

definition cell_write :: "usize \<Rightarrow> 'a \<Rightarrow> 'a ptr_guard \<Rightarrow> 'a ptr_guard outcome" where
  "cell_write i x g =
    (if unat i < length (cells g) then Inr (g\<lparr>cells := (cells g)[unat i := Some x]\<rparr>)
     else Inl Out_of_bounds)"

definition cell_read :: "usize \<Rightarrow> 'a ptr_guard \<Rightarrow> 'a outcome" where
  "cell_read i g =
    (if unat i < length (cells g)
     then (case cells g ! unat i of None \<Rightarrow> Inl Uninitialised | Some x \<Rightarrow> Inr x)
     else Inl Out_of_bounds)"

definition len_cas :: "usize \<Rightarrow> usize \<Rightarrow> 'a ptr_guard \<Rightarrow> 'a ptr_guard" where
  "len_cas old new g = (if len g = old then g\<lparr>len := new\<rparr> else g)"

fun push_step :: "'a push_pc \<Rightarrow> 'a ptr_guard \<Rightarrow> ('a push_pc \<times> 'a ptr_guard) outcome" where
  "push_step (Push_load x) g =
     Inr (if len g = cap g then Push_done (Inl x) else Push_write x (len g), g)"
| "push_step (Push_write x l) g = obind (cell_write l x g) (\<lambda>g. Inr (Push_cas l, g))"
| "push_step (Push_cas l) g = Inr (Push_done (Inr ()), len_cas l (l + 1) g)"
| "push_step (Push_done r) g = Inr (Push_done r, g)"

datatype 'a pop_pc =
    Pop_load
  | Pop_cas usize
  | Pop_read usize
  | Pop_done "unit + 'a"

fun pop_step :: "'a pop_pc \<Rightarrow> 'a ptr_guard \<Rightarrow> ('a pop_pc \<times> 'a ptr_guard) outcome" where
  "pop_step Pop_load g = Inr (if len g = 0 then Pop_done (Inl ()) else Pop_cas (len g), g)"
| "pop_step (Pop_cas l) g = Inr (Pop_read l, len_cas l (l - 1) g)"
| "pop_step (Pop_read l) g = obind (cell_read l g) (\<lambda>x. Inr (Pop_done (Inr x), g))"
| "pop_step (Pop_done r) g = Inr (Pop_done r, g)"

text \<open>The whole operations, run without interference: three steps each.\<close>

definition pg_push :: "'a \<Rightarrow> 'a ptr_guard \<Rightarrow> (('a + unit) \<times> 'a ptr_guard) outcome" where
  "pg_push x g =
    obind (push_step (Push_load x) g) (\<lambda>(p, g).
    obind (push_step p g) (\<lambda>(p, g).
    obind (push_step p g) (\<lambda>(p, g).
      (case p of Push_done r \<Rightarrow> Inr (r, g) | _ \<Rightarrow> Inl Panic))))"

definition pg_pop :: "'a ptr_guard \<Rightarrow> ((unit + 'a) \<times> 'a ptr_guard) outcome" where
  "pg_pop g =
    obind (pop_step Pop_load g) (\<lambda>(p, g).
    obind (pop_step p g) (\<lambda>(p, g).
    obind (pop_step p g) (\<lambda>(p, g).
      (case p of Pop_done r \<Rightarrow> Inr (r, g) | _ \<Rightarrow> Inl Panic))))"

text \<open>
  The \<open>Debug\<close> implementation copies the first \<open>len\<close> cells out with \<open>ptr::read\<close> into a vector that
  is dropped at the end: the result is what gets dropped.
\<close>

fun pg_fmt_reads :: "nat \<Rightarrow> 'a ptr_guard \<Rightarrow> 'a list outcome" where
  "pg_fmt_reads 0 g = Inr []"
| "pg_fmt_reads (Suc n) g =
     obind (pg_fmt_reads n g) (\<lambda>xs. obind (cell_read (of_nat n) g) (\<lambda>x. Inr (xs @ [x])))"

definition pg_fmt_drops :: "'a ptr_guard \<Rightarrow> 'a list outcome" where
  "pg_fmt_drops g = pg_fmt_reads (unat (len g)) g"

section \<open>Well-formed guards\<close>

definition wf_guard :: "'a ptr_guard \<Rightarrow> bool" where
  "wf_guard g \<longleftrightarrow> length (cells g) = unat (cap g) \<and> len g \<le> cap g"

fun pushes :: "'a list \<Rightarrow> 'a ptr_guard \<Rightarrow> 'a ptr_guard outcome" where
  "pushes [] g = Inr g"
| "pushes (x # xs) g = obind (pg_push x g) (\<lambda>(_, g). pushes xs g)"

lemma wf_pg_with: "pg_with al sz galloc n = Inr g \<Longrightarrow> wf_guard g"
  by (auto simp: pg_with_def wf_guard_def)

lemma pg_push_full: "len g = cap g \<Longrightarrow> pg_push x g = Inr (Inl x, g)"
  by (simp add: pg_push_def)

lemma pg_push_room:
  assumes "wf_guard g" "len g \<noteq> cap g"
  shows "pg_push x g = Inr (Inr (), g\<lparr>cells := (cells g)[unat (len g) := Some x], len := len g + 1\<rparr>)"
proof -
  have "unat (len g) < unat (cap g)" using assms by (simp add: wf_guard_def word_less_nat_alt[symmetric] order_le_neq_trans)
  then show ?thesis using assms by (simp add: pg_push_def cell_write_def len_cas_def wf_guard_def)
qed

lemma unat_len_Suc:
  assumes "wf_guard g" "len g \<noteq> cap g"
  shows "unat (len g + 1) = Suc (unat (len g))"
proof -
  have "len g < cap g" using assms by (simp add: wf_guard_def order_le_neq_trans)
  then have "Suc (unat (len g)) \<le> unat (cap g)" by (simp add: word_less_nat_alt)
  moreover have "unat (cap g) < 2 ^ 64" using usize_lt[of "cap g"] by simp
  ultimately show ?thesis by (simp add: unat_word_ariths)
qed

lemma wf_push:
  assumes "wf_guard g" "len g \<noteq> cap g"
  shows "wf_guard (g\<lparr>cells := (cells g)[unat (len g) := Some x], len := len g + 1\<rparr>)"
proof -
  have "len g < cap g" using assms by (simp add: wf_guard_def order_le_neq_trans)
  then have "Suc (unat (len g)) \<le> unat (cap g)" by (simp add: word_less_nat_alt)
  then show ?thesis using assms unat_len_Suc[OF assms] by (simp add: wf_guard_def word_le_nat_alt)
qed


section \<open>Filling a fresh guard\<close>

definition stored :: "'a ptr_guard \<Rightarrow> 'a list \<Rightarrow> bool" where
  "stored g xs \<longleftrightarrow> wf_guard g \<and> unat (len g) = length xs \<and>
     cells g = map Some xs @ replicate (unat (cap g) - length xs) None"

lemma stored_fresh: "pg_with al sz galloc n = Inr g \<Longrightarrow> stored g [] \<and> cap g = n"
  using wf_pg_with[of al sz galloc n g] by (auto simp: stored_def pg_with_def)

lemma stored_room: "stored g xs \<Longrightarrow> len g \<noteq> cap g \<longleftrightarrow> length xs < unat (cap g)"
  by (metis stored_def wf_guard_def order_le_neq_trans word_less_nat_alt less_irrefl)

lemma list_update_snoc:
  "0 < n \<Longrightarrow> (map Some xs @ replicate n None)[length xs := Some x]
     = map Some (xs @ [x]) @ replicate (n - 1) None"
  by (cases n) (simp_all add: list_update_append)

lemma stored_push:
  assumes "stored g xs" "length xs < unat (cap g)"
  shows "\<exists>g'. pg_push x g = Inr (Inr (), g') \<and> stored g' (xs @ [x]) \<and> cap g' = cap g"
proof -
  have room: "len g \<noteq> cap g" using stored_room[OF assms(1)] assms(2) by blast
  have wf: "wf_guard g" using assms by (simp add: stored_def)
  show ?thesis
    using pg_push_room[OF wf room, of x] wf_push[OF wf room, of x] unat_len_Suc[OF wf room] assms
    by (simp add: stored_def list_update_snoc)
qed

lemma stored_pushes:
  "stored g xs \<Longrightarrow> length xs + length ys \<le> unat (cap g) \<Longrightarrow>
   \<exists>g'. pushes ys g = Inr g' \<and> stored g' (xs @ ys) \<and> cap g' = cap g"
proof (induction ys arbitrary: xs g)
  case (Cons y ys)
  then obtain g' where g': "pg_push y g = Inr (Inr (), g')" "stored g' (xs @ [y])" "cap g' = cap g"
    using stored_push[of g xs y] by auto
  then show ?case using Cons.IH[of g' "xs @ [y]"] Cons.prems by simp
qed simp

lemma stored_cell:
  "stored g xs \<Longrightarrow> n < length xs \<Longrightarrow> cell_read (of_nat n) g = Inr (xs ! n)"
proof -
  assume a: "stored g xs" "n < length xs"
  have "length xs < 2 ^ 64" using a usize_lt[of "len g"] by (simp add: stored_def)
  then have "unat (of_nat n :: usize) = n" using a(2) by (simp add: unat_of_nat)
  then show ?thesis using a by (simp add: cell_read_def stored_def nth_append)
qed

lemma stored_reads: "stored g xs \<Longrightarrow> n \<le> length xs \<Longrightarrow> pg_fmt_reads n g = Inr (take n xs)"
  by (induction n) (simp_all add: stored_cell take_Suc_conv_app_nth)

lemma stored_pop:
  assumes "stored g xs" "xs \<noteq> []"
  shows "pg_pop g = Inl (if length xs = unat (cap g) then Out_of_bounds else Uninitialised)"
proof -
  have "len g \<noteq> 0" "unat (len g) = length xs" using assms by (auto simp: stored_def unat_eq_0)
  moreover have "length xs \<le> unat (cap g)"
    using assms by (simp add: stored_def wf_guard_def word_le_nat_alt)
  ultimately show ?thesis using assms(1)
    by (simp add: pg_pop_def cell_read_def len_cas_def stored_def nth_append)
qed

lemma pg_with_two: "\<exists>g. pg_with 8 8 (\<lambda>_. Some 64) 2 = Inr g"
  by (simp add: pg_with_def atomic_ptr_def atomic_from_raw_def atomic_from_usize_def Let_def)

section \<open>Properties\<close>

text \<open>
  A guard made for \<open>n\<close> threads accepts exactly \<open>n\<close> elements: pushing up to \<open>n\<close> of them onto the
  fresh guard succeeds and stores them in order, and a push onto the full guard hands its element back
  and changes nothing.
\<close>

theorem guard_accepts_cap_elements:
  assumes "pg_with al sz galloc n = Inr g" "length xs \<le> unat n"
  shows "\<exists>g'. pushes xs g = Inr g' \<and> unat (pg_len g') = length xs \<and>
    pg_fmt_drops g' = Inr xs \<and>
    (length xs = unat n \<longrightarrow> pg_push y g' = Inr (Inl y, g'))"
proof -
  obtain g' where g': "pushes xs g = Inr g'" "stored g' xs" "cap g' = n"
    using stored_pushes[of g "[]" xs] stored_fresh[OF assms(1)] assms(2) by auto
  have "length xs = unat n \<longrightarrow> len g' = cap g'"
    using stored_room[OF g'(2)] g'(3) by auto
  then show ?thesis
    using g' stored_reads[OF g'(2), of "length xs"] pg_push_full[of g' y]
    by (auto simp: pg_len_def pg_fmt_drops_def stored_def)
qed

theorem guard_accepts_cap_elements_witness:
  "\<exists>g g' :: nat ptr_guard. pg_with 8 8 (\<lambda>_. Some 64) 2 = Inr g \<and> pushes [7, 9] g = Inr g' \<and>
     pg_push 5 g' = Inr (Inl 5, g')"
proof -
  obtain g :: "nat ptr_guard" where "pg_with 8 8 (\<lambda>_. Some 64) 2 = Inr g"
    using pg_with_two by blast
  from guard_accepts_cap_elements[OF this, of "[7, 9]" 5] this show ?thesis by auto
qed

text \<open>
  \<open>pop\<close> reads the cell behind the last element: on a guard that was filled by pushes and not yet
  popped from it never returns an element, it reads memory that was never written or, when the guard
  is full, memory outside of the allocation.
\<close>

theorem guard_pop_reads_past_the_end:
  assumes "pg_with al sz galloc n = Inr g" "xs \<noteq> []" "length xs \<le> unat n"
  shows "obind (pushes xs g) pg_pop =
    Inl (if length xs = unat n then Out_of_bounds else Uninitialised)"
proof -
  obtain g' where "pushes xs g = Inr g'" "stored g' xs" "cap g' = n"
    using stored_pushes[of g "[]" xs] stored_fresh[OF assms(1)] assms(3) by auto
  then show ?thesis using stored_pop[of g' xs] assms(2) by simp
qed

theorem guard_pop_reads_past_the_end_witness:
  "\<exists>g :: nat ptr_guard. pg_with 8 8 (\<lambda>_. Some 64) 2 = Inr g \<and>
     obind (pushes [7] g) pg_pop = Inl Uninitialised \<and>
     obind (pushes [7, 9] g) pg_pop = Inl Out_of_bounds"
proof -
  obtain g :: "nat ptr_guard" where "pg_with 8 8 (\<lambda>_. Some 64) 2 = Inr g"
    using pg_with_two by blast
  from guard_pop_reads_past_the_end[OF this, of "[7]"] guard_pop_reads_past_the_end[OF this, of "[7, 9]"] this
  show ?thesis by auto
qed

text \<open>
  Two pushes whose loads of \<open>len\<close> come before either write: both report success, the length
  grows by one, and the first element is overwritten.
\<close>

theorem racing_pushes_lose_an_element:
  assumes "wf_guard g" "len g \<noteq> cap g"
  shows "\<exists>g1 g2 g3. push_step (Push_load x) g = Inr (Push_write x (len g), g) \<and>
    push_step (Push_load y) g = Inr (Push_write y (len g), g) \<and>
    push_step (Push_write x (len g)) g = Inr (Push_cas (len g), g1) \<and>
    push_step (Push_write y (len g)) g1 = Inr (Push_cas (len g), g2) \<and>
    push_step (Push_cas (len g)) g2 = Inr (Push_done (Inr ()), g3) \<and>
    push_step (Push_cas (len g)) g3 = Inr (Push_done (Inr ()), g3) \<and>
    len g3 = len g + 1 \<and> cells g3 = (cells g)[unat (len g) := Some y]"
proof -
  have "unat (len g) < length (cells g)"
    using assms by (simp add: wf_guard_def word_less_nat_alt[symmetric] order_le_neq_trans)
  then show ?thesis using assms by (simp add: cell_write_def len_cas_def)
qed

theorem racing_pushes_lose_an_element_witness:
  "\<exists>(g :: nat ptr_guard) (g3 :: nat ptr_guard). wf_guard g \<and> len g = 0 \<and> len g3 = 1 \<and> cells g3 = [Some 9, None] \<and>
     push_step (Push_cas 0) g3 = Inr (Push_done (Inr ()), g3)"
proof -
  define g :: "nat ptr_guard" where
    "g = \<lparr>guard = Atomic 64, cap = 2, len = 0, cells = [None, None], glock = small_new raw_INIT ()\<rparr>"
  then have wf: "wf_guard g" "len g \<noteq> cap g" by (simp_all add: wf_guard_def)
  obtain g3 where "len g3 = len g + 1" "cells g3 = (cells g)[unat (len g) := Some 9]"
    "push_step (Push_cas (len g)) g3 = Inr (Push_done (Inr ()), g3)"
    using racing_pushes_lose_an_element[OF wf, of 7 9] by blast
  then have "wf_guard g \<and> len g = 0 \<and> len g3 = 1 \<and> cells g3 = [Some 9, None] \<and>
     push_step (Push_cas 0) g3 = Inr (Push_done (Inr ()), g3)" using wf(1) by (simp add: g_def)
  then show ?thesis by blast
qed

end
