(* ===== verification/Raw_Queue.thy ===== *)
theory Raw_Queue
  imports Shift_Guard
begin

text \<open>
  \<open>RawQueue\<close> and \<open>ShiftQueue\<close> of \<open>queue/mod.rs\<close>: a linked list of nodes with a sentinel, whose head and
  tail are atomic pointers, and two \<open>PtrGuard\<close>s. \<open>_push\<close> and \<open>_pop\<close> are machines whose steps are the
  atomic accesses of the source; a step is \<open>None\<close> when the thread is blocked on a lock (or prints a
  structure that has no end), and a fault when the code panics or leaves the memory it owns. The
  operations of the queue run these machines to their end; interleavings are runs of several of them
  on one queue.
\<close>

section \<open>Nodes and queues\<close>

record 'a qnode =
  ndata :: "'a option"
  nnext :: atomic

definition node_default :: "'a qnode" where
  "node_default = \<lparr>ndata = None, nnext = atomic_null\<rparr>"

definition node_new :: "'a \<Rightarrow> 'a qnode" where
  "node_new v = \<lparr>ndata = Some v, nnext = atomic_null\<rparr>"

record 'a raw_queue =
  nodes :: "'a qnode heap"
  qhead :: atomic
  qtail :: atomic
  push_guard :: "owned ptr_guard"
  pop_guard :: "owned ptr_guard"

text \<open>\<open>al\<close> is the alignment of a node; \<open>gal\<close>, \<open>gsz\<close> and \<open>galloc\<close> are for the arrays of the guards.\<close>

definition raw_with ::
    "usize \<Rightarrow> 'a qnode allocator \<Rightarrow> owned ptr_guard outcome \<Rightarrow> owned ptr_guard outcome \<Rightarrow> 'a qnode heap
      \<Rightarrow> 'a raw_queue outcome" where
  "raw_with al alloc pg1 pg2 h =
    obind (owned_new al alloc node_default h) (\<lambda>(empty, h).
    obind pg1 (\<lambda>g1. obind pg2 (\<lambda>g2.
    obind (owned_into_shared empty) (\<lambda>e_ptr.
      Inr \<lparr>nodes = h, qhead = atomic_store shared_into_usize e_ptr,
           qtail = atomic_store shared_into_usize e_ptr, push_guard = g1, pop_guard = g2\<rparr>))))"

definition raw_with_threads ::
    "usize \<Rightarrow> 'a qnode allocator \<Rightarrow> usize \<Rightarrow> usize \<Rightarrow> (nat \<Rightarrow> ptr option) \<Rightarrow> usize \<Rightarrow> 'a qnode heap
      \<Rightarrow> 'a raw_queue outcome" where
  "raw_with_threads al alloc gal gsz galloc threads h =
    raw_with al alloc (pg_with gal gsz galloc threads) (pg_with gal gsz galloc threads) h"

text \<open>\<open>new\<close> takes the number of threads from the cached number of processors.\<close>

definition raw_new ::
    "usize \<Rightarrow> 'a qnode allocator \<Rightarrow> usize \<Rightarrow> usize \<Rightarrow> (nat \<Rightarrow> ptr option) \<Rightarrow> usize \<Rightarrow> usize option
      \<Rightarrow> 'a qnode heap \<Rightarrow> ('a raw_queue \<times> usize option) outcome" where
  "raw_new al alloc gal gsz galloc cpus threads h =
    (let threads' = snd (num_threads cpus threads) in
     obind (raw_with al alloc
              (obind (pg gal gsz galloc cpus threads) (\<lambda>(g, _). Inr g))
              (obind (pg gal gsz galloc cpus threads') (\<lambda>(g, _). Inr g)) h)
       (\<lambda>q. Inr (q, threads')))"

definition node_next :: "usize \<Rightarrow> shared \<Rightarrow> 'a raw_queue \<Rightarrow> shared outcome" where
  "node_next al sh q = obind (shared_deref al sh (nodes q)) (\<lambda>n. Inr (atomic_load (nnext n)))"

definition raw_is_empty :: "usize \<Rightarrow> 'a raw_queue \<Rightarrow> bool outcome" where
  "raw_is_empty al q = obind (node_next al (atomic_load (qhead q)) q) (\<lambda>n. Inr (shared_is_null al n))"

section \<open>Printing\<close>

text \<open>
  \<open>fmt_node\<close> is \<open>Debug\<close> for \<open>Node\<close>, which formats the data and follows \<open>next\<close>. \<open>fmt_guard\<close> is \<open>Debug\<close> for
  \<open>PtrGuard\<close> on this heap: it copies the stored \<open>Owned\<close> pointers out, formats them, and drops them, which
  frees their nodes. \<open>fmt_queue\<close> is \<open>Debug\<close> for \<open>RawQueue\<close>.
\<close>

partial_function (option) fmt_node :: "usize \<Rightarrow> 'a qnode heap \<Rightarrow> ptr \<Rightarrow> unit outcome option" where
  "fmt_node al h p =
    (case h p of
       None \<Rightarrow> Some (Inl Dangling)
     | Some n \<Rightarrow>
         if ndata n = None then Some (Inl Uninitialised)
         else if shared_is_null al (atomic_load (nnext n)) then Some (Inr ())
         else fmt_node al h (shared_as_raw al (atomic_load (nnext n))))"

fun fmt_owned :: "usize \<Rightarrow> 'a qnode heap \<Rightarrow> owned list \<Rightarrow> unit outcome option" where
  "fmt_owned al h [] = Some (Inr ())"
| "fmt_owned al h (ow # ows) =
     (if owned_is_null al ow then fmt_owned al h ows
      else case fmt_node al h (owned_as_raw al ow) of
             None \<Rightarrow> None
           | Some (Inl f) \<Rightarrow> Some (Inl f)
           | Some (Inr _) \<Rightarrow> fmt_owned al h ows)"

fun drop_all :: "usize \<Rightarrow> owned list \<Rightarrow> 'a qnode heap \<Rightarrow> 'a qnode heap outcome" where
  "drop_all al [] h = Inr h"
| "drop_all al (ow # ows) h = obind (owned_drop al ow h) (drop_all al ows)"

definition fmt_guard ::
    "usize \<Rightarrow> owned ptr_guard \<Rightarrow> 'a qnode heap \<Rightarrow> 'a qnode heap outcome option" where
  "fmt_guard al g h =
    (case pg_fmt_drops g of
       Inl f \<Rightarrow> Some (Inl f)
     | Inr ows \<Rightarrow> map_option (\<lambda>r. obind r (\<lambda>_. drop_all al ows h)) (fmt_owned al h ows))"

definition fmt_queue :: "usize \<Rightarrow> 'a raw_queue \<Rightarrow> 'a raw_queue outcome option" where
  "fmt_queue al q =
    (case fmt_guard al (push_guard q) (nodes q) of
       None \<Rightarrow> None
     | Some (Inl f) \<Rightarrow> Some (Inl f)
     | Some (Inr h) \<Rightarrow>
    (case fmt_guard al (pop_guard q) h of
       None \<Rightarrow> None
     | Some (Inl f) \<Rightarrow> Some (Inl f)
     | Some (Inr h) \<Rightarrow>
    (case fmt_node al h (shared_as_raw al (atomic_load (qhead q))) of
       None \<Rightarrow> None
     | Some (Inl f) \<Rightarrow> Some (Inl f)
     | Some (Inr _) \<Rightarrow>
         map_option (\<lambda>r. obind r (\<lambda>_. Inr (q\<lparr>nodes := h\<rparr>)))
           (fmt_node al h (shared_as_raw al (atomic_load (qtail q)))))))"

section \<open>_push\<close>

text \<open>
  The program counter carries the local \<open>tail\<close>; \<open>new_node\<close> is fixed for the whole loop of \<open>push\<close>. The
  states from \<open>Q_lock\<close> to \<open>Q_unlock\<close> are the branch that first deals with the nodes in the guard.
\<close>

datatype qpush_pc =
    Q_tail
  | Q_next shared
  | Q_half shared
  | Q_empty shared
  | Q_next2 shared
  | Q_link shared
  | Q_swing shared
  | Q_guard "owned push_pc"
  | Q_lock shared
  | Q_print shared
  | Q_steal shared "owned pop_pc"
  | Q_stolen shared shared
  | Q_stolen_cur shared shared
  | Q_stolen_link shared shared shared
  | Q_stolen_swing shared shared
  | Q_unlock
  | Q_done

definition cas_tail :: "shared \<Rightarrow> shared \<Rightarrow> 'a raw_queue \<Rightarrow> bool \<times> 'a raw_queue" where
  "cas_tail cur new q =
    (case compare_set shared_into_usize (qtail q) cur new of
       (a, Inr _) \<Rightarrow> (True, q\<lparr>qtail := a\<rparr>) | (a, Inl _) \<Rightarrow> (False, q))"

definition cas_next :: "usize \<Rightarrow> shared \<Rightarrow> shared \<Rightarrow> shared \<Rightarrow> 'a raw_queue \<Rightarrow> (bool \<times> 'a raw_queue) outcome" where
  "cas_next al tail cur new q =
    obind (shared_deref al tail (nodes q)) (\<lambda>n.
      case compare_set shared_into_usize (nnext n) cur new of
        (a, Inr _) \<Rightarrow> Inr (True, q\<lparr>nodes := (nodes q)(shared_as_raw al tail \<mapsto> n\<lparr>nnext := a\<rparr>)\<rparr>)
      | (a, Inl _) \<Rightarrow> Inr (False, q))"

text \<open>Handing the new node to the guard after a lost race; a full guard is a panic that prints the queue.\<close>

definition qpush_guard_step ::
    "usize \<Rightarrow> owned push_pc \<Rightarrow> 'a raw_queue \<Rightarrow> (qpush_pc \<times> 'a raw_queue) outcome option" where
  "qpush_guard_step al gpc q =
    (case push_step gpc (push_guard q) of
       Inl f \<Rightarrow> Some (Inl f)
     | Inr (gpc', g) \<Rightarrow>
         (let q = q\<lparr>push_guard := g\<rparr> in
          case gpc' of
            Push_done (Inr _) \<Rightarrow> Some (Inr (Q_tail, q))
          | Push_done (Inl _) \<Rightarrow> map_option (\<lambda>r. obind r (\<lambda>_. Inl Panic)) (fmt_queue al q)
          | _ \<Rightarrow> Some (Inr (Q_guard gpc', q))))"

definition to_guard :: "shared \<Rightarrow> 'a raw_queue \<Rightarrow> (qpush_pc \<times> 'a raw_queue) outcome" where
  "to_guard new q = obind (shared_into_owned new) (\<lambda>ow. Inr (Q_guard (Push_load ow), q))"

fun qpush_step ::
    "usize \<Rightarrow> shared \<Rightarrow> qpush_pc \<Rightarrow> 'a raw_queue \<Rightarrow> (qpush_pc \<times> 'a raw_queue) outcome option" where
  "qpush_step al new Q_tail q = Some (Inr (Q_next (atomic_load (qtail q)), q))"
| "qpush_step al new (Q_next tail) q =
     Some (obind (node_next al tail q) (\<lambda>n. Inr (if shared_is_null al n then Q_empty tail else Q_half tail, q)))"
| "qpush_step al new (Q_half tail) q =
     (case cas_tail tail new q of
        (True, q) \<Rightarrow> Some (Inr (Q_done, q)) | (False, q) \<Rightarrow> Some (to_guard new q))"
| "qpush_step al new (Q_empty tail) q =
     Some (Inr (if pg_is_empty (push_guard q) then Q_next2 tail else Q_lock tail, q))"
| "qpush_step al new (Q_next2 tail) q =
     Some (obind (node_next al tail q) (\<lambda>n. Inr (if shared_is_null al n then Q_link tail else Q_lock tail, q)))"
| "qpush_step al new (Q_link tail) q =
     Some (obind (cas_next al tail shared_null new q) (\<lambda>(ok, q).
       if ok then Inr (Q_swing tail, q) else to_guard new q))"
| "qpush_step al new (Q_swing tail) q =
     (case cas_tail tail new q of
        (True, q) \<Rightarrow> Some (Inr (Q_done, q)) | (False, q) \<Rightarrow> Some (Inl Panic))"
| "qpush_step al new (Q_guard gpc) q = qpush_guard_step al gpc q"
| "qpush_step al new (Q_lock tail) q =
     map_option (\<lambda>(_, g). Inr (Q_print tail, q\<lparr>push_guard := g\<rparr>)) (pg_lock (push_guard q))"
| "qpush_step al new (Q_print tail) q =
     map_option (\<lambda>r. obind r (\<lambda>q. Inr (Q_steal tail Pop_load, q))) (fmt_queue al q)"
| "qpush_step al new (Q_steal tail gpc) q =
     Some (obind (pop_step gpc (push_guard q)) (\<lambda>(gpc, g).
       let q = q\<lparr>push_guard := g\<rparr> in
       case gpc of
         Pop_done (Inl _) \<Rightarrow> Inr (Q_unlock, q)
       | Pop_done (Inr ow) \<Rightarrow> obind (owned_into_shared ow) (\<lambda>sh. Inr (Q_stolen tail sh, q))
       | _ \<Rightarrow> Inr (Q_steal tail gpc, q)))"
| "qpush_step al new (Q_stolen tail sh) q =
     Some (obind (node_next al tail q) (\<lambda>n.
       Inr (if shared_is_null al n then Q_stolen_cur tail sh else Q_unlock, q)))"
| "qpush_step al new (Q_stolen_cur tail sh) q =
     Some (obind (node_next al tail q) (\<lambda>cur. Inr (Q_stolen_link tail sh cur, q)))"
| "qpush_step al new (Q_stolen_link tail sh cur) q =
     (case cas_next al tail cur sh q of
        Inl f \<Rightarrow> Some (Inl f)
      | Inr (True, q) \<Rightarrow> Some (Inr (Q_stolen_swing tail sh, q))
      | Inr (False, q) \<Rightarrow> map_option (\<lambda>r. obind r (\<lambda>q. Inr (Q_unlock, q))) (fmt_queue al q))"
| "qpush_step al new (Q_stolen_swing tail sh) q =
     (case cas_tail tail sh q of
        (True, q) \<Rightarrow> Some (Inr (Q_unlock, q)) | (False, q) \<Rightarrow> Some (Inl Panic))"
| "qpush_step al new Q_unlock q = Some (Inr (Q_tail, q\<lparr>push_guard := pg_unlock (push_guard q)\<rparr>))"
| "qpush_step al new Q_done q = Some (Inr (Q_done, q))"

section \<open>_pop\<close>

datatype 'a qpop_pc =
    R_head
  | R_next shared
  | R_cas shared shared
  | R_retire shared shared "owned push_pc"
  | R_lock shared shared
  | R_clear shared shared "owned pop_pc"
  | R_retire2 shared shared "owned push_pc"
  | R_read shared
  | R_done "'a option"

definition cas_head :: "shared \<Rightarrow> shared \<Rightarrow> 'a raw_queue \<Rightarrow> bool \<times> 'a raw_queue" where
  "cas_head cur new q =
    (case compare_set shared_into_usize (qhead q) cur new of
       (a, Inr _) \<Rightarrow> (True, q\<lparr>qhead := a\<rparr>) | (a, Inl _) \<Rightarrow> (False, q))"

text \<open>
  Retiring the old head into \<open>pop_guard\<close>. When the guard is full the rejected \<open>Owned\<close> is a temporary
  of the condition and dropped there, before the branch locks the guard and clears it.
\<close>

definition qpop_retire_step ::
    "usize \<Rightarrow> shared \<Rightarrow> shared \<Rightarrow> owned push_pc \<Rightarrow> 'a raw_queue \<Rightarrow> ('a qpop_pc \<times> 'a raw_queue) outcome" where
  "qpop_retire_step al old nxt gpc q =
    obind (push_step gpc (pop_guard q)) (\<lambda>(gpc, g).
      let q = q\<lparr>pop_guard := g\<rparr> in
      case gpc of
        Push_done (Inr _) \<Rightarrow> Inr (R_read nxt, q)
      | Push_done (Inl ow) \<Rightarrow> obind (owned_drop al ow (nodes q)) (\<lambda>h. Inr (R_lock old nxt, q\<lparr>nodes := h\<rparr>))
      | _ \<Rightarrow> Inr (R_retire old nxt gpc, q))"

definition qpop_clear_step ::
    "usize \<Rightarrow> shared \<Rightarrow> shared \<Rightarrow> owned pop_pc \<Rightarrow> 'a raw_queue \<Rightarrow> ('a qpop_pc \<times> 'a raw_queue) outcome" where
  "qpop_clear_step al old nxt gpc q =
    obind (pop_step gpc (pop_guard q)) (\<lambda>(gpc, g).
      let q = q\<lparr>pop_guard := g\<rparr> in
      case gpc of
        Pop_done (Inr ow) \<Rightarrow> obind (owned_drop al ow (nodes q)) (\<lambda>h. Inr (R_clear old nxt Pop_load, q\<lparr>nodes := h\<rparr>))
      | Pop_done (Inl _) \<Rightarrow> obind (shared_into_owned old) (\<lambda>ow. Inr (R_retire2 old nxt (Push_load ow), q))
      | _ \<Rightarrow> Inr (R_clear old nxt gpc, q))"

definition qpop_retire2_step ::
    "shared \<Rightarrow> shared \<Rightarrow> owned push_pc \<Rightarrow> 'a raw_queue \<Rightarrow> ('a qpop_pc \<times> 'a raw_queue) outcome" where
  "qpop_retire2_step old nxt gpc q =
    obind (push_step gpc (pop_guard q)) (\<lambda>(gpc, g).
      case gpc of
        Push_done (Inr _) \<Rightarrow> Inr (R_read nxt, q\<lparr>pop_guard := pg_unlock g\<rparr>)
      | Push_done (Inl ow) \<Rightarrow> Inl Panic
      | _ \<Rightarrow> Inr (R_retire2 old nxt gpc, q\<lparr>pop_guard := g\<rparr>))"

fun qpop_step ::
    "usize \<Rightarrow> 'a qpop_pc \<Rightarrow> 'a raw_queue \<Rightarrow> ('a qpop_pc \<times> 'a raw_queue) outcome option" where
  "qpop_step al R_head q = Some (Inr (R_next (atomic_load (qhead q)), q))"
| "qpop_step al (R_next head) q =
     Some (obind (node_next al head q) (\<lambda>n.
       Inr (if shared_is_null al n then R_done None else R_cas head n, q)))"
| "qpop_step al (R_cas head nxt) q =
     (case cas_head head nxt q of
        (True, q) \<Rightarrow>
          Some (obind (shared_into_owned head) (\<lambda>ow. Inr (R_retire head nxt (Push_load ow), q)))
      | (False, q) \<Rightarrow> map_option (\<lambda>r. obind r (\<lambda>q. Inr (R_head, q))) (fmt_queue al q))"
| "qpop_step al (R_retire old nxt gpc) q = Some (qpop_retire_step al old nxt gpc q)"
| "qpop_step al (R_lock old nxt) q =
     map_option (\<lambda>(_, g). Inr (R_clear old nxt Pop_load, q\<lparr>pop_guard := g\<rparr>)) (pg_lock (pop_guard q))"
| "qpop_step al (R_clear old nxt gpc) q = Some (qpop_clear_step al old nxt gpc q)"
| "qpop_step al (R_retire2 old nxt gpc) q = Some (qpop_retire2_step old nxt gpc q)"
| "qpop_step al (R_read nxt) q =
     Some (obind (shared_deref al nxt (nodes q)) (\<lambda>n.
       case ndata n of None \<Rightarrow> Inl Uninitialised | Some x \<Rightarrow> Inr (R_done (Some x), q)))"
| "qpop_step al (R_done r) q = Some (Inr (R_done r, q))"

section \<open>The operations\<close>

partial_function (option) run_push ::
    "usize \<Rightarrow> shared \<Rightarrow> qpush_pc \<Rightarrow> 'a raw_queue \<Rightarrow> 'a raw_queue outcome option" where
  "run_push al new pc q =
    (if pc = Q_done then Some (Inr q)
     else case qpush_step al new pc q of
            None \<Rightarrow> None
          | Some (Inl f) \<Rightarrow> Some (Inl f)
          | Some (Inr (pc', q')) \<Rightarrow> run_push al new pc' q')"

partial_function (option) run_pop ::
    "usize \<Rightarrow> 'a qpop_pc \<Rightarrow> 'a raw_queue \<Rightarrow> ('a option \<times> 'a raw_queue) outcome option" where
  "run_pop al pc q =
    (case pc of
       R_done r \<Rightarrow> Some (Inr (r, q))
     | _ \<Rightarrow> (case qpop_step al pc q of
               None \<Rightarrow> None
             | Some (Inl f) \<Rightarrow> Some (Inl f)
             | Some (Inr (pc', q')) \<Rightarrow> run_pop al pc' q'))"

definition new_node ::
    "usize \<Rightarrow> 'a qnode allocator \<Rightarrow> 'a \<Rightarrow> 'a raw_queue \<Rightarrow> (shared \<times> 'a raw_queue) outcome" where
  "new_node al alloc v q =
    obind (owned_new al alloc (node_new v) (nodes q)) (\<lambda>(ow, h).
    obind (owned_into_shared ow) (\<lambda>sh. Inr (sh, q\<lparr>nodes := h\<rparr>)))"

definition raw_push :: "usize \<Rightarrow> 'a qnode allocator \<Rightarrow> 'a \<Rightarrow> 'a raw_queue \<Rightarrow> 'a raw_queue outcome option" where
  "raw_push al alloc v q =
    (case new_node al alloc v q of
       Inl f \<Rightarrow> Some (Inl f) | Inr (sh, q) \<Rightarrow> run_push al sh Q_tail q)"

definition raw_try_pop :: "usize \<Rightarrow> 'a raw_queue \<Rightarrow> ('a option \<times> 'a raw_queue) outcome option" where
  "raw_try_pop al q = run_pop al R_head q"

text \<open>\<open>ShiftQueue::pop\<close> tries until there is an element.\<close>

partial_function (option) shift_pop :: "usize \<Rightarrow> 'a raw_queue \<Rightarrow> ('a \<times> 'a raw_queue) outcome option" where
  "shift_pop al q =
    (case raw_try_pop al q of
       None \<Rightarrow> None
     | Some (Inl f) \<Rightarrow> Some (Inl f)
     | Some (Inr (Some x, q)) \<Rightarrow> Some (Inr (x, q))
     | Some (Inr (None, q)) \<Rightarrow> shift_pop al q)"

text \<open>
  \<open>Drop\<close> for \<open>RawQueue\<close> pops and drops every element and then frees the last head; the result is the
  list of dropped elements and what is left of the heap. The guards have no \<open>Drop\<close> of their own.
\<close>

partial_function (option) raw_drain ::
    "usize \<Rightarrow> 'a list \<Rightarrow> 'a raw_queue \<Rightarrow> ('a list \<times> 'a raw_queue) outcome option" where
  "raw_drain al dropped q =
    (case raw_try_pop al q of
       None \<Rightarrow> None
     | Some (Inl f) \<Rightarrow> Some (Inl f)
     | Some (Inr (None, q)) \<Rightarrow> Some (Inr (dropped, q))
     | Some (Inr (Some x, q)) \<Rightarrow> raw_drain al (dropped @ [x]) q)"

definition raw_drop :: "usize \<Rightarrow> 'a raw_queue \<Rightarrow> ('a list \<times> 'a qnode heap) outcome option" where
  "raw_drop al q =
    map_option (\<lambda>r. obind r (\<lambda>(xs, q).
      obind (shared_into_owned (atomic_load (qhead q))) (\<lambda>ow.
      obind (owned_drop al ow (nodes q)) (\<lambda>h. Inr (xs, h)))))
    (raw_drain al [] q)"

end
