(* ===== verification/Fifo_Spec.thy ===== *)
theory Fifo_Spec
  imports Prelude
begin

text \<open>
  What a first-in first-out queue promises, for both queues of the crate. \<open>spec_run\<close> is the
  specification: a list, with insertion at the end and removal at the front. The locale \<open>fifo_queue\<close>
  is the interface: a relation between the concrete queue and a list, with a budget for the number of
  insertions (memory, counters) and of successful removals that the implementation can still serve,
  and the laws of the two operations. What a whole history of calls returns is proved once from these
  laws.
\<close>

datatype 'a qop = Enq 'a | Deq

fun spec_run :: "'a qop list \<Rightarrow> 'a list \<Rightarrow> 'a option list \<times> 'a list" where
  "spec_run [] xs = ([], xs)"
| "spec_run (Enq v # ops) xs = spec_run ops (xs @ [v])"
| "spec_run (Deq # ops) [] = (case spec_run ops [] of (os, ys) \<Rightarrow> (None # os, ys))"
| "spec_run (Deq # ops) (x # xs) = (case spec_run ops xs of (os, ys) \<Rightarrow> (Some x # os, ys))"

fun run_ops ::
    "('a \<Rightarrow> 'q \<Rightarrow> 'q outcome option) \<Rightarrow> ('q \<Rightarrow> ('a option \<times> 'q) outcome option) \<Rightarrow> 'a qop list \<Rightarrow> 'q
      \<Rightarrow> ('a option list \<times> 'q) outcome option" where
  "run_ops enq deq [] q = Some (Inr ([], q))"
| "run_ops enq deq (Enq v # ops) q =
     (case enq v q of
        None \<Rightarrow> None | Some (Inl f) \<Rightarrow> Some (Inl f) | Some (Inr q) \<Rightarrow> run_ops enq deq ops q)"
| "run_ops enq deq (Deq # ops) q =
     (case deq q of
        None \<Rightarrow> None
      | Some (Inl f) \<Rightarrow> Some (Inl f)
      | Some (Inr (r, q)) \<Rightarrow>
          map_option (\<lambda>res. obind res (\<lambda>(os, q). Inr (r # os, q))) (run_ops enq deq ops q))"

definition enqs :: "'a qop list \<Rightarrow> nat" where
  "enqs ops = length (filter (\<lambda>x. x \<noteq> Deq) ops)"

definition taken :: "'a qop list \<Rightarrow> 'a list \<Rightarrow> nat" where
  "taken ops xs = length (filter (\<lambda>r. r \<noteq> None) (fst (spec_run ops xs)))"

lemma enqs_simps [simp]: "enqs [] = 0" "enqs (Enq v # ops) = Suc (enqs ops)" "enqs (Deq # ops) = enqs ops"
  by (simp_all add: enqs_def)

lemma taken_simps [simp]:
  "taken [] xs = 0" "taken (Enq v # ops) xs = taken ops (xs @ [v])"
  "taken (Deq # ops) [] = taken ops []" "taken (Deq # ops) (x # xs) = Suc (taken ops xs)"
  by (simp_all add: taken_def split: prod.splits)

text \<open>Histories compose, and nothing is made up or lost: what came out and what is left is what was there and went in.\<close>

lemma spec_run_append:
  "spec_run (ops @ ops') xs =
    (case spec_run ops xs of (os, ys) \<Rightarrow> case spec_run ops' ys of (os', zs) \<Rightarrow> (os @ os', zs))"
  by (induction ops xs rule: spec_run.induct) (auto split: prod.splits)

lemma spec_run_conserves:
  "map the (filter (\<lambda>r. r \<noteq> None) (fst (spec_run ops xs))) @ snd (spec_run ops xs) =
   xs @ concat (map (\<lambda>x. case x of Enq v \<Rightarrow> [v] | Deq \<Rightarrow> []) ops)"
  by (induction ops xs rule: spec_run.induct) (auto split: prod.splits)

lemma run_ops_append:
  "run_ops enq deq (ops @ ops') q =
    (case run_ops enq deq ops q of
       None \<Rightarrow> None
     | Some (Inl f) \<Rightarrow> Some (Inl f)
     | Some (Inr (os, q')) \<Rightarrow>
         map_option (\<lambda>r. obind r (\<lambda>(os', q''). Inr (os @ os', q''))) (run_ops enq deq ops' q'))"
proof (induction enq deq ops q rule: run_ops.induct)
  case (1 enq deq q)
  show ?case by (cases "run_ops enq deq ops' q") (auto split: sum.splits, metis obind.simps sumE surj_pair)
next
  case (2 enq deq v ops q)
  then show ?case by (auto split: option.splits sum.splits)
next
  case (3 enq deq ops q)
  show ?case
  proof (cases "\<exists>r q'. deq q = Some (Inr (r, q'))")
    case True
    then obtain r q' where d: "deq q = Some (Inr (r, q'))" by blast
    note ih = 3[OF d refl refl]
    show ?thesis
      using d ih by (auto simp: option.map_comp comp_def obind_assoc split: option.splits sum.splits prod.splits
          intro!: option.map_cong arg_cong[where f = "obind _"])
  qed (auto split: option.splits sum.splits prod.splits)
qed

locale fifo_queue =
  fixes enq :: "'a \<Rightarrow> 'q \<Rightarrow> 'q outcome option"
    and deq :: "'q \<Rightarrow> ('a option \<times> 'q) outcome option"
    and rep :: "'q \<Rightarrow> 'a list \<Rightarrow> nat \<Rightarrow> nat \<Rightarrow> bool"
  assumes enq_back: "rep q xs (Suc e) d \<Longrightarrow> \<exists>q'. enq v q = Some (Inr q') \<and> rep q' (xs @ [v]) e d"
    and deq_front: "rep q (x # xs) e (Suc d) \<Longrightarrow> \<exists>q'. deq q = Some (Inr (Some x, q')) \<and> rep q' xs e d"
    and deq_none: "rep q [] e d \<Longrightarrow> \<exists>q'. deq q = Some (Inr (None, q')) \<and> rep q' [] e d"
begin

lemma run_ops_spec:
  "rep q xs (enqs ops + e) (taken ops xs + d) \<Longrightarrow>
   \<exists>q'. run_ops enq deq ops q = Some (Inr (fst (spec_run ops xs), q')) \<and>
     rep q' (snd (spec_run ops xs)) e d"
proof (induction ops xs arbitrary: q rule: spec_run.induct)
  case (2 v ops xs)
  then obtain q' where "enq v q = Some (Inr q')" "rep q' (xs @ [v]) (enqs ops + e) (taken ops (xs @ [v]) + d)"
    using enq_back[of q xs "enqs ops + e" _ v] by auto
  with 2 show ?case by auto
next
  case (3 ops)
  then obtain q' where "deq q = Some (Inr (None, q'))" "rep q' [] (enqs ops + e) (taken ops [] + d)"
    using deq_none[of q "enqs ops + e" "taken ops [] + d"] by auto
  with 3 show ?case by (auto split: prod.splits)
next
  case (4 ops x xs)
  then obtain q' where "deq q = Some (Inr (Some x, q'))" "rep q' xs (enqs ops + e) (taken ops xs + d)"
    using deq_front[of q x xs _ "taken ops xs + d"] by auto
  with 4 show ?case by (auto split: prod.splits)
qed auto

lemma drain_order:
  "rep q xs e (length xs + d) \<Longrightarrow>
   \<exists>q'. run_ops enq deq (replicate (length xs) Deq) q = Some (Inr (map Some xs, q')) \<and> rep q' [] e d"
proof (induction xs arbitrary: q)
  case (Cons x xs)
  then obtain q' where "deq q = Some (Inr (Some x, q'))" "rep q' xs e (length xs + d)"
    using deq_front[of q x xs e "length xs + d"] by auto
  with Cons.IH[of q'] show ?case by auto
qed auto

end

end
