(* ===== verification/Queue_Fifo.thy ===== *)
theory Queue_Fifo
  imports Raw_Queue Fifo_Spec
begin

text \<open>
  The queue used by one thread. The representation relation says that the nodes form a list from
  the head to the tail, that the guard of \<open>push\<close> is empty and that the guard of \<open>pop\<close> holds the
  retired nodes. Under it \<open>push\<close> and \<open>try_pop\<close> return, and implement insertion at the end and removal at
  the front of a list, as long as the guard of \<open>pop\<close> has room; the first removal after that faults.
\<close>

section \<open>Representation\<close>

definition vptr :: "usize \<Rightarrow> ptr \<Rightarrow> bool" where
  "vptr al p \<longleftrightarrow> decompose_data al p = p \<and> p \<noteq> null"

definition nxt :: "'a qnode heap \<Rightarrow> ptr \<Rightarrow> ptr" where
  "nxt h p = (case h p of Some n \<Rightarrow> atomic_data (nnext n) | None \<Rightarrow> null)"

definition dat :: "'a qnode heap \<Rightarrow> ptr \<Rightarrow> 'a option" where
  "dat h p = (case h p of Some n \<Rightarrow> ndata n | None \<Rightarrow> None)"

definition chain :: "usize \<Rightarrow> 'a qnode heap \<Rightarrow> ptr list \<Rightarrow> 'a list \<Rightarrow> bool" where
  "chain al h ps xs \<longleftrightarrow> ps \<noteq> [] \<and> distinct ps \<and> (\<forall>p \<in> set ps. vptr al p) \<and> set ps \<subseteq> dom h \<and>
     seg (nxt h) (hd ps) ps null \<and> map (dat h) (tl ps) = map Some xs"

definition rep :: "usize \<Rightarrow> 'a raw_queue \<Rightarrow> ptr list \<Rightarrow> 'a list \<Rightarrow> ptr list \<Rightarrow> bool" where
  "rep al q ps xs ret \<longleftrightarrow> chain al (nodes q) ps xs \<and>
     qhead q = Atomic (hd ps) \<and> qtail q = Atomic (last ps) \<and> len (push_guard q) = 0 \<and>
     stored (pop_guard q) (map Owned ret) \<and> glock (pop_guard q) = small_new raw_INIT () \<and>
     distinct (ret @ ps) \<and> set ret \<subseteq> dom (nodes q)"

lemma vptr_simps [simp]:
  assumes "vptr al p"
  shows "shared_as_raw al (Shared p) = p" "\<not> shared_is_null al (Shared p)"
    "owned_as_raw al (Owned p) = p"
    "owned_drop al (Owned p) h = box_drop p h"
  using assms by (auto simp: vptr_def shared_as_raw_def shared_is_null_def owned_as_raw_def owned_drop_def)

lemma vptr_into_owned: "vptr al p \<Longrightarrow> shared_into_owned (Shared p) = Inr (Owned p)"
  by (simp add: vptr_def shared_into_owned_def owned_from_usize_def)

lemma null_is_null [simp]: "shared_is_null al (Shared null)"
  by (simp add: shared_is_null_def shared_as_raw_def decompose_data_def)

lemma load_Atomic [simp]: "atomic_load (Atomic p) = Shared p"
  by (simp add: atomic_load_def)

lemma node_next_vptr:
  "vptr al p \<Longrightarrow> p \<in> dom (nodes q) \<Longrightarrow> node_next al (Shared p) q = Inr (Shared (nxt (nodes q) p))"
  by (auto simp: node_next_def shared_deref_def deref_def nxt_def atomic_load_def)

lemma cas_tail_eq [simp]:
  "cas_tail (Shared p) (Shared n) q =
    (if qtail q = Atomic p then (True, q\<lparr>qtail := Atomic n\<rparr>) else (False, q))"
  by (cases "qtail q") (simp add: cas_tail_def compare_set_def shared_into_usize_def)

lemma cas_head_eq [simp]:
  "cas_head (Shared p) (Shared n) q =
    (if qhead q = Atomic p then (True, q\<lparr>qhead := Atomic n\<rparr>) else (False, q))"
  by (cases "qhead q") (simp add: cas_head_def compare_set_def shared_into_usize_def)

definition link_node :: "ptr \<Rightarrow> ptr \<Rightarrow> 'a qnode heap \<Rightarrow> 'a qnode heap" where
  "link_node p n h = h(p := map_option (\<lambda>nd. nd\<lparr>nnext := Atomic n\<rparr>) (h p))"

lemma link_node_simps [simp]:
  "dom (link_node p n h) = dom h" "dat (link_node p n h) = dat h"
  "p \<in> dom h \<Longrightarrow> nxt (link_node p n h) = (nxt h)(p := n)"
  by (auto simp: link_node_def dat_def nxt_def fun_eq_iff split: if_splits option.splits)

lemma cas_next_null:
  assumes "vptr al p" "p \<in> dom (nodes q)"
  shows "cas_next al (Shared p) shared_null (Shared n) q =
    (if nxt (nodes q) p = null then Inr (True, q\<lparr>nodes := link_node p n (nodes q)\<rparr>) else Inr (False, q))"
  using assms
  by (auto simp: cas_next_def shared_deref_def deref_def compare_set_def shared_into_usize_def shared_null_def
      nxt_def link_node_def Let_def)

section \<open>Nodes\<close>

lemma chain_last:
  assumes "chain al h ps xs"
  shows "vptr al (last ps)" "last ps \<in> dom h" "nxt h (last ps) = null"
proof -
  have ne: "ps \<noteq> []" using assms by (simp add: chain_def)
  show "vptr al (last ps)" "last ps \<in> dom h" using assms last_in_set[OF ne] by (simp_all add: chain_def subset_iff)
  show "nxt h (last ps) = null"
    using assms ne by (cases ps rule: rev_cases) (auto simp: chain_def seg_snoc)
qed

lemma chain_hd:
  assumes "chain al h ps xs"
  shows "vptr al (hd ps)" "hd ps \<in> dom h"
  using assms hd_in_set[of ps] by (simp_all add: chain_def subset_iff)

lemma chain_other:
  assumes "chain al h ps xs" "\<And>p. p \<in> set ps \<Longrightarrow> h' p = h p"
  shows "chain al h' ps xs"
proof -
  have "seg (nxt h') (hd ps) ps null \<longleftrightarrow> seg (nxt h) (hd ps) ps null"
    using assms(2) by (intro seg_cong) (simp add: nxt_def)
  moreover have "map (dat h') (tl ps) = map (dat h) (tl ps)"
    using assms(2) by (intro map_cong refl) (metis dat_def list.set_sel(2) tl_Nil)
  moreover have "set ps \<subseteq> dom h'" using assms by (auto simp: chain_def)
  ultimately show ?thesis using assms(1) unfolding chain_def by metis
qed

lemma chain_link:
  assumes "chain al h ps xs" "vptr al n" "n \<notin> set ps" "h n = Some (node_new v)"
  shows "chain al (link_node (last ps) n h) (ps @ [n]) (xs @ [v])"
proof -
  note l = chain_last[OF assms(1)]
  have c: "ps \<noteq> []" "distinct ps" "seg (nxt h) (hd ps) ps null"
    using assms(1) by (simp_all add: chain_def)
  have "nxt h n = null" "dat h n = Some v"
    using assms(4) by (simp_all add: nxt_def dat_def node_new_def atomic_null_def)
  then have "seg ((nxt h)(last ps := n)) (hd ps) (ps @ [n]) null"
    using seg_extend[OF c(3,2,1) assms(3)] by simp
  then show ?thesis using assms l c(1) \<open>dat h n = Some v\<close>
    by (auto simp: chain_def)
qed

lemma chain_Cons2:
  assumes "chain al h (p # ps) (x # xs)"
  shows "\<exists>n ns. ps = n # ns \<and> nxt h p = n \<and> dat h n = Some x \<and> vptr al n \<and> chain al h (n # ns) xs"
  using assms by (cases ps) (auto simp: chain_def)

lemma chain_Nil: "chain al h ps [] \<Longrightarrow> \<exists>p. ps = [p]"
  by (cases ps) (auto simp: chain_def)

lemma new_node_ok:
  assumes "good_alloc al alloc" "alloc (nodes q) = Some n"
  shows "new_node al alloc v q = Inr (Shared n, q\<lparr>nodes := (nodes q)(n \<mapsto> node_new v)\<rparr>)"
  using owned_new_ok[OF assms] by (simp add: new_node_def owned_into_shared_def owned_into_usize_def shared_from_usize_def)

lemma good_alloc_vptr: "good_alloc al alloc \<Longrightarrow> alloc h = Some p \<Longrightarrow> vptr al p \<and> p \<notin> dom h"
  using good_alloc_as_raw[of al alloc h p] by (auto simp: vptr_def)

section \<open>Running one operation\<close>

lemma run_push_step:
  "pc \<noteq> Q_done \<Longrightarrow> qpush_step al new pc q = Some (Inr (pc', q')) \<Longrightarrow> run_push al new pc q = run_push al new pc' q'"
  by (subst run_push.simps) simp

lemma run_push_done: "run_push al new Q_done q = Some (Inr q)"
  by (subst run_push.simps) simp

lemma run_pop_step:
  "\<forall>r. pc \<noteq> R_done r \<Longrightarrow> qpop_step al pc q = Some (Inr (pc', q')) \<Longrightarrow> run_pop al pc q = run_pop al pc' q'"
  by (subst run_pop.simps) (cases pc; simp del: qpop_step.simps)

lemma run_pop_fault:
  "\<forall>r. pc \<noteq> R_done r \<Longrightarrow> qpop_step al pc q = Some (Inl f) \<Longrightarrow> run_pop al pc q = Some (Inl f)"
  by (subst run_pop.simps) (cases pc; simp del: qpop_step.simps)

lemma run_pop_done: "run_pop al (R_done r) q = Some (Inr (r, q))"
  by (subst run_pop.simps) simp

lemma run_push_common:
  assumes "chain al (nodes q) ps xs" "qtail q = Atomic (last ps)" "len (push_guard q) = 0"
  shows "run_push al (Shared n) Q_tail q =
    Some (Inr (q\<lparr>nodes := link_node (last ps) n (nodes q), qtail := Atomic n\<rparr>))"
proof -
  note l = chain_last[OF assms(1)]
  have nn: "node_next al (Shared (last ps)) q = Inr (Shared null)"
    using node_next_vptr[OF l(1,2)] l(3) by simp
  have "run_push al (Shared n) Q_tail q = run_push al (Shared n) (Q_next (Shared (last ps))) q"
    by (rule run_push_step) (simp_all add: assms(2))
  also have "\<dots> = run_push al (Shared n) (Q_empty (Shared (last ps))) q"
    by (rule run_push_step) (simp_all add: nn)
  also have "\<dots> = run_push al (Shared n) (Q_next2 (Shared (last ps))) q"
    by (rule run_push_step) (simp_all add: pg_is_empty_def assms(3))
  also have "\<dots> = run_push al (Shared n) (Q_link (Shared (last ps))) q"
    by (rule run_push_step) (simp_all add: nn)
  also have "\<dots> = run_push al (Shared n) (Q_swing (Shared (last ps))) (q\<lparr>nodes := link_node (last ps) n (nodes q)\<rparr>)"
    by (rule run_push_step) (simp_all add: cas_next_null[OF l(1,2)] l(3))
  also have "\<dots> = run_push al (Shared n) Q_done
      (q\<lparr>nodes := link_node (last ps) n (nodes q), qtail := Atomic n\<rparr>)"
    by (rule run_push_step) (simp_all add: assms(2))
  finally show ?thesis by (simp add: run_push_done)
qed

lemma raw_push_rep:
  assumes "rep al q ps xs ret" "good_alloc al alloc" "alloc (nodes q) = Some n"
  shows "\<exists>q'. raw_push al alloc v q = Some (Inr q') \<and> rep al q' (ps @ [n]) (xs @ [v]) ret \<and>
    dom (nodes q') = insert n (dom (nodes q)) \<and> cap (pop_guard q') = cap (pop_guard q)"
proof -
  let ?h = "(nodes q)(n \<mapsto> node_new v)"
  have r: "chain al (nodes q) ps xs" "set ps \<subseteq> dom (nodes q)" "qtail q = Atomic (last ps)"
    "len (push_guard q) = 0" "set ret \<subseteq> dom (nodes q)" "ps \<noteq> []"
    using assms(1) by (auto simp: rep_def chain_def)
  have n: "vptr al n" "n \<notin> dom (nodes q)" using good_alloc_vptr[OF assms(2,3)] by auto
  then have c: "chain al ?h ps xs" using r by (intro chain_other[OF r(1)]) auto
  have "raw_push al alloc v q = Some (Inr (q\<lparr>nodes := link_node (last ps) n ?h, qtail := Atomic n\<rparr>))"
    using run_push_common[of al "q\<lparr>nodes := ?h\<rparr>" ps xs n] c r
    by (simp add: raw_push_def new_node_ok[OF assms(2,3)])
  moreover have "chain al (link_node (last ps) n ?h) (ps @ [n]) (xs @ [v])"
    using n r(2) by (intro chain_link[OF c]) auto
  then have "rep al (q\<lparr>nodes := link_node (last ps) n ?h, qtail := Atomic n\<rparr>) (ps @ [n]) (xs @ [v]) ret"
    using assms(1) n r by (auto simp: rep_def)
  ultimately show ?thesis by auto
qed

subsection \<open>Removal\<close>

lemma run_pop_empty:
  assumes "rep al q ps [] ret"
  shows "raw_try_pop al q = Some (Inr (None, q))"
proof -
  obtain p where ps: "ps = [p]" using assms chain_Nil[of al "nodes q" ps] by (auto simp: rep_def)
  have c: "chain al (nodes q) [p] []" "qhead q = Atomic p" using assms by (auto simp: rep_def ps)
  note l = chain_last[OF c(1), simplified]
  have nn: "node_next al (Shared p) q = Inr (Shared null)"
    using node_next_vptr[of al p q] l by simp
  have "raw_try_pop al q = run_pop al (R_next (Shared p)) q"
    unfolding raw_try_pop_def by (rule run_pop_step) (simp_all add: c)
  also have "\<dots> = run_pop al (R_done None) q"
    by (rule run_pop_step) (simp_all add: nn)
  finally show ?thesis by (simp add: run_pop_done)
qed

text \<open>Up to the point where the old head \<open>p\<close> is about to be retired.\<close>

lemma run_pop_cas:
  assumes "rep al q (p # n # ns) (x # xs) ret"
  shows "raw_try_pop al q =
    run_pop al (R_retire (Shared p) (Shared n) (Push_load (Owned p))) (q\<lparr>qhead := Atomic n\<rparr>)"
proof -
  have c: "chain al (nodes q) (p # n # ns) (x # xs)" "qhead q = Atomic p" using assms by (auto simp: rep_def)
  have p: "vptr al p" "p \<in> dom (nodes q)" using chain_hd[OF c(1)] by simp_all
  have n: "nxt (nodes q) p = n" "vptr al n" using chain_Cons2[OF c(1)] by auto
  have nn: "node_next al (Shared p) q = Inr (Shared n)" using node_next_vptr[OF p] n by simp
  have "raw_try_pop al q = run_pop al (R_next (Shared p)) q"
    unfolding raw_try_pop_def by (rule run_pop_step) (simp_all add: c)
  also have "\<dots> = run_pop al (R_cas (Shared p) (Shared n)) q"
    by (rule run_pop_step) (simp_all add: nn n)
  also have "\<dots> = run_pop al (R_retire (Shared p) (Shared n) (Push_load (Owned p))) (q\<lparr>qhead := Atomic n\<rparr>)"
    by (rule run_pop_step) (simp_all add: c vptr_into_owned[OF p(1)])
  finally show ?thesis .
qed

text \<open>A push onto a guard with room, as the three steps of \<open>R_retire\<close>.\<close>

lemma run_pop_retire:
  assumes "wf_guard (pop_guard q)" "len (pop_guard q) \<noteq> cap (pop_guard q)"
  shows "\<exists>g. pg_push ow (pop_guard q) = Inr (Inr (), g) \<and>
    run_pop al (R_retire old nx (Push_load ow)) q = run_pop al (R_read nx) (q\<lparr>pop_guard := g\<rparr>)"
proof -
  let ?g = "pop_guard q"
  let ?g1 = "?g\<lparr>cells := (cells ?g)[unat (len ?g) := Some ow]\<rparr>"
  let ?g2 = "?g1\<lparr>len := len ?g + 1\<rparr>"
  have b: "unat (len ?g) < length (cells ?g)"
    using assms by (simp add: wf_guard_def word_less_nat_alt[symmetric] order_le_neq_trans)
  have "run_pop al (R_retire old nx (Push_load ow)) q = run_pop al (R_retire old nx (Push_write ow (len ?g))) q"
    by (rule run_pop_step) (simp_all add: qpop_retire_step_def assms)
  also have "\<dots> = run_pop al (R_retire old nx (Push_cas (len ?g))) (q\<lparr>pop_guard := ?g1\<rparr>)"
    by (rule run_pop_step) (simp_all add: qpop_retire_step_def cell_write_def b)
  also have "\<dots> = run_pop al (R_read nx) (q\<lparr>pop_guard := ?g2\<rparr>)"
    by (rule run_pop_step) (simp_all add: qpop_retire_step_def len_cas_def)
  finally show ?thesis using pg_push_room[OF assms, of ow] by simp
qed

lemma run_pop_read:
  assumes "vptr al n" "dat (nodes q) n = Some x"
  shows "run_pop al (R_read (Shared n)) q = Some (Inr (Some x, q))"
proof -
  have "run_pop al (R_read (Shared n)) q = run_pop al (R_done (Some x)) q"
    using assms by (intro run_pop_step) (auto simp: shared_deref_def deref_def dat_def split: option.splits)
  then show ?thesis by (simp add: run_pop_done)
qed

lemma raw_pop_rep:
  assumes "rep al q ps (x # xs) ret" "length ret < unat (cap (pop_guard q))"
  shows "\<exists>p ps' q'. ps = p # ps' \<and> raw_try_pop al q = Some (Inr (Some x, q')) \<and>
    rep al q' ps' xs (ret @ [p]) \<and> nodes q' = nodes q \<and> cap (pop_guard q') = cap (pop_guard q)"
proof -
  have c: "chain al (nodes q) ps (x # xs)" and st: "stored (pop_guard q) (map Owned ret)"
    using assms(1) by (simp_all add: rep_def)
  obtain p ps' where ps: "ps = p # ps'" using c by (cases ps) (auto simp: chain_def)
  obtain n ns where n: "ps' = n # ns" "dat (nodes q) n = Some x" "vptr al n" "chain al (nodes q) (n # ns) xs"
    using chain_Cons2[of al "nodes q" p ps' x xs] c ps by auto
  have g: "wf_guard (pop_guard q)" "len (pop_guard q) \<noteq> cap (pop_guard q)"
    using st stored_room[OF st] assms(2) by (simp_all add: stored_def)
  obtain g' where g': "pg_push (Owned p) (pop_guard q) = Inr (Inr (), g')"
    "run_pop al (R_retire (Shared p) (Shared n) (Push_load (Owned p))) (q\<lparr>qhead := Atomic n\<rparr>) =
     run_pop al (R_read (Shared n)) (q\<lparr>qhead := Atomic n, pop_guard := g'\<rparr>)"
    using run_pop_retire[of "q\<lparr>qhead := Atomic n\<rparr>" "Owned p" al "Shared p" "Shared n"] g by auto
  have sg: "stored g' (map Owned (ret @ [p]))" "cap g' = cap (pop_guard q)"
    using stored_push[OF st, of "Owned p"] g'(1) assms(2) by auto
  have gl: "glock g' = glock (pop_guard q)" using pg_push_room[OF g, of "Owned p"] g'(1) by auto
  have "raw_try_pop al q = Some (Inr (Some x, q\<lparr>qhead := Atomic n, pop_guard := g'\<rparr>))"
    using run_pop_cas[of al q p n ns x xs ret] assms(1) ps n g'(2) by (simp add: run_pop_read)
  moreover have "rep al (q\<lparr>qhead := Atomic n, pop_guard := g'\<rparr>) ps' xs (ret @ [p])"
    using assms(1) sg gl n ps c by (auto simp: rep_def chain_def)
  ultimately show ?thesis using ps sg by auto
qed

text \<open>
  With a full guard the old head is freed, and clearing the guard starts with a read past its end;
  a guard without any capacity rejects the old head a second time.
\<close>

lemma raw_pop_full:
  assumes "rep al q ps (x # xs) ret" "length ret = unat (cap (pop_guard q))"
  shows "raw_try_pop al q = Some (Inl (if cap (pop_guard q) = 0 then Panic else Out_of_bounds))"
proof -
  have c: "chain al (nodes q) ps (x # xs)" and st: "stored (pop_guard q) (map Owned ret)"
    using assms(1) by (simp_all add: rep_def)
  obtain p n ns where ps: "ps = p # n # ns"
    using c chain_Cons2[of al "nodes q" "hd ps" "tl ps" x xs] by (cases ps) (auto simp: chain_def)
  have p: "vptr al p" "p \<in> dom (nodes q)" using chain_hd[OF c] ps by simp_all
  let ?g = "pop_guard q"
  have full: "len ?g = cap ?g" using st assms(2) by (simp add: stored_def word_unat_eq_iff)
  have cl: "length (cells ?g) = unat (cap ?g)" using st unfolding stored_def wf_guard_def by blast
  obtain g' where lk: "pg_lock ?g = Some (MutexGuard, g')" "len g' = len ?g" "cells g' = cells ?g" "cap g' = cap ?g"
    using assms(1) by (auto simp: rep_def pg_lock_def small_lock_def raw_lock_def small_new_def raw_INIT_def)
  let ?h = "(nodes q)(p := None)"
  let ?q = "q\<lparr>qhead := Atomic n, nodes := ?h\<rparr>"
  have "raw_try_pop al q = run_pop al (R_retire (Shared p) (Shared n) (Push_load (Owned p))) (q\<lparr>qhead := Atomic n\<rparr>)"
    using run_pop_cas[of al q p n ns x xs ret] assms(1) ps by simp
  also have "\<dots> = run_pop al (R_lock (Shared p) (Shared n)) ?q"
    using p by (intro run_pop_step) (auto simp: qpop_retire_step_def full box_drop_def)
  also have "\<dots> = run_pop al (R_clear (Shared p) (Shared n) Pop_load) (?q\<lparr>pop_guard := g'\<rparr>)"
    by (rule run_pop_step) (simp_all add: lk)
  finally have run: "raw_try_pop al q = \<dots>" .
  show ?thesis
  proof (cases "cap ?g = 0")
    case True
    have "run_pop al (R_clear (Shared p) (Shared n) Pop_load) (?q\<lparr>pop_guard := g'\<rparr>) =
        run_pop al (R_retire2 (Shared p) (Shared n) (Push_load (Owned p))) (?q\<lparr>pop_guard := g'\<rparr>)"
      by (rule run_pop_step) (simp_all add: qpop_clear_step_def full lk True vptr_into_owned[OF p(1)])
    also have "\<dots> = Some (Inl Panic)"
      by (rule run_pop_fault) (simp_all add: qpop_retire2_step_def full lk True)
    finally show ?thesis using run True by simp
  next
    case False
    let ?c = "Pop_cas (cap ?g) :: owned pop_pc" and ?r = "Pop_read (cap ?g) :: owned pop_pc"
    have "run_pop al (R_clear (Shared p) (Shared n) Pop_load) (?q\<lparr>pop_guard := g'\<rparr>) =
        run_pop al (R_clear (Shared p) (Shared n) ?c) (?q\<lparr>pop_guard := g'\<rparr>)"
      by (rule run_pop_step) (simp_all add: qpop_clear_step_def full lk False)
    also have "\<dots> = run_pop al (R_clear (Shared p) (Shared n) ?r) (?q\<lparr>pop_guard := g'\<lparr>len := cap ?g - 1\<rparr>\<rparr>)"
      by (rule run_pop_step) (simp_all add: qpop_clear_step_def len_cas_def full lk)
    also have "\<dots> = Some (Inl Out_of_bounds)"
      by (rule run_pop_fault) (simp_all add: qpop_clear_step_def cell_read_def lk cl)
    finally show ?thesis using run False by simp
  qed
qed

section \<open>The queue as an implementation of \<open>fifo_queue\<close>\<close>

definition raw_rep ::
    "usize \<Rightarrow> 'a qnode allocator \<Rightarrow> nat \<Rightarrow> usize \<Rightarrow> 'a raw_queue \<Rightarrow> 'a list \<Rightarrow> nat \<Rightarrow> nat \<Rightarrow> bool" where
  "raw_rep al alloc N c q xs e d \<longleftrightarrow> good_alloc al alloc \<and> roomy alloc N \<and> cap (pop_guard q) = c \<and>
     card (dom (nodes q)) + e = N \<and>
     (\<exists>ps ret. rep al q ps xs ret \<and> length ret + d = unat c)"

lemma raw_rep_enq:
  assumes "raw_rep al alloc N c q xs (Suc e) d"
  shows "\<exists>q'. raw_push al alloc v q = Some (Inr q') \<and> raw_rep al alloc N c q' (xs @ [v]) e d"
proof -
  obtain ps ret where r: "rep al q ps xs ret" "length ret + d = unat c" "cap (pop_guard q) = c"
    and a: "good_alloc al alloc" "roomy alloc N" "card (dom (nodes q)) + Suc e = N"
    using assms by (auto simp: raw_rep_def)
  have "card (dom (nodes q)) < N" using a(3) by simp
  then obtain n where n: "alloc (nodes q) = Some n" using a(2) unfolding roomy_def by blast
  obtain q' where "raw_push al alloc v q = Some (Inr q')" "rep al q' (ps @ [n]) (xs @ [v]) ret"
    "dom (nodes q') = insert n (dom (nodes q))" "cap (pop_guard q') = cap (pop_guard q)"
    using raw_push_rep[OF r(1) a(1) n] by blast
  then show ?thesis using r a good_alloc_vptr[OF a(1) n] by (auto simp: raw_rep_def)
qed

lemma raw_rep_deq:
  assumes "raw_rep al alloc N c q (x # xs) e (Suc d)"
  shows "\<exists>q'. raw_try_pop al q = Some (Inr (Some x, q')) \<and> raw_rep al alloc N c q' xs e d"
proof -
  obtain ps ret where r: "rep al q ps (x # xs) ret" "length ret + Suc d = unat c" "cap (pop_guard q) = c"
    using assms by (auto simp: raw_rep_def)
  obtain p ps' q' where "raw_try_pop al q = Some (Inr (Some x, q'))" "rep al q' ps' xs (ret @ [p])"
    "nodes q' = nodes q" "cap (pop_guard q') = cap (pop_guard q)"
    using raw_pop_rep[OF r(1)] r(2,3) by auto
  moreover have "length (ret @ [p]) + d = unat c" using r(2) by simp
  ultimately show ?thesis using assms unfolding raw_rep_def by metis
qed

interpretation raw_fifo: fifo_queue "raw_push al alloc" "raw_try_pop al" "raw_rep al alloc N c" for al alloc N c
proof
  show "\<exists>q'. raw_try_pop al q = Some (Inr (None, q')) \<and> raw_rep al alloc N c q' [] e d"
    if "raw_rep al alloc N c q [] e d" for q :: "'a raw_queue" and e d
    using that run_pop_empty by (fastforce simp: raw_rep_def)
qed (blast intro: raw_rep_enq raw_rep_deq)+

lemma rep_new:
  assumes "raw_with_threads al alloc gal gsz galloc threads h = Inr q" "good_alloc al alloc"
  shows "\<exists>p. rep al q [p] [] [] \<and> cap (pop_guard q) = threads \<and> dom (nodes q) = insert p (dom h) \<and> p \<notin> dom h"
proof -
  obtain g where g: "(pg_with gal gsz galloc threads :: owned ptr_guard outcome) = Inr g"
    using assms(1) by (auto simp: raw_with_threads_def raw_with_def)
  obtain p where p: "alloc h = Some p"
    using assms(1) by (auto simp: raw_with_threads_def raw_with_def owned_new_def box_new_def split: option.splits)
  note st = stored_fresh[OF g] and v = good_alloc_vptr[OF assms(2) p]
  have q: "q = \<lparr>nodes = h(p \<mapsto> node_default), qhead = Atomic p, qtail = Atomic p, push_guard = g, pop_guard = g\<rparr>"
    using assms(1) g owned_new_ok[OF assms(2) p]
    by (auto simp: raw_with_threads_def raw_with_def owned_into_shared_def owned_into_usize_def
        shared_from_usize_def atomic_store_def shared_into_usize_def)
  have "rep al q [p] [] []"
    using st v g by (auto simp: q rep_def chain_def nxt_def node_default_def atomic_null_def stored_def
        pg_with_def)
  then show ?thesis using v st by (auto simp: q)
qed

lemma raw_rep_new:
  assumes "raw_with_threads al alloc gal gsz galloc threads h = Inr q" "good_alloc al alloc"
    "roomy alloc N" "card (dom h) + 1 + e = N"
  shows "raw_rep al alloc N threads q [] e (unat threads)"
  using rep_new[OF assms(1,2)] assms(2-4) unfolding raw_rep_def by (auto simp: card_insert_if domIff)

lemma chain_is_empty:
  assumes "chain al (nodes q) ps xs" "qhead q = Atomic (hd ps)"
  shows "raw_is_empty al q = Inr (xs = [])"
proof (cases xs)
  case Nil
  then obtain p where ps: "ps = [p]" using assms(1) chain_Nil[of al "nodes q" ps] by auto
  then show ?thesis using assms chain_last[OF assms(1)] node_next_vptr[of al p q] Nil by (simp add: raw_is_empty_def)
next
  case (Cons x xs')
  obtain p ps' where ps: "ps = p # ps'" using assms(1) by (cases ps) (auto simp: chain_def)
  then show ?thesis
    using chain_hd[OF assms(1)] chain_Cons2[of al "nodes q" p ps' x xs'] assms node_next_vptr[of al p q] Cons
    by (auto simp: raw_is_empty_def)
qed

lemma raw_is_empty_rep: "rep al q ps xs ret \<Longrightarrow> raw_is_empty al q = Inr (xs = [])"
  using chain_is_empty by (auto simp: rep_def)



lemma shift_pop_returns: "shift_pop al q = Some r \<Longrightarrow> \<not> rep al q ps [] ret"
  by (rule shift_pop.raw_induct[where P = "\<lambda>al q r. \<not> rep al q ps [] ret"]) (auto simp: run_pop_empty[of _ _ ps ret])

lemma shift_pop_empty: "rep al q ps [] ret \<Longrightarrow> shift_pop al q = None"
  using shift_pop_returns by (metis option.exhaust)

lemma shift_pop_front: "raw_try_pop al q = Some (Inr (Some x, q')) \<Longrightarrow> shift_pop al q = Some (Inr (x, q'))"
  by (subst shift_pop.simps) simp

lemma run_new:
  assumes "raw_with_threads al alloc gal gsz galloc threads h = Inr q" "good_alloc al alloc"
    "roomy alloc (card (dom h) + 1 + enqs ops)" "taken ops [] \<le> unat threads"
  shows "\<exists>q'. run_ops (raw_push al alloc) (raw_try_pop al) ops q = Some (Inr (fst (spec_run ops []), q')) \<and>
    raw_rep al alloc (card (dom h) + 1 + enqs ops) threads q' (snd (spec_run ops [])) 0 (unat threads - taken ops [])"
proof -
  have "raw_rep al alloc (card (dom h) + 1 + enqs ops) threads q [] (enqs ops + 0)
      (taken ops [] + (unat threads - taken ops []))"
    using raw_rep_new[OF assms(1,2,3), of "enqs ops"] assms(4) by simp
  from raw_fifo.run_ops_spec[OF this] show ?thesis .
qed

lemma arena_queue:
  "\<exists>q. raw_with_threads 8 arena_alloc 8 8 (\<lambda>_. Some 64) 2 Map.empty = Inr q"
proof -
  have "arena_alloc Map.empty = Some 8" by (simp add: arena_alloc_def)
  note a = owned_new_ok[OF arena_alloc_good this]
  obtain g :: "owned ptr_guard" where "pg_with 8 8 (\<lambda>_. Some 64) 2 = Inr g" using pg_with_two by blast
  then show ?thesis
    by (simp add: a raw_with_threads_def raw_with_def owned_into_shared_def shared_from_usize_def)
qed

section \<open>Properties\<close>

text \<open>
  C25. \<open>ShiftQueue\<close> used by one thread is a first-in first-out queue: from a new queue for \<open>threads\<close>
  threads, every history of \<open>push\<close> and \<open>try_pop\<close> calls with at most \<open>threads\<close> successful removals returns,
  gives exactly the answers of the list specification, and leaves \<open>is_empty\<close> telling whether anything is
  left, provided the allocator has room for the nodes.
\<close>

theorem shift_queue_is_fifo:
  assumes "raw_with_threads al alloc gal gsz galloc threads h = Inr q" "good_alloc al alloc"
    "roomy alloc (card (dom h) + 1 + enqs ops)" "taken ops [] \<le> unat threads"
  shows "\<exists>q'. run_ops (raw_push al alloc) (raw_try_pop al) ops q = Some (Inr (fst (spec_run ops []), q')) \<and>
    raw_is_empty al q' = Inr (snd (spec_run ops []) = [])"
  using run_new[OF assms] raw_is_empty_rep by (fastforce simp: raw_rep_def)

theorem shift_queue_is_fifo_witness:
  "\<exists>q q' :: nat raw_queue. raw_with_threads 8 arena_alloc 8 8 (\<lambda>_. Some 64) 2 Map.empty = Inr q \<and>
     run_ops (raw_push 8 arena_alloc) (raw_try_pop 8) [Enq 7, Enq 9, Deq, Deq, Deq] q =
       Some (Inr ([Some 7, Some 9, None], q'))"
proof -
  obtain q :: "nat raw_queue" where q: "raw_with_threads 8 arena_alloc 8 8 (\<lambda>_. Some 64) 2 Map.empty = Inr q"
    using arena_queue by blast
  have "roomy arena_alloc (card (dom (Map.empty :: nat qnode heap)) + 1 + enqs [Enq 7, Enq 9, Deq, Deq, Deq])"
    by (rule roomy_mono[OF arena_roomy]) simp
  from shift_queue_is_fifo[OF q arena_alloc_good this] q show ?thesis by auto
qed

text \<open>
  C35. The limit is sharp: once \<open>threads\<close> elements have been removed, the next removal of an element
  does not return, it reads past the end of the guard (or panics, when the guard has no capacity).
\<close>

theorem shift_queue_pop_limit:
  assumes "raw_with_threads al alloc gal gsz galloc threads h = Inr q" "good_alloc al alloc"
    "roomy alloc (card (dom h) + 1 + enqs ops)" "taken ops [] = unat threads" "snd (spec_run ops []) \<noteq> []"
  shows "run_ops (raw_push al alloc) (raw_try_pop al) (ops @ [Deq]) q =
    Some (Inl (if threads = 0 then Panic else Out_of_bounds))"
proof -
  obtain q' where q': "run_ops (raw_push al alloc) (raw_try_pop al) ops q = Some (Inr (fst (spec_run ops []), q'))"
    "raw_rep al alloc (card (dom h) + 1 + enqs ops) threads q' (snd (spec_run ops [])) 0 0"
    using run_new[OF assms(1-3)] assms(4) by auto
  obtain x xs where xs: "snd (spec_run ops []) = x # xs" using assms(5) by (meson neq_Nil_conv)
  obtain ps ret where "rep al q' ps (x # xs) ret" "length ret = unat (cap (pop_guard q'))" "cap (pop_guard q') = threads"
    using q'(2) xs by (auto simp: raw_rep_def)
  then have "raw_try_pop al q' = Some (Inl (if threads = 0 then Panic else Out_of_bounds))"
    using raw_pop_full[of al q' ps x xs ret] by simp
  then show ?thesis by (simp add: run_ops_append q'(1))
qed

theorem shift_queue_pop_limit_witness:
  "\<exists>q :: nat raw_queue. raw_with_threads 8 arena_alloc 8 8 (\<lambda>_. Some 64) 2 Map.empty = Inr q \<and>
     run_ops (raw_push 8 arena_alloc) (raw_try_pop 8) [Enq 7, Enq 9, Enq 5, Deq, Deq, Deq] q =
       Some (Inl Out_of_bounds)"
proof -
  obtain q :: "nat raw_queue" where q: "raw_with_threads 8 arena_alloc 8 8 (\<lambda>_. Some 64) 2 Map.empty = Inr q"
    using arena_queue by blast
  let ?ops = "[Enq 7, Enq 9, Enq 5, Deq, Deq] :: nat qop list"
  have "roomy arena_alloc (card (dom (Map.empty :: nat qnode heap)) + 1 + enqs ?ops)"
    by (rule roomy_mono[OF arena_roomy]) simp
  from shift_queue_pop_limit[OF q arena_alloc_good this] q show ?thesis by auto
qed



text \<open>
  The blocking \<open>ShiftQueue::pop\<close> takes the front element like \<open>try_pop\<close>, and on an empty queue that
  nobody else uses it never returns.
\<close>

theorem shift_pop_waits:
  assumes "raw_with_threads al alloc gal gsz galloc threads h = Inr q" "good_alloc al alloc"
    "roomy alloc (card (dom h) + 1 + enqs ops)" "taken ops [] < unat threads"
  shows "\<exists>q'. run_ops (raw_push al alloc) (raw_try_pop al) ops q = Some (Inr (fst (spec_run ops []), q')) \<and>
    (case snd (spec_run ops []) of
       [] \<Rightarrow> shift_pop al q' = None
     | x # xs \<Rightarrow> \<exists>q''. shift_pop al q' = Some (Inr (x, q'')) \<and> raw_is_empty al q'' = Inr (xs = []))"
proof -
  have "taken ops [] \<le> unat threads" using assms(4) by simp
  then obtain q' where q': "run_ops (raw_push al alloc) (raw_try_pop al) ops q = Some (Inr (fst (spec_run ops []), q'))"
    "raw_rep al alloc (card (dom h) + 1 + enqs ops) threads q' (snd (spec_run ops [])) 0 (unat threads - taken ops [])"
    using run_new[OF assms(1-3)] by blast
  then obtain ps ret where r: "rep al q' ps (snd (spec_run ops [])) ret" "length ret < unat (cap (pop_guard q'))"
    using assms(4) by (auto simp: raw_rep_def)
  show ?thesis
  proof (cases "snd (spec_run ops [])")
    case Nil
    then show ?thesis using q'(1) shift_pop_empty[of al q' ps ret] r(1) by auto
  next
    case (Cons x xs)
    then obtain p ps' q'' where "raw_try_pop al q' = Some (Inr (Some x, q''))" "rep al q'' ps' xs (ret @ [p])"
      using raw_pop_rep[of al q' ps x xs ret] r by auto
    then show ?thesis using q'(1) Cons shift_pop_front raw_is_empty_rep by fastforce
  qed
qed

theorem shift_pop_waits_witness:
  "\<exists>(q :: nat raw_queue) (q' :: nat raw_queue) q''. shift_pop 8 q = None \<and> shift_pop 8 q' = Some (Inr (7, q''))"
proof -
  obtain q :: "nat raw_queue" where q: "raw_with_threads 8 arena_alloc 8 8 (\<lambda>_. Some 64) 2 Map.empty = Inr q"
    using arena_queue by blast
  have r: "roomy arena_alloc (card (dom (Map.empty :: nat qnode heap)) + 1 + enqs [Enq (7 :: nat)])"
    "roomy arena_alloc (card (dom (Map.empty :: nat qnode heap)) + 1 + enqs ([] :: nat qop list))"
    by (rule roomy_mono[OF arena_roomy], simp)+
  have "shift_pop 8 q = None" using shift_pop_waits[OF q arena_alloc_good r(2)] by simp
  moreover have "\<exists>(q' :: nat raw_queue) q''. shift_pop 8 q' = Some (Inr (7, q''))"
    using shift_pop_waits[OF q arena_alloc_good r(1)] by auto
  ultimately show ?thesis by blast
qed

end
