(* ===== verification/Queue_Race.thy ===== *)
theory Queue_Race
  imports Queue_Fifo
begin

text \<open>
  The queue used by two producers. The path of \<open>_push\<close> that is to finish somebody else's insertion moves the
  tail to a node that is not in the list.
\<close>

section \<open>Two producers\<close>

fun push_steps ::
    "usize \<Rightarrow> shared \<Rightarrow> nat \<Rightarrow> qpush_pc \<Rightarrow> 'a raw_queue \<Rightarrow> (qpush_pc \<times> 'a raw_queue) outcome option" where
  "push_steps al new 0 pc q = Some (Inr (pc, q))"
| "push_steps al new (Suc k) pc q =
     (case qpush_step al new pc q of
        Some (Inr (pc', q')) \<Rightarrow> push_steps al new k pc' q' | r \<Rightarrow> r)"

lemma link_steps:
  assumes "chain al (nodes q) ps xs" "qtail q = Atomic (last ps)" "len (push_guard q) = 0"
  shows "push_steps al (Shared n) 5 Q_tail q =
    Some (Inr (Q_swing (Shared (last ps)), q\<lparr>nodes := link_node (last ps) n (nodes q)\<rparr>))"
proof -
  note l = chain_last[OF assms(1)]
  have nn: "node_next al (Shared (last ps)) q = Inr (Shared null)"
    using node_next_vptr[OF l(1,2)] l(3) by simp
  show ?thesis
    by (simp add: numeral_eq_Suc assms(2,3) nn pg_is_empty_def cas_next_null[OF l(1,2)] l(3))
qed

lemma finish_steps:
  assumes "qtail q = Atomic t" "vptr al t" "t \<in> dom (nodes q)" "vptr al (nxt (nodes q) t)"
  shows "push_steps al (Shared n) 3 Q_tail q = Some (Inr (Q_done, q\<lparr>qtail := Atomic n\<rparr>))"
proof -
  have "node_next al (Shared t) q = Inr (Shared (nxt (nodes q) t))" using node_next_vptr[OF assms(2,3)] .
  then show ?thesis using assms by (simp add: numeral_eq_Suc)
qed

text \<open>
  C34. Two concurrent pushes can lose an element: in any queue, when one thread has linked its node
  but not yet moved the tail, a second \<open>push\<close> takes the pending link for an unfinished insertion, moves
  the tail to its own node and returns. That node is not in the list that starts at the head, so the
  element of the \<open>push\<close> that returned is not in the queue, and the first thread, whose element is in the
  queue, panics in its next step.
\<close>

theorem concurrent_push_loses_node:
  assumes "raw_rep al alloc N c q xs (Suc (Suc e)) d"
  shows "\<exists>a b q1 q2 q3 q4 t ps. new_node al alloc x q = Inr (a, q1) \<and> new_node al alloc y q1 = Inr (b, q2) \<and>
    push_steps al a 5 Q_tail q2 = Some (Inr (Q_swing t, q3)) \<and>
    push_steps al b 3 Q_tail q3 = Some (Inr (Q_done, q4)) \<and>
    qpush_step al a (Q_swing t) q4 = Some (Inl Panic) \<and>
    chain al (nodes q4) ps (xs @ [x]) \<and> qhead q4 = Atomic (hd ps) \<and>
    qtail q4 = Atomic (shared_data b) \<and> shared_data b \<notin> set ps"
proof -
  obtain ps ret where r: "rep al q ps xs ret" and al: "good_alloc al alloc" "roomy alloc N"
    "card (dom (nodes q)) + Suc (Suc e) = N" using assms by (auto simp: raw_rep_def)
  have c: "chain al (nodes q) ps xs" "qtail q = Atomic (last ps)" "len (push_guard q) = 0" "qhead q = Atomic (hd ps)"
    and ps: "ps \<noteq> []" "set ps \<subseteq> dom (nodes q)" using r by (auto simp: rep_def chain_def)
  have "card (dom (nodes q)) < N" using al(3) by simp
  then obtain a where a: "alloc (nodes q) = Some a" using al(2) unfolding roomy_def by blast
  note va = good_alloc_vptr[OF al(1) a]
  let ?h1 = "(nodes q)(a \<mapsto> node_new x)"
  have "card (dom ?h1) < N" using al(3) va by simp
  then obtain b where b: "alloc ?h1 = Some b" using al(2) unfolding roomy_def by blast
  note vb = good_alloc_vptr[OF al(1) b]
  let ?h2 = "?h1(b \<mapsto> node_new y)" and ?t = "last ps"
  let ?h3 = "link_node ?t a ?h2"
  have c2: "chain al ?h2 ps xs" using va vb ps by (intro chain_other[OF c(1)]) auto
  have c3: "chain al ?h3 (ps @ [a]) (xs @ [x])" using va vb ps by (intro chain_link[OF c2]) auto
  note l = chain_last[OF c2]
  have n3: "vptr al (nxt ?h3 ?t)" using l(2) va by simp
  have b_out: "b \<notin> set (ps @ [a])" using vb ps(2) by (auto simp: domIff subset_iff split: if_splits)
  have "new_node al alloc x q = Inr (Shared a, q\<lparr>nodes := ?h1\<rparr>)" using new_node_ok[OF al(1) a] .
  moreover have "new_node al alloc y (q\<lparr>nodes := ?h1\<rparr>) = Inr (Shared b, q\<lparr>nodes := ?h2\<rparr>)"
    using new_node_ok[OF al(1), of "q\<lparr>nodes := ?h1\<rparr>" b] b by simp
  moreover have "push_steps al (Shared a) 5 Q_tail (q\<lparr>nodes := ?h2\<rparr>) =
      Some (Inr (Q_swing (Shared ?t), q\<lparr>nodes := ?h3\<rparr>))"
    using link_steps[of al "q\<lparr>nodes := ?h2\<rparr>" ps xs a] c2 c by simp
  moreover have "push_steps al (Shared b) 3 Q_tail (q\<lparr>nodes := ?h3\<rparr>) =
      Some (Inr (Q_done, q\<lparr>nodes := ?h3, qtail := Atomic b\<rparr>))"
    using finish_steps[of "q\<lparr>nodes := ?h3\<rparr>" ?t al b] c(2) l n3 by simp
  moreover have "qpush_step al (Shared a) (Q_swing (Shared ?t)) (q\<lparr>nodes := ?h3, qtail := Atomic b\<rparr>) = Some (Inl Panic)"
    using b_out ps by (auto simp: last_in_set)
  moreover have "hd (ps @ [a]) = hd ps" using ps(1) by simp
  ultimately show ?thesis using c3 c(4) b_out
    by (intro exI[of _ "Shared a"] exI[of _ "Shared b"] exI[of _ "q\<lparr>nodes := ?h1\<rparr>"] exI[of _ "q\<lparr>nodes := ?h2\<rparr>"]
        exI[of _ "q\<lparr>nodes := ?h3\<rparr>"] exI[of _ "q\<lparr>nodes := ?h3, qtail := Atomic b\<rparr>"] exI[of _ "Shared ?t"]
        exI[of _ "ps @ [a]"]) simp
qed

theorem concurrent_push_loses_node_witness:
  "\<exists>(q :: nat raw_queue) a b t q3 q4.
    push_steps 8 a 5 Q_tail q = Some (Inr (Q_swing t, q3)) \<and>
    push_steps 8 b 3 Q_tail q3 = Some (Inr (Q_done, q4)) \<and>
    qpush_step 8 a (Q_swing t) q4 = Some (Inl Panic)"
proof -
  obtain q :: "nat raw_queue" where q: "raw_with_threads 8 arena_alloc 8 8 (\<lambda>_. Some 64) 2 Map.empty = Inr q"
    using arena_queue by blast
  have "raw_rep 8 arena_alloc 3 2 q [] (Suc (Suc 0)) (unat (2 :: usize))"
    by (rule raw_rep_new[OF q arena_alloc_good]) (simp_all add: roomy_mono[OF arena_roomy])
  from concurrent_push_loses_node[OF this, of 7 9] show ?thesis by blast
qed

end
