(* ===== verification/Queue_Spsc.thy ===== *)
theory Queue_Spsc
  imports Queue_Fifo
begin

text \<open>
  One producer and one consumer on one queue, every step of \<open>_push\<close> and \<open>_pop\<close> interleaved in any order.
  The system records the values in the order in which their \<open>push\<close> was called and the values that
  \<open>try_pop\<close> returned. Both threads may call as often as they like. The invariant gives one lemma per
  program counter: it determines the next step of either thread, so it yields both its preservation and
  the absence of faults and of blocking, up to the removal that finds the guard of \<open>pop\<close> full: that one
  clears the guard, which is where the source goes wrong, and never returns.
\<close>

section \<open>The system\<close>

record 'a spsc =
  que :: "'a raw_queue"
  producer :: "(shared \<times> qpush_pc) option"
  consumer :: "'a qpop_pc option"
  sent :: "'a list"
  got :: "'a list"

definition spsc_init :: "'a raw_queue \<Rightarrow> 'a spsc" where
  "spsc_init q = \<lparr>que = q, producer = None, consumer = None, sent = [], got = []\<rparr>"

definition push_ran :: "shared \<Rightarrow> qpush_pc \<Rightarrow> 'a raw_queue \<Rightarrow> 'a spsc \<Rightarrow> 'a spsc" where
  "push_ran sh pc q s = s\<lparr>que := q, producer := (if pc = Q_done then None else Some (sh, pc))\<rparr>"

definition pop_ran :: "'a qpop_pc \<Rightarrow> 'a raw_queue \<Rightarrow> 'a spsc \<Rightarrow> 'a spsc" where
  "pop_ran pc q s =
    (case pc of
       R_done None \<Rightarrow> s\<lparr>que := q, consumer := None\<rparr>
     | R_done (Some x) \<Rightarrow> s\<lparr>que := q, consumer := None, got := got s @ [x]\<rparr>
     | _ \<Rightarrow> s\<lparr>que := q, consumer := Some pc\<rparr>)"

inductive spsc_step :: "usize \<Rightarrow> 'a qnode allocator \<Rightarrow> 'a spsc \<Rightarrow> 'a spsc \<Rightarrow> bool" for al alloc where
  push_call: "producer s = None \<Longrightarrow> new_node al alloc v (que s) = Inr (sh, q) \<Longrightarrow>
     spsc_step al alloc s (s\<lparr>que := q, producer := Some (sh, Q_tail), sent := sent s @ [v]\<rparr>)"
| push_run: "producer s = Some (sh, pc) \<Longrightarrow> qpush_step al sh pc (que s) = Some (Inr (pc', q)) \<Longrightarrow>
     spsc_step al alloc s (push_ran sh pc' q s)"
| pop_call: "consumer s = None \<Longrightarrow>
     spsc_step al alloc s (s\<lparr>consumer := Some R_head\<rparr>)"
| pop_run: "consumer s = Some pc \<Longrightarrow> qpop_step al pc (que s) = Some (Inr (pc', q)) \<Longrightarrow>
     spsc_step al alloc s (pop_ran pc' q s)"

inductive_cases spsc_stepE: "spsc_step al alloc s s'"

section \<open>Invariant\<close>

text \<open>The producer before it links its node, with the local \<open>tail\<close> it has read so far.\<close>

fun unlinked :: "shared \<Rightarrow> qpush_pc \<Rightarrow> bool" where
  "unlinked t Q_tail = True"
| "unlinked t (Q_next u) = (u = t)"
| "unlinked t (Q_empty u) = (u = t)"
| "unlinked t (Q_next2 u) = (u = t)"
| "unlinked t (Q_link u) = (u = t)"
| "unlinked t _ = False"

fun producer_ok :: "usize \<Rightarrow> 'a raw_queue \<Rightarrow> ptr list \<Rightarrow> 'a list \<Rightarrow> (shared \<times> qpush_pc) option \<Rightarrow> bool" where
  "producer_ok al q ps us None = (us = [] \<and> qtail q = Atomic (last ps))"
| "producer_ok al q ps us (Some (sh, pc)) =
     (\<exists>n. sh = Shared n \<and> vptr al n \<and>
       ((\<exists>v. us = [v] \<and> qtail q = Atomic (last ps) \<and> nodes q n = Some (node_new v) \<and> n \<notin> set ps \<and>
           unlinked (Shared (last ps)) pc) \<or>
        (us = [] \<and> last ps = n \<and> (\<exists>t. qtail q = Atomic t \<and> pc = Q_swing (Shared t)))))"

text \<open>The consumer: \<open>ys\<close> is the value it has taken off the list and not yet returned, \<open>k\<close> the number of values it returned.\<close>

definition retired :: "'a raw_queue \<Rightarrow> nat \<Rightarrow> bool" where
  "retired q k \<longleftrightarrow> wf_guard (pop_guard q) \<and> unat (len (pop_guard q)) = k \<and>
     glock (pop_guard q) = small_new raw_INIT ()"

text \<open>The old head: still allocated, no longer in the list, and its \<open>next\<close> still points into it.\<close>

definition unhooked :: "usize \<Rightarrow> 'a qnode heap \<Rightarrow> ptr list \<Rightarrow> shared \<Rightarrow> bool" where
  "unhooked al h ps old \<longleftrightarrow> (\<exists>p. old = Shared p \<and> vptr al p \<and> p \<in> dom h \<and> p \<notin> set ps \<and> nxt h p \<noteq> null)"

fun guard_at :: "shared \<Rightarrow> owned ptr_guard \<Rightarrow> owned push_pc \<Rightarrow> bool" where
  "guard_at old g (Push_load ow) = (shared_into_owned old = Inr ow)"
| "guard_at old g (Push_write ow l) = (l = len g \<and> len g \<noteq> cap g)"
| "guard_at old g (Push_cas l) = (l = len g \<and> len g \<noteq> cap g)"
| "guard_at old g (Push_done r) = False"

text \<open>Where the consumer is once it found the guard full: it locks the guard and starts to clear it.\<close>

fun clearing :: "owned ptr_guard \<Rightarrow> owned pop_pc \<Rightarrow> bool" where
  "clearing g Pop_load = (len g = cap g)"
| "clearing g (Pop_cas l) = (l = cap g \<and> len g = cap g \<and> cap g \<noteq> 0)"
| "clearing g (Pop_read l) = (l = cap g \<and> cap g \<noteq> 0)"
| "clearing g (Pop_done r) = False"

fun overflows :: "'a qpop_pc \<Rightarrow> bool" where
  "overflows (R_clear old n gpc) = True"
| "overflows (R_retire2 old n gpc) = True"
| "overflows _ = False"

fun consumer_ok :: "usize \<Rightarrow> 'a raw_queue \<Rightarrow> ptr list \<Rightarrow> 'a list \<Rightarrow> nat \<Rightarrow> 'a qpop_pc option \<Rightarrow> bool" where
  "consumer_ok al q ps ys k None = (ys = [] \<and> retired q k)"
| "consumer_ok al q ps ys k (Some pc) =
     (case pc of
         R_head \<Rightarrow> ys = [] \<and> retired q k
       | R_next h \<Rightarrow> ys = [] \<and> retired q k \<and> h = Shared (hd ps)
       | R_cas h n \<Rightarrow> ys = [] \<and> retired q k \<and> (\<exists>p p' ps'. ps = p # p' # ps' \<and> h = Shared p \<and> n = Shared p')
       | R_retire old n gpc \<Rightarrow> n = Shared (hd ps) \<and> retired q k \<and> (\<exists>x. ys = [x] \<and> dat (nodes q) (hd ps) = Some x) \<and>
           unhooked al (nodes q) ps old \<and> guard_at old (pop_guard q) gpc
       | R_read n \<Rightarrow> n = Shared (hd ps) \<and> retired q (Suc k) \<and> (\<exists>x. ys = [x] \<and> dat (nodes q) (hd ps) = Some x)
       | R_lock old n \<Rightarrow> retired q k \<and> k = unat (cap (pop_guard q)) \<and> (\<exists>ow. shared_into_owned old = Inr ow)
       | R_clear old n gpc \<Rightarrow> k = unat (cap (pop_guard q)) \<and> length (cells (pop_guard q)) = k \<and>
           clearing (pop_guard q) gpc \<and> (\<exists>ow. shared_into_owned old = Inr ow)
       | R_retire2 old n gpc \<Rightarrow> k = unat (cap (pop_guard q)) \<and> len (pop_guard q) = cap (pop_guard q) \<and> (\<exists>ow. gpc = Push_load ow)
       | R_done v \<Rightarrow> False)"

definition spsc_at ::
    "usize \<Rightarrow> usize \<Rightarrow> 'a spsc \<Rightarrow> ptr list \<Rightarrow> 'a list \<Rightarrow> 'a list \<Rightarrow> 'a list \<Rightarrow> bool" where
  "spsc_at al limit s ps ys xs us \<longleftrightarrow>
     chain al (nodes (que s)) ps xs \<and> qhead (que s) = Atomic (hd ps) \<and> len (push_guard (que s)) = 0 \<and>
     cap (pop_guard (que s)) = limit \<and> sent s = got s @ ys @ xs @ us \<and>
     producer_ok al (que s) ps us (producer s) \<and> consumer_ok al (que s) ps ys (length (got s)) (consumer s)"

definition spsc_inv :: "usize \<Rightarrow> usize \<Rightarrow> 'a spsc \<Rightarrow> bool" where
  "spsc_inv al limit s \<longleftrightarrow> (\<exists>ps ys xs us. spsc_at al limit s ps ys xs us)"

lemma spsc_invI: "spsc_at al limit s ps ys xs us \<Longrightarrow> spsc_inv al limit s"
  by (auto simp: spsc_inv_def)

section \<open>The producer's steps\<close>

text \<open>What the producer changes keeps the consumer's view: the data of the head and the order of the list.\<close>

lemma unhooked_frame:
  assumes "unhooked al h ps old"
    "\<And>p. p \<in> dom h \<Longrightarrow> p \<notin> set ps \<Longrightarrow> nxt h p \<noteq> null \<Longrightarrow> p \<in> dom h' \<and> p \<notin> set zs \<and> nxt h' p = nxt h p"
  shows "unhooked al h' (ps @ zs) old"
  using assms unfolding unhooked_def by fastforce

lemma consumer_ok_frame:
  assumes "consumer_ok al q ps ys k c" "ps \<noteq> []" "pop_guard q' = pop_guard q" "dat (nodes q') (hd ps) = dat (nodes q) (hd ps)"
    "\<And>p. p \<in> dom (nodes q) \<Longrightarrow> p \<notin> set ps \<Longrightarrow> nxt (nodes q) p \<noteq> null \<Longrightarrow>
       p \<in> dom (nodes q') \<and> p \<notin> set zs \<and> nxt (nodes q') p = nxt (nodes q) p"
  shows "consumer_ok al q' (ps @ zs) ys k c"
proof (cases c)
  case None
  then show ?thesis using assms by (simp add: retired_def)
next
  case (Some pc)
  have u: "unhooked al (nodes q') (ps @ zs) old" if "unhooked al (nodes q) ps old" for old
    using that assms(5) by (rule unhooked_frame)
  have "retired q' j = retired q j" for j using assms(3) by (simp add: retired_def)
  then show ?thesis using assms(1-4) u Some by (cases pc) auto
qed

lemma consumer_ok_frame0:
  assumes "consumer_ok al q ps ys k c" "ps \<noteq> []" "pop_guard q' = pop_guard q" "dat (nodes q') (hd ps) = dat (nodes q) (hd ps)"
    "\<And>p. p \<in> dom (nodes q) \<Longrightarrow> p \<notin> set ps \<Longrightarrow> p \<in> dom (nodes q') \<and> nxt (nodes q') p = nxt (nodes q) p"
  shows "consumer_ok al q' ps ys k c"
  using consumer_ok_frame[OF assms(1-4), of "[]"] assms(5) by simp

lemma push_call_inv:
  assumes "spsc_at al limit s ps ys xs us" "producer s = None" "good_alloc al alloc"
    "new_node al alloc v (que s) = Inr (sh, q)"
  shows "spsc_at al limit (s\<lparr>que := q, producer := Some (sh, Q_tail), sent := sent s @ [v]\<rparr>) ps ys xs [v]"
proof -
  note i = assms(1)[unfolded spsc_at_def]
  obtain n where n: "alloc (nodes (que s)) = Some n"
    using assms(4) by (auto simp: new_node_def owned_new_def box_new_def split: option.splits)
  let ?h = "(nodes (que s))(n \<mapsto> node_new v)"
  have q: "sh = Shared n" "q = (que s)\<lparr>nodes := ?h\<rparr>" using new_node_ok[OF assms(3) n, of v] assms(4) by auto
  note v = good_alloc_vptr[OF assms(3) n]
  have ps: "ps \<noteq> []" "set ps \<subseteq> dom (nodes (que s))" using i by (auto simp: chain_def)
  have n_out: "n \<notin> set ps" using v ps(2) by blast
  have "chain al (nodes (que s)) ps xs" using i by simp
  then have c: "chain al ?h ps xs" by (rule chain_other) (use n_out in auto)
  have "consumer_ok al q ps ys (length (got s)) (consumer s)"
    using i n_out v ps(1) hd_in_set[OF ps(1)] by - (rule consumer_ok_frame0[of al "que s"], auto simp: q dat_def nxt_def)
  then show ?thesis using i c v n_out assms(2) by (simp add: spsc_at_def q)
qed

lemma unlinked_step:
  assumes "spsc_at al limit s ps ys xs us" "producer s = Some (Shared n, pc)" "unlinked (Shared (last ps)) pc"
    "vptr al n" "us = [v]" "qtail (que s) = Atomic (last ps)" "nodes (que s) n = Some (node_new v)" "n \<notin> set ps"
  shows "\<exists>pc' q' ps' xs' us'. qpush_step al (Shared n) pc (que s) = Some (Inr (pc', q')) \<and>
    spsc_at al limit (push_ran (Shared n) pc' q' s) ps' ys xs' us'"
proof -
  note i = assms(1)[unfolded spsc_at_def]
  have c: "chain al (nodes (que s)) ps xs" using i by simp
  note l = chain_last[OF c]
  have nn: "node_next al (Shared (last ps)) (que s) = Inr (Shared null)"
    using node_next_vptr[OF l(1,2)] l(3) by simp
  have same: "spsc_at al limit (push_ran (Shared n) pc' (que s) s) ps ys xs us"
    if "unlinked (Shared (last ps)) pc'" "pc' \<noteq> Q_done" for pc'
    using i assms that by (simp add: spsc_at_def push_ran_def)
  show ?thesis
  proof (cases pc)
    case (Q_link t)
    let ?q = "(que s)\<lparr>nodes := link_node (last ps) n (nodes (que s))\<rparr>"
    have t: "t = Shared (last ps)" using assms(3) Q_link by simp
    have ps: "ps \<noteq> []" "hd (ps @ [n]) = hd ps" using c by (auto simp: chain_def)
    have "chain al (nodes ?q) (ps @ [n]) (xs @ [v])" using chain_link[OF c assms(4,8,7)] by simp
    moreover have "p \<noteq> n" if "nxt (nodes (que s)) p \<noteq> null" for p
      using that assms(7) by (auto simp: nxt_def node_new_def atomic_null_def)
    then have "consumer_ok al ?q (ps @ [n]) ys (length (got s)) (consumer s)"
      using i ps l by - (rule consumer_ok_frame[of al "que s"], auto)
    ultimately have "spsc_at al limit (push_ran (Shared n) (Q_swing t) ?q s) (ps @ [n]) ys (xs @ [v]) []"
      using i assms(4,5,6) t ps by (simp add: spsc_at_def push_ran_def)
    moreover have "qpush_step al (Shared n) pc (que s) = Some (Inr (Q_swing t, ?q))"
      using Q_link t cas_next_null[OF l(1,2)] l(3) by simp
    ultimately show ?thesis by blast
  qed (use same[of "Q_next (Shared (last ps))"] same[of "Q_empty (Shared (last ps))"]
      same[of "Q_next2 (Shared (last ps))"] same[of "Q_link (Shared (last ps))"] assms(3,6) i nn in
      \<open>auto simp: pg_is_empty_def\<close>)
qed

lemma swing_step:
  assumes "spsc_at al limit s ps ys xs []" "producer s = Some (Shared n, Q_swing (Shared t))"
    "last ps = n" "qtail (que s) = Atomic t"
  shows "\<exists>q'. qpush_step al (Shared n) (Q_swing (Shared t)) (que s) = Some (Inr (Q_done, q')) \<and>
    spsc_at al limit (push_ran (Shared n) Q_done q' s) ps ys xs []"
proof -
  note i = assms(1)[unfolded spsc_at_def]
  have ps: "ps \<noteq> []" using i by (auto simp: chain_def)
  let ?q = "(que s)\<lparr>qtail := Atomic n\<rparr>"
  have "consumer_ok al ?q ps ys (length (got s)) (consumer s)"
    using i ps by - (rule consumer_ok_frame0[of al "que s"], auto)
  then show ?thesis using i assms by (simp add: spsc_at_def push_ran_def)
qed

lemma push_run_inv:
  assumes "spsc_inv al limit s" "producer s = Some (sh, pc)"
  shows "\<exists>pc' q'. qpush_step al sh pc (que s) = Some (Inr (pc', q')) \<and> spsc_inv al limit (push_ran sh pc' q' s)"
proof -
  obtain ps ys xs us where i: "spsc_at al limit s ps ys xs us" using assms(1) by (auto simp: spsc_inv_def)
  then obtain n where n: "sh = Shared n" "vptr al n" and
    p: "(\<exists>v. us = [v] \<and> qtail (que s) = Atomic (last ps) \<and> nodes (que s) n = Some (node_new v) \<and> n \<notin> set ps \<and>
           unlinked (Shared (last ps)) pc) \<or>
        (us = [] \<and> last ps = n \<and> (\<exists>t. qtail (que s) = Atomic t \<and> pc = Q_swing (Shared t)))"
    using assms(2) by (auto simp: spsc_at_def)
  from p show ?thesis
  proof (elim disjE exE conjE)
    fix v assume "us = [v]" "qtail (que s) = Atomic (last ps)" "nodes (que s) n = Some (node_new v)" "n \<notin> set ps"
      "unlinked (Shared (last ps)) pc"
    then show ?thesis using unlinked_step[OF i, of n pc v] assms(2) n by (auto intro: spsc_invI)
  next
    fix t assume "us = []" "last ps = n" "qtail (que s) = Atomic t" "pc = Q_swing (Shared t)"
    then show ?thesis using swing_step[of al limit s ps ys xs n t] i assms(2) n by (auto intro: spsc_invI)
  qed
qed

section \<open>The consumer's steps\<close>

lemma producer_ok_frame:
  assumes "producer_ok al q ps us pr" "qtail q' = qtail q" "ps' \<noteq> []" "set ps' \<subseteq> set ps" "last ps' = last ps"
    "\<And>n v. nodes q n = Some (node_new v) \<Longrightarrow> nodes q' n = nodes q n"
  shows "producer_ok al q' ps' us pr"
  using assms by (cases "(al, q, ps, us, pr)" rule: producer_ok.cases) auto

lemma retired_le: "retired q k \<Longrightarrow> k \<le> unat (cap (pop_guard q))"
  by (auto simp: retired_def wf_guard_def word_le_nat_alt)

lemma retire_step:
  assumes "retired q k" "guard_at old (pop_guard q) gpc" "len (pop_guard q) \<noteq> cap (pop_guard q)"
  shows "\<exists>pc' g. qpop_retire_step al old n gpc q = Inr (pc', q\<lparr>pop_guard := g\<rparr>) \<and> cap g = cap (pop_guard q) \<and>
    (pc' = R_read n \<and> retired (q\<lparr>pop_guard := g\<rparr>) (Suc k) \<or>
     (\<exists>gpc'. pc' = R_retire old n gpc' \<and> retired (q\<lparr>pop_guard := g\<rparr>) k \<and> guard_at old g gpc'))"
proof -
  let ?g = "pop_guard q"
  have w: "wf_guard ?g" "unat (len ?g) = k" "glock ?g = small_new raw_INIT ()"
    using assms(1) by (simp_all add: retired_def)
  have "len ?g < cap ?g" using w(1) assms(3) by (simp add: wf_guard_def order_less_le)
  then have b: "unat (len ?g) < length (cells ?g)" using w by (simp add: wf_guard_def word_less_nat_alt)
  have w2: "wf_guard (?g\<lparr>len := len ?g + 1\<rparr>)" "unat (len ?g + 1) = Suc k"
    using wf_push[OF w(1) assms(3)] unat_len_Suc[OF w(1) assms(3)] w(2) by (simp_all add: wf_guard_def)
  show ?thesis
  proof (cases gpc)
    case (Push_load ow)
    have "q\<lparr>pop_guard := ?g\<rparr> = q" by simp
    then show ?thesis using w Push_load assms(3)
      by (intro exI[of _ "R_retire old n (Push_write ow (len ?g))"] exI[of _ ?g])
        (simp add: qpop_retire_step_def retired_def)
  next
    case (Push_write ow l)
    then show ?thesis using w b assms(2)
      by (auto simp: qpop_retire_step_def retired_def cell_write_def wf_guard_def)
  next
    case (Push_cas l)
    then show ?thesis using w w2 assms(2) by (auto simp: qpop_retire_step_def retired_def len_cas_def)
  next
    case (Push_done r)
    then show ?thesis using assms(2) by simp
  qed
qed

text \<open>With a full guard the old head is freed; the node of a push that has not been linked yet is another one.\<close>

lemma retire_full:
  assumes "guard_at old (pop_guard q) gpc" "len (pop_guard q) = cap (pop_guard q)" "unhooked al (nodes q) ps old"
  shows "\<exists>p. old = Shared p \<and> p \<notin> set ps \<and> nxt (nodes q) p \<noteq> null \<and> (\<exists>ow. shared_into_owned old = Inr ow) \<and>
    qpop_retire_step al old n gpc q = Inr (R_lock old n, q\<lparr>nodes := (nodes q)(p := None)\<rparr>)"
proof -
  obtain p where p: "old = Shared p" "vptr al p" "p \<in> dom (nodes q)" "p \<notin> set ps" "nxt (nodes q) p \<noteq> null"
    using assms(3) by (auto simp: unhooked_def)
  then have "gpc = Push_load (Owned p)" using assms(1,2) vptr_into_owned[of al p] by (cases gpc) auto
  then show ?thesis using p assms(2) vptr_into_owned[of al p]
    by (auto simp: qpop_retire_step_def box_drop_def)
qed

text \<open>One lemma for each position of the consumer.\<close>

lemma pop_next_inv:
  assumes "spsc_at al limit s ps ys xs us" "consumer s = Some (R_next hp)"
  shows "\<exists>pc'. qpop_step al (R_next hp) (que s) = Some (Inr (pc', que s)) \<and> spsc_at al limit (pop_ran pc' (que s) s) ps ys xs us"
proof -
  note i = assms(1)[unfolded spsc_at_def]
  have c: "chain al (nodes (que s)) ps xs" and y: "ys = []" "hp = Shared (hd ps)" "retired (que s) (length (got s))"
    using i assms(2) by auto
  have nn: "node_next al hp (que s) = Inr (Shared (nxt (nodes (que s)) (hd ps)))" unfolding y by (rule node_next_vptr[OF chain_hd[OF c]])
  have ps: "ps \<noteq> []" using c by (simp add: chain_def)
  show ?thesis
  proof (cases xs)
    case Nil
    then obtain p where p: "ps = [p]" using chain_Nil c by blast
    have "nxt (nodes (que s)) (hd ps) = null" using chain_last[OF c] p by simp
    moreover have "spsc_at al limit (pop_ran (R_done None) (que s) s) ps ys xs us" using i y by (simp add: spsc_at_def pop_ran_def)
    ultimately show ?thesis using nn by auto
  next
    case (Cons x xs')
    obtain p n ns where n: "ps = p # n # ns" "nxt (nodes (que s)) p = n" "vptr al n"
      using chain_Cons2[of al "nodes (que s)" "hd ps" "tl ps" x xs'] c ps Cons by (cases ps) auto
    then have "spsc_at al limit (pop_ran (R_cas hp (Shared n)) (que s) s) ps ys xs us" using i y by (simp add: spsc_at_def pop_ran_def)
    then show ?thesis using y nn n by auto
  qed
qed

lemma pop_cas_inv:
  assumes "spsc_at al limit s ps ys xs us" "consumer s = Some (R_cas hp np)"
  shows "\<exists>pc' q' ps' ys' xs'. qpop_step al (R_cas hp np) (que s) = Some (Inr (pc', q')) \<and> spsc_at al limit (pop_ran pc' q' s) ps' ys' xs' us"
proof -
  note i = assms(1)[unfolded spsc_at_def]
  let ?q = "que s"
  have c: "chain al (nodes ?q) ps xs" and hd: "qhead ?q = Atomic (hd ps)"
    using i assms(2) by auto
  obtain p n ns where n: "ps = p # n # ns" "hp = Shared p" "np = Shared n" "ys = []" "retired ?q (length (got s))"
    using i assms(2) by auto
  then obtain x xs' where x: "xs = x # xs'" using c by (cases xs) (auto simp: chain_def)
  have d: "dat (nodes ?q) n = Some x" "chain al (nodes ?q) (n # ns) xs'"
    using chain_Cons2[of al "nodes ?q" p "n # ns" x xs'] c n x by auto
  let ?q' = "?q\<lparr>qhead := Atomic n\<rparr>"
  have "producer_ok al ?q' (n # ns) us (producer s)" using i n by - (rule producer_ok_frame[of al ?q ps], auto)
  moreover have v: "vptr al p" "p \<in> dom (nodes ?q)" "p \<notin> set (n # ns)" "nxt (nodes ?q) p = n" "n \<noteq> null"
    using c chain_Cons2[of al "nodes ?q" p "n # ns" x xs'] n x by (auto simp: chain_def vptr_def)
  then have "unhooked al (nodes ?q) (n # ns) hp" by (simp add: unhooked_def n)
  ultimately have "spsc_at al limit (pop_ran (R_retire hp np (Push_load (Owned p))) ?q' s) (n # ns) [x] xs' us"
    using i d n x vptr_into_owned[OF v(1)] by (simp add: spsc_at_def pop_ran_def retired_def)
  then show ?thesis using n hd vptr_into_owned[OF v(1)] by auto
qed

lemma pop_retire_inv:
  assumes "spsc_at al limit s ps ys xs us" "consumer s = Some (R_retire old n gpc)"
  shows "\<exists>pc' q'. qpop_step al (R_retire old n gpc) (que s) = Some (Inr (pc', q')) \<and> spsc_at al limit (pop_ran pc' q' s) ps ys xs us"
proof -
  note i = assms(1)[unfolded spsc_at_def]
  let ?q = "que s"
  have ps: "ps \<noteq> []" using i by (auto simp: chain_def)
  obtain x where y: "n = Shared (hd ps)" "retired ?q (length (got s))" "ys = [x]" "dat (nodes ?q) (hd ps) = Some x"
    "unhooked al (nodes ?q) ps old" "guard_at old (pop_guard ?q) gpc" using i assms(2) by auto
  show ?thesis
  proof (cases "len (pop_guard ?q) = cap (pop_guard ?q)")
    case True
    obtain p where p: "p \<notin> set ps" "nxt (nodes ?q) p \<noteq> null" "\<exists>ow. shared_into_owned old = Inr ow"
      "qpop_retire_step al old n gpc ?q = Inr (R_lock old n, ?q\<lparr>nodes := (nodes ?q)(p := None)\<rparr>)"
      using retire_full[OF y(6) True y(5), of n] by blast
    let ?q' = "?q\<lparr>nodes := (nodes ?q)(p := None)\<rparr>"
    have "chain al (nodes ?q) ps xs" using i by simp
    then have "chain al (nodes ?q') ps xs" by (rule chain_other) (use p(1) in auto)
    moreover have "producer_ok al ?q' ps us (producer s)"
      using i ps p(2) by - (rule producer_ok_frame[of al ?q ps], auto simp: nxt_def node_new_def atomic_null_def)
    ultimately have "spsc_at al limit (pop_ran (R_lock old n) ?q' s) ps ys xs us"
      using i y(2) p(3) True by (auto simp: spsc_at_def pop_ran_def retired_def)
    then show ?thesis using p(4) by auto
  next
    case False
    obtain pc' g where g: "qpop_retire_step al old n gpc ?q = Inr (pc', ?q\<lparr>pop_guard := g\<rparr>)" "cap g = cap (pop_guard ?q)"
      "pc' = R_read n \<and> retired (?q\<lparr>pop_guard := g\<rparr>) (Suc (length (got s))) \<or>
       (\<exists>gpc'. pc' = R_retire old n gpc' \<and> retired (?q\<lparr>pop_guard := g\<rparr>) (length (got s)) \<and> guard_at old g gpc')"
      using retire_step[OF y(2,6) False, of al n] by blast
    have "producer_ok al (?q\<lparr>pop_guard := g\<rparr>) ps us (producer s)" using i ps by - (rule producer_ok_frame[of al ?q ps], auto)
    then have "spsc_at al limit (pop_ran pc' (?q\<lparr>pop_guard := g\<rparr>) s) ps ys xs us"
      using g(2,3) i y by (auto simp: spsc_at_def pop_ran_def)
    then show ?thesis using g(1) by auto
  qed
qed

lemma pop_lock_inv:
  assumes "spsc_at al limit s ps ys xs us" "consumer s = Some (R_lock old n)"
  shows "\<exists>pc' q'. qpop_step al (R_lock old n) (que s) = Some (Inr (pc', q')) \<and> spsc_at al limit (pop_ran pc' q' s) ps ys xs us"
proof -
  note i = assms(1)[unfolded spsc_at_def]
  let ?q = "que s" and ?g = "pop_guard (que s)"
  have c: "retired ?q (length (got s))" "length (got s) = unat (cap ?g)" "\<exists>ow. shared_into_owned old = Inr ow"
    using i assms(2) by auto
  obtain g' where g: "pg_lock ?g = Some (MutexGuard, g')" "len g' = len ?g" "cells g' = cells ?g" "cap g' = cap ?g"
    using c(1) by (auto simp: retired_def pg_lock_def small_lock_def raw_lock_def small_new_def raw_INIT_def)
  have "ps \<noteq> []" using i by (simp add: chain_def)
  then have "producer_ok al (?q\<lparr>pop_guard := g'\<rparr>) ps us (producer s)" using i by - (rule producer_ok_frame[of al ?q ps], auto)
  moreover have "len ?g = cap ?g" using c(1,2) by (simp add: retired_def word_unat_eq_iff)
  moreover have "length (cells ?g) = unat (cap ?g)" using c(1) by (simp add: retired_def wf_guard_def)
  ultimately have "spsc_at al limit (pop_ran (R_clear old n Pop_load) (?q\<lparr>pop_guard := g'\<rparr>) s) ps ys xs us"
    using i c g by (auto simp: spsc_at_def pop_ran_def)
  then show ?thesis using g(1) by auto
qed

text \<open>Clearing the full guard: the first \<open>pop\<close> reads the cell behind the last one; a guard without cells refuses the old head a second time.\<close>

lemma pop_clear_inv:
  assumes "spsc_at al limit s ps ys xs us" "consumer s = Some (R_clear old n gpc)"
    "qpop_step al (R_clear old n gpc) (que s) = Some (Inr (pc', q'))"
  shows "spsc_at al limit (pop_ran pc' q' s) ps ys xs us"
proof -
  note i = assms(1)[unfolded spsc_at_def]
  let ?q = "que s" and ?g = "pop_guard (que s)"
  have ps: "ps \<noteq> []" using i by (simp add: chain_def)
  obtain ow where c: "length (got s) = unat (cap ?g)" "length (cells ?g) = unat (cap ?g)" "clearing ?g gpc" "shared_into_owned old = Inr ow"
    using i assms(2) by auto
  have frame: "spsc_at al limit (pop_ran pc' (?q\<lparr>pop_guard := g\<rparr>) s) ps ys xs us"
    if "cap g = cap ?g" "consumer_ok al (?q\<lparr>pop_guard := g\<rparr>) ps ys (length (got s)) (Some pc')" "overflows pc'" for g pc'
  proof -
    have "producer_ok al (?q\<lparr>pop_guard := g\<rparr>) ps us (producer s)" using i ps by - (rule producer_ok_frame[of al ?q ps], auto)
    then show ?thesis using i that by (cases pc') (auto simp: spsc_at_def pop_ran_def)
  qed
  have same: "?q\<lparr>pop_guard := ?g\<rparr> = ?q" by simp
  show ?thesis
  proof (cases gpc)
    case Pop_load
    then show ?thesis using assms(3) c frame[of ?g "R_retire2 old n (Push_load ow)"] frame[of ?g "R_clear old n (Pop_cas (cap ?g))"] same
      by (auto simp: qpop_clear_step_def Let_def split: if_splits)
  next
    case (Pop_cas l)
    then show ?thesis using assms(3) c frame[of "?g\<lparr>len := cap ?g - 1\<rparr>" "R_clear old n (Pop_read (cap ?g))"]
      by (auto simp: qpop_clear_step_def len_cas_def)
  next
    case (Pop_read l)
    then show ?thesis using assms(3) c by (auto simp: qpop_clear_step_def cell_read_def)
  next
    case (Pop_done x)
    then show ?thesis using c(3) by simp
  qed
qed

lemma pop_retire2_stuck:
  assumes "spsc_at al limit s ps ys xs us" "consumer s = Some (R_retire2 old n gpc)"
  shows "qpop_step al (R_retire2 old n gpc) (que s) = Some (Inl Panic)"
  using assms by (auto simp: spsc_at_def qpop_retire2_step_def)

lemma pop_read_inv:
  assumes "spsc_at al limit s ps ys xs us" "consumer s = Some (R_read n)"
  shows "\<exists>pc'. qpop_step al (R_read n) (que s) = Some (Inr (pc', que s)) \<and> spsc_at al limit (pop_ran pc' (que s) s) ps [] xs us"
proof -
  note i = assms(1)[unfolded spsc_at_def]
  obtain x where y: "n = Shared (hd ps)" "retired (que s) (Suc (length (got s)))" "ys = [x]" "dat (nodes (que s)) (hd ps) = Some x"
    using i assms(2) by auto
  have "chain al (nodes (que s)) ps xs" using i by simp
  then have "qpop_step al (R_read n) (que s) = Some (Inr (R_done (Some x), que s))"
    using y chain_hd by (fastforce simp: shared_deref_def deref_def dat_def split: option.splits)
  moreover have "spsc_at al limit (pop_ran (R_done (Some x)) (que s) s) ps [] xs us" using i y by (simp add: spsc_at_def pop_ran_def)
  ultimately show ?thesis by blast
qed

lemma pop_step_inv:
  assumes "spsc_at al limit s ps ys xs us" "consumer s = Some pc" "\<not> overflows pc"
  shows "\<exists>pc' q' ps' ys' xs'. qpop_step al pc (que s) = Some (Inr (pc', q')) \<and>
    spsc_at al limit (pop_ran pc' q' s) ps' ys' xs' us"
proof (cases pc)
  case R_head
  note i = assms(1)[unfolded spsc_at_def]
  have "spsc_at al limit (pop_ran (R_next (Shared (hd ps))) (que s) s) ps ys xs us"
    using i assms(2) R_head by (auto simp: spsc_at_def pop_ran_def)
  then show ?thesis using R_head i by auto
next
  case (R_next hp)
  then show ?thesis using pop_next_inv[OF assms(1)] assms(2) by blast
next
  case (R_cas hp np)
  then show ?thesis using pop_cas_inv[OF assms(1)] assms(2) by blast
next
  case (R_retire old n gpc)
  then show ?thesis using pop_retire_inv[OF assms(1)] assms(2) by blast
next
  case (R_lock old n)
  then show ?thesis using pop_lock_inv[OF assms(1)] assms(2) by blast
next
  case (R_read n)
  then show ?thesis using pop_read_inv[OF assms(1)] assms(2) by blast
qed (use assms in \<open>auto simp: spsc_at_def\<close>)

lemma pop_run_ok:
  assumes "spsc_inv al limit s" "consumer s = Some pc" "\<not> overflows pc"
  shows "\<exists>pc' q'. qpop_step al pc (que s) = Some (Inr (pc', q')) \<and> spsc_inv al limit (pop_ran pc' q' s)"
  using assms pop_step_inv by (fastforce simp: spsc_inv_def)

lemma pop_run_inv:
  assumes "spsc_inv al limit s" "consumer s = Some pc" "qpop_step al pc (que s) = Some (Inr (pc', q'))"
  shows "spsc_inv al limit (pop_ran pc' q' s)"
proof (cases "overflows pc")
  case True
  obtain ps ys xs us where i: "spsc_at al limit s ps ys xs us" using assms(1) by (auto simp: spsc_inv_def)
  from True show ?thesis
  proof (cases pc rule: overflows.cases)
    case (1 old n gpc)
    then show ?thesis using pop_clear_inv[OF i] assms(2,3) by (auto intro: spsc_invI)
  next
    case (2 old n gpc)
    then show ?thesis using pop_retire2_stuck[OF i] assms(2,3) by simp
  qed simp_all
qed (use pop_run_ok[OF assms(1,2)] assms(3) in auto)

lemma got_bounded:
  assumes "spsc_at al limit s ps ys xs us"
  shows "length (got s) \<le> unat limit"
    "consumer s = Some pc \<Longrightarrow> overflows pc \<Longrightarrow> length (got s) = unat limit"
proof -
  note i = assms[unfolded spsc_at_def]
  show "length (got s) \<le> unat limit"
  proof (cases "consumer s")
    case None
    then show ?thesis using i retired_le by auto
  next
    case (Some pc)
    then show ?thesis using i retired_le[of "que s"] by (cases pc) (auto dest: Suc_leD)
  qed
  show "length (got s) = unat limit" if "consumer s = Some pc" "overflows pc"
    using i that by (cases pc) auto
qed

definition spsc_start :: "usize \<Rightarrow> 'a qnode allocator \<Rightarrow> usize \<Rightarrow> 'a spsc \<Rightarrow> bool" where
  "spsc_start al alloc limit s \<longleftrightarrow> good_alloc al alloc \<and>
     (\<exists>gal gsz galloc h q. raw_with_threads al alloc gal gsz galloc limit h = Inr q \<and> s = spsc_init q)"

lemma spsc_start_inv:
  assumes "spsc_start al alloc limit s"
  shows "spsc_inv al limit s"
proof -
  obtain gal gsz galloc h q where q: "raw_with_threads al alloc gal gsz galloc limit h = Inr q" "s = spsc_init q"
    "good_alloc al alloc" using assms by (auto simp: spsc_start_def)
  obtain p where "rep al q [p] [] []" "cap (pop_guard q) = limit" using rep_new[OF q(1,3)] by blast
  then have "spsc_at al limit s [p] [] [] []"
    by (simp add: spsc_at_def q(2) spsc_init_def rep_def retired_def stored_def)
  then show ?thesis by (rule spsc_invI)
qed

lemma spsc_step_inv:
  assumes "spsc_inv al limit s" "good_alloc al alloc" "spsc_step al alloc s s'"
  shows "spsc_inv al limit s'"
  using assms(3)
proof (cases rule: spsc_step.cases)
  case (push_call v sh q)
  then show ?thesis using assms push_call_inv[of al limit s] by (fastforce simp: spsc_inv_def)
next
  case (push_run sh pc pc' q)
  then show ?thesis using push_run_inv[OF assms(1) push_run(2)] by auto
next
  case pop_call
  obtain ps ys xs us where i: "spsc_at al limit s ps ys xs us" using assms(1) by (auto simp: spsc_inv_def)
  then have "spsc_at al limit (s\<lparr>consumer := Some R_head\<rparr>) ps ys xs us"
    using pop_call by (simp add: spsc_at_def)
  then show ?thesis using pop_call by (auto intro: spsc_invI)
next
  case (pop_run pc pc' q)
  then show ?thesis using pop_run_inv[OF assms(1)] by auto
qed

interpretation spsc_runs: inductive_invariant
  "spsc_start al alloc limit" "spsc_step al alloc" "\<lambda>s. good_alloc al alloc \<and> spsc_inv al limit s"
  for al alloc limit
proof
  show "good_alloc al alloc \<and> spsc_inv al limit s" if "spsc_start al alloc limit s" for s :: "'a spsc"
    using that spsc_start_inv[OF that] by (simp add: spsc_start_def)
qed (blast intro: spsc_step_inv)

text \<open>Runs can be computed from a schedule.\<close>

datatype 'a move = Send 'a | Producer | Receive | Consumer

fun spsc_move :: "usize \<Rightarrow> 'a qnode allocator \<Rightarrow> 'a move \<Rightarrow> 'a spsc \<Rightarrow> 'a spsc option" where
  "spsc_move al alloc (Send v) s =
     (case (producer s, new_node al alloc v (que s)) of
        (None, Inr (sh, q)) \<Rightarrow> Some (s\<lparr>que := q, producer := Some (sh, Q_tail), sent := sent s @ [v]\<rparr>)
      | _ \<Rightarrow> None)"
| "spsc_move al alloc Producer s =
     (case producer s of
        None \<Rightarrow> None
      | Some (sh, pc) \<Rightarrow>
          (case qpush_step al sh pc (que s) of Some (Inr (pc', q)) \<Rightarrow> Some (push_ran sh pc' q s) | _ \<Rightarrow> None))"
| "spsc_move al alloc Receive s =
     (if consumer s = None then Some (s\<lparr>consumer := Some R_head\<rparr>) else None)"
| "spsc_move al alloc Consumer s =
     (case consumer s of
        None \<Rightarrow> None
      | Some pc \<Rightarrow> (case qpop_step al pc (que s) of Some (Inr (pc', q)) \<Rightarrow> Some (pop_ran pc' q s) | _ \<Rightarrow> None))"

fun spsc_exec :: "usize \<Rightarrow> 'a qnode allocator \<Rightarrow> 'a move list \<Rightarrow> 'a spsc \<Rightarrow> 'a spsc option" where
  "spsc_exec al alloc [] s = Some s"
| "spsc_exec al alloc (m # ms) s =
     (case spsc_move al alloc m s of None \<Rightarrow> None | Some s' \<Rightarrow> spsc_exec al alloc ms s')"

lemma spsc_move_step: "spsc_move al alloc m s = Some s' \<Longrightarrow> spsc_step al alloc s s'"
  by (cases m) (auto split: option.splits sum.splits if_splits intro: spsc_step.intros)

lemma spsc_exec_reach:
  "reach I (spsc_step al alloc) s \<Longrightarrow> spsc_exec al alloc ms s = Some s' \<Longrightarrow>
   reach I (spsc_step al alloc) s'"
proof (induction ms arbitrary: s)
  case (Cons m ms)
  then obtain s1 where "spsc_move al alloc m s = Some s1" "spsc_exec al alloc ms s1 = Some s'"
    by (auto split: option.splits)
  then show ?case using Cons.IH[of s1] reach_step[OF Cons.prems(1) spsc_move_step] by blast
qed simp

section \<open>Properties\<close>

text \<open>
  C6. One producer and one consumer, interleaved in any way, each calling as often as it likes. In every
  reachable state the values the consumer received are the first ones that were sent, in their order,
  none twice and none skipped, and not more than the number \<open>threads\<close> the queue was made for. The
  producer never faults or blocks. Nor does the consumer, except inside the removal that comes after
  \<open>threads\<close> successful ones, while it clears the full guard of \<open>pop\<close>. When both are idle \<open>is_empty\<close> is true
  exactly when everything that was sent has arrived.
\<close>

theorem one_producer_one_consumer_fifo:
  assumes "reach (spsc_start al alloc threads) (spsc_step al alloc) s"
  shows "(\<exists>zs. sent s = got s @ zs) \<and> length (got s) \<le> unat threads \<and>
    (\<forall>sh pc. producer s = Some (sh, pc) \<longrightarrow> (\<exists>r. qpush_step al sh pc (que s) = Some (Inr r))) \<and>
    (\<forall>pc. consumer s = Some pc \<longrightarrow> (\<exists>r. qpop_step al pc (que s) = Some (Inr r)) \<or>
       overflows pc \<and> length (got s) = unat threads) \<and>
    (producer s = None \<and> consumer s = None \<longrightarrow> raw_is_empty al (que s) = Inr (got s = sent s))"
proof -
  have inv: "spsc_inv al threads s" using spsc_runs.reach_inv[OF assms] by simp
  obtain ps ys xs us where i: "spsc_at al threads s ps ys xs us" using inv by (auto simp: spsc_inv_def)
  have "raw_is_empty al (que s) = Inr (xs = [])"
    using i by (intro chain_is_empty) (auto simp: spsc_at_def)
  moreover have "us = []" "ys = []" if "producer s = None" "consumer s = None"
    using i that by (auto simp: spsc_at_def)
  moreover have "sent s = got s @ ys @ xs @ us" using i by (simp add: spsc_at_def)
  moreover have "(\<exists>r. qpop_step al pc (que s) = Some (Inr r)) \<or> overflows pc \<and> length (got s) = unat threads"
    if "consumer s = Some pc" for pc
    using pop_run_ok[OF inv that] got_bounded(2)[OF i that] by blast
  ultimately show ?thesis using push_run_inv[OF inv] got_bounded(1)[OF i] by fastforce
qed

text \<open>A run in which the consumer starts while the second value is still being linked.\<close>

definition demo_queue :: "nat raw_queue" where
  "demo_queue =
    (let g = \<lparr>guard = Atomic 64, cap = 2, len = 0, cells = [None, None], glock = small_new raw_INIT ()\<rparr>
     in \<lparr>nodes = [8 \<mapsto> node_default], qhead = Atomic 8, qtail = Atomic 8, push_guard = g, pop_guard = g\<rparr>)"

definition demo_schedule :: "nat move list" where
  "demo_schedule = Send 7 # replicate 6 Producer @ [Send 9, Producer, Receive, Consumer, Producer, Consumer,
     Producer, Consumer, Producer, Consumer, Producer] @ replicate 3 Consumer"

lemma low_bits_8: "low_bits 8 = 7"
  using low_bits_exp[of 3] by (simp add: mask_eq_exp_minus_1)

lemma demo_start: "spsc_start 8 arena_alloc 2 (spsc_init demo_queue)"
proof -
  have "arena_alloc Map.empty = Some 8" by (simp add: arena_alloc_def)
  note a = owned_new_ok[OF arena_alloc_good this]
  have r: "replicate 2 x = [x, x]" for x :: "owned option" by (simp add: numeral_2_eq_2)
  have "raw_with_threads 8 arena_alloc 8 8 (\<lambda>_. Some 64) 2 Map.empty = Inr demo_queue"
    by (simp add: a raw_with_threads_def raw_with_def owned_into_shared_def shared_from_usize_def pg_with_def
        atomic_ptr_def atomic_from_raw_def atomic_from_usize_def Let_def demo_queue_def owned_into_usize_def
        atomic_store_def shared_into_usize_def r)
  then show ?thesis using arena_alloc_good unfolding spsc_start_def by blast
qed

lemma demo_run:
  "map_option (\<lambda>s. (sent s, got s)) (spsc_exec 8 arena_alloc demo_schedule (spsc_init demo_queue)) = Some ([7, 9], [7])"
  by code_simp

theorem one_producer_one_consumer_fifo_witness:
  "\<exists>s :: nat spsc. reach (spsc_start 8 arena_alloc 2) (spsc_step 8 arena_alloc) s \<and>
     sent s = [7, 9] \<and> got s = [7] \<and> (\<exists>zs. sent s = got s @ zs)"
proof -
  obtain s where s: "spsc_exec 8 arena_alloc demo_schedule (spsc_init demo_queue) = Some s" "sent s = [7, 9]" "got s = [7]"
    using demo_run by auto
  have "reach (spsc_start 8 arena_alloc 2) (spsc_step 8 arena_alloc) (spsc_init demo_queue)"
    using demo_start by (rule reach_init)
  from spsc_exec_reach[OF this s(1)]
  have "reach (spsc_start 8 arena_alloc 2) (spsc_step 8 arena_alloc) s" .
  then show ?thesis using one_producer_one_consumer_fifo[of 8 arena_alloc 2 s] s(2,3) by blast
qed

end
