(* ===== verification/Hash_Table.thy ===== *)
theory Hash_Table
  imports Park_Queue
begin

text \<open>
  The global hash table of the parking lot in \<open>mutex/deadlock.rs\<close>: its construction for a number of
  threads, the multiplicative hash, and its growth, which moves every waiting thread into the bucket of
  the new table that its key hashes to. Growth holds the locks of all buckets of the old table, so it
  is one step here. Arithmetic is that of a checked build: an overflow or a shift by the whole width
  is a panic.
\<close>

section \<open>Construction\<close>

record hash_table =
  entries :: "bucket list"
  hash_bits :: nat

definition LOAD_FACTOR :: usize where
  "LOAD_FACTOR = 3"

definition checked_mul :: "usize \<Rightarrow> usize \<Rightarrow> usize outcome" where
  "checked_mul a b = (if unat a * unat b < 2 ^ 64 then Inr (a * b) else Inl Panic)"

definition next_power_of_two :: "usize \<Rightarrow> usize outcome" where
  "next_power_of_two n =
    (case find (\<lambda>k. unat n \<le> 2 ^ k) [0..<64] of Some k \<Rightarrow> Inr (2 ^ k) | None \<Rightarrow> Inl Panic)"

definition leading_zeros :: "usize \<Rightarrow> nat" where
  "leading_zeros w = length (takeWhile (\<lambda>i. \<not> bit w (63 - i)) [0..<64])"

text \<open>The seed of bucket \<open>i\<close> is \<open>i as u32 + 1\<close>: the cast truncates, the addition is checked.\<close>

definition bucket_seed :: "nat \<Rightarrow> u32 outcome" where
  "bucket_seed i = (let s = word_of_nat i :: u32 in if unat s + 1 < 2 ^ 32 then Inr (s + 1) else Inl Panic)"

fun new_buckets :: "nat \<Rightarrow> nat \<Rightarrow> nat \<Rightarrow> bucket list outcome" where
  "new_buckets now i 0 = Inr []"
| "new_buckets now i (Suc n) =
     obind (bucket_seed i) (\<lambda>s. obind (new_buckets now (Suc i) n) (\<lambda>bs. Inr (bucket_new now s # bs)))"

definition hash_table_new :: "usize \<Rightarrow> nat \<Rightarrow> hash_table outcome" where
  "hash_table_new num_threads now =
    obind (checked_mul num_threads LOAD_FACTOR) (\<lambda>m.
    obind (next_power_of_two m) (\<lambda>new_size.
    obind (new_buckets now 0 (unat new_size)) (\<lambda>bs.
      Inr \<lparr>entries = bs, hash_bits = leading_zeros 0 - leading_zeros new_size - 1\<rparr>)))"

section \<open>Hashing\<close>

definition hash_raw :: "usize \<Rightarrow> nat \<Rightarrow> usize" where
  "hash_raw k bits = drop_bit (64 - bits) (k * 0x9E3779B97F4A7C15)"

definition hash :: "usize \<Rightarrow> nat \<Rightarrow> usize outcome" where
  "hash k bits = (if bits = 0 then Inl Panic else Inr (hash_raw k bits))"

section \<open>Growth\<close>

definition rehash_one :: "tds \<Rightarrow> hash_table \<Rightarrow> ptr \<Rightarrow> (ptr \<times> tds \<times> hash_table) outcome" where
  "rehash_one S t current =
    (case S current of
       None \<Rightarrow> Inl Dangling
     | Some td \<Rightarrow>
         obind (hash (key td) (hash_bits t)) (\<lambda>h.
         if length (entries t) \<le> unat h then Inl Panic
         else let b = entries t ! unat h in
           obind (if queue_tail b = null then Inr (S, b\<lparr>queue_head := current\<rparr>)
                  else obind (set_next (queue_tail b) current S) (\<lambda>S. Inr (S, b))) (\<lambda>(S, b).
           obind (set_next current null S) (\<lambda>S.
             Inr (next_in_queue td, S, t\<lparr>entries := (entries t)[unat h := b\<lparr>queue_tail := current\<rparr>]\<rparr>)))))"

partial_function (option) rehash_bucket_into ::
    "tds \<Rightarrow> hash_table \<Rightarrow> ptr \<Rightarrow> (tds \<times> hash_table) outcome option" where
  "rehash_bucket_into S t current =
    (if current = null then Some (Inr (S, t))
     else case rehash_one S t current of
            Inl f \<Rightarrow> Some (Inl f)
          | Inr (nx, S', t') \<Rightarrow> rehash_bucket_into S' t' nx)"

fun rehash_all :: "bucket list \<Rightarrow> tds \<Rightarrow> hash_table \<Rightarrow> (tds \<times> hash_table) outcome option" where
  "rehash_all [] S t = Some (Inr (S, t))"
| "rehash_all (b # bs) S t =
     (case rehash_bucket_into S t (queue_head b) of
        None \<Rightarrow> None
      | Some (Inl f) \<Rightarrow> Some (Inl f)
      | Some (Inr (S', t')) \<Rightarrow> rehash_all bs S' t')"

definition grow_hashtable :: "usize \<Rightarrow> nat \<Rightarrow> tds \<Rightarrow> hash_table \<Rightarrow> (tds \<times> hash_table) outcome option" where
  "grow_hashtable num_threads now S t =
    (case checked_mul LOAD_FACTOR num_threads of
       Inl f \<Rightarrow> Some (Inl f)
     | Inr m \<Rightarrow>
         if unat m \<le> length (entries t) then Some (Inr (S, t))
         else case hash_table_new num_threads now of
                Inl f \<Rightarrow> Some (Inl f)
              | Inr t' \<Rightarrow> rehash_all (entries t) S t')"

text \<open>
  \<open>get_hashtable\<close> creates the first table when there is none; its size is computed from the load factor
  used as a number of threads. \<open>ThreadData::new\<close> counts the thread and grows the table; dropping a
  \<open>ThreadData\<close> only gives the count back.
\<close>

record lot =
  hashtable :: "hash_table option"
  NUM_THREADS :: usize
  threads :: tds

definition get_hashtable :: "nat \<Rightarrow> lot \<Rightarrow> (hash_table \<times> lot) outcome" where
  "get_hashtable now g =
    (case hashtable g of
       Some t \<Rightarrow> Inr (t, g)
     | None \<Rightarrow> obind (hash_table_new LOAD_FACTOR now) (\<lambda>t. Inr (t, g\<lparr>hashtable := Some t\<rparr>)))"

definition register_thread :: "nat \<Rightarrow> ptr \<Rightarrow> lot \<Rightarrow> lot outcome option" where
  "register_thread now self g =
    (let n = NUM_THREADS g + 1; g = g\<lparr>NUM_THREADS := n\<rparr> in
     if n = 0 then Some (Inl Panic)
     else case get_hashtable now g of
       Inl f \<Rightarrow> Some (Inl f)
     | Inr (t, g) \<Rightarrow>
         map_option (\<lambda>r. obind r (\<lambda>(S, t).
           Inr (g\<lparr>hashtable := Some t, threads := S(self \<mapsto> thread_data_new)\<rparr>)))
         (grow_hashtable n now (threads g) t))"

definition drop_thread :: "ptr \<Rightarrow> lot \<Rightarrow> lot" where
  "drop_thread self g = g\<lparr>NUM_THREADS := NUM_THREADS g - 1, threads := (threads g)(self := None)\<rparr>"

section \<open>Sizes\<close>

lemma find_first:
  assumes "n \<le> 2 ^ k" "k < m" "\<And>j. j < k \<Longrightarrow> \<not> n \<le> (2 :: nat) ^ j"
  shows "find (\<lambda>k. n \<le> 2 ^ k) [0..<m] = Some k"
  using assms by (auto simp: find_Some_iff)

lemma next_power_of_two_exp:
  assumes "unat n \<le> 2 ^ 63"
  obtains k where "next_power_of_two n = Inr (2 ^ k)" "k < 64" "unat n \<le> 2 ^ k" "k = 0 \<or> 2 ^ (k - 1) < unat n"
proof -
  define k where "k = (LEAST k. unat n \<le> 2 ^ k)"
  have k: "unat n \<le> 2 ^ k" "k \<le> 63" unfolding k_def using assms
    by (rule LeastI, rule Least_le)
  have l: "\<not> unat n \<le> 2 ^ j" if "j < k" for j using that not_less_Least unfolding k_def by blast
  have "find (\<lambda>k. unat n \<le> 2 ^ k) [0..<64] = Some k" using k l by (intro find_first) auto
  moreover have "k = 0 \<or> 2 ^ (k - 1) < unat n" using l[of "k - 1"] by (cases k) auto
  ultimately show thesis using that k by (simp add: next_power_of_two_def)
qed

lemma leading_zeros_exp: "k < 64 \<Longrightarrow> leading_zeros (2 ^ k) = 63 - k"
proof -
  assume k: "k < 64"
  have "takeWhile (\<lambda>i. \<not> bit ((2 :: usize) ^ k) (63 - i)) [0..<64] = takeWhile (\<lambda>i. i \<noteq> 63 - k) [0..<64]"
    using k by (intro takeWhile_cong refl) (auto simp: bit_exp_iff)
  then show ?thesis using takeWhile_upt[of "63 - k" 64] k by (simp add: leading_zeros_def)
qed

lemma leading_zeros_0: "leading_zeros 0 = 64"
  by (simp add: leading_zeros_def takeWhile_eq_all_conv[THEN iffD2])

lemma new_buckets_map:
  "i + n < 2 ^ 32 \<Longrightarrow> new_buckets now i n = Inr (map (\<lambda>j. bucket_new now (word_of_nat j + 1)) [i..<i + n])"
proof (induction n arbitrary: i)
  case (Suc n)
  have "bucket_seed i = Inr (word_of_nat i + 1)"
    using Suc.prems by (simp add: bucket_seed_def unat_of_nat Let_def)
  moreover have "[i..<i + Suc n] = i # [Suc i..<Suc i + n]" by (simp add: upt_conv_Cons del: upt_Suc)
  ultimately show ?case using Suc by (simp del: upt_Suc)
qed simp

lemma hash_raw_bound: "bits \<le> 64 \<Longrightarrow> unat (hash_raw k bits) < 2 ^ bits"
proof -
  assume b: "bits \<le> 64"
  have "unat (k * 0x9E3779B97F4A7C15) < 2 ^ (64 - bits) * 2 ^ bits"
    using usize_lt[of "k * 0x9E3779B97F4A7C15"] b by (simp add: power_add[symmetric])
  then have "unat (k * 0x9E3779B97F4A7C15) div 2 ^ (64 - bits) < 2 ^ bits"
    by (intro less_mult_imp_div_less) (simp add: mult.commute)
  then show ?thesis unfolding hash_raw_def unsigned_drop_bit_eq
    using usize_lt by (simp add: drop_bit_eq_div take_bit_nat_eq_self)
qed

lemma hash_table_new_shape:
  assumes "n \<noteq> 0" "unat n < 2 ^ 29"
  shows "\<exists>t. hash_table_new n now = Inr t \<and> 0 < hash_bits t \<and> hash_bits t < 32 \<and> length (entries t) = 2 ^ hash_bits t \<and>
    3 * unat n \<le> length (entries t) \<and> length (entries t) < 6 * unat n \<and>
    entries t = map (\<lambda>i. bucket_new now (word_of_nat i + 1)) [0..<2 ^ hash_bits t]"
proof -
  let ?m = "n * LOAD_FACTOR"
  have n1: "1 \<le> unat n" using assms(1) by (simp add: Suc_leI unat_gt_0)
  have cm: "checked_mul n LOAD_FACTOR = Inr ?m" using assms(2) by (simp add: checked_mul_def LOAD_FACTOR_def)
  have um: "unat ?m = 3 * unat n"
    using assms(2) by (simp add: LOAD_FACTOR_def unat_word_ariths)
  obtain k where k: "next_power_of_two ?m = Inr (2 ^ k)" "k < 64" "unat ?m \<le> 2 ^ k" "k = 0 \<or> 2 ^ (k - 1) < unat ?m"
    using next_power_of_two_exp[of ?m] um assms(2) by auto
  have k0: "k \<noteq> 0" using k(3) um n1 by (intro notI) simp
  then have lt: "(2 :: nat) ^ k < 6 * unat n" using k(4) um by (cases k) auto
  have "(2 :: nat) ^ k < 2 ^ 32" using lt assms(2) by simp
  then have k32: "k < 32" by (rule power_less_imp_less_exp[rotated]) simp
  have u: "unat ((2 :: usize) ^ k) = 2 ^ k" using k(2) by (rule unat_exp)
  have "new_buckets now 0 (2 ^ k) = Inr (map (\<lambda>i. bucket_new now (word_of_nat i + 1)) [0..<2 ^ k])"
    using new_buckets_map[of 0 "2 ^ k"] \<open>(2 :: nat) ^ k < 2 ^ 32\<close> by simp
  then have "hash_table_new n now =
      Inr \<lparr>entries = map (\<lambda>i. bucket_new now (word_of_nat i + 1)) [0..<2 ^ k], hash_bits = k\<rparr>"
    using k(2) by (simp add: hash_table_new_def cm k(1) u leading_zeros_exp leading_zeros_0)
  then show ?thesis using k0 k32 k(3) um lt by simp
qed

section \<open>Tables and their lists\<close>

text \<open>
  \<open>table_rep S t f\<close>: bucket \<open>i\<close> of the table holds the list \<open>f i\<close>, and no thread is in two of them.
  \<open>slot S bits p\<close> is the bucket that the key of thread \<open>p\<close> hashes to.
\<close>

definition table_rep :: "tds \<Rightarrow> hash_table \<Rightarrow> (nat \<Rightarrow> ptr list) \<Rightarrow> bool" where
  "table_rep S t f \<longleftrightarrow>
     (\<forall>i < length (entries t). bucket_list S (entries t ! i) (f i)) \<and>
     (\<forall>i < length (entries t). \<forall>j < length (entries t). i \<noteq> j \<longrightarrow> set (f i) \<inter> set (f j) = {})"

definition slot :: "tds \<Rightarrow> nat \<Rightarrow> ptr \<Rightarrow> nat" where
  "slot S bits p = (case S p of None \<Rightarrow> 0 | Some td \<Rightarrow> unat (hash_raw (key td) bits))"

definition members :: "hash_table \<Rightarrow> (nat \<Rightarrow> ptr list) \<Rightarrow> ptr set" where
  "members t f = (\<Union>i < length (entries t). set (f i))"

definition good_table :: "hash_table \<Rightarrow> bool" where
  "good_table t \<longleftrightarrow> 0 < hash_bits t \<and> hash_bits t < 64 \<and> length (entries t) = 2 ^ hash_bits t"

lemma slot_lt: "good_table t \<Longrightarrow> slot S (hash_bits t) p < length (entries t)"
  using hash_raw_bound[of "hash_bits t"] by (auto simp: slot_def good_table_def split: option.splits)

lemma slot_waits: "waits_on S k p \<Longrightarrow> slot S bits p = unat (hash_raw k bits)"
  by (auto simp: waits_on_def slot_def)

lemma same_but_next_trans: "same_but_next S S' \<Longrightarrow> same_but_next S' S'' \<Longrightarrow> same_but_next S S''"
  by (simp add: same_but_next_def)

lemma same_but_next_slot: "same_but_next S S' \<Longrightarrow> slot S' bits p = slot S bits p"
  by (cases "S p") (auto simp: slot_def same_but_next_None[THEN iffD2] elim: same_but_next_get)

text \<open>Appending one thread to a bucket, as \<open>rehash_bucket_into\<close> does it.\<close>

lemma bucket_append:
  assumes "bucket_list S b xs" "S c = Some td" "c \<noteq> null" "c \<notin> set xs"
  shows "\<exists>S1 b1 S2. (if queue_tail b = null then Inr (S, b\<lparr>queue_head := c\<rparr>)
        else obind (set_next (queue_tail b) c S) (\<lambda>S. Inr (S, b))) = Inr (S1, b1) \<and>
    set_next c null S1 = Inr S2 \<and> bucket_list S2 (b1\<lparr>queue_tail := c\<rparr>) (xs @ [c]) \<and> same_but_next S S2 \<and>
    (\<forall>p. p \<notin> insert c (set xs) \<longrightarrow> S2 p = S p)"
proof (cases "xs = []")
  case True
  then have "queue_tail b = null" using assms(1) by (simp add: bucket_list_Nil)
  then show ?thesis using True assms
    by (auto simp: set_next_def bucket_list_def next_of_def intro: same_but_next_upd)
next
  case False
  let ?l = "last xs"
  have bl: "seg (next_of S) (queue_head b) xs null" "distinct xs" "null \<notin> set xs" "set xs \<subseteq> dom S" "queue_tail b = ?l"
    using assms(1) False by (auto simp: bucket_list_def)
  have l: "?l \<in> set xs" "?l \<noteq> null" "?l \<noteq> c" using last_in_set[OF False] bl(3) assms(4) by metis+
  then obtain tl where tl: "S ?l = Some tl" using bl(4) by blast
  define S1 where "S1 = S(?l \<mapsto> tl\<lparr>next_in_queue := c\<rparr>)"
  define S2 where "S2 = S1(c \<mapsto> td\<lparr>next_in_queue := null\<rparr>)"
  have S1c: "S1 c = Some td" using assms(2) l by (simp add: S1_def)
  have "same_but_next S S1" unfolding S1_def using tl by (rule same_but_next_upd)
  moreover have "same_but_next S1 S2" unfolding S2_def using S1c by (rule same_but_next_upd)
  ultimately have sbn: "same_but_next S S2" by (rule same_but_next_trans)
  have "next_of S2 = ((next_of S)(c := null))(?l := c)"
    using l by (auto simp: S1_def S2_def next_of_def fun_eq_iff)
  moreover have "seg (((next_of S)(c := null))(?l := c)) (queue_head b) (xs @ [c]) null"
    using bl assms(4) False by (intro seg_extend) auto
  ultimately have "bucket_list S2 (b\<lparr>queue_tail := c\<rparr>) (xs @ [c])"
    using bl assms(3,4) by (auto simp: bucket_list_def S1_def S2_def)
  moreover have "\<forall>p. p \<notin> insert c (set xs) \<longrightarrow> S2 p = S p" using l by (auto simp: S1_def S2_def)
  ultimately show ?thesis using bl(5) l tl S1c sbn by (auto simp: set_next_def S1_def[symmetric] S2_def[symmetric])
qed

lemma bucket_list_cong:
  assumes "bucket_list S b xs" "\<And>p. p \<in> set xs \<Longrightarrow> S' p = S p"
  shows "bucket_list S' b xs"
proof -
  have "seg (next_of S') (queue_head b) xs null \<longleftrightarrow> seg (next_of S) (queue_head b) xs null"
    using assms(2) by (intro seg_cong) (simp add: next_of_def)
  moreover have "set xs \<subseteq> dom S'" using assms by (auto simp: bucket_list_def)
  ultimately show ?thesis using assms(1) by (simp add: bucket_list_def)
qed

lemma rehash_one_step:
  assumes t: "table_rep S t f" "good_table t" and c: "S c = Some td" "c \<noteq> null" "c \<notin> members t f"
  shows "\<exists>S' t'. rehash_one S t c = Inr (next_in_queue td, S', t') \<and>
    table_rep S' t' (f(slot S (hash_bits t) c := f (slot S (hash_bits t) c) @ [c])) \<and> good_table t' \<and>
    hash_bits t' = hash_bits t \<and> same_but_next S S' \<and> (\<forall>p. p \<notin> insert c (members t f) \<longrightarrow> S' p = S p)"
proof -
  let ?i = "slot S (hash_bits t) c"
  have i: "?i < length (entries t)" "?i = unat (hash_raw (key td) (hash_bits t))"
    using slot_lt[OF t(2), of S c] c by (auto simp: slot_def)
  have b: "bucket_list S (entries t ! ?i) (f ?i)" "c \<notin> set (f ?i)"
    using t(1) i(1) c(3) by (auto simp: table_rep_def members_def)
  obtain S1 b1 S2 where s: "(if queue_tail (entries t ! ?i) = null then Inr (S, (entries t ! ?i)\<lparr>queue_head := c\<rparr>)
        else obind (set_next (queue_tail (entries t ! ?i)) c S) (\<lambda>S. Inr (S, entries t ! ?i))) = Inr (S1, b1)"
    "set_next c null S1 = Inr S2" "bucket_list S2 (b1\<lparr>queue_tail := c\<rparr>) (f ?i @ [c])" "same_but_next S S2"
    "\<forall>p. p \<notin> insert c (set (f ?i)) \<longrightarrow> S2 p = S p"
    using bucket_append[OF b(1) c(1,2) b(2)] by metis
  let ?t = "t\<lparr>entries := (entries t)[?i := b1\<lparr>queue_tail := c\<rparr>]\<rparr>"
  have "rehash_one S t c = Inr (next_in_queue td, S2, ?t)"
    using c t(2) i s(1,2) by (auto simp: rehash_one_def hash_def good_table_def Let_def split: if_splits)
  moreover have "bucket_list S2 (entries ?t ! j) ((f(?i := f ?i @ [c])) j)" if "j < length (entries t)" for j
  proof (cases "j = ?i")
    case False
    have "bucket_list S (entries t ! j) (f j)" using t(1) that by (simp add: table_rep_def)
    then have "bucket_list S2 (entries t ! j) (f j)"
    proof (rule bucket_list_cong)
      fix p assume p: "p \<in> set (f j)"
      have "set (f j) \<inter> set (f ?i) = {}" using t(1) that i(1) False by (simp add: table_rep_def)
      moreover have "p \<noteq> c" using p c(3) that by (auto simp: members_def)
      ultimately show "S2 p = S p" using s(5) p by blast
    qed
    then show ?thesis using False by simp
  qed (use s(3) i(1) in simp)
  then have "table_rep S2 ?t (f(?i := f ?i @ [c]))"
    using t(1) c(3) i(1) by (auto simp: table_rep_def members_def)
  ultimately show ?thesis using t(2) s(4,5) i(1) by (auto simp: good_table_def members_def)
qed

lemma members_append:
  "i < length (entries t) \<Longrightarrow> length (entries t') = length (entries t) \<Longrightarrow>
   members t' (f(i := f i @ ys)) = members t f \<union> set ys"
  by (auto simp: members_def split: if_splits)

lemma good_table_length: "good_table t \<Longrightarrow> good_table t' \<Longrightarrow> hash_bits t' = hash_bits t \<Longrightarrow> length (entries t') = length (entries t)"
  by (simp add: good_table_def)

lemma rehash_bucket:
  assumes "table_rep S t f" "good_table t" "seg (next_of S) c xs null" "distinct xs" "null \<notin> set xs" "set xs \<subseteq> dom S"
    "set xs \<inter> members t f = {}"
  shows "\<exists>S' t'. rehash_bucket_into S t c = Some (Inr (S', t')) \<and>
    table_rep S' t' (\<lambda>i. f i @ filter (\<lambda>p. slot S (hash_bits t) p = i) xs) \<and> good_table t' \<and> hash_bits t' = hash_bits t \<and>
    same_but_next S S' \<and> (\<forall>p. p \<notin> set xs \<union> members t f \<longrightarrow> S' p = S p)"
  using assms
proof (induction xs arbitrary: S t f c)
  case Nil
  then show ?case by (subst rehash_bucket_into.simps) auto
next
  case (Cons x xs)
  have x: "c = x" "x \<noteq> null" "x \<notin> members t f" using Cons.prems by auto
  obtain td where td: "S x = Some td" using Cons.prems(6) by auto
  let ?i = "slot S (hash_bits t) x" and ?f = "f(slot S (hash_bits t) x := f (slot S (hash_bits t) x) @ [x])"
  obtain S1 t1 where s1: "rehash_one S t x = Inr (next_in_queue td, S1, t1)" "table_rep S1 t1 ?f" "good_table t1"
    "hash_bits t1 = hash_bits t" "same_but_next S S1" "\<forall>p. p \<notin> insert x (members t f) \<longrightarrow> S1 p = S p"
    using rehash_one_step[OF Cons.prems(1,2) td x(2,3)] by blast
  have m: "members t1 ?f = insert x (members t f)"
    using members_append[OF slot_lt[OF Cons.prems(2)], of t1 f S x "[x]"] good_table_length[OF Cons.prems(2) s1(3,4)] by simp
  have keep: "S1 p = S p" if "p \<in> set xs" for p using s1(6) that Cons.prems(4,7) by auto
  have "seg (next_of S) (next_in_queue td) xs null" using Cons.prems(3) td x by simp
  then have seg1: "seg (next_of S1) (next_in_queue td) xs null"
    using seg_cong[of xs "next_of S1" "next_of S"] keep by (simp add: next_of_def)
  have d: "distinct xs" "null \<notin> set xs" "set xs \<subseteq> dom S1" "set xs \<inter> members t1 ?f = {}"
    using Cons.prems(4-7) same_but_next_dom[OF s1(5)] m by auto
  obtain S2 t2 where s2: "rehash_bucket_into S1 t1 (next_in_queue td) = Some (Inr (S2, t2))"
    "table_rep S2 t2 (\<lambda>i. ?f i @ filter (\<lambda>p. slot S1 (hash_bits t1) p = i) xs)" "good_table t2" "hash_bits t2 = hash_bits t1"
    "same_but_next S1 S2" "\<forall>p. p \<notin> set xs \<union> members t1 ?f \<longrightarrow> S2 p = S1 p"
    using Cons.IH[OF s1(2,3) seg1 d] by blast
  have ff: "(\<lambda>i. ?f i @ filter (\<lambda>p. slot S1 (hash_bits t1) p = i) xs) =
      (\<lambda>i. f i @ filter (\<lambda>p. slot S (hash_bits t) p = i) (x # xs))"
    by (auto simp: fun_eq_iff same_but_next_slot[OF s1(5)] s1(4))
  have "rehash_bucket_into S t c = Some (Inr (S2, t2))"
    using x s1(1) s2(1) by (subst rehash_bucket_into.simps) simp
  moreover have "\<forall>p. p \<notin> set (x # xs) \<union> members t f \<longrightarrow> S2 p = S p" using s1(6) s2(6) m by auto
  moreover have "table_rep S2 t2 (\<lambda>i. f i @ filter (\<lambda>p. slot S (hash_bits t) p = i) (x # xs))"
    using s2(2) unfolding ff .
  moreover have "hash_bits t2 = hash_bits t" using s2(4) s1(4) by simp
  ultimately show ?case using s2(3) same_but_next_trans[OF s1(5) s2(5)] by blast
qed

lemma rehash_buckets:
  assumes "table_rep S t f" "good_table t" "list_all2 (bucket_list S) bs xss" "distinct (concat xss)"
    "set (concat xss) \<inter> members t f = {}"
  shows "\<exists>S' t'. rehash_all bs S t = Some (Inr (S', t')) \<and>
    table_rep S' t' (\<lambda>i. f i @ filter (\<lambda>p. slot S (hash_bits t) p = i) (concat xss)) \<and> good_table t' \<and>
    hash_bits t' = hash_bits t \<and> same_but_next S S'"
  using assms
proof (induction bs arbitrary: S t f xss)
  case (Cons b bs)
  then obtain xs yss where xss: "xss = xs # yss" "bucket_list S b xs" "list_all2 (bucket_list S) bs yss"
    by (auto simp: list_all2_Cons1)
  let ?f = "\<lambda>i. f i @ filter (\<lambda>p. slot S (hash_bits t) p = i) xs"
  obtain S1 t1 where s1: "rehash_bucket_into S t (queue_head b) = Some (Inr (S1, t1))" "table_rep S1 t1 ?f"
    "good_table t1" "hash_bits t1 = hash_bits t" "same_but_next S S1" "\<forall>p. p \<notin> set xs \<union> members t f \<longrightarrow> S1 p = S p"
    using rehash_bucket[OF Cons.prems(1,2), of "queue_head b" xs] xss(1,2) Cons.prems(4,5)
    by (auto simp: bucket_list_def)
  have m: "members t1 ?f \<subseteq> set xs \<union> members t f"
    using good_table_length[OF Cons.prems(2) s1(3,4)] by (auto simp: members_def)
  have "bucket_list S1 b' ys" if "bucket_list S b' ys" "ys \<in> set yss" for b' ys
  proof (rule bucket_list_cong[OF that(1)])
    fix p assume "p \<in> set ys"
    then show "S1 p = S p" using s1(6) that(2) Cons.prems(4,5) xss(1) by auto
  qed
  then have "list_all2 (bucket_list S1) bs yss" using xss(3) by (auto simp: list_all2_conv_all_nth)
  moreover have "distinct (concat yss)" "set (concat yss) \<inter> members t1 ?f = {}"
    using Cons.prems(4,5) xss(1) m by auto
  ultimately obtain S2 t2 where s2: "rehash_all bs S1 t1 = Some (Inr (S2, t2))"
    "table_rep S2 t2 (\<lambda>i. ?f i @ filter (\<lambda>p. slot S1 (hash_bits t1) p = i) (concat yss))" "good_table t2"
    "hash_bits t2 = hash_bits t1" "same_but_next S1 S2"
    using Cons.IH[OF s1(2,3)] by blast
  have "(\<lambda>i. ?f i @ filter (\<lambda>p. slot S1 (hash_bits t1) p = i) (concat yss)) =
      (\<lambda>i. f i @ filter (\<lambda>p. slot S (hash_bits t) p = i) (concat xss))"
    by (simp add: fun_eq_iff same_but_next_slot[OF s1(5)] s1(4) xss(1))
  then show ?case using s1 s2 same_but_next_trans[OF s1(5) s2(5)] by (simp add: xss(1))
qed auto

lemma filter_concat_one:
  "(\<And>i. i < n \<Longrightarrow> i \<noteq> j \<Longrightarrow> filter P (f i) = []) \<Longrightarrow> j < n \<Longrightarrow>
   filter P (concat (map f [0..<n])) = filter P (f j)"
proof (induction n)
  case (Suc n)
  show ?case
  proof (cases "j = n")
    case True
    have "filter P (concat (map f [0..<m])) = []" if "m \<le> n" for m
      using that Suc.prems(1) True by (induction m) auto
    then show ?thesis using True by simp
  next
    case False
    then show ?thesis using Suc by auto
  qed
qed simp

definition table_ok :: "tds \<Rightarrow> hash_table \<Rightarrow> (nat \<Rightarrow> ptr list) \<Rightarrow> bool" where
  "table_ok S t f \<longleftrightarrow> table_rep S t f \<and> good_table t \<and>
     (\<forall>i < length (entries t). \<forall>p \<in> set (f i). slot S (hash_bits t) p = i)"

lemma table_rep_distinct:
  assumes "table_rep S t f"
  shows "m \<le> length (entries t) \<Longrightarrow> distinct (concat (map f [0..<m]))"
proof (induction m)
  case (Suc m)
  have "distinct (f m)" using assms Suc.prems by (auto simp: table_rep_def bucket_list_def)
  moreover have "set (f i) \<inter> set (f m) = {}" if "i < m" for i
    using assms Suc.prems that by (auto simp: table_rep_def)
  ultimately show ?case using Suc by fastforce
qed simp

lemma empty_table_rep:
  assumes "entries t = map (\<lambda>i. bucket_new now (s i)) [0..<m]"
  shows "table_rep S t (\<lambda>_. [])"
  using assms by (auto simp: table_rep_def bucket_list_Nil bucket_new_def)

section \<open>Properties\<close>

text \<open>
  C30. A table made for \<open>n\<close> threads has a power of two of buckets, at least three and less than six
  per thread, all of them empty and with a non-zero seed, and every key hashes into it without
  overflow.
\<close>

theorem hash_table_new_spec:
  assumes "n \<noteq> 0" "unat n < 2 ^ 29"
  shows "\<exists>t. hash_table_new n now = Inr t \<and> length (entries t) = 2 ^ hash_bits t \<and>
    3 * unat n \<le> length (entries t) \<and> length (entries t) < 6 * unat n \<and>
    (\<forall>b \<in> set (entries t). bucket_list S b [] \<and> seed (fair b) \<noteq> 0) \<and>
    (\<forall>k. \<exists>h. hash k (hash_bits t) = Inr h \<and> unat h < length (entries t))"
proof -
  obtain t where t: "hash_table_new n now = Inr t" "0 < hash_bits t" "hash_bits t < 32" "length (entries t) = 2 ^ hash_bits t"
    "3 * unat n \<le> length (entries t)" "length (entries t) < 6 * unat n"
    "entries t = map (\<lambda>i. bucket_new now (word_of_nat i + 1)) [0..<2 ^ hash_bits t]"
    using hash_table_new_shape[OF assms, of now] by blast
  have "(word_of_nat i + 1 :: u32) \<noteq> 0" if "i < 2 ^ hash_bits t" for i
  proof -
    have "Suc i < 2 ^ 32" using that t(4,6) assms(2) by simp
    then have "unat (word_of_nat (Suc i) :: u32) = Suc i" by (simp add: unat_of_nat del: of_nat_Suc)
    then show ?thesis by (metis add.commute of_nat_Suc unsigned_0 nat.distinct(1))
  qed
  then have "\<forall>b \<in> set (entries t). bucket_list S b [] \<and> seed (fair b) \<noteq> 0"
    unfolding t(7) by (auto simp: bucket_list_Nil bucket_new_def fair_timeout_new_def)
  moreover have "\<exists>h. hash k (hash_bits t) = Inr h \<and> unat h < length (entries t)" for k
    using hash_raw_bound[of "hash_bits t" k] t(2-4) by (simp add: hash_def)
  ultimately show ?thesis using t(1,4-6) by blast
qed

theorem hash_table_new_spec_witness:
  "\<exists>t. hash_table_new 3 7 = Inr t \<and> length (entries t) = 2 ^ hash_bits t \<and>
    9 \<le> length (entries t) \<and> length (entries t) < 18"
  using hash_table_new_spec[of 3 7 Map.empty] by auto

lemma rehash_table:
  assumes "table_ok S t f" "n \<noteq> 0" "unat n < 2 ^ 29"
  shows "\<exists>t0 S' t' f'. hash_table_new n now = Inr t0 \<and> rehash_all (entries t) S t0 = Some (Inr (S', t')) \<and> table_ok S' t' f' \<and>
    3 * unat n \<le> length (entries t') \<and> same_but_next S S' \<and> members t' f' = members t f \<and>
    (\<forall>k. filter (waits_on S' k) (f' (unat (hash_raw k (hash_bits t')))) =
         filter (waits_on S k) (f (unat (hash_raw k (hash_bits t)))))"
proof -
  obtain t0 where t0: "hash_table_new n now = Inr t0" "good_table t0" "3 * unat n \<le> length (entries t0)"
    "table_rep S t0 (\<lambda>_. [])"
    using hash_table_new_shape[OF assms(2,3), of now] empty_table_rep by (fastforce simp: good_table_def)
  have tr: "table_rep S t f" and gt: "good_table t" using assms(1) by (simp_all add: table_ok_def)
  let ?m = "length (entries t)"
  let ?xs = "concat (map f [0..<?m])"
  have "list_all2 (bucket_list S) (entries t) (map f [0..<?m])"
    using tr by (auto simp: list_all2_conv_all_nth table_rep_def)
  then obtain S' t' where s: "rehash_all (entries t) S t0 = Some (Inr (S', t'))"
    "table_rep S' t' (\<lambda>i. filter (\<lambda>p. slot S (hash_bits t0) p = i) ?xs)" "good_table t'"
    "hash_bits t' = hash_bits t0" "same_but_next S S'"
    using rehash_buckets[OF t0(4,2), of "entries t" "map f [0..<?m]"] table_rep_distinct[OF tr, of ?m]
    by (auto simp: members_def)
  let ?f = "\<lambda>i. filter (\<lambda>p. slot S (hash_bits t0) p = i) ?xs"
  have "table_ok S' t' ?f" using s by (simp add: table_ok_def same_but_next_slot)
  moreover have "filter (waits_on S' k) (?f (unat (hash_raw k (hash_bits t')))) =
      filter (waits_on S k) (f (unat (hash_raw k (hash_bits t))))" for k
  proof -
    let ?j = "unat (hash_raw k (hash_bits t))"
    have "?j < ?m" using hash_raw_bound[of "hash_bits t" k] gt by (simp add: good_table_def)
    moreover have "filter (waits_on S k) (f i) = []" if "i < ?m" "i \<noteq> ?j" for i
      using assms(1) that slot_waits by (fastforce simp: table_ok_def filter_empty_conv)
    ultimately have "filter (waits_on S k) ?xs = filter (waits_on S k) (f ?j)" by (intro filter_concat_one)
    moreover have "filter (waits_on S' k) (?f (unat (hash_raw k (hash_bits t')))) = filter (waits_on S k) ?xs"
      unfolding filter_filter s(4) using same_but_next_waits[OF s(5)] slot_waits by (intro filter_cong) auto
    ultimately show ?thesis by simp
  qed
  moreover have "3 * unat n \<le> length (entries t')" using t0(2,3) s(3,4) by (simp add: good_table_def)
  moreover have "members t' ?f = members t f"
    using slot_lt[OF s(3), of S] s(4) by (auto simp: members_def Bex_def)
  ultimately show ?thesis using t0(1) s(1,5) by blast
qed

text \<open>
  C24. Growing the table loses no sleeper: from a table in which every thread waits in the bucket of
  its key, \<open>grow_hashtable\<close> returns a table of the same kind with at least three buckets per thread, and
  for every key the threads waiting on it are the same, in the same order, as before.
\<close>

theorem grow_hashtable_keeps_queues:
  assumes "table_ok S t f" "n \<noteq> 0" "unat n < 2 ^ 29"
  shows "\<exists>S' t' f'. grow_hashtable n now S t = Some (Inr (S', t')) \<and> table_ok S' t' f' \<and>
    3 * unat n \<le> length (entries t') \<and>
    (\<forall>k. filter (waits_on S' k) (f' (unat (hash_raw k (hash_bits t')))) =
         filter (waits_on S k) (f (unat (hash_raw k (hash_bits t)))))"
proof -
  have cm: "checked_mul LOAD_FACTOR n = Inr (LOAD_FACTOR * n)" "unat (LOAD_FACTOR * n) = 3 * unat n"
    using assms(3) by (simp_all add: checked_mul_def LOAD_FACTOR_def unat_word_ariths)
  show ?thesis
  proof (cases "3 * unat n \<le> length (entries t)")
    case True
    then show ?thesis using assms(1) cm by (auto simp: grow_hashtable_def)
  next
    case False
    then show ?thesis using rehash_table[OF assms, of now] cm by (fastforce simp: grow_hashtable_def)
  qed
qed

theorem grow_hashtable_keeps_queues_witness:
  "\<exists>S' t' f'. grow_hashtable 5 0 [8 \<mapsto> thread_data_new\<lparr>key := 5\<rparr>]
      \<lparr>entries = [\<lparr>queue_head = 8, queue_tail = 8, fair = fair_timeout_new 0 1\<rparr>, bucket_new 0 2, bucket_new 0 3, bucket_new 0 4],
        hash_bits = 2\<rparr> = Some (Inr (S', t')) \<and>
    filter (waits_on S' 5) (f' (unat (hash_raw 5 (hash_bits t')))) = [8]"
proof -
  let ?S = "[8 \<mapsto> thread_data_new\<lparr>key := 5\<rparr>]"
  let ?t = "\<lparr>entries = [\<lparr>queue_head = 8, queue_tail = 8, fair = fair_timeout_new 0 1\<rparr>, bucket_new 0 2, bucket_new 0 3,
      bucket_new 0 4], hash_bits = 2\<rparr>"
  let ?f = "\<lambda>i :: nat. if i = 0 then [8 :: ptr] else []"
  have h: "hash_raw 5 2 = 0" by code_simp
  have "table_ok ?S ?t ?f"
    by (auto simp: table_ok_def table_rep_def good_table_def slot_def h less_Suc_eq bucket_list_def bucket_new_def next_of_def
        thread_data_new_def)
  then obtain S' t' f' where g: "grow_hashtable 5 0 ?S ?t = Some (Inr (S', t'))"
    "\<forall>k. filter (waits_on S' k) (f' (unat (hash_raw k (hash_bits t')))) =
         filter (waits_on ?S k) (?f (unat (hash_raw k (hash_bits ?t))))"
    using grow_hashtable_keeps_queues[of ?S ?t ?f 5 0] by auto
  have "filter (waits_on S' 5) (f' (unat (hash_raw 5 (hash_bits t')))) = [8]"
    using g(2)[THEN spec, of 5] by (simp add: h)
  with g(1) show ?thesis by blast
qed

end
