(* ===== verification/Co_Queue.thy ===== *)
theory Co_Queue
  imports Own_Ref
begin

text \<open>
  \<open>CoQueue\<close> of \<open>lockless_queue.rs\<close>: an unbounded queue of chunks of 31 slots, with word-sized indices that
  count positions in laps of 32 and keep a flag in their lowest bit. The operations are modelled as
  they run without interference from other threads: one iteration of a source loop is one definition,
  and the loop is a partial function of it, so that a loop that waits for another thread has no
  result here. The weak compare-exchange may fail spuriously; the number of such failures to come is
  a parameter. Backing off between two attempts (\<open>backoff.rs\<close>) only takes time and does not occur.
\<close>

section \<open>Constants and data\<close>

definition WRITE :: usize where "WRITE = 1"
definition READ :: usize where "READ = 2"
definition DESTROY :: usize where "DESTROY = 4"
definition LAP :: usize where "LAP = 32"
definition CHUNK_CAP :: usize where "CHUNK_CAP = LAP - 1"
definition SHIFT :: nat where "SHIFT = 1"
definition HAS_NEXT :: usize where "HAS_NEXT = 1"

lemmas co_consts = WRITE_def READ_def DESTROY_def LAP_def CHUNK_CAP_def SHIFT_def HAS_NEXT_def

record 'a slot =
  svalue :: "'a option"
  sstate :: usize

record 'a chunk =
  cnext :: ptr
  cslots :: "'a slot list"

definition chunk_new :: "'a chunk" where
  "chunk_new = \<lparr>cnext = null, cslots = replicate (unat CHUNK_CAP) \<lparr>svalue = None, sstate = 0\<rparr>\<rparr>"

lemma chunk_new_slots [simp]: "length (cslots chunk_new) = 31" "cslots chunk_new \<noteq> []"
  by (simp_all add: chunk_new_def CHUNK_CAP_def LAP_def)

text \<open>Messages of the channel that belongs to the queue (\<open>stream.rs\<close>).\<close>

datatype queue_error = QError
datatype 'a queue_state = Err_state queue_error | Yield 'a | Spin | Terminate

record 'a co_queue =
  chunks :: "'a chunk heap"
  hindex :: usize
  hchunk :: ptr
  tindex :: usize
  tchunk :: ptr
  chan :: "'a queue_state list"

definition co_new :: "'a chunk heap \<Rightarrow> 'a co_queue" where
  "co_new h = \<lparr>chunks = h, hindex = 0, hchunk = null, tindex = 0, tchunk = null, chan = []\<rparr>"

definition checked_add :: "usize \<Rightarrow> usize \<Rightarrow> usize outcome" where
  "checked_add a b = (if unat a + unat b < 2 ^ 64 then Inr (a + b) else Inl Panic)"

definition offset_of :: "usize \<Rightarrow> usize" where
  "offset_of i = drop_bit SHIFT i mod LAP"

definition upd_chunk :: "ptr \<Rightarrow> ('a chunk \<Rightarrow> 'a chunk) \<Rightarrow> 'a co_queue \<Rightarrow> 'a co_queue outcome" where
  "upd_chunk p f q =
    (case chunks q p of None \<Rightarrow> Inl Dangling | Some ch \<Rightarrow> Inr (q\<lparr>chunks := (chunks q)(p \<mapsto> f ch)\<rparr>))"

text \<open>
  \<open>slots.get_unchecked(i)\<close> of a chunk, to read the slot or to write to it: behind the last slot either is
  an access out of bounds.
\<close>

definition read_chunk :: "ptr \<Rightarrow> 'a co_queue \<Rightarrow> 'a chunk outcome" where
  "read_chunk p q = (case chunks q p of None \<Rightarrow> Inl Dangling | Some ch \<Rightarrow> Inr ch)"

definition read_slot :: "ptr \<Rightarrow> nat \<Rightarrow> 'a co_queue \<Rightarrow> 'a slot outcome" where
  "read_slot p i q = obind (read_chunk p q) (\<lambda>ch.
     if i < length (cslots ch) then Inr (cslots ch ! i) else Inl Out_of_bounds)"

definition upd_slot :: "usize \<Rightarrow> ('a slot \<Rightarrow> 'a slot) \<Rightarrow> 'a chunk \<Rightarrow> 'a chunk" where
  "upd_slot i f ch = ch\<lparr>cslots := (cslots ch)[unat i := f (cslots ch ! unat i)]\<rparr>"

definition write_slot :: "ptr \<Rightarrow> usize \<Rightarrow> ('a slot \<Rightarrow> 'a slot) \<Rightarrow> 'a co_queue \<Rightarrow> 'a co_queue outcome" where
  "write_slot p i f q = obind (read_slot p (unat i) q) (\<lambda>_. upd_chunk p (upd_slot i f) q)"

lemma upd_slot_length [simp]: "length (cslots (upd_slot i f ch)) = length (cslots ch)"
  by (simp add: upd_slot_def)

lemma read_slot_Inr [simp]:
  "chunks q p = Some ch \<Longrightarrow> i < length (cslots ch) \<Longrightarrow> read_slot p i q = Inr (cslots ch ! i)"
  by (simp add: read_slot_def read_chunk_def)

lemma write_slot_Inr [simp]:
  "chunks q p = Some ch \<Longrightarrow> unat i < length (cslots ch) \<Longrightarrow>
   write_slot p i f q = Inr (q\<lparr>chunks := (chunks q)(p \<mapsto> upd_slot i f ch)\<rparr>)"
  by (simp add: write_slot_def upd_chunk_def)

lemma write_slot_cases:
  "write_slot p i f q = Inr q' \<longleftrightarrow>
    (\<exists>ch. chunks q p = Some ch \<and> unat i < length (cslots ch) \<and> q' = q\<lparr>chunks := (chunks q)(p \<mapsto> upd_slot i f ch)\<rparr>)"
  by (auto simp: write_slot_def upd_chunk_def read_slot_def read_chunk_def split: option.splits)

definition new_chunk :: "'a chunk allocator \<Rightarrow> 'a co_queue \<Rightarrow> (ptr \<times> 'a co_queue) outcome" where
  "new_chunk alloc q = obind (box_new alloc chunk_new (chunks q)) (\<lambda>(p, h). Inr (p, q\<lparr>chunks := h\<rparr>))"

definition free_chunk :: "ptr \<Rightarrow> 'a co_queue \<Rightarrow> 'a co_queue outcome" where
  "free_chunk p q = obind (box_drop p (chunks q)) (\<lambda>h. Inr (q\<lparr>chunks := h\<rparr>))"

lemmas access_defs = read_chunk_def read_slot_def write_slot_def upd_chunk_def free_chunk_def

section \<open>push\<close>

record push_locals =
  ptail :: usize
  pchunk :: ptr
  pnext :: "ptr option"
  pspurious :: nat

definition push_reload :: "push_locals \<Rightarrow> 'a co_queue \<Rightarrow> push_locals" where
  "push_reload l q = l\<lparr>ptail := tindex q, pchunk := tchunk q\<rparr>"

text \<open>The first chunk: \<open>None\<close> means that another thread installed one first and the loop starts over.\<close>

definition first_chunk ::
    "'a chunk allocator \<Rightarrow> push_locals \<Rightarrow> 'a co_queue \<Rightarrow> (bool \<times> push_locals \<times> 'a co_queue) outcome" where
  "first_chunk alloc l q =
    (if pchunk l \<noteq> null then Inr (True, l, q)
     else obind (new_chunk alloc q) (\<lambda>(new, q).
       if tchunk q = pchunk l then Inr (True, l\<lparr>pchunk := new\<rparr>, q\<lparr>tchunk := new, hchunk := new\<rparr>)
       else obind (case pnext l of None \<Rightarrow> Inr q | Some old \<Rightarrow> free_chunk old q) (\<lambda>q.
         Inr (False, push_reload (l\<lparr>pnext := Some new\<rparr>) q, q))))"

definition push_commit :: "'a \<Rightarrow> usize \<Rightarrow> usize \<Rightarrow> push_locals \<Rightarrow> 'a co_queue \<Rightarrow> 'a co_queue outcome" where
  "push_commit item offset new_tail l q =
    obind (if offset + 1 = CHUNK_CAP then
             (case pnext l of
                None \<Rightarrow> Inl Panic
              | Some nc \<Rightarrow>
                  upd_chunk (pchunk l) (cnext_update (\<lambda>_. nc))
                    (q\<lparr>tchunk := nc, tindex := new_tail + push_bit SHIFT 1\<rparr>))
           else Inr q)
    (write_slot (pchunk l) offset (\<lambda>s. s\<lparr>svalue := Some item, sstate := sstate s OR WRITE\<rparr>))"

text \<open>One iteration of the loop: \<open>Inl\<close> is another round, \<open>Inr\<close> is the return. Dropping an unused \<open>next_chunk\<close> at the return frees it.\<close>

definition push_iter ::
    "'a chunk allocator \<Rightarrow> 'a \<Rightarrow> push_locals \<Rightarrow> 'a co_queue
      \<Rightarrow> ((push_locals \<times> 'a co_queue) + 'a co_queue) outcome" where
  "push_iter alloc item l q =
    (let offset = offset_of (ptail l) in
     if offset = CHUNK_CAP then Inr (Inl (push_reload l q, q))
     else
       obind (if offset + 1 = CHUNK_CAP \<and> pnext l = None
              then obind (new_chunk alloc q) (\<lambda>(p, q). Inr (l\<lparr>pnext := Some p\<rparr>, q)) else Inr (l, q)) (\<lambda>(l, q).
       obind (first_chunk alloc l q) (\<lambda>(go, l, q).
         if \<not> go then Inr (Inl (l, q))
         else obind (checked_add (ptail l) (push_bit SHIFT 1)) (\<lambda>new_tail.
           if pspurious l = 0 \<and> tindex q = ptail l then
             obind (push_commit item offset new_tail l (q\<lparr>tindex := new_tail\<rparr>)) (\<lambda>q.
             obind (if offset + 1 = CHUNK_CAP then Inr q
                    else case pnext l of None \<Rightarrow> Inr q | Some p \<Rightarrow> free_chunk p q) (\<lambda>q. Inr (Inr q)))
           else Inr (Inl (l\<lparr>ptail := tindex q, pchunk := tchunk q, pspurious := pspurious l - 1\<rparr>, q))))))"

partial_function (option) push_loop ::
    "'a chunk allocator \<Rightarrow> 'a \<Rightarrow> push_locals \<Rightarrow> 'a co_queue \<Rightarrow> 'a co_queue outcome option" where
  "push_loop alloc item l q =
    (case push_iter alloc item l q of
       Inl f \<Rightarrow> Some (Inl f)
     | Inr (Inr q') \<Rightarrow> Some (Inr q')
     | Inr (Inl (l', q')) \<Rightarrow> push_loop alloc item l' q')"

definition co_push :: "'a chunk allocator \<Rightarrow> nat \<Rightarrow> 'a \<Rightarrow> 'a co_queue \<Rightarrow> 'a co_queue outcome option" where
  "co_push alloc spurious item q =
    push_loop alloc item \<lparr>ptail = tindex q, pchunk = tchunk q, pnext = None, pspurious = spurious\<rparr> q"

section \<open>pop\<close>

text \<open>
  \<open>Chunk::destroy\<close> marks the first slot that has not been read and leaves the chunk to its reader; only
  when all slots from \<open>start\<close> on have been read is the chunk freed.
\<close>

fun destroy_from :: "nat \<Rightarrow> nat \<Rightarrow> ptr \<Rightarrow> 'a co_queue \<Rightarrow> 'a co_queue outcome" where
  "destroy_from 0 i p q = free_chunk p q"
| "destroy_from (Suc n) i p q =
     obind (read_slot p i q) (\<lambda>s.
       if sstate s AND READ = 0
       then write_slot p (word_of_nat i) (\<lambda>s. s\<lparr>sstate := sstate s OR DESTROY\<rparr>) q
       else destroy_from n (Suc i) p q)"

definition destroy :: "ptr \<Rightarrow> usize \<Rightarrow> 'a co_queue \<Rightarrow> 'a co_queue outcome" where
  "destroy p start q = destroy_from (unat CHUNK_CAP - unat start) (unat start) p q"

record pop_locals =
  ohead :: usize
  ochunk :: ptr
  ospurious :: nat

definition pop_reload :: "pop_locals \<Rightarrow> 'a co_queue \<Rightarrow> pop_locals" where
  "pop_reload l q = l\<lparr>ohead := hindex q, ochunk := hchunk q\<rparr>"

text \<open>\<open>None\<close> of the option is a wait for another thread: \<open>wait_next\<close> or \<open>wait_write\<close>.\<close>

definition pop_advance :: "usize \<Rightarrow> ptr \<Rightarrow> 'a co_queue \<Rightarrow> 'a co_queue outcome option" where
  "pop_advance new_head chunk q =
    (case chunks q chunk of
       None \<Rightarrow> Some (Inl Dangling)
     | Some ch \<Rightarrow>
         let nx = cnext ch in
         if nx = null then None
         else case chunks q nx of
                None \<Rightarrow> Some (Inl Dangling)
              | Some ch' \<Rightarrow>
                  let next_idx = (new_head AND NOT HAS_NEXT) + push_bit SHIFT 1;
                      next_idx = (if cnext ch' \<noteq> null then next_idx OR HAS_NEXT else next_idx)
                  in Some (Inr (q\<lparr>hchunk := nx, hindex := next_idx\<rparr>)))"

definition pop_take :: "usize \<Rightarrow> ptr \<Rightarrow> 'a co_queue \<Rightarrow> ('a \<times> 'a co_queue) outcome option" where
  "pop_take offset chunk q =
    (case read_slot chunk (unat offset) q of
       Inl f \<Rightarrow> Some (Inl f)
     | Inr s \<Rightarrow>
         if sstate s AND WRITE = 0 then None
         else case svalue s of
                None \<Rightarrow> Some (Inl Uninitialised)
              | Some item \<Rightarrow>
                  Some (obind
                    (if offset + 1 = CHUNK_CAP then destroy chunk 0 q
                     else obind (write_slot chunk offset (\<lambda>s. s\<lparr>sstate := sstate s OR READ\<rparr>) q) (\<lambda>q.
                       if sstate s AND DESTROY \<noteq> 0 then destroy chunk (offset + 1) q else Inr q))
                    (\<lambda>q. Inr (item, q))))"

definition pop_iter ::
    "pop_locals \<Rightarrow> 'a co_queue \<Rightarrow> ((pop_locals \<times> 'a co_queue) + ('a option \<times> 'a co_queue)) outcome option" where
  "pop_iter l q =
    (let offset = offset_of (ohead l) in
     if offset = CHUNK_CAP then Some (Inr (Inl (pop_reload l q, q)))
     else case checked_add (ohead l) (push_bit SHIFT 1) of
       Inl f \<Rightarrow> Some (Inl f)
     | Inr new_head \<Rightarrow>
         if new_head AND HAS_NEXT = 0 \<and> drop_bit SHIFT (ohead l) = drop_bit SHIFT (tindex q)
         then Some (Inr (Inr (None, q)))
         else
           let new_head = (if new_head AND HAS_NEXT = 0 \<and>
                 drop_bit SHIFT (ohead l) div LAP \<noteq> drop_bit SHIFT (tindex q) div LAP
               then new_head OR HAS_NEXT else new_head)
           in if ochunk l = null then Some (Inr (Inl (pop_reload l q, q)))
           else if ospurious l = 0 \<and> hindex q = ohead l then
             (case (if offset + 1 = CHUNK_CAP then pop_advance new_head (ochunk l) (q\<lparr>hindex := new_head\<rparr>)
                    else Some (Inr (q\<lparr>hindex := new_head\<rparr>))) of
                None \<Rightarrow> None
              | Some (Inl f) \<Rightarrow> Some (Inl f)
              | Some (Inr q) \<Rightarrow>
                  map_option (\<lambda>r. obind r (\<lambda>(item, q). Inr (Inr (Some item, q)))) (pop_take offset (ochunk l) q))
           else Some (Inr (Inl (l\<lparr>ohead := hindex q, ochunk := hchunk q, ospurious := ospurious l - 1\<rparr>, q))))"

partial_function (option) pop_loop :: "pop_locals \<Rightarrow> 'a co_queue \<Rightarrow> ('a option \<times> 'a co_queue) outcome option" where
  "pop_loop l q =
    (case pop_iter l q of
       None \<Rightarrow> None
     | Some (Inl f) \<Rightarrow> Some (Inl f)
     | Some (Inr (Inr r)) \<Rightarrow> Some (Inr r)
     | Some (Inr (Inl (l', q'))) \<Rightarrow> pop_loop l' q')"

definition co_pop :: "nat \<Rightarrow> 'a co_queue \<Rightarrow> ('a option \<times> 'a co_queue) outcome option" where
  "co_pop spurious q = pop_loop \<lparr>ohead = hindex q, ochunk = hchunk q, ospurious = spurious\<rparr> q"

section \<open>is_empty, len, drop\<close>

definition co_is_empty :: "'a co_queue \<Rightarrow> bool" where
  "co_is_empty q \<longleftrightarrow> drop_bit SHIFT (hindex q) = drop_bit SHIFT (tindex q)"

definition checked_sub :: "usize \<Rightarrow> usize \<Rightarrow> usize outcome" where
  "checked_sub a b = (if b \<le> a then Inr (a - b) else Inl Panic)"

definition erase_low :: "usize \<Rightarrow> usize" where
  "erase_low i = i AND NOT (push_bit SHIFT 1 - 1)"

definition co_len :: "'a co_queue \<Rightarrow> usize outcome" where
  "co_len q =
    (let tail = erase_low (tindex q); head = erase_low (hindex q);
         lap = drop_bit SHIFT head div LAP;
         tail = drop_bit SHIFT (tail - push_bit SHIFT (lap * LAP));
         head = drop_bit SHIFT (head - push_bit SHIFT (lap * LAP))
     in obind (if head = CHUNK_CAP then obind (checked_sub tail LAP) (\<lambda>tail. Inr (0, tail)) else Inr (head, tail)) (\<lambda>(head, tail).
        obind (if tail = CHUNK_CAP then checked_add tail 1 else Inr tail) (\<lambda>tail.
        obind (checked_sub tail head) (\<lambda>d. checked_sub d (tail div LAP)))))"

definition drop_iter ::
    "usize \<Rightarrow> ptr \<Rightarrow> 'a list \<Rightarrow> 'a co_queue \<Rightarrow> (ptr \<times> 'a list \<times> 'a co_queue) outcome" where
  "drop_iter head chunk dropped q =
    (case chunks q chunk of
       None \<Rightarrow> Inl Dangling
     | Some ch \<Rightarrow>
         let offset = offset_of head in
         if offset < CHUNK_CAP then
           obind (read_slot chunk (unat offset) q) (\<lambda>s.
             case svalue s of None \<Rightarrow> Inl Uninitialised | Some x \<Rightarrow> Inr (chunk, dropped @ [x], q))
         else obind (free_chunk chunk q) (\<lambda>q. Inr (cnext ch, dropped, q)))"

partial_function (option) drop_loop ::
    "usize \<Rightarrow> usize \<Rightarrow> ptr \<Rightarrow> 'a list \<Rightarrow> 'a co_queue \<Rightarrow> (ptr \<times> 'a list \<times> 'a co_queue) outcome option" where
  "drop_loop head tail chunk dropped q =
    (if head = tail then Some (Inr (chunk, dropped, q))
     else case drop_iter head chunk dropped q of
            Inl f \<Rightarrow> Some (Inl f)
          | Inr (chunk', dropped', q') \<Rightarrow> drop_loop (head + push_bit SHIFT 1) tail chunk' dropped' q')"

definition co_drop :: "'a co_queue \<Rightarrow> ('a list \<times> 'a chunk heap) outcome option" where
  "co_drop q =
    map_option (\<lambda>r. obind r (\<lambda>(chunk, dropped, q).
      obind (if chunk = null then Inr q else free_chunk chunk q) (\<lambda>q. Inr (dropped, chunks q))))
    (drop_loop (erase_low (hindex q)) (erase_low (tindex q)) (hchunk q) [] q)"

end
