(* ===== verification/Co_Index.thy ===== *)
theory Co_Index
  imports Co_Queue
begin

text \<open>
  The indices of \<open>CoQueue\<close>: a word holds a place, shifted left by one bit, and a flag. Places are counted
  in laps of 32, of which the first 31 are slots of a chunk and the last is the end of the chunk.
  \<open>pos n\<close> is the place of element number \<open>n\<close>, and \<open>cnt p\<close> the number of slots before place \<open>p\<close>.
\<close>

section \<open>Indices\<close>

definition pos :: "nat \<Rightarrow> nat" where
  "pos n = 32 * (n div 31) + n mod 31"

definition hidx :: "nat \<Rightarrow> bool \<Rightarrow> usize" where
  "hidx n fl = word_of_nat (2 * pos n + of_bool fl)"

abbreviation idx :: "nat \<Rightarrow> usize" where
  "idx n \<equiv> hidx n False"

definition small :: "nat \<Rightarrow> bool" where
  "small n \<longleftrightarrow> n < 2 ^ 60"

lemma pos_bound: "small n \<Longrightarrow> pos n < 2 ^ 61"
  by (simp add: small_def pos_def)

lemma small_le: "small n \<Longrightarrow> m \<le> n \<Longrightarrow> small m"
  by (simp add: small_def)

lemma pos_mod [simp]: "pos n mod 32 = n mod 31"
proof -
  have "n mod 31 < 32" using mod_less_divisor[of 31 n] by linarith
  then show ?thesis by (simp add: pos_def)
qed

lemma pos_div [simp]: "pos n div 32 = n div 31"
proof -
  have "n mod 31 < 32" using mod_less_divisor[of 31 n] by linarith
  then show ?thesis by (simp add: pos_def)
qed

lemma pos_inj: "pos a = pos b \<longleftrightarrow> a = b"
  by (metis pos_mod pos_div div_mult_mod_eq)

lemma Suc_div31: "Suc n div 31 = (if n mod 31 = 30 then Suc (n div 31) else n div 31)"
  and Suc_mod31: "Suc n mod 31 = (if n mod 31 = 30 then 0 else Suc (n mod 31))"
  by (simp_all add: div_Suc mod_Suc)

lemma pos_Suc: "pos (Suc n) = (if n mod 31 = 30 then pos n + 2 else pos n + 1)"
  by (simp add: pos_def Suc_div31 Suc_mod31)

lemma unat_hidx: "small n \<Longrightarrow> unat (hidx n fl) = 2 * pos n + of_bool fl"
  using pos_bound[of n] by (simp add: hidx_def unat_of_nat del: of_nat_add of_nat_mult)

lemma unat_drop1: "unat (drop_bit SHIFT w) = unat w div 2" for w :: usize
  unfolding unsigned_drop_bit_eq using usize_lt[of w]
  by (simp add: SHIFT_def drop_bit_eq_div take_bit_nat_eq_self)

lemma drop1_hidx: "small n \<Longrightarrow> unat (drop_bit SHIFT (hidx n fl)) = pos n"
  by (simp add: unat_drop1 unat_hidx)

lemma offset_hidx: "small n \<Longrightarrow> unat (offset_of (hidx n fl)) = n mod 31"
  by (simp add: offset_of_def unat_mod_distrib drop1_hidx LAP_def)

lemma CHUNK_CAP_31: "CHUNK_CAP = 31" "unat CHUNK_CAP = 31"
  by (simp_all add: CHUNK_CAP_def LAP_def)

lemma offset_not_cap: "small n \<Longrightarrow> offset_of (hidx n fl) \<noteq> CHUNK_CAP"
  using offset_hidx[of n fl] mod_less_divisor[of 31 n] CHUNK_CAP_31 by fastforce

lemma offset_last: "small n \<Longrightarrow> offset_of (hidx n fl) + 1 = CHUNK_CAP \<longleftrightarrow> n mod 31 = 30"
proof -
  assume s: "small n"
  let ?o = "offset_of (hidx n fl)"
  have "n mod 31 < 31" by simp
  then have "unat (?o + 1) = Suc (n mod 31)" using offset_hidx[OF s, of fl] by (simp add: unat_word_ariths)
  then show ?thesis using CHUNK_CAP_31 by (metis Suc_inject word_unat_eq_iff numeral_eq_Suc pred_numeral_simps(2)
        pred_numeral_simps(3) eval_nat_numeral(2) eval_nat_numeral(3))
qed

lemma hidx_Suc_word: "hidx (Suc n) fl = (if n mod 31 = 30 then hidx n fl + 2 * push_bit SHIFT 1 else hidx n fl + push_bit SHIFT 1)"
  by (simp add: hidx_def pos_Suc SHIFT_def)

lemma hidx_Suc: "hidx n fl + push_bit SHIFT 1 = word_of_nat (2 * (pos n + 1) + of_bool fl)"
  by (simp add: hidx_def SHIFT_def)

lemma checked_hidx: "small n \<Longrightarrow> checked_add (hidx n fl) (push_bit SHIFT 1) = Inr (word_of_nat (2 * (pos n + 1) + of_bool fl))"
proof -
  assume s: "small n"
  have "unat (hidx n fl) + unat (push_bit SHIFT 1 :: usize) < 2 ^ 64"
    using pos_bound[OF s] unat_hidx[OF s, of fl] by (simp add: SHIFT_def)
  then show ?thesis unfolding checked_add_def hidx_Suc by (rule if_P)
qed

definition flagged :: "nat \<Rightarrow> bool \<Rightarrow> usize" where
  "flagged m fl = word_of_nat (2 * m + of_bool fl)"

lemma hidx_flagged: "hidx n fl = flagged (pos n) fl"
  by (simp add: hidx_def flagged_def)

lemma even_flagged: "even (flagged m fl) \<longleftrightarrow> \<not> fl"
  by (simp add: flagged_def)

lemma flagged_and: "flagged m fl AND HAS_NEXT = of_bool fl"
  unfolding HAS_NEXT_def and_one_eq mod_2_eq_odd even_flagged by simp

lemma flagged_or: "flagged m fl OR HAS_NEXT = flagged m True"
  unfolding HAS_NEXT_def or_one_eq even_flagged by (simp add: flagged_def)

lemma flagged_clear: "flagged m fl AND NOT HAS_NEXT = flagged m False"
proof -
  let ?w = "flagged m fl"
  have "(?w AND NOT 1) AND (?w AND 1) = 0" by (rule bit_eqI) (auto simp: bit_simps simp del: and_minus_numerals)
  then have "(?w AND NOT 1) + (?w AND 1) = (?w AND NOT 1) OR (?w AND 1)" by (rule disjunctive_add_eq_or)
  also have "\<dots> = ?w" by (rule bit_eqI) (auto simp: bit_and_iff bit_or_iff bit_not_iff bit_1_iff)
  finally have "?w AND NOT 1 = ?w - (?w AND 1)" by (simp only: eq_diff_eq)
  then show ?thesis using flagged_and[of m fl] by (simp only: HAS_NEXT_def) (simp add: flagged_def)
qed

section \<open>Places\<close>

definition place :: "usize \<Rightarrow> nat" where
  "place w = unat w div 2"

definition cnt :: "nat \<Rightarrow> nat" where
  "cnt p = 31 * (p div 32) + min (p mod 32) 31"

lemma flagged_place: "w = flagged (place w) (odd (unat w))"
proof -
  have "2 * place w + of_bool (odd (unat w)) = unat w" by (simp add: place_def odd_two_times_div_two_succ)
  then show ?thesis unfolding flagged_def by simp
qed

lemma unat_flagged: "m < 2 ^ 62 \<Longrightarrow> unat (flagged m fl) = 2 * m + of_bool fl"
  by (simp add: flagged_def unat_of_nat del: of_nat_add of_nat_mult)

lemma place_flagged: "m < 2 ^ 62 \<Longrightarrow> place (flagged m fl) = m"
  by (simp add: place_def unat_flagged)

lemma place_mono: "v \<le> w \<Longrightarrow> place v \<le> place w"
  by (simp add: place_def word_le_nat_alt div_le_mono)

lemma place_eqD: "place v = place w \<Longrightarrow> even (unat v) = even (unat w) \<Longrightarrow> v = w"
  using flagged_place[of v] flagged_place[of w] by simp

lemma unat_offset: "unat (offset_of w) = place w mod 32"
  by (simp add: offset_of_def unat_mod_distrib unat_drop1 LAP_def place_def)

lemma offset_cap_iff: "offset_of w = CHUNK_CAP \<longleftrightarrow> place w mod 32 = 31"
  using CHUNK_CAP_31 by (simp add: word_unat_eq_iff unat_offset)

lemma unat_offset_Suc: "unat (offset_of w + 1) = Suc (place w mod 32)"
proof -
  have "place w mod 32 < 32" by simp
  then show ?thesis using unat_offset[of w] by (simp add: unat_word_ariths)
qed

lemma offset_last_iff: "offset_of w + 1 = CHUNK_CAP \<longleftrightarrow> place w mod 32 = 30"
  using CHUNK_CAP_31 by (simp add: word_unat_eq_iff unat_offset_Suc)

lemma drop_eq_iff: "drop_bit SHIFT v = drop_bit SHIFT w \<longleftrightarrow> place v = place w" for v w :: usize
  by (simp add: word_unat_eq_iff unat_drop1 place_def)

lemma drop_lap_iff:
  "drop_bit SHIFT v div LAP = drop_bit SHIFT w div LAP \<longleftrightarrow> place v div 32 = place w div 32" for v w :: usize
  by (simp add: word_unat_eq_iff unat_div_distrib unat_drop1 place_def LAP_def)

lemma one_place: "push_bit SHIFT 1 = (2 :: usize)"
  by (simp add: SHIFT_def)

lemma unat_next: "unat w < 2 ^ 63 \<Longrightarrow> unat (w + 2) = unat w + 2" for w :: usize
  by (simp add: unat_word_ariths)

lemma checked_next: "unat w < 2 ^ 63 \<Longrightarrow> checked_add w 2 = Inr (w + 2)"
  by (simp add: checked_add_def)

lemma place_next: "unat w < 2 ^ 63 \<Longrightarrow> place (w + 2) = Suc (place w)"
  by (simp add: place_def unat_next)

lemma has_next_iff: "w AND HAS_NEXT = 0 \<longleftrightarrow> even (unat w)" for w :: usize
proof -
  have "w AND HAS_NEXT = of_bool (odd (unat w))" using flagged_and[of "place w" "odd (unat w)"] flagged_place[of w] by metis
  then show ?thesis by simp
qed

lemma or_next: "unat w < 2 ^ 63 \<Longrightarrow> place (w OR HAS_NEXT) = place w \<and> odd (unat (w OR HAS_NEXT))"
proof -
  assume b: "unat w < 2 ^ 63"
  have "w OR HAS_NEXT = flagged (place w) True" using flagged_or flagged_place[of w] by metis
  moreover have "place w < 2 ^ 62" using b by (simp add: place_def)
  ultimately show ?thesis by (simp add: place_flagged unat_flagged)
qed

lemma clear_next: "unat w < 2 ^ 63 \<Longrightarrow> unat (w AND NOT HAS_NEXT) = 2 * place w"
proof -
  assume b: "unat w < 2 ^ 63"
  have "w AND NOT HAS_NEXT = flagged (place w) False" using flagged_clear flagged_place[of w] by metis
  moreover have "place w < 2 ^ 62" using b by (simp add: place_def)
  ultimately show ?thesis by (simp add: unat_flagged)
qed

lemma cnt_0 [simp]: "cnt 0 = 0"
  by (simp add: cnt_def)

lemma cnt_slot: "p mod 32 \<noteq> 31 \<Longrightarrow> cnt p = 31 * (p div 32) + p mod 32"
  using mod_less_divisor[of 32 p] by (simp add: cnt_def min_def)

lemma cnt_Suc: "cnt (Suc p) = (if p mod 32 = 31 then cnt p else Suc (cnt p))"
  using mod_less_divisor[of 32 p] by (auto simp: cnt_def div_Suc mod_Suc min_def)

lemma cnt_mono: "p \<le> p' \<Longrightarrow> cnt p \<le> cnt p'"
  by (rule lift_Suc_mono_le[of cnt]) (auto simp: cnt_Suc)

lemma cnt_less: "p < p' \<Longrightarrow> p mod 32 \<noteq> 31 \<Longrightarrow> cnt p < cnt p'"
  using cnt_mono[of "Suc p" p'] by (simp add: cnt_Suc)

lemma cnt_pos: "cnt (pos n) = n"
proof -
  have "n mod 31 < 31" by simp
  then show ?thesis unfolding cnt_def by simp
qed

lemma cnt_bound: "cnt p < 2 ^ 60 \<Longrightarrow> p < 2 ^ 61"
proof -
  assume a: "cnt p < 2 ^ 60"
  have "31 * (p div 32) \<le> cnt p" by (simp add: cnt_def)
  then show ?thesis using a div_mult_mod_eq[of p 32] mod_less_divisor[of 32 p] by simp
qed

section \<open>What \<open>len\<close> computes\<close>

lemma cnt_diff: "cnt p = p - p div 32"
proof -
  have "min (p mod 32) 31 = p mod 32" by simp
  moreover have "p = 32 * (p div 32) + p mod 32" by simp
  ultimately show ?thesis unfolding cnt_def by linarith
qed

lemma cnt_add_lap: "cnt (32 * k + p) = 31 * k + cnt p"
  by (simp add: cnt_def)

lemma erase_place: "unat (erase_low w) = 2 * place w"
proof -
  have "push_bit SHIFT 1 - 1 = HAS_NEXT" by (simp add: SHIFT_def HAS_NEXT_def)
  then have "erase_low w = flagged (place w) False"
    unfolding erase_low_def using flagged_clear flagged_place[of w] by metis
  moreover have "2 * place w < 2 ^ 64" using usize_lt[of w] by (simp add: place_def)
  ultimately show ?thesis by (simp add: flagged_def unat_of_nat del: of_nat_mult)
qed

text \<open>The last part of \<open>len\<close>, on indices that are counted from the chunk of the head on.\<close>

lemma checked_sub_unat: "unat b \<le> unat a \<Longrightarrow> checked_sub a b = Inr (word_of_nat (unat a - unat b))"
  by (simp add: checked_sub_def word_le_nat_alt)

lemma len_difference:
  fixes h t :: usize
  assumes "unat h \<le> 30 \<or> unat h \<le> cnt (unat t)" "unat h \<le> unat t"
  shows "obind (checked_sub t h) (\<lambda>d. checked_sub d (t div LAP)) = Inr (word_of_nat (cnt (unat t) - unat h))"
proof -
  let ?T = "unat t"
  have "unat h \<le> cnt ?T"
  proof (cases "?T < 32")
    case False
    then have "31 \<le> cnt ?T" using cnt_mono[of 32 ?T] by (simp add: cnt_def)
    then show ?thesis using assms(1) by auto
  qed (use assms(2) in \<open>simp add: cnt_diff\<close>)
  then have d: "?T div 32 \<le> ?T - unat h" "?T - unat h - ?T div 32 = cnt ?T - unat h"
    using assms(2) by (simp_all add: cnt_diff) 
  have u: "unat (word_of_nat (?T - unat h) :: usize) = ?T - unat h"
    using usize_lt[of t] by (simp add: unat_of_nat del: of_nat_diff) 
  have l: "unat (t div LAP) = ?T div 32" by (simp add: unat_div_distrib LAP_def)
  show ?thesis
    using d by (simp only: checked_sub_unat[OF assms(2)] obind.simps) (simp add: checked_sub_unat u l del: of_nat_diff)
qed

lemma len_counts:
  fixes h t :: usize
  assumes "unat h \<le> 31" "unat h \<le> unat t"
  shows "obind (if h = CHUNK_CAP then obind (checked_sub t LAP) (\<lambda>t. Inr (0, t)) else Inr (h, t)) (\<lambda>(h, t).
      obind (if t = CHUNK_CAP then checked_add t 1 else Inr t) (\<lambda>t.
      obind (checked_sub t h) (\<lambda>d. checked_sub d (t div LAP)))) =
    (if unat h = 31 \<and> unat t < 32 then Inl Panic else Inr (word_of_nat (cnt (unat t) - cnt (unat h))))"
proof -
  have count: "obind (if t = CHUNK_CAP then checked_add t 1 else Inr t) (\<lambda>t.
      obind (checked_sub t h) (\<lambda>d. checked_sub d (t div LAP))) = Inr (word_of_nat (cnt (unat t) - unat h))"
    if h: "unat h \<le> 30" "unat h \<le> unat t" for h t :: usize
  proof (cases "t = CHUNK_CAP")
    case True
    then have "checked_add t 1 = Inr 32" by (simp add: checked_add_def CHUNK_CAP_31)
    then show ?thesis using True h len_difference[of h 32] by (simp add: CHUNK_CAP_31 cnt_def)
  qed (use h in \<open>simp add: len_difference\<close>)
  show ?thesis
  proof (cases "h = CHUNK_CAP")
    case True
    then have h: "unat h = 31" by (simp add: CHUNK_CAP_31)
    show ?thesis
    proof (cases "unat t < 32")
      case True
      then show ?thesis using \<open>h = CHUNK_CAP\<close> h by (simp add: checked_sub_def LAP_def word_le_nat_alt)
    next
      case False
      then have t: "checked_sub t LAP = Inr (t - 32)" "unat (t - 32) = unat t - 32"
        by (simp_all add: checked_sub_def LAP_def word_le_nat_alt unat_sub_if')
      have "cnt (unat t) = 31 + cnt (unat t - 32)" using cnt_add_lap[of 1 "unat t - 32"] False by simp
      then show ?thesis using True False t h count[of 0 "t - 32"] by (simp add: cnt_def)
    qed
  next
    case False
    then have "unat h \<noteq> 31" using CHUNK_CAP_31 by (metis word_unat_eq_iff)
    then have h: "unat h \<le> 30" using assms(1) by simp
    then have "cnt (unat h) = unat h" by (simp add: cnt_def)
    then show ?thesis using False h assms(2) count by simp
  qed
qed

text \<open>An index relative to the start of a chunk.\<close>

lemma place_from_lap:
  assumes "32 * k \<le> place w"
  shows "unat (drop_bit SHIFT (erase_low w - push_bit SHIFT (word_of_nat k * LAP))) = place w - 32 * k"
proof -
  have "push_bit SHIFT (word_of_nat k * LAP) = (word_of_nat (2 * (32 * k)) :: usize)"
    by (simp add: SHIFT_def LAP_def push_bit_eq_mult)
  moreover have u: "unat (word_of_nat (2 * (32 * k)) :: usize) = 2 * (32 * k)"
    using assms usize_lt[of w] by (simp add: unat_of_nat place_def del: of_nat_mult)
  moreover have "word_of_nat (2 * (32 * k)) \<le> erase_low w" unfolding word_le_nat_alt u erase_place using assms by simp
  ultimately show ?thesis using unat_sub[of "word_of_nat (2 * (32 * k))" "erase_low w"]
    by (simp add: unat_drop1 erase_place del: of_nat_mult)
qed

text \<open>
  What \<open>len\<close> computes: the number of slots between the two places, and a panic when both are at the end
  of the same chunk.
\<close>

lemma co_len_places:
  assumes "place (hindex q) \<le> place (tindex q)"
  shows "co_len q =
    (if place (hindex q) mod 32 = 31 \<and> place (tindex q) = place (hindex q) then Inl Panic
     else Inr (word_of_nat (cnt (place (tindex q)) - cnt (place (hindex q)))))"
proof -
  let ?h = "place (hindex q)" and ?t = "place (tindex q)"
  let ?A = "?h div 32"
  have A: "32 * ?A \<le> ?h" "32 * ?A \<le> ?t" "?h mod 32 \<le> ?t - 32 * ?A"
    using assms diff_le_mono[OF assms, of "32 * ?A"] by (simp_all add: minus_mult_div_eq_mod le_trans[OF times_div_less_eq_dividend])
  have "?h < 2 ^ 63" using usize_lt[of "hindex q"] by (simp add: place_def)
  then have lap: "drop_bit SHIFT (erase_low (hindex q)) div LAP = word_of_nat ?A"
    by (simp add: word_unat_eq_iff unat_div_distrib LAP_def unat_drop1 erase_place unat_of_nat)
  note u = place_from_lap[OF A(1)] place_from_lap[OF A(2)]
  have len: "co_len q = (if ?h mod 32 = 31 \<and> ?t - 32 * ?A < 32 then Inl Panic
      else Inr (word_of_nat (cnt (?t - 32 * ?A) - cnt (?h mod 32))))"
    unfolding co_len_def Let_def lap by (subst len_counts) (use A(3) in \<open>simp_all add: u minus_mult_div_eq_mod\<close>)
  have "cnt (?t - 32 * ?A) - cnt (?h mod 32) = cnt ?t - cnt ?h"
    using cnt_add_lap[of ?A "?t - 32 * ?A"] cnt_add_lap[of ?A "?h mod 32"] A(1,2) by simp
  moreover have "?h mod 32 = 31 \<and> ?t - 32 * ?A < 32 \<longleftrightarrow> ?h mod 32 = 31 \<and> ?t = ?h"
  proof -
    have "h = 32 * a + 31 \<Longrightarrow> h \<le> t \<Longrightarrow> t - 32 * a < 32 \<longleftrightarrow> t = h" for h t a :: nat by linarith
    then show ?thesis using assms div_mult_mod_eq[of ?h 32] by (metis mult.commute)
  qed
  ultimately show ?thesis unfolding len by (simp only: refl)
qed

end
