(* ===== verification/Co_Fifo.thy ===== *)
theory Co_Fifo
  imports Co_Index Fifo_Spec
begin

text \<open>
  \<open>CoQueue\<close> implements a first-in first-out queue: the element number \<open>n\<close> lives in slot \<open>n mod 31\<close> of
  chunk number \<open>n div 31\<close>, and the indices are \<open>2 * pos n\<close> plus the flag. The representation
  relation keeps the numbers \<open>a\<close> of elements removed and \<open>b\<close> of elements inserted so far; indices stay exact
  below \<open>2\<^sup>6\<^sup>0\<close> insertions.
\<close>

section \<open>Representation\<close>

definition slot_ok :: "nat \<Rightarrow> nat \<Rightarrow> (nat \<Rightarrow> 'a) \<Rightarrow> nat \<Rightarrow> 'a slot \<Rightarrow> bool" where
  "slot_ok a b el n s \<longleftrightarrow>
     (if n < a then sstate s AND READ \<noteq> 0
      else if n < b then s = \<lparr>svalue = Some (el n), sstate = WRITE\<rparr>
      else s = \<lparr>svalue = None, sstate = 0\<rparr>)"

definition chunk_ok :: "'a co_queue \<Rightarrow> nat \<Rightarrow> nat \<Rightarrow> (nat \<Rightarrow> ptr) \<Rightarrow> (nat \<Rightarrow> 'a) \<Rightarrow> nat \<Rightarrow> bool" where
  "chunk_ok q a b cp el c \<longleftrightarrow> cp c \<noteq> null \<and>
     (\<exists>ch. chunks q (cp c) = Some ch \<and> length (cslots ch) = 31 \<and>
        cnext ch = (if c < b div 31 then cp (Suc c) else null) \<and>
        (\<forall>i < 31. slot_ok a b el (31 * c + i) (cslots ch ! i)))"

definition live :: "nat \<Rightarrow> nat \<Rightarrow> nat set" where
  "live a b = {a div 31..b div 31}"

definition corep :: "'a co_queue \<Rightarrow> nat \<Rightarrow> nat \<Rightarrow> (nat \<Rightarrow> ptr) \<Rightarrow> (nat \<Rightarrow> 'a) \<Rightarrow> bool \<Rightarrow> bool" where
  "corep q a b cp el fl \<longleftrightarrow> a \<le> b \<and> small b \<and> (fl \<longrightarrow> a div 31 < b div 31) \<and>
     hindex q = hidx a fl \<and> tindex q = idx b \<and>
     hchunk q = cp (a div 31) \<and> tchunk q = cp (b div 31) \<and> inj_on cp (live a b) \<and>
     (\<forall>c \<in> live a b. chunk_ok q a b cp el c)"

lemma div_live: "a \<le> b \<Longrightarrow> a div 31 \<in> live a b" "a \<le> b \<Longrightarrow> b div 31 \<in> live a b"
  by (simp_all add: live_def div_le_mono)

lemma corep_chunk:
  assumes "corep q a b cp el fl" "c \<in> live a b"
  obtains ch where "chunks q (cp c) = Some ch" "length (cslots ch) = 31" "cp c \<noteq> null"
    "cnext ch = (if c < b div 31 then cp (Suc c) else null)" "\<And>i. i < 31 \<Longrightarrow> slot_ok a b el (31 * c + i) (cslots ch ! i)"
  using assms by (auto simp: corep_def chunk_ok_def)

section \<open>Insertion\<close>

text \<open>The locals of \<open>push\<close> once the chunks that this push needs have been allocated.\<close>

definition prepared :: "'a co_queue \<Rightarrow> nat \<Rightarrow> nat \<Rightarrow> (nat \<Rightarrow> ptr) \<Rightarrow> push_locals \<Rightarrow> bool" where
  "prepared q a b cp l \<longleftrightarrow> ptail l = idx b \<and> pchunk l = cp (b div 31) \<and>
     (if b mod 31 = 30
      then \<exists>nc. pnext l = Some nc \<and> chunks q nc = Some chunk_new \<and> nc \<noteq> null \<and> nc \<notin> cp ` live a b
      else pnext l = None)"

definition after_push :: "'a \<Rightarrow> nat \<Rightarrow> ptr \<Rightarrow> (nat \<Rightarrow> ptr) \<Rightarrow> 'a chunk \<Rightarrow> 'a co_queue \<Rightarrow> 'a co_queue" where
  "after_push v b nc cp ch q =
    (let sl = (cslots ch)[b mod 31 := \<lparr>svalue = Some v, sstate = WRITE\<rparr>] in
     if b mod 31 = 30
     then q\<lparr>tchunk := nc, tindex := idx (Suc b),
            chunks := (chunks q)(cp (b div 31) \<mapsto> ch\<lparr>cnext := nc, cslots := sl\<rparr>)\<rparr>
     else q\<lparr>tindex := idx (Suc b), chunks := (chunks q)(cp (b div 31) \<mapsto> ch\<lparr>cslots := sl\<rparr>)\<rparr>)"

lemma push_commit_ok:
  assumes c: "corep q a b cp el fl" and p: "prepared q a b cp l" and ch: "chunks q (cp (b div 31)) = Some ch"
  shows "push_commit v (offset_of (idx b)) (idx b + push_bit SHIFT 1) l (q\<lparr>tindex := idx b + push_bit SHIFT 1\<rparr>) =
    Inr (after_push v b (the (pnext l)) cp ch q)"
proof -
  have s: "small b" and le: "a \<le> b" using c by (simp_all add: corep_def)
  have o: "unat (offset_of (idx b)) = b mod 31" by (rule offset_hidx[OF s])
  obtain ch' where ch': "chunks q (cp (b div 31)) = Some ch'" "length (cslots ch') = 31"
    "\<And>i. i < 31 \<Longrightarrow> slot_ok a b el (31 * (b div 31) + i) (cslots ch' ! i)"
    using corep_chunk[OF c div_live(2)[OF le]] by metis
  have "slot_ok a b el (31 * (b div 31) + b mod 31) (cslots ch ! (b mod 31))"
    using ch ch'(1) ch'(3)[of "b mod 31"] by simp
  then have sl: "cslots ch ! (b mod 31) = \<lparr>svalue = None, sstate = 0\<rparr>" using le by (simp add: slot_ok_def)
  have "b mod 31 < 31" by simp
  then have len: "unat (offset_of (idx b)) < length (cslots ch)" using o ch ch'(1,2) by simp
  have i2: "idx b + push_bit SHIFT 1 + push_bit SHIFT 1 = idx (Suc b)" if "b mod 31 = 30"
    using that by (simp add: hidx_Suc_word)
  have i1: "idx b + push_bit SHIFT 1 = idx (Suc b)" if "b mod 31 \<noteq> 30"
    using that by (simp add: hidx_Suc_word)
  show ?thesis
  proof (cases "b mod 31 = 30")
    case True
    then obtain nc where "pnext l = Some nc" using p by (auto simp: prepared_def)
    then show ?thesis using True p ch sl o i2 len
      by (simp add: push_commit_def offset_last[OF s] prepared_def upd_chunk_def upd_slot_def after_push_def)
  next
    case False
    then show ?thesis using p ch sl o i1 len
      by (simp add: push_commit_def offset_last[OF s] prepared_def upd_chunk_def upd_slot_def after_push_def)
  qed
qed

lemma slot_ok_push:
  assumes "slot_ok a b el n s" "n \<noteq> b" "a \<le> b"
  shows "slot_ok a (Suc b) (el(b := v)) n s"
  using assms by (auto simp: slot_ok_def)

text \<open>
  The chunks after a push: the one at the tail has the new element and, when it is full now, the prepared chunk
  behind it; the chunks before it are as they were.
\<close>

definition grown :: "nat \<Rightarrow> ptr \<Rightarrow> (nat \<Rightarrow> ptr) \<Rightarrow> nat \<Rightarrow> ptr" where
  "grown b nc cp = (if b mod 31 = 30 then cp(Suc (b div 31) := nc) else cp)"

lemma grown_live: "c \<in> live a b \<Longrightarrow> grown b nc cp c = cp c"
  by (auto simp: grown_def live_def)

lemma live_Suc:
  assumes "a \<le> b"
  shows "live a (Suc b) = (if b mod 31 = 30 then insert (Suc (b div 31)) (live a b) else live a b)"
  using div_live(2)[OF assms] by (auto simp: live_def Suc_div31)

lemma prepared_chunk:
  assumes "prepared q a b cp l" "b mod 31 = 30"
  obtains nc where "pnext l = Some nc" "chunks q nc = Some chunk_new" "nc \<noteq> null" "nc \<notin> cp ` live a b"
  using assms by (auto simp: prepared_def)

lemma after_push_slots:
  assumes c: "corep q a b cp el fl" and ch: "chunks q (cp (b div 31)) = Some ch" and i: "i < 31"
  shows "slot_ok a (Suc b) (el(b := v)) (31 * (b div 31) + i) ((cslots ch)[b mod 31 := \<lparr>svalue = Some v, sstate = WRITE\<rparr>] ! i)"
proof -
  have le: "a \<le> b" using c by (simp add: corep_def)
  obtain ch0 where ch0: "chunks q (cp (b div 31)) = Some ch0" "length (cslots ch0) = 31"
    "\<And>i. i < 31 \<Longrightarrow> slot_ok a b el (31 * (b div 31) + i) (cslots ch0 ! i)"
    using corep_chunk[OF c div_live(2)[OF le]] by metis
  show ?thesis
  proof (cases "i = b mod 31")
    case True
    then show ?thesis using le ch0(1,2) ch by (simp add: slot_ok_def)
  next
    case False
    then have "31 * (b div 31) + i \<noteq> b" using i by (metis div_mult_mod_eq add_left_cancel mult.commute)
    then show ?thesis using slot_ok_push[OF ch0(3)[OF i] _ le, of v] False ch0(1) ch by simp
  qed
qed

lemma after_push_tail:
  assumes c: "corep q a b cp el fl" and p: "prepared q a b cp l" and ch: "chunks q (cp (b div 31)) = Some ch"
  shows "chunk_ok (after_push v b (the (pnext l)) cp ch q) a (Suc b) (grown b (the (pnext l)) cp) (el(b := v)) (b div 31)"
proof -
  have le: "a \<le> b" using c by (simp add: corep_def)
  obtain ch0 where ch0: "chunks q (cp (b div 31)) = Some ch0" "length (cslots ch0) = 31" "cp (b div 31) \<noteq> null" "cnext ch0 = null"
    using corep_chunk[OF c div_live(2)[OF le]] by (metis less_irrefl)
  show ?thesis
  proof (cases "b mod 31 = 30")
    case True
    then obtain nc where "pnext l = Some nc" using prepared_chunk[OF p] by blast
    then show ?thesis using True after_push_slots[OF c ch] ch0 ch by (simp add: chunk_ok_def after_push_def Suc_div31 grown_def)
  next
    case False
    then show ?thesis using after_push_slots[OF c ch] ch0 ch by (simp add: chunk_ok_def after_push_def Suc_div31 grown_def)
  qed
qed

lemma after_push_before:
  assumes c: "corep q a b cp el fl" and cl: "c \<in> live a b" "c \<noteq> b div 31"
  shows "chunk_ok (after_push v b nc cp ch q) a (Suc b) (grown b nc cp) (el(b := v)) c"
proof -
  have le: "a \<le> b" and inj: "inj_on cp (live a b)" using c by (simp_all add: corep_def)
  obtain ch0 where ch0: "chunks q (cp c) = Some ch0" "length (cslots ch0) = 31" "cp c \<noteq> null"
    "cnext ch0 = (if c < b div 31 then cp (Suc c) else null)" "\<And>i. i < 31 \<Longrightarrow> slot_ok a b el (31 * c + i) (cslots ch0 ! i)"
    using corep_chunk[OF c cl(1)] by metis
  have ne: "cp c \<noteq> cp (b div 31)" using inj cl div_live(2)[OF le] by (auto dest: inj_onD)
  have cd: "c < b div 31" using cl by (simp add: live_def)
  have "31 * c + i \<noteq> b" if "i < 31" for i using cd that by auto
  then have "slot_ok a (Suc b) (el(b := v)) (31 * c + i) (cslots ch0 ! i)" if "i < 31" for i
    using slot_ok_push[OF ch0(5)[OF that] _ le] that by blast
  moreover have "chunks (after_push v b nc cp ch q) (cp c) = Some ch0" using ne ch0(1) by (simp add: after_push_def Let_def)
  moreover have "grown b nc cp c = cp c" "grown b nc cp (Suc c) = cp (Suc c)" using cl cd by (auto simp: live_def grown_def)
  moreover have "c < Suc b div 31" using cd by (simp add: Suc_div31)
  ultimately show ?thesis using ch0(2-4) cd by (simp add: chunk_ok_def)
qed

lemma after_push_behind:
  assumes c: "corep q a b cp el fl" and p: "prepared q a b cp l" and m: "b mod 31 = 30"
  shows "chunk_ok (after_push v b (the (pnext l)) cp ch q) a (Suc b) (grown b (the (pnext l)) cp) (el(b := v)) (Suc (b div 31))"
proof -
  have le: "a \<le> b" using c by (simp add: corep_def)
  obtain nc where nc: "pnext l = Some nc" "chunks q nc = Some chunk_new" "nc \<noteq> null" "nc \<notin> cp ` live a b"
    by (rule prepared_chunk[OF p m])
  have "nc \<noteq> cp (b div 31)" using nc(4) div_live(2)[OF le] by blast
  then have "chunks (after_push v b (the (pnext l)) cp ch q) nc = Some chunk_new" using nc(1,2) m by (simp add: after_push_def)
  moreover have "slot_ok a (Suc b) (el(b := v)) (31 + 31 * (b div 31) + i) \<lparr>svalue = None, sstate = 0\<rparr>" for i
    using m le div_mult_mod_eq[of b 31] by (auto simp: slot_ok_def)
  ultimately show ?thesis using nc m by (simp add: chunk_ok_def grown_def chunk_new_def CHUNK_CAP_31 Suc_div31)
qed

lemma grown_inj:
  assumes c: "corep q a b cp el fl" and p: "prepared q a b cp l"
  shows "inj_on (grown b (the (pnext l)) cp) (live a (Suc b))"
proof (cases "b mod 31 = 30")
  have le: "a \<le> b" and inj: "inj_on cp (live a b)" using c by (simp_all add: corep_def)
  {
    case True
    then obtain nc where "pnext l = Some nc" "nc \<notin> cp ` live a b" using prepared_chunk[OF p] by blast
    moreover have "Suc (b div 31) \<notin> live a b" by (simp add: live_def)
    ultimately show ?thesis using inj True unfolding live_Suc[OF le] grown_def
      by (auto simp: inj_on_fun_updI inj_on_def image_iff)
  next
    case False
    then show ?thesis using inj by (simp add: live_Suc[OF le] grown_def)
  }
qed

lemma after_push_rep:
  assumes c: "corep q a b cp el fl" and p: "prepared q a b cp l" and ch: "chunks q (cp (b div 31)) = Some ch"
    and s: "small (Suc b)"
  shows "corep (after_push v b (the (pnext l)) cp ch q) a (Suc b) (grown b (the (pnext l)) cp) (el(b := v)) fl"
proof -
  have le: "a \<le> b" using c by (simp add: corep_def)
  let ?q = "after_push v b (the (pnext l)) cp ch q" and ?cp = "grown b (the (pnext l)) cp"
  have "chunk_ok ?q a (Suc b) ?cp (el(b := v)) d" if "d \<in> live a b" for d
    using that after_push_tail[OF c p ch] after_push_before[OF c that] by (cases "d = b div 31") auto
  then have "\<forall>d \<in> live a (Suc b). chunk_ok ?q a (Suc b) ?cp (el(b := v)) d"
    using after_push_behind[OF c p] by (simp add: live_Suc[OF le])
  moreover have "fl \<longrightarrow> a div 31 < Suc b div 31" using c by (auto simp: corep_def Suc_div31)
  moreover have "?cp (a div 31) = cp (a div 31)" by (rule grown_live[OF div_live(1)[OF le]])
  moreover have "tchunk ?q = ?cp (Suc b div 31)"
    using c p prepared_chunk[OF p] by (auto simp: corep_def after_push_def Suc_div31 grown_def Let_def)
  ultimately show ?thesis using c s le grown_inj[OF c p] by (simp add: corep_def after_push_def Let_def)
qed

lemma push_iter_prepared:
  assumes c: "corep q a b cp el fl" and p: "prepared q a b cp l" and ch: "chunks q (cp (b div 31)) = Some ch"
  shows "push_iter alloc v l q =
    (if pspurious l = 0 then Inr (Inr (after_push v b (the (pnext l)) cp ch q))
     else Inr (Inl (l\<lparr>pspurious := pspurious l - 1\<rparr>, q)))"
proof -
  have s: "small b" and le: "a \<le> b" and q: "tindex q = idx b" "tchunk q = cp (b div 31)"
    using c by (simp_all add: corep_def)
  have l: "ptail l = idx b" "pchunk l = cp (b div 31)" using p by (simp_all add: prepared_def)
  have pn: "\<not> (offset_of (idx b) + 1 = CHUNK_CAP \<and> pnext l = None)" "pnext l = None \<or> b mod 31 = 30"
    using p by (auto simp: prepared_def offset_last[OF s] split: if_splits)
  have nz: "cp (b div 31) \<noteq> null" using corep_chunk[OF c div_live(2)[OF le]] by metis
  have ll: "l\<lparr>ptail := idx b, pchunk := cp (b div 31), pspurious := n\<rparr> = l\<lparr>pspurious := n\<rparr>" for n
    using l by (cases l) simp
  have add: "checked_add (idx b) (push_bit SHIFT 1) = Inr (idx b + push_bit SHIFT 1)"
    using checked_hidx[OF s, of False] hidx_Suc[of b False] by simp
  have fr: "(if offset_of (idx b) + 1 = CHUNK_CAP then Inr q'
      else case pnext l of None \<Rightarrow> Inr q' | Some p \<Rightarrow> free_chunk p q') = Inr q'" for q' :: "'a co_queue"
    using pn(2) by (auto simp: offset_last[OF s])
  show ?thesis
    unfolding push_iter_def Let_def l first_chunk_def if_not_P[OF offset_not_cap[OF s]] if_not_P[OF pn(1)]
    by (simp add: nz l add q push_commit_ok[OF c p ch] fr ll del: push_bit_of_1)
qed

lemma push_loop_prepared:
  assumes "corep q a b cp el fl" "prepared q a b cp l" "chunks q (cp (b div 31)) = Some ch"
  shows "push_loop alloc v l q = Some (Inr (after_push v b (the (pnext l)) cp ch q))"
  using assms(2)
proof (induction "pspurious l" arbitrary: l)
  case 0
  then show ?case using push_iter_prepared[OF assms(1) 0(2) assms(3)] by (subst push_loop.simps) simp
next
  case (Suc n)
  let ?l = "l\<lparr>pspurious := n\<rparr>"
  have "prepared q a b cp ?l" using Suc.prems by (simp add: prepared_def)
  then have "push_loop alloc v ?l q = Some (Inr (after_push v b (the (pnext ?l)) cp ch q))" using Suc.hyps(1)[of ?l] by simp
  moreover have "push_loop alloc v l q = push_loop alloc v ?l q"
    using push_iter_prepared[OF assms(1) Suc.prems assms(3), of alloc v] Suc.hyps(2)[symmetric]
    by (subst push_loop.simps) simp
  ultimately show ?case by simp
qed

text \<open>The number of chunks ever allocated for \<open>b\<close> insertions.\<close>

lemma box_new_chunk: "alloc (chunks q) = Some p \<Longrightarrow> new_chunk alloc q = Inr (p, q\<lparr>chunks := (chunks q)(p \<mapsto> chunk_new)\<rparr>)"
  by (simp add: new_chunk_def box_new_def)

lemma corep_alloc:
  assumes "corep q a b cp el fl" "p \<notin> dom (chunks q)"
  shows "corep (q\<lparr>chunks := (chunks q)(p \<mapsto> ch)\<rparr>) a b cp el fl" "p \<notin> cp ` live a b"
proof -
  show "p \<notin> cp ` live a b" using assms by (auto simp: corep_def chunk_ok_def)
  then show "corep (q\<lparr>chunks := (chunks q)(p \<mapsto> ch)\<rparr>) a b cp el fl"
    using assms(1) by (force simp: corep_def chunk_ok_def)
qed

lemma after_push_dom:
  "chunks q (cp (b div 31)) = Some ch \<Longrightarrow> dom (chunks (after_push v b nc cp ch q)) = dom (chunks q)"
  by (auto simp: after_push_def Let_def)

lemma push_iter_first:
  assumes "offset_of 0 \<noteq> CHUNK_CAP" "offset_of 0 + 1 \<noteq> CHUNK_CAP" "tindex q = 0" "tchunk q = null" "new_chunk alloc q = Inr (p, q1)"
   "q1 = q\<lparr>chunks := h1\<rparr>" "p \<noteq> null"
  shows "push_iter alloc v \<lparr>ptail = 0, pchunk = 0, pnext = None, pspurious = k\<rparr> q =
    push_iter alloc v \<lparr>ptail = 0, pchunk = p, pnext = None, pspurious = k\<rparr> (q\<lparr>chunks := h1, tchunk := p, hchunk := p\<rparr>)"
proof -
  have "first_chunk alloc \<lparr>ptail = 0, pchunk = 0, pnext = None, pspurious = k\<rparr> q = 
   Inr (True, \<lparr>ptail = 0, pchunk = p, pnext = None, pspurious = k\<rparr>, q\<lparr>chunks := h1, tchunk := p, hchunk := p\<rparr>)"
   "first_chunk alloc \<lparr>ptail = 0, pchunk = p, pnext = None, pspurious = k\<rparr> (q\<lparr>chunks := h1, tchunk := p, hchunk := p\<rparr>) = 
   Inr (True, \<lparr>ptail = 0, pchunk = p, pnext = None, pspurious = k\<rparr>, q\<lparr>chunks := h1, tchunk := p, hchunk := p\<rparr>)"
    using assms by (simp_all add: first_chunk_def)
  then show ?thesis using assms(1,2) by (simp add: push_iter_def)
qed

lemma push_iter_next:
  assumes "offset_of t \<noteq> CHUNK_CAP" "offset_of t + 1 = CHUNK_CAP" "new_chunk alloc q = Inr (nc, q1)"
  shows "push_iter alloc v \<lparr>ptail = t, pchunk = c, pnext = None, pspurious = k\<rparr> q =
    push_iter alloc v \<lparr>ptail = t, pchunk = c, pnext = Some nc, pspurious = k\<rparr> q1"
  using assms by (simp add: push_iter_def)


lemma co_push_mid:
  assumes "corep q a b cp el fl" "small (Suc b)" "b mod 31 \<noteq> 30"
  shows "\<exists>q'. co_push alloc k v q = Some (Inr q') \<and> corep q' a (Suc b) cp (el(b := v)) fl \<and> dom (chunks q') = dom (chunks q)"
proof -
  let ?l = "\<lparr>ptail = tindex q, pchunk = tchunk q, pnext = None, pspurious = k\<rparr>"
  have p: "prepared q a b cp ?l" using assms by (simp add: prepared_def corep_def)
  have "a \<le> b" using assms(1) by (simp add: corep_def)
  then obtain ch where ch: "chunks q (cp (b div 31)) = Some ch" using corep_chunk[OF assms(1) div_live(2)] by metis
  show ?thesis
    using push_loop_prepared[OF assms(1) p ch] after_push_rep[OF assms(1) p ch assms(2), of v, unfolded grown_def] assms(3) after_push_dom[of q cp b, OF ch]
    by (simp add: co_push_def)
qed

lemma co_push_last:
  assumes c: "corep q a b cp el fl" and s: "small (Suc b)" and m: "b mod 31 = 30"
    and al: "alloc (chunks q) = Some nc" "nc \<notin> dom (chunks q)" "nc \<noteq> null"
  shows "\<exists>q'. co_push alloc k v q = Some (Inr q') \<and> corep q' a (Suc b) (cp(Suc (b div 31) := nc)) (el(b := v)) fl \<and>
    dom (chunks q') = insert nc (dom (chunks q))"
proof -
  let ?q = "q\<lparr>chunks := (chunks q)(nc \<mapsto> chunk_new)\<rparr>"
  let ?init = "\<lparr>ptail = tindex q, pchunk = tchunk q, pnext = None, pspurious = k\<rparr>"
  let ?l = "\<lparr>ptail = tindex q, pchunk = tchunk q, pnext = Some nc, pspurious = k\<rparr>"
  have c1: "corep ?q a b cp el fl" and out: "nc \<notin> cp ` live a b" using corep_alloc[OF c al(2)] by auto
  have p: "prepared ?q a b cp ?l" using c m out al by (simp add: prepared_def corep_def)
  have "small b" "a \<le> b" "tindex q = idx b" using c by (simp_all add: corep_def)
  then obtain ch where ch: "chunks ?q (cp (b div 31)) = Some ch" using corep_chunk[OF c1 div_live(2)] by metis
  have "push_iter alloc v ?init q = push_iter alloc v ?l ?q"
    using \<open>tindex q = idx b\<close> m offset_last[OF \<open>small b\<close>, of False] offset_not_cap[OF \<open>small b\<close>, of False]
    by (intro push_iter_next box_new_chunk al(1)) simp_all
  then have "push_loop alloc v ?init q = push_loop alloc v ?l ?q"
    by (subst (1 2) push_loop.simps) simp
  then show ?thesis
    using push_loop_prepared[OF c1 p ch, of alloc v] after_push_rep[OF c1 p ch s, of v, unfolded grown_def] m after_push_dom[of ?q cp b, OF ch]
    by (auto simp: co_push_def)
qed

definition fresh :: "'a co_queue \<Rightarrow> bool" where
  "fresh q \<longleftrightarrow> hindex q = 0 \<and> tindex q = 0 \<and> hchunk q = null \<and> tchunk q = null"

lemma co_push_first:
  assumes f: "fresh q" and al: "alloc (chunks q) = Some p" "p \<notin> dom (chunks q)" "p \<noteq> null"
  shows "\<exists>q'. co_push alloc k v q = Some (Inr q') \<and> corep q' 0 1 (\<lambda>_. p) (\<lambda>_. v) False \<and>
    dom (chunks q') = insert p (dom (chunks q))"
proof -
  let ?q = "q\<lparr>chunks := (chunks q)(p \<mapsto> chunk_new), tchunk := p, hchunk := p\<rparr>"
  let ?init = "\<lparr>ptail = tindex q, pchunk = tchunk q, pnext = None, pspurious = k\<rparr>"
  let ?l = "\<lparr>ptail = tindex q, pchunk = p, pnext = None, pspurious = k\<rparr>"
  have z: "idx 0 = 0" by (simp add: hidx_def pos_def)
  have s0: "small 0" "small 1" by (simp_all add: small_def)
  have c1: "corep ?q 0 0 (\<lambda>_. p) (\<lambda>_. v) False"
    using f al by (auto simp: corep_def fresh_def z small_def live_def chunk_ok_def slot_ok_def chunk_new_def CHUNK_CAP_31)
  have p: "prepared ?q 0 0 (\<lambda>_. p) ?l" using f z by (simp add: prepared_def fresh_def)
  have ch: "chunks ?q p = Some chunk_new" by simp
  have o: "offset_of 0 + 1 \<noteq> CHUNK_CAP" "offset_of 0 \<noteq> CHUNK_CAP"
    using offset_last[OF s0(1), of False] offset_not_cap[OF s0(1), of False] z by simp_all
  have "push_iter alloc v ?init q = push_iter alloc v ?l ?q"
    using push_iter_first[OF o(2,1) _ _ box_new_chunk[of alloc q p, OF al(1)] refl al(3), of v k] f by (simp add: fresh_def)
  then have "push_loop alloc v ?init q = push_loop alloc v ?l ?q"
    by (subst (1 2) push_loop.simps) simp
  then show ?thesis
    using push_loop_prepared[OF c1 p, of chunk_new alloc v] after_push_rep[OF c1 p, of chunk_new v, unfolded grown_def] s0(2)
      after_push_dom[of ?q "\<lambda>_. p" 0 chunk_new v]
    by (auto simp: co_push_def fun_upd_def)
qed

section \<open>Removal\<close>

lemma destroy_stops:
  assumes "chunks q p = Some ch" "\<And>i. i < j \<Longrightarrow> sstate (cslots ch ! i) AND READ \<noteq> 0" "sstate (cslots ch ! j) AND READ = 0" "j < n"
    "j < length (cslots ch)"
  shows "i \<le> j \<Longrightarrow> destroy_from (n - i) i p q = write_slot p (word_of_nat j) (\<lambda>s. s\<lparr>sstate := sstate s OR DESTROY\<rparr>) q"
proof (induction "j - i" arbitrary: i)
  case 0
  then have "n - i = Suc (n - Suc i)" "i = j" using assms(4) by simp_all
  then show ?case using assms(1,3,5) by simp
next
  case (Suc d)
  then have "n - i = Suc (n - Suc i)" "i < j" using assms(4) by simp_all
  then show ?case using Suc.hyps(1)[of "Suc i"] Suc.hyps(2) assms(1,2,5) by simp
qed

definition after_pop :: "nat \<Rightarrow> nat \<Rightarrow> (nat \<Rightarrow> ptr) \<Rightarrow> 'a chunk \<Rightarrow> 'a co_queue \<Rightarrow> 'a co_queue" where
  "after_pop a b cp ch q =
    (if a mod 31 = 30
     then q\<lparr>hchunk := cp (Suc (a div 31)), hindex := hidx (Suc a) (Suc (a div 31) < b div 31),
            chunks := (chunks q)(cp (a div 31) \<mapsto> upd_slot 30 (\<lambda>s. s\<lparr>sstate := sstate s OR DESTROY\<rparr>) ch)\<rparr>
     else q\<lparr>hindex := hidx (Suc a) (a div 31 < b div 31),
            chunks := (chunks q)(cp (a div 31) \<mapsto> upd_slot (offset_of (idx a)) (\<lambda>s. s\<lparr>sstate := sstate s OR READ\<rparr>) ch)\<rparr>)"

lemma same_position:
  assumes "small a" "small b"
  shows "drop_bit SHIFT (hidx a fl) = drop_bit SHIFT (hidx b fl') \<longleftrightarrow> a = b"
  using drop1_hidx[OF assms(1), of fl] drop1_hidx[OF assms(2), of fl'] by (simp add: word_unat_eq_iff pos_inj)

lemma same_lap:
  assumes "small a" "small b"
  shows "drop_bit SHIFT (hidx a fl) div LAP = drop_bit SHIFT (hidx b fl') div LAP \<longleftrightarrow> a div 31 = b div 31"
  using drop1_hidx[OF assms(1), of fl] drop1_hidx[OF assms(2), of fl'] by (simp add: word_unat_eq_iff unat_div_distrib LAP_def)

lemma offset_flag: "small a \<Longrightarrow> offset_of (hidx a fl) = offset_of (idx a)"
  using offset_hidx[of a fl] offset_hidx[of a False] by (simp add: word_unat_eq_iff)

lemma pop_take_ok:
  assumes c: "corep q a b cp el fl" and ab: "a < b" and ch: "chunks q (cp (a div 31)) = Some ch" and q': "chunks q' = chunks q"
  shows "pop_take (offset_of (idx a)) (cp (a div 31)) q' =
    Some (Inr (el a, q'\<lparr>chunks := (chunks q)(cp (a div 31) \<mapsto>
      (if a mod 31 = 30 then upd_slot 30 (\<lambda>s. s\<lparr>sstate := sstate s OR DESTROY\<rparr>) ch
       else upd_slot (offset_of (idx a)) (\<lambda>s. s\<lparr>sstate := sstate s OR READ\<rparr>) ch))\<rparr>))"
proof -
  have s: "small a" and le: "a \<le> b" using c small_le[of b a] by (auto simp: corep_def)
  obtain ch0 where "chunks q (cp (a div 31)) = Some ch0" "length (cslots ch0) = 31"
    "\<And>i. i < 31 \<Longrightarrow> slot_ok a b el (31 * (a div 31) + i) (cslots ch0 ! i)"
    using corep_chunk[OF c div_live(1)[OF le]] by metis
  then have len: "length (cslots ch) = 31" and ok: "\<And>i. i < 31 \<Longrightarrow> slot_ok a b el (31 * (a div 31) + i) (cslots ch ! i)"
    using ch by simp_all
  have sl: "cslots ch ! (a mod 31) = \<lparr>svalue = Some (el a), sstate = WRITE\<rparr>"
    using ok[of "a mod 31"] ab by (simp add: slot_ok_def)
  have rd: "sstate (cslots ch ! i) AND READ \<noteq> 0" if "i < a mod 31" for i
  proof -
    have "i < 31" using that mod_less_divisor[of 31 a] by linarith
    moreover have "31 * (a div 31) + i < a" using that div_mult_mod_eq[of a 31] by linarith
    ultimately show ?thesis using ok[of i] by (simp add: slot_ok_def)
  qed
  have "destroy (cp (a div 31)) 0 q' = Inr (q'\<lparr>chunks := (chunks q)(cp (a div 31) \<mapsto> upd_slot 30 (\<lambda>s. s\<lparr>sstate := sstate s OR DESTROY\<rparr>) ch)\<rparr>)"
    if m: "a mod 31 = 30"
    using destroy_stops[of q' "cp (a div 31)" ch 30 31 0] rd sl ch q' m len
    by (simp add: destroy_def CHUNK_CAP_31 co_consts)
  then show ?thesis using ch q' sl len offset_hidx[OF s, of False] offset_last[OF s, of False]
    by (simp add: pop_take_def co_consts)
qed

lemma pop_advance_ok:
  assumes c: "corep q a b cp el fl" and ab: "a < b" and m: "a mod 31 = 30" and q': "chunks q' = chunks q"
  shows "pop_advance (flagged (pos a + 1) g) (cp (a div 31)) q' =
    Some (Inr (q'\<lparr>hchunk := cp (Suc (a div 31)), hindex := hidx (Suc a) (Suc (a div 31) < b div 31)\<rparr>))"
proof -
  have "Suc a div 31 \<le> b div 31" using ab by (intro div_le_mono) simp
  then have lt: "a div 31 < b div 31" using m by (simp add: Suc_div31)
  have lv: "a div 31 \<in> live a b" "Suc (a div 31) \<in> live a b" using lt by (auto simp: live_def)
  obtain ch where ch: "chunks q (cp (a div 31)) = Some ch" "cnext ch = cp (Suc (a div 31))"
    using corep_chunk[OF c lv(1)] lt by metis
  obtain ch' where ch': "chunks q (cp (Suc (a div 31))) = Some ch'" "cp (Suc (a div 31)) \<noteq> null"
    "cnext ch' = (if Suc (a div 31) < b div 31 then cp (Suc (Suc (a div 31))) else null)"
    using corep_chunk[OF c lv(2)] by metis
  have "cp (Suc (Suc (a div 31))) \<noteq> null" if "Suc (a div 31) < b div 31"
  proof -
    have "Suc (Suc (a div 31)) \<in> live a b" using that by (auto simp: live_def)
    then show ?thesis using corep_chunk[OF c] by metis
  qed
  then have nx: "cnext ch' \<noteq> null \<longleftrightarrow> Suc (a div 31) < b div 31" using ch'(3) by auto
  have "flagged (pos a + 1) False + push_bit SHIFT 1 = flagged (pos (Suc a)) False"
    using m by (simp add: flagged_def SHIFT_def pos_Suc)
  then have e: "(if cnext ch' \<noteq> null then ((flagged (pos a + 1) g AND NOT HAS_NEXT) + push_bit SHIFT 1) OR HAS_NEXT
      else (flagged (pos a + 1) g AND NOT HAS_NEXT) + push_bit SHIFT 1) = hidx (Suc a) (Suc (a div 31) < b div 31)"
    unfolding flagged_clear hidx_flagged nx by (simp add: flagged_or del: push_bit_of_1)
  show ?thesis unfolding pop_advance_def Let_def q' ch(1) option.case ch(2) ch'(1) e using ch'(2) by simp
qed

lemma pop_iter_some:
  assumes c: "corep q a b cp el fl" and ab: "a < b" and ch: "chunks q (cp (a div 31)) = Some ch"
    and l: "ohead l = hidx a fl" "ochunk l = cp (a div 31)"
  shows "pop_iter l q =
    (if ospurious l = 0 then Some (Inr (Inr (Some (el a), after_pop a b cp ch q)))
     else Some (Inr (Inl (l\<lparr>ospurious := ospurious l - 1\<rparr>, q))))"
proof -
  let ?nh = "flagged (pos a + 1)"
  have s: "small a" "small b" and le: "a \<le> b" and q: "hindex q = hidx a fl" "tindex q = idx b" "hchunk q = cp (a div 31)"
    and f: "fl \<longrightarrow> a div 31 < b div 31" using c small_le[of b a] by (auto simp: corep_def)
  have add: "checked_add (hidx a fl) (push_bit SHIFT 1) = Inr (?nh fl)"
    using checked_hidx[OF s(1), of fl] by (simp add: flagged_def)
  have nz: "cp (a div 31) \<noteq> null" using corep_chunk[OF c div_live(1)[OF le]] by metis
  have ne: "\<not> (?nh fl AND HAS_NEXT = 0 \<and> drop_bit SHIFT (hidx a fl) = drop_bit SHIFT (idx b))"
    using same_position[OF s] ab by simp
  have nh: "(if ?nh fl AND HAS_NEXT = 0 \<and> drop_bit SHIFT (hidx a fl) div LAP \<noteq> drop_bit SHIFT (idx b) div LAP
      then ?nh fl OR HAS_NEXT else ?nh fl) = ?nh (a div 31 < b div 31)"
    using same_lap[OF s, of fl False] f div_le_mono[OF le, of 31] by (auto simp: flagged_and flagged_or)
  have ll: "l\<lparr>ohead := hidx a fl, ochunk := cp (a div 31), ospurious := n\<rparr> = l\<lparr>ospurious := n\<rparr>" for n
    using l by (cases l) simp
  have i1: "?nh g = hidx (Suc a) g" if "a mod 31 \<noteq> 30" for g using that by (simp add: hidx_flagged pos_Suc)
  have of: "offset_of (hidx a fl) = offset_of (idx a)" by (rule offset_flag[OF s(1)])
  show ?thesis
  proof (cases "a mod 31 = 30")
    case True
    let ?q = "q\<lparr>hindex := ?nh (a div 31 < b div 31)\<rparr>"
    have "pop_advance (?nh (a div 31 < b div 31)) (cp (a div 31)) ?q =
        Some (Inr (q\<lparr>hchunk := cp (Suc (a div 31)), hindex := hidx (Suc a) (Suc (a div 31) < b div 31)\<rparr>))"
      using pop_advance_ok[OF c ab True, of ?q] by simp
    then show ?thesis
      using pop_take_ok[OF c ab ch, of "q\<lparr>hchunk := cp (Suc (a div 31)), hindex := hidx (Suc a) (Suc (a div 31) < b div 31)\<rparr>"] True
        offset_not_cap[OF s(1), of False] offset_last[OF s(1), of False]
      unfolding pop_iter_def Let_def l add of sum.case q nh if_not_P[OF ne]
      by (simp add: nz ll after_pop_def del: push_bit_of_1)
  next
    case False
    then show ?thesis
      using pop_take_ok[OF c ab ch, of "q\<lparr>hindex := hidx (Suc a) (a div 31 < b div 31)\<rparr>"] i1
        offset_not_cap[OF s(1), of False] offset_last[OF s(1), of False]
      unfolding pop_iter_def Let_def l add of sum.case q nh if_not_P[OF ne]
      by (simp add: nz ll after_pop_def del: push_bit_of_1)
  qed
qed

lemma pop_iter_none:
  assumes c: "corep q a a cp el fl" and l: "ohead l = hidx a fl"
  shows "pop_iter l q = Some (Inr (Inr (None, q)))"
proof -
  have s: "small a" and fl: "\<not> fl" and q: "tindex q = idx a" using c by (auto simp: corep_def)
  have "checked_add (hidx a fl) (push_bit SHIFT 1) = Inr (flagged (pos a + 1) fl)"
    using checked_hidx[OF s, of fl] by (simp add: flagged_def)
  then show ?thesis using offset_not_cap[OF s, of fl] fl flagged_and[of "pos a + 1" fl]
    unfolding pop_iter_def Let_def l q by (simp del: push_bit_of_1)
qed

lemma pop_loop_some:
  assumes "corep q a b cp el fl" "a < b" "chunks q (cp (a div 31)) = Some ch" "ohead l = hidx a fl" "ochunk l = cp (a div 31)"
  shows "pop_loop l q = Some (Inr (Some (el a), after_pop a b cp ch q))"
  using assms(4,5)
proof (induction "ospurious l" arbitrary: l)
  case 0
  then show ?case using pop_iter_some[OF assms(1-3) 0(2,3)] by (subst pop_loop.simps) simp
next
  case (Suc n)
  let ?l = "l\<lparr>ospurious := n\<rparr>"
  have "pop_loop ?l q = Some (Inr (Some (el a), after_pop a b cp ch q))" using Suc.hyps(1)[of ?l] Suc.prems by simp
  then show ?case using pop_iter_some[OF assms(1-3) Suc.prems] Suc.hyps(2)[symmetric]
    by (subst pop_loop.simps) simp
qed

text \<open>Marking the slot at \<open>a\<close> as read leaves a chunk from which \<open>a\<close> elements and one more are gone.\<close>

lemma read_mark_slots:
  assumes s: "\<And>i. i < 31 \<Longrightarrow> slot_ok a b el (31 * (a div 31) + i) (cslots ch ! i)" and "length (cslots ch) = 31"
    and "small a" "a < b" and i: "i < 31"
  shows "slot_ok (Suc a) b el (31 * (a div 31) + i)
    (cslots (upd_slot (offset_of (idx a)) (\<lambda>s. s\<lparr>sstate := sstate s OR READ\<rparr>) ch) ! i)"
proof (cases "i = a mod 31")
  case True
  then have "cslots ch ! i = \<lparr>svalue = Some (el a), sstate = WRITE\<rparr>" using s[OF i] assms(4) by (simp add: slot_ok_def)
  then show ?thesis using True assms(2) offset_hidx[OF assms(3), of False] by (simp add: slot_ok_def upd_slot_def co_consts)
next
  case False
  then have "31 * (a div 31) + i \<noteq> a" using i by (metis div_mult_mod_eq add_left_cancel mult.commute)
  then show ?thesis using s[OF i] False assms(2) offset_hidx[OF assms(3), of False] by (auto simp: slot_ok_def upd_slot_def)
qed

lemma after_pop_chunk:
  assumes c: "corep q a b cp el fl" and ab: "a < b" and ch: "chunks q (cp (a div 31)) = Some ch" and cl: "c' \<in> live (Suc a) b"
  shows "chunk_ok (after_pop a b cp ch q) (Suc a) b cp el c'"
proof -
  have inj: "inj_on cp (live a b)" and sa: "small a" using c ab small_le[of b a] by (auto simp: corep_def)
  have cl': "c' \<in> live a b" using cl by (auto simp: live_def Suc_div31 split: if_splits)
  obtain ch0 where ch0: "chunks q (cp c') = Some ch0" "length (cslots ch0) = 31" "cp c' \<noteq> null"
    "cnext ch0 = (if c' < b div 31 then cp (Suc c') else null)" "\<And>i. i < 31 \<Longrightarrow> slot_ok a b el (31 * c' + i) (cslots ch0 ! i)"
    using corep_chunk[OF c cl'] by metis
  show ?thesis
  proof (cases "c' = a div 31")
    case True
    then have "a mod 31 \<noteq> 30" using cl by (auto simp: live_def Suc_div31)
    then show ?thesis using True ch0(1-4) ch read_mark_slots[OF _ ch0(2) sa ab] ch0(5)
      by (simp add: chunk_ok_def after_pop_def upd_slot_def)
  next
    case False
    then have "cp c' \<noteq> cp (a div 31)" using inj cl' div_live(1)[of a b] ab by (auto dest: inj_onD)
    then have same: "chunks (after_pop a b cp ch q) (cp c') = Some ch0" using ch0(1) by (simp add: after_pop_def)
    have "c' > a div 31" using cl' False by (auto simp: live_def)
    then have gt: "a < 31 * c' + i" for i using div_mult_mod_eq[of a 31] mod_less_divisor[of 31 a] by linarith
    have "slot_ok (Suc a) b el (31 * c' + i) (cslots ch0 ! i)" if "i < 31" for i
      using ch0(5)[OF that] gt[of i] by (simp add: slot_ok_def)
    then show ?thesis using same ch0(2-4) by (simp add: chunk_ok_def)
  qed
qed

lemma after_pop_rep:
  assumes c: "corep q a b cp el fl" and ab: "a < b" and ch: "chunks q (cp (a div 31)) = Some ch"
  shows "\<exists>fl'. corep (after_pop a b cp ch q) (Suc a) b cp el fl'"
proof -
  have "live (Suc a) b \<subseteq> live a b" by (auto simp: live_def Suc_div31 split: if_splits)
  then have "inj_on cp (live (Suc a) b)" using c inj_on_subset by (auto simp: corep_def)
  then have "corep (after_pop a b cp ch q) (Suc a) b cp el
      (if a mod 31 = 30 then Suc (a div 31) < b div 31 else a div 31 < b div 31)"
    using c after_pop_chunk[OF assms] ab by (simp add: corep_def after_pop_def Suc_div31)
  then show ?thesis by blast
qed

lemma co_pop_rep:
  assumes "corep q a b cp el fl" "a < b"
  shows "\<exists>q' fl'. co_pop k q = Some (Inr (Some (el a), q')) \<and> corep q' (Suc a) b cp el fl' \<and>
    dom (chunks q') = dom (chunks q) \<and> chan q' = chan q"
proof -
  obtain ch where ch: "chunks q (cp (a div 31)) = Some ch"
    using corep_chunk[OF assms(1) div_live(1)] assms(2) by (metis less_imp_le)
  have "co_pop k q = Some (Inr (Some (el a), after_pop a b cp ch q))"
    unfolding co_pop_def using assms(1) by (intro pop_loop_some[OF assms ch]) (simp_all add: corep_def)
  moreover have "dom (chunks (after_pop a b cp ch q)) = dom (chunks q)" "chan (after_pop a b cp ch q) = chan q"
    using ch by (auto simp: after_pop_def)
  ultimately show ?thesis using after_pop_rep[OF assms ch] by blast
qed

lemma co_pop_empty:
  assumes "corep q a a cp el fl"
  shows "co_pop k q = Some (Inr (None, q))"
  using pop_iter_none[OF assms, of "\<lparr>ohead = hindex q, ochunk = hchunk q, ospurious = k\<rparr>"] assms
  by (subst co_pop_def, subst pop_loop.simps) (simp add: corep_def)

lemma co_pop_fresh: "fresh q \<Longrightarrow> co_pop k q = Some (Inr (None, q))"
  by (subst co_pop_def, subst pop_loop.simps)
    (simp add: fresh_def pop_iter_def Let_def offset_of_def co_consts checked_add_def)

section \<open>Length, emptiness and drop\<close>

lemma erase_hidx: "small n \<Longrightarrow> erase_low (hidx n fl) = idx n"
proof -
  have "push_bit SHIFT 1 - 1 = HAS_NEXT" by (simp add: SHIFT_def HAS_NEXT_def)
  then show ?thesis unfolding erase_low_def hidx_flagged by (simp only: flagged_clear)
qed

lemma co_is_empty_rep: "corep q a b cp el fl \<Longrightarrow> co_is_empty q \<longleftrightarrow> a = b"
  using small_le[of b a] by (simp add: co_is_empty_def corep_def same_position)

lemma co_len_rep:
  assumes "corep q a b cp el fl"
  shows "co_len q = Inr (word_of_nat (b - a))"
proof -
  have s: "small a" "small b" and ab: "a \<le> b" and q: "hindex q = flagged (pos a) fl" "tindex q = flagged (pos b) False"
    using assms small_le[of b a] by (auto simp: corep_def hidx_flagged)
  have "pos a < 2 ^ 62" "pos b < 2 ^ 62" using pos_bound[OF s(1)] pos_bound[OF s(2)] by simp_all
  then have p: "place (hindex q) = pos a" "place (tindex q) = pos b" using q by (simp_all add: place_flagged)
  have "pos a mod 32 \<noteq> 31" using mod_less_divisor[of 31 a] by (simp add: pos_def)
  moreover have "pos n = n + n div 31" for n using div_mult_mod_eq[of n 31] unfolding pos_def by linarith
  then have "pos a \<le> pos b" using ab by (simp add: div_le_mono add_mono)
  ultimately show ?thesis using co_len_places[of q] by (simp add: p cnt_pos)
qed

lemma head_is_tail:
  assumes "small n" "small b"
  shows "idx n = idx b \<longleftrightarrow> n = b" "flagged (pos n + 1) False \<noteq> idx b \<or> n mod 31 \<noteq> 30"
    "n mod 31 = 30 \<Longrightarrow> offset_of (flagged (pos n + 1) False) = CHUNK_CAP"
proof -
  show "idx n = idx b \<longleftrightarrow> n = b"
    using unat_hidx[OF assms(1), of False] unat_hidx[OF assms(2), of False] pos_inj[of n b] by auto
  have u: "unat (flagged (pos n + 1) False) = 2 * (pos n + 1)"
    using pos_bound[OF assms(1)] by (simp add: flagged_def unat_of_nat del: of_nat_add of_nat_mult of_nat_Suc)
  then have o: "unat (offset_of (flagged (pos n + 1) False)) = (pos n + 1) mod 32"
    by (simp add: offset_of_def unat_mod_distrib unat_drop1 LAP_def)
  have m: "(pos n + 1) mod 32 = 31" if "n mod 31 = 30" using that by (simp add: mod_Suc)
  then show c: "n mod 31 = 30 \<Longrightarrow> offset_of (flagged (pos n + 1) False) = CHUNK_CAP"
    using o CHUNK_CAP_31 by (simp add: word_unat_eq_iff)
  show "flagged (pos n + 1) False \<noteq> idx b \<or> n mod 31 \<noteq> 30" using c offset_not_cap[OF assms(2), of False] by metis
qed

text \<open>Dropping from element \<open>n\<close> on: the values go in order, and every chunk but the last is freed.\<close>

lemma drop_one:
  assumes ok: "chunk_ok q a b cp el (n div 31)" and n: "a \<le> n" "n < b" "small b"
  shows "drop_loop (idx n) (idx b) (cp (n div 31)) ds q =
    (if n mod 31 = 30
     then drop_loop (idx (Suc n)) (idx b) (cp (Suc n div 31)) (ds @ [el n]) (q\<lparr>chunks := (chunks q)(cp (n div 31) := None)\<rparr>)
     else drop_loop (idx (Suc n)) (idx b) (cp (Suc n div 31)) (ds @ [el n]) q)"
proof -
  let ?d = "n div 31"
  obtain ch where ch: "chunks q (cp ?d) = Some ch" "cnext ch = (if ?d < b div 31 then cp (Suc ?d) else null)"
    "\<And>i. i < 31 \<Longrightarrow> slot_ok a b el (31 * ?d + i) (cslots ch ! i)" "length (cslots ch) = 31"
    using ok by (auto simp: chunk_ok_def)
  have s: "small n" using n small_le[of b n] by simp
  have "unat (offset_of (idx n)) = n mod 31" by (rule offset_hidx[OF s])
  moreover have "n mod 31 < 31" by simp
  ultimately have o: "unat (offset_of (idx n)) = n mod 31" "offset_of (idx n) < CHUNK_CAP"
    using CHUNK_CAP_31 by (simp_all add: word_less_nat_alt)
  have "cslots ch ! (n mod 31) = \<lparr>svalue = Some (el n), sstate = WRITE\<rparr>"
    using ch(3)[of "n mod 31"] n by (simp add: slot_ok_def)
  then have it: "drop_iter (idx n) (cp ?d) ds q = Inr (cp ?d, ds @ [el n], q)"
    using ch(1,4) o by (simp add: drop_iter_def)
  have "idx n \<noteq> idx b" using head_is_tail(1)[OF s n(3)] n(2) by simp
  then have st: "drop_loop (idx n) (idx b) (cp ?d) ds q = drop_loop (idx n + push_bit SHIFT 1) (idx b) (cp ?d) (ds @ [el n]) q"
    using it by (subst drop_loop.simps) simp
  show ?thesis
  proof (cases "n mod 31 = 30")
    case True
    let ?h = "flagged (pos n + 1) False"
    have lt: "?d < b div 31" using n(2) True div_le_mono[of "Suc n" b 31] by (simp add: Suc_div31)
    have w: "idx n + push_bit SHIFT 1 = ?h" "?h + push_bit SHIFT 1 = idx (Suc n)"
      using True by (simp_all add: hidx_def flagged_def SHIFT_def pos_Suc)
    have "?h \<noteq> idx b" using head_is_tail(2)[OF s n(3)] True by blast
    moreover have "drop_iter ?h (cp ?d) (ds @ [el n]) q = Inr (cp (Suc ?d), ds @ [el n], q\<lparr>chunks := (chunks q)(cp ?d := None)\<rparr>)"
      using ch(1,2) lt head_is_tail(3)[OF s n(3) True] by (simp add: drop_iter_def free_chunk_def box_drop_def)
    ultimately have "drop_loop ?h (idx b) (cp ?d) (ds @ [el n]) q =
        drop_loop (?h + push_bit SHIFT 1) (idx b) (cp (Suc ?d)) (ds @ [el n]) (q\<lparr>chunks := (chunks q)(cp ?d := None)\<rparr>)"
      by (subst drop_loop.simps) simp
    then show ?thesis using st True unfolding w by (simp add: Suc_div31)
  next
    case False
    then show ?thesis using st by (simp add: hidx_Suc_word Suc_div31)
  qed
qed

lemma drop_rest:
  assumes "inj_on cp (live n b)" "\<forall>c \<in> live n b. chunk_ok q a b cp el c" "a \<le> n" "n \<le> b" "small b"
  shows "drop_loop (idx n) (idx b) (cp (n div 31)) ds q =
    Some (Inr (cp (b div 31), ds @ map el [n..<b], q\<lparr>chunks := chunks q |` (- cp ` {n div 31..<b div 31})\<rparr>))"
  using assms
proof (induction "b - n" arbitrary: n ds q)
  case 0
  then show ?case by (subst drop_loop.simps) (simp add: restrict_map_def)
next
  case (Suc k)
  let ?d = "n div 31" and ?q = "q\<lparr>chunks := (chunks q)(cp (n div 31) := None)\<rparr>"
  have lt: "n < b" using Suc.hyps(2) by simp
  have lv: "live (Suc n) b \<subseteq> live n b" by (auto simp: live_def Suc_div31 split: if_splits)
  have d: "?d \<in> live n b" by (rule div_live(1)[OF Suc.prems(4)])
  have inj: "inj_on cp (live (Suc n) b)" using Suc.prems(1) lv by (rule inj_on_subset)
  have up: "map el [n..<b] = el n # map el [Suc n..<b]" using lt by (simp add: upt_conv_Cons)
  note one = drop_one[OF Suc.prems(2)[rule_format, OF d] Suc.prems(3) lt Suc.prems(5), of ds]
  show ?case
  proof (cases "n mod 31 = 30")
    case True
    have dl: "?d \<notin> live (Suc n) b" using True by (simp add: live_def Suc_div31)
    have lt': "?d < b div 31" using lt True div_le_mono[of "Suc n" b 31] by (simp add: Suc_div31)
    have "cp c \<noteq> cp ?d" if "c \<in> live (Suc n) b" for c using inj_onD[OF Suc.prems(1), of c ?d] that lv d dl by blast
    then have ok: "\<forall>c \<in> live (Suc n) b. chunk_ok ?q a b cp el c"
      using Suc.prems(2) lv unfolding chunk_ok_def by fastforce
    have "{?d..<b div 31} = insert ?d {Suc n div 31..<b div 31}" using True lt' by (auto simp: Suc_div31)
    then have r: "(chunks q)(cp ?d := None) |` (- cp ` {Suc n div 31..<b div 31}) = chunks q |` (- cp ` {?d..<b div 31})"
      by (auto simp: restrict_map_def fun_eq_iff)
    have "drop_loop (idx (Suc n)) (idx b) (cp (Suc n div 31)) (ds @ [el n]) ?q =
        Some (Inr (cp (b div 31), (ds @ [el n]) @ map el [Suc n..<b], ?q\<lparr>chunks := chunks ?q |` (- cp ` {Suc n div 31..<b div 31})\<rparr>))"
      by (rule Suc.hyps(1)[OF _ inj ok]) (use Suc.prems Suc.hyps(2) lt in auto)
    then show ?thesis using True one r up by simp
  next
    case False
    have "drop_loop (idx (Suc n)) (idx b) (cp (Suc n div 31)) (ds @ [el n]) q =
        Some (Inr (cp (b div 31), (ds @ [el n]) @ map el [Suc n..<b], q\<lparr>chunks := chunks q |` (- cp ` {Suc n div 31..<b div 31})\<rparr>))"
      by (rule Suc.hyps(1)[OF _ inj]) (use Suc.prems Suc.hyps(2) lt lv in auto)
    then show ?thesis using False one up by (simp add: Suc_div31)
  qed
qed

lemma co_drop_rep:
  assumes c: "corep q a b cp el fl"
  shows "\<exists>h. co_drop q = Some (Inr (map el [a..<b], h)) \<and> dom h = dom (chunks q) - cp ` live a b"
proof -
  have s: "small a" "small b" and ab: "a \<le> b" and i: "inj_on cp (live a b)" "\<forall>c \<in> live a b. chunk_ok q a b cp el c"
    and q: "hindex q = hidx a fl" "tindex q = idx b" "hchunk q = cp (a div 31)"
    using c small_le[of b a] by (auto simp: corep_def)
  let ?h = "chunks q |` (- cp ` {a div 31..<b div 31})" and ?p = "cp (b div 31)"
  have lv: "live a b = insert (b div 31) {a div 31..<b div 31}" using div_le_mono[OF ab, of 31] by (auto simp: live_def)
  have "?p \<notin> cp ` {a div 31..<b div 31}" using i(1) unfolding lv by (auto simp: inj_on_def)
  moreover obtain ch where "chunks q ?p = Some ch" "?p \<noteq> null" using corep_chunk[OF c div_live(2)[OF ab]] by metis
  ultimately have "co_drop q = Some (Inr (map el [a..<b], ?h(?p := None)))"
    using drop_rest[OF i le_refl ab s(2), of "[]"]
    by (simp add: co_drop_def q erase_hidx s free_chunk_def box_drop_def)
  moreover have "dom (?h(?p := None)) = dom (chunks q) - cp ` live a b" unfolding lv by (auto simp: restrict_map_def split: if_splits)
  ultimately show ?thesis by blast
qed

lemma co_drop_fresh: "fresh q \<Longrightarrow> co_drop q = Some (Inr ([], chunks q))"
  by (subst co_drop_def, subst drop_loop.simps) (simp add: fresh_def)

section \<open>The queue as a list\<close>

text \<open>
  After \<open>E - e\<close> insertions and \<open>D - d\<close> removals the queue holds the list \<open>xs\<close>; every chunk ever
  allocated for the queue is still there.
\<close>

definition co_rep :: "usize \<Rightarrow> 'a chunk allocator \<Rightarrow> nat \<Rightarrow> nat \<Rightarrow> 'a chunk heap \<Rightarrow> 'a co_queue \<Rightarrow> 'a list \<Rightarrow> nat \<Rightarrow> nat \<Rightarrow> bool" where
  "co_rep al alloc E D h q xs e d \<longleftrightarrow> good_alloc al alloc \<and> finite (dom h) \<and> small E \<and>
     roomy alloc (card (dom h) + E div 31 + 1) \<and>
     ((fresh q \<and> chunks q = h \<and> xs = [] \<and> e = E \<and> d = D) \<or>
      (\<exists>a b cp el fl. corep q a b cp el fl \<and> xs = map el [a..<b] \<and> 0 < b \<and> b + e = E \<and> a + d = D \<and>
         dom h \<subseteq> dom (chunks q) - cp ` live a b \<and> finite (dom (chunks q)) \<and>
         card (dom (chunks q)) = card (dom h) + b div 31 + 1))"

lemma good_alloc_fresh: "good_alloc al alloc \<Longrightarrow> alloc h = Some p \<Longrightarrow> p \<notin> dom h \<and> p \<noteq> null"
  by (simp add: good_alloc_def domIff)

lemma co_rep_cases:
  assumes "co_rep al alloc E D h q xs e d"
  obtains (new) "fresh q" "chunks q = h" "xs = []" "e = E" "d = D"
  | (old) a b cp el fl where "corep q a b cp el fl" "xs = map el [a..<b]" "0 < b" "b + e = E" "a + d = D"
      "dom h \<subseteq> dom (chunks q) - cp ` live a b" "finite (dom (chunks q))" "card (dom (chunks q)) = card (dom h) + b div 31 + 1"
  using assms unfolding co_rep_def by blast

text \<open>The three kinds of \<open>push\<close>: the first one of all, one that leaves room in its chunk, and one that fills it.\<close>

lemma co_rep_enq_first:
  assumes r: "co_rep al alloc E D h q xs (Suc e) d" and new: "fresh q" "chunks q = h" "xs = []" "Suc e = E" "d = D"
  shows "\<exists>q'. co_push alloc k v q = Some (Inr q') \<and> co_rep al alloc E D h q' (xs @ [v]) e d"
proof -
  have g: "good_alloc al alloc" "finite (dom h)" "small E" "roomy alloc (card (dom h) + E div 31 + 1)"
    using r by (simp_all add: co_rep_def)
  then obtain p where p: "alloc (chunks q) = Some p" using new unfolding roomy_def by fastforce
  note pv = good_alloc_fresh[OF g(1) p]
  obtain q' where q': "co_push alloc k v q = Some (Inr q')" "corep q' 0 1 (\<lambda>_. p) (\<lambda>_. v) False"
    "dom (chunks q') = insert p (dom (chunks q))"
    using co_push_first[of q alloc p k v, OF new(1) p] pv by blast
  have "co_rep al alloc E D h q' (xs @ [v]) e d" unfolding co_rep_def
    using g new q' pv by (intro conjI disjI2 exI[of _ 0] exI[of _ 1] exI[of _ "\<lambda>_. p"] exI[of _ "\<lambda>_. v"] exI[of _ False])
      (auto simp: card_insert_if live_def)
  then show ?thesis using q'(1) by blast
qed

lemma co_rep_enq_room:
  assumes r: "co_rep al alloc E D h q xs (Suc e) d"
    and old: "corep q a b cp el fl" "xs = map el [a..<b]" "0 < b" "b + Suc e = E" "a + d = D"
      "dom h \<subseteq> dom (chunks q) - cp ` live a b" "finite (dom (chunks q))" "card (dom (chunks q)) = card (dom h) + b div 31 + 1"
    and m: "b mod 31 \<noteq> 30"
  shows "\<exists>q'. co_push alloc k v q = Some (Inr q') \<and> co_rep al alloc E D h q' (xs @ [v]) e d"
proof -
  have g: "good_alloc al alloc" "finite (dom h)" "small E" "roomy alloc (card (dom h) + E div 31 + 1)"
    using r by (simp_all add: co_rep_def)
  have ab: "a \<le> b" and sb: "small (Suc b)" using old(1,4) g(3) small_le[of E "Suc b"] by (auto simp: corep_def)
  have e: "map (el(b := v)) [a..<Suc b] = xs @ [v]" using ab old(2) by simp
  obtain q' where q': "co_push alloc k v q = Some (Inr q')" "corep q' a (Suc b) cp (el(b := v)) fl" "dom (chunks q') = dom (chunks q)"
    using co_push_mid[OF old(1) sb m] by blast
  have "live a (Suc b) = live a b" using m by (simp add: live_def Suc_div31)
  then have "co_rep al alloc E D h q' (xs @ [v]) e d" unfolding co_rep_def
    using g old q' e m by (intro conjI disjI2 exI[of _ a] exI[of _ "Suc b"] exI[of _ cp] exI[of _ "el(b := v)"] exI[of _ fl])
      (auto simp: Suc_div31 simp del: map_fun_upd)
  then show ?thesis using q'(1) by blast
qed

lemma co_rep_enq_fill:
  assumes r: "co_rep al alloc E D h q xs (Suc e) d"
    and old: "corep q a b cp el fl" "xs = map el [a..<b]" "0 < b" "b + Suc e = E" "a + d = D"
      "dom h \<subseteq> dom (chunks q) - cp ` live a b" "finite (dom (chunks q))" "card (dom (chunks q)) = card (dom h) + b div 31 + 1"
    and m: "b mod 31 = 30"
  shows "\<exists>q'. co_push alloc k v q = Some (Inr q') \<and> co_rep al alloc E D h q' (xs @ [v]) e d"
proof -
  have g: "good_alloc al alloc" "finite (dom h)" "small E" "roomy alloc (card (dom h) + E div 31 + 1)"
    using r by (simp_all add: co_rep_def)
  have ab: "a \<le> b" and sb: "small (Suc b)" using old(1,4) g(3) small_le[of E "Suc b"] by (auto simp: corep_def)
  have e: "map (el(b := v)) [a..<Suc b] = xs @ [v]" using ab old(2) by simp
  have "Suc b div 31 \<le> E div 31" using old(4) by (intro div_le_mono) simp
  then have "card (dom (chunks q)) < card (dom h) + E div 31 + 1" using old(8) m by (simp add: Suc_div31)
  then obtain p where p: "alloc (chunks q) = Some p" using g(4) unfolding roomy_def by blast
  note pv = good_alloc_fresh[OF g(1) p]
  obtain q' where q': "co_push alloc k v q = Some (Inr q')" "corep q' a (Suc b) (cp(Suc (b div 31) := p)) (el(b := v)) fl"
    "dom (chunks q') = insert p (dom (chunks q))"
    using co_push_last[OF old(1) sb m, of alloc p k v] p pv by blast
  have "Suc (b div 31) \<notin> live a b" by (simp add: live_def)
  then have fr: "dom h \<subseteq> dom (chunks q') - (cp(Suc (b div 31) := p)) ` live a (Suc b)" using live_Suc[OF ab] m old(6) pv q'(3) by auto
  have "card (dom (chunks q')) = card (dom h) + Suc b div 31 + 1" using q'(3) pv old(7,8) m by (simp add: Suc_div31 card_insert_if domIff)
  then have "co_rep al alloc E D h q' (xs @ [v]) e d" unfolding co_rep_def
    using g old(4,5,7) q'(2,3) e[symmetric] fr
    by (intro conjI disjI2 exI[of _ a] exI[of _ "Suc b"] exI[of _ "cp(Suc (b div 31) := p)"] exI[of _ "el(b := v)"] exI[of _ fl]) simp_all
  then show ?thesis using q'(1) by blast
qed

lemma co_rep_enq:
  assumes r: "co_rep al alloc E D h q xs (Suc e) d"
  shows "\<exists>q'. co_push alloc k v q = Some (Inr q') \<and> co_rep al alloc E D h q' (xs @ [v]) e d"
  using r
proof (cases rule: co_rep_cases)
  case new
  then show ?thesis by (rule co_rep_enq_first[OF r])
next
  case (old a b cp el fl)
  then show ?thesis using co_rep_enq_room[OF r old] co_rep_enq_fill[OF r old] by blast
qed

lemma co_rep_deq_chan:
  assumes r: "co_rep al alloc E D h q (x # xs) e (Suc d)"
  shows "\<exists>q'. co_pop k q = Some (Inr (Some x, q')) \<and> co_rep al alloc E D h q' xs e d \<and> chan q' = chan q"
proof -
  have g: "good_alloc al alloc" "finite (dom h)" "small E" "roomy alloc (card (dom h) + E div 31 + 1)"
    using r by (simp_all add: co_rep_def)
  obtain a b cp el fl where c: "corep q a b cp el fl" "x # xs = map el [a..<b]" "0 < b" "b + e = E" "a + Suc d = D"
    "dom h \<subseteq> dom (chunks q) - cp ` live a b" "finite (dom (chunks q))" "card (dom (chunks q)) = card (dom h) + b div 31 + 1"
    using r by (rule co_rep_cases) (simp, rule that)
  have ab: "a < b" using c(2) by (cases "a < b") simp_all
  then have xs: "x = el a" "xs = map el [Suc a..<b]" using c(2) by (simp_all add: upt_conv_Cons)
  obtain q' fl' where q': "co_pop k q = Some (Inr (Some (el a), q'))" "corep q' (Suc a) b cp el fl'" "dom (chunks q') = dom (chunks q)"
    "chan q' = chan q"
    using co_pop_rep[OF c(1) ab] by blast
  have "live (Suc a) b \<subseteq> live a b" by (auto simp: live_def Suc_div31 split: if_splits)
  then have "co_rep al alloc E D h q' xs e d" unfolding co_rep_def
    using g c(3-8) q'(2,3) xs(2)
    by (intro conjI disjI2 exI[of _ "Suc a"] exI[of _ b] exI[of _ cp] exI[of _ el] exI[of _ fl']) auto
  then show ?thesis using q'(1,4) xs(1) by blast
qed

lemma co_rep_deq:
  assumes "co_rep al alloc E D h q (x # xs) e (Suc d)"
  shows "\<exists>q'. co_pop k q = Some (Inr (Some x, q')) \<and> co_rep al alloc E D h q' xs e d"
  using co_rep_deq_chan[OF assms] by blast

lemma co_rep_chan: "co_rep al alloc E D h (q\<lparr>chan := ms\<rparr>) xs e d \<longleftrightarrow> co_rep al alloc E D h q xs e d"
  by (simp add: co_rep_def corep_def chunk_ok_def fresh_def)

lemma co_rep_none: "co_rep al alloc E D h q [] e d \<Longrightarrow> co_pop k q = Some (Inr (None, q))"
  using co_pop_fresh[of q k] co_pop_empty[of q _ _ _ _ k]
  by (auto simp: co_rep_def) (metis corep_def le_antisym)

interpretation co_fifo: fifo_queue "\<lambda>v q. co_push alloc (ks v q) v q" "\<lambda>q. co_pop (kp q) q" "co_rep al alloc E D h"
  for alloc ks kp al E D h
  by unfold_locales (blast intro: co_rep_enq co_rep_deq co_rep_none)+

lemma co_rep_new_more:
  assumes "good_alloc al alloc" "finite (dom h)" "enqs ops < 2 ^ 60" "roomy alloc (card (dom h) + enqs ops div 31 + 1)"
  shows "\<exists>q. run_ops (\<lambda>v q. co_push alloc (ks v q) v q) (\<lambda>q. co_pop (kp q) q) ops (co_new h) =
      Some (Inr (fst (spec_run ops []), q)) \<and> co_rep al alloc (enqs ops) (taken ops [] + d) h q (snd (spec_run ops [])) 0 d"
proof -
  have "co_rep al alloc (enqs ops) (taken ops [] + d) h (co_new h) [] (enqs ops + 0) (taken ops [] + d)"
    using assms by (simp add: co_rep_def small_def fresh_def co_new_def)
  then show ?thesis by (rule co_fifo.run_ops_spec)
qed

lemmas co_rep_new = co_rep_new_more[where d = 0, unfolded add_0_right]

lemma co_rep_len: "co_rep al alloc E D h q xs e d \<Longrightarrow> co_len q = Inr (word_of_nat (length xs))"
  using co_len_rep[of q]
  by (auto simp: co_rep_def simp del: of_nat_diff)
    (simp add: co_len_def fresh_def Let_def co_consts checked_sub_def erase_low_def)

lemma co_rep_is_empty: "co_rep al alloc E D h q xs e d \<Longrightarrow> co_is_empty q \<longleftrightarrow> xs = []"
  by (auto simp: co_rep_def co_is_empty_rep) (auto simp: co_is_empty_def fresh_def corep_def)

lemma co_rep_drop:
  assumes "co_rep al alloc E D h q xs e 0"
  shows "\<exists>h'. co_drop q = Some (Inr (xs, h')) \<and> dom h \<subseteq> dom h' \<and> card (dom h') = card (dom h) + D div 31"
  using assms
proof (cases rule: co_rep_cases)
  case new
  then show ?thesis using co_drop_fresh[of q] by simp
next
  case (old a b cp el fl)
  have ab: "a \<le> b" and inj: "inj_on cp (live a b)" using old(1) by (simp_all add: corep_def)
  obtain h' where h': "co_drop q = Some (Inr (xs, h'))" "dom h' = dom (chunks q) - cp ` live a b"
    using co_drop_rep[OF old(1)] old(2) by blast
  have "cp ` live a b \<subseteq> dom (chunks q)" using corep_chunk[OF old(1)] by blast
  then have "card (dom h') = card (dom (chunks q)) - card (live a b)"
    using h'(2) inj by (simp add: card_Diff_subset card_image live_def)
  also have "\<dots> = card (dom h) + D div 31" using old(5,8) div_le_mono[OF ab, of 31] by (simp add: live_def)
  finally show ?thesis using h' old(6) by auto
qed

section \<open>Properties\<close>

text \<open>
  C17. \<open>CoQueue\<close> used by one thread is a first-in first-out queue of any size: from a new queue, every
  history of \<open>push\<close> and \<open>pop\<close> calls with fewer than \<open>2\<^sup>6\<^sup>0\<close> insertions returns, whatever number
  of spurious failures each weak compare-exchange has, and gives exactly the answers of the list
  specification; afterwards \<open>len\<close> is the number of elements left and \<open>is_empty\<close> tells whether it is zero.
  The allocator needs room for one chunk per 31 insertions and one more.
\<close>

theorem co_queue_is_fifo:
  assumes "good_alloc al alloc" "finite (dom h)" "enqs ops < 2 ^ 60" "roomy alloc (card (dom h) + enqs ops div 31 + 1)"
  shows "\<exists>q. run_ops (\<lambda>v q. co_push alloc (ks v q) v q) (\<lambda>q. co_pop (kp q) q) ops (co_new h) =
      Some (Inr (fst (spec_run ops []), q)) \<and>
    co_len q = Inr (word_of_nat (length (snd (spec_run ops [])))) \<and>
    (co_is_empty q \<longleftrightarrow> snd (spec_run ops []) = [])"
  using co_rep_new[OF assms, of ks kp] co_rep_len co_rep_is_empty by metis

theorem co_queue_is_fifo_witness:
  "\<exists>q. run_ops (\<lambda>v q. co_push arena_alloc 2 v q) (\<lambda>q. co_pop 1 q) (map Enq [0..<40] @ replicate 33 Deq) (co_new Map.empty) =
      Some (Inr (map Some [0..<33], q)) \<and> co_len q = Inr 7 \<and> \<not> co_is_empty q"
proof -
  let ?ops = "map Enq [0..<40] @ replicate 33 Deq"
  have n: "enqs ?ops = 40" by code_simp
  have r: "roomy arena_alloc (card (dom (Map.empty :: nat chunk heap)) + enqs ?ops div 31 + 1)"
    unfolding n by (rule roomy_mono[OF arena_roomy]) simp
  have s: "spec_run ?ops [] = (map Some [0..<33], [33..<40])" by code_simp
  have "enqs ?ops < 2 ^ 60" unfolding n by simp
  from co_queue_is_fifo[OF arena_alloc_good _ this r, of "\<lambda>_ _. 2" "\<lambda>_. 1"] show ?thesis unfolding s by simp
qed

text \<open>
  C33. Dropping the queue after such a history drops exactly the elements still in it, in order, and
  frees the chunks from the head on. The chunks the head has left before are never freed, one per 31
  removals: \<open>pop\<close> of a chunk's last slot leaves this slot without its \<open>READ\<close> mark, so that
  \<open>Chunk::destroy\<close> marks it for a reader that has already gone.
\<close>

theorem co_queue_drop_leaks_chunks:
  assumes "good_alloc al alloc" "finite (dom h)" "enqs ops < 2 ^ 60" "roomy alloc (card (dom h) + enqs ops div 31 + 1)"
  shows "\<exists>q h'. run_ops (\<lambda>v q. co_push alloc (ks v q) v q) (\<lambda>q. co_pop (kp q) q) ops (co_new h) =
      Some (Inr (fst (spec_run ops []), q)) \<and>
    co_drop q = Some (Inr (snd (spec_run ops []), h')) \<and>
    dom h \<subseteq> dom h' \<and> card (dom h') = card (dom h) + taken ops [] div 31"
proof -
  obtain q where q: "run_ops (\<lambda>v q. co_push alloc (ks v q) v q) (\<lambda>q. co_pop (kp q) q) ops (co_new h) =
      Some (Inr (fst (spec_run ops []), q))" "co_rep al alloc (enqs ops) (taken ops []) h q (snd (spec_run ops [])) 0 0"
    using co_rep_new[OF assms] by blast
  show ?thesis using q(1) co_rep_drop[OF q(2)] by blast
qed

theorem co_queue_drop_leaks_chunks_witness:
  "\<exists>q h'. run_ops (\<lambda>v q. co_push arena_alloc 0 v q) (\<lambda>q. co_pop 0 q) (map Enq [0..<33] @ replicate 32 Deq) (co_new Map.empty) =
      Some (Inr (map Some [0..<32], q)) \<and> co_drop q = Some (Inr ([32], h')) \<and> card (dom h') = 1"
proof -
  let ?ops = "map Enq [0..<33] @ replicate 32 Deq"
  have n: "enqs ?ops = 33" by code_simp
  have r: "roomy arena_alloc (card (dom (Map.empty :: nat chunk heap)) + enqs ?ops div 31 + 1)"
    unfolding n by (rule roomy_mono[OF arena_roomy]) simp
  have s: "spec_run ?ops [] = (map Some [0..<32], [32])" by code_simp
  have t: "taken ?ops [] = 32" unfolding taken_def s by simp
  have "enqs ?ops < 2 ^ 60" unfolding n by simp
  from co_queue_drop_leaks_chunks[OF arena_alloc_good _ this r, of "\<lambda>_ _. 0" "\<lambda>_. 0"] show ?thesis unfolding s t by auto
qed

end
