(* ===== verification/Co_Stream.thy ===== *)
theory Co_Stream
  imports Co_Fifo
begin

text \<open>
  \<open>stream.rs\<close>: \<open>CoQueue\<close> as a stream and as an iterator. The queue has a channel of its own; a message of it that says
  \<open>Terminate\<close> ends the stream, an \<open>Error\<close> message panics, any other message is thrown away. \<open>next\<close> reads one message
  itself and \<open>poll_next\<close> another one in every round. The channel is the list of messages that wait in it when the call
  starts; the queue owns a sender, so the channel never reports that it is closed. Wakers are no-ops (\<open>waker.rs\<close>) and
  do not occur.
\<close>

section \<open>Model\<close>

datatype 'a poll = Ready 'a | Pending
datatype 'a iter_waker = Item 'a | Poke

definition try_recv :: "'a co_queue \<Rightarrow> 'a queue_state option \<times> 'a co_queue" where
  "try_recv q = (case chan q of [] \<Rightarrow> (None, q) | m # ms \<Rightarrow> (Some m, q\<lparr>chan := ms\<rparr>))"

definition send_msg :: "'a queue_state \<Rightarrow> 'a co_queue \<Rightarrow> 'a co_queue" where
  "send_msg m q = q\<lparr>chan := chan q @ [m]\<rparr>"

definition future_poll :: "nat \<Rightarrow> 'a co_queue \<Rightarrow> ('a queue_state poll \<times> 'a co_queue) outcome option" where
  "future_poll k q =
    (if \<not> co_is_empty q then
       map_option (\<lambda>r. obind r (\<lambda>(v, q).
         case v of Some item \<Rightarrow> Inr (Ready (Yield item), q) | None \<Rightarrow> Inr (Ready (Err_state QError), q))) (co_pop k q)
     else Some (Inr (Ready Spin, q)))"

definition poll_next :: "nat \<Rightarrow> 'a co_queue \<Rightarrow> ('a option poll \<times> 'a co_queue) outcome option" where
  "poll_next k q =
    (case try_recv q of
       (Some Terminate, q) \<Rightarrow> Some (Inr (Ready None, q))
     | (Some (Err_state err), q) \<Rightarrow> Some (Inl Panic)
     | (_, q) \<Rightarrow>
         map_option (\<lambda>r. obind r (\<lambda>(p, q).
           case p of
             Ready Spin \<Rightarrow> Inr (Pending, q)
           | Ready (Err_state e) \<Rightarrow> Inl Panic
           | Ready (Yield item) \<Rightarrow> Inr (Ready (Some item), q)
           | Ready Terminate \<Rightarrow> Inl Panic
           | Pending \<Rightarrow> Inl Panic)) (future_poll k q))"

text \<open>The loop of \<open>next\<close> with its \<open>wake_count\<close>; \<open>kp\<close> is the number of spurious failures that each \<open>pop\<close> meets.\<close>

partial_function (option) next_loop ::
    "('a co_queue \<Rightarrow> nat) \<Rightarrow> nat \<Rightarrow> 'a co_queue \<Rightarrow> ('a iter_waker option \<times> 'a co_queue) outcome option" where
  "next_loop kp wake_count q =
    (case try_recv q of (m, q) \<Rightarrow>
     case m of
       Some Terminate \<Rightarrow> Some (Inr (None, q))
     | Some (Err_state err) \<Rightarrow> Some (Inl Panic)
     | _ \<Rightarrow>
         (case poll_next (kp q) q of
            None \<Rightarrow> None
          | Some (Inl f) \<Rightarrow> Some (Inl f)
          | Some (Inr (Ready (Some res), q)) \<Rightarrow> Some (Inr (Some (Item res), q))
          | Some (Inr (Ready None, q)) \<Rightarrow> Some (Inr (None, q))
          | Some (Inr (Pending, q)) \<Rightarrow>
              if wake_count = 20 then Some (Inr (Some Poke, q)) else next_loop kp (wake_count + 1) q))"

definition iter_next :: "('a co_queue \<Rightarrow> nat) \<Rightarrow> 'a co_queue \<Rightarrow> ('a iter_waker option \<times> 'a co_queue) outcome option" where
  "iter_next kp q = next_loop kp 0 q"

text \<open>\<open>n\<close> calls of \<open>next\<close>.\<close>

fun iter_take :: "('a co_queue \<Rightarrow> nat) \<Rightarrow> nat \<Rightarrow> 'a co_queue \<Rightarrow> ('a iter_waker option list \<times> 'a co_queue) outcome option" where
  "iter_take kp 0 q = Some (Inr ([], q))"
| "iter_take kp (Suc n) q =
     (case iter_next kp q of
        None \<Rightarrow> None
      | Some (Inl f) \<Rightarrow> Some (Inl f)
      | Some (Inr (r, q)) \<Rightarrow> map_option (\<lambda>res. obind res (\<lambda>(rs, q). Inr (r # rs, q))) (iter_take kp n q))"

section \<open>One call\<close>

fun is_stop :: "'a queue_state \<Rightarrow> bool" where
  "is_stop Terminate = True"
| "is_stop (Err_state e) = True"
| "is_stop _ = False"

text \<open>What \<open>next\<close> answers when the queue holds \<open>xs\<close> and the channel \<open>ms\<close>, at most \<open>n\<close> messages of which it reads.\<close>

definition next_spec :: "nat \<Rightarrow> 'a list \<Rightarrow> 'a queue_state list \<Rightarrow> 'a iter_waker option outcome" where
  "next_spec n xs ms =
    (case find is_stop (take n ms) of
       Some (Err_state e) \<Rightarrow> Inl Panic
     | Some _ \<Rightarrow> Inr None
     | None \<Rightarrow> Inr (Some (case xs of [] \<Rightarrow> Poke | x # _ \<Rightarrow> Item x)))"

text \<open>\<open>gives r res P\<close>: the call ends with the outcome \<open>res\<close>, in a state with \<open>P\<close> when it is a value.\<close>

definition gives :: "('b \<times> 'q) outcome option \<Rightarrow> 'b outcome \<Rightarrow> ('q \<Rightarrow> bool) \<Rightarrow> bool" where
  "gives r res P \<longleftrightarrow> (case res of Inl f \<Rightarrow> r = Some (Inl f) | Inr v \<Rightarrow> (\<exists>q. r = Some (Inr (v, q)) \<and> P q))"

lemma gives_simps [simp]:
  "gives (Some (Inl f)) (Inl g) P \<longleftrightarrow> f = g" "gives (Some (Inr (v, q))) (Inr u) P \<longleftrightarrow> v = u \<and> P q"
  by (auto simp: gives_def)

text \<open>The queue \<open>q\<close> holds \<open>xs\<close> after \<open>D - d\<close> removals, for some \<open>d\<close>.\<close>

definition holds :: "usize \<Rightarrow> 'a chunk allocator \<Rightarrow> nat \<Rightarrow> nat \<Rightarrow> 'a chunk heap \<Rightarrow> 'a list \<Rightarrow> 'a co_queue \<Rightarrow> bool" where
  "holds al alloc E D h xs q \<longleftrightarrow> (\<exists>d. length xs \<le> d \<and> co_rep al alloc E D h q xs 0 d)"

lemma holds_chan [simp]: "holds al alloc E D h xs (q\<lparr>chan := ms\<rparr>) \<longleftrightarrow> holds al alloc E D h xs q"
  by (simp add: holds_def co_rep_chan)

lemma future_poll_empty: "holds al alloc E D h [] q \<Longrightarrow> future_poll k q = Some (Inr (Ready Spin, q))"
  using co_rep_is_empty by (fastforce simp: holds_def future_poll_def)

lemma future_poll_item:
  assumes "holds al alloc E D h (x # xs) q"
  shows "\<exists>q'. future_poll k q = Some (Inr (Ready (Yield x), q')) \<and> holds al alloc E D h xs q' \<and> chan q' = chan q"
proof -
  obtain d where d: "length (x # xs) \<le> d" "co_rep al alloc E D h q (x # xs) 0 d" using assms by (auto simp: holds_def)
  then obtain d' where d': "d = Suc d'" by (cases d) auto
  obtain q' where q': "co_pop k q = Some (Inr (Some x, q'))" "co_rep al alloc E D h q' xs 0 d'" "chan q' = chan q"
    using co_rep_deq_chan[OF d(2)[unfolded d']] by blast
  have "\<not> co_is_empty q" using co_rep_is_empty[OF d(2)] by simp
  then show ?thesis using q' d(1) d' by (auto simp: future_poll_def holds_def)
qed

lemma find_two: "find P (take (2 + n) ms) = (case find P (take 2 ms) of Some m \<Rightarrow> Some m | None \<Rightarrow> find P (take n (drop 2 ms)))"
  by (cases ms; cases "tl ms") (auto simp: numeral_2_eq_2)

text \<open>One round of the loop: two messages, then a look at the queue.\<close>

lemma next_round_empty:
  assumes "holds al alloc E D h [] q"
  shows "\<exists>ms. next_loop kp wc q =
    (case find is_stop (take 2 (chan q)) of
       Some (Err_state e) \<Rightarrow> Some (Inl Panic)
     | Some _ \<Rightarrow> Some (Inr (None, q\<lparr>chan := ms\<rparr>))
     | None \<Rightarrow> if wc = 20 then Some (Inr (Some Poke, q\<lparr>chan := drop 2 (chan q)\<rparr>))
               else next_loop kp (wc + 1) (q\<lparr>chan := drop 2 (chan q)\<rparr>))"
proof -
  have f: "future_poll k (q\<lparr>chan := ms\<rparr>) = Some (Inr (Ready Spin, q\<lparr>chan := ms\<rparr>))" for k ms
    using future_poll_empty[of al alloc E D h "q\<lparr>chan := ms\<rparr>"] assms by simp
  have f': "future_poll k q = Some (Inr (Ready Spin, q))" for k by (rule future_poll_empty[OF assms])
  consider "chan q = []" | m where "chan q = [m]" | m m' ms where "chan q = m # m' # ms" by (metis list.exhaust)
  then show ?thesis
  proof cases
    case 1
    then have e: "q\<lparr>chan := []\<rparr> = q" by simp
    show ?thesis using 1 f' by (subst next_loop.simps) (simp add: e try_recv_def poll_next_def)
  next
    case 2
    then show ?thesis using f by (subst next_loop.simps) (cases m; auto simp: try_recv_def poll_next_def)
  next
    case 3
    then show ?thesis using f by (subst next_loop.simps) (cases m; cases m'; auto simp: try_recv_def poll_next_def numeral_2_eq_2)
  qed
qed

lemma next_empty:
  assumes "holds al alloc E D h [] q" "wc \<le> 20"
  shows "gives (next_loop kp wc q) (next_spec (2 * (21 - wc)) [] (chan q)) (holds al alloc E D h [])"
  using assms
proof (induction "20 - wc" arbitrary: wc q)
  case 0
  then have wc: "wc = 20" by simp
  obtain ms where "next_loop kp 20 q =
    (case find is_stop (take 2 (chan q)) of
       Some (Err_state e) \<Rightarrow> Some (Inl Panic)
     | Some _ \<Rightarrow> Some (Inr (None, q\<lparr>chan := ms\<rparr>))
     | None \<Rightarrow> Some (Inr (Some Poke, q\<lparr>chan := drop 2 (chan q)\<rparr>)))"
    using next_round_empty[OF 0(2), of kp 20] by auto
  then show ?case using 0(2) wc by (simp add: next_spec_def split: option.splits queue_state.splits)
next
  case (Suc n)
  then have wc: "wc \<noteq> 20" "2 * (21 - wc) = 2 + 2 * (21 - (wc + 1))" by simp_all
  obtain ms where r: "next_loop kp wc q =
    (case find is_stop (take 2 (chan q)) of
       Some (Err_state e) \<Rightarrow> Some (Inl Panic)
     | Some _ \<Rightarrow> Some (Inr (None, q\<lparr>chan := ms\<rparr>))
     | None \<Rightarrow> next_loop kp (wc + 1) (q\<lparr>chan := drop 2 (chan q)\<rparr>))"
    using next_round_empty[OF Suc.prems(1), of kp wc] wc(1) by auto
  have "gives (next_loop kp (wc + 1) (q\<lparr>chan := drop 2 (chan q)\<rparr>)) (next_spec (2 * (21 - (wc + 1))) [] (drop 2 (chan q))) (holds al alloc E D h [])"
    using Suc.hyps(1)[of "wc + 1" "q\<lparr>chan := drop 2 (chan q)\<rparr>"] Suc.hyps(2) Suc.prems by simp
  then show ?case using Suc.prems(1) unfolding r wc(2) next_spec_def find_two
    by (auto split: option.splits queue_state.splits)
qed

lemma next_item:
  assumes "holds al alloc E D h (x # xs) q"
  shows "gives (next_loop kp wc q) (next_spec 2 (x # xs) (chan q))
    (\<lambda>q'. if find is_stop (take 2 (chan q)) = None then holds al alloc E D h xs q' \<and> chan q' = drop 2 (chan q)
          else holds al alloc E D h (x # xs) q')"
proof -
  have f: "\<exists>q'. future_poll k (q\<lparr>chan := ms\<rparr>) = Some (Inr (Ready (Yield x), q')) \<and> holds al alloc E D h xs q' \<and> chan q' = ms" for k ms
    using future_poll_item[of al alloc E D h x xs "q\<lparr>chan := ms\<rparr>"] assms by fastforce
  have f': "\<exists>q'. future_poll k q = Some (Inr (Ready (Yield x), q')) \<and> holds al alloc E D h xs q' \<and> chan q' = chan q" for k
    using future_poll_item[OF assms] by blast
  consider "chan q = []" | m where "chan q = [m]" | m m' ms where "chan q = m # m' # ms" by (metis list.exhaust)
  then show ?thesis
  proof cases
    case 1
    obtain q' where "future_poll (kp q) q = Some (Inr (Ready (Yield x), q'))" "holds al alloc E D h xs q'" "chan q' = chan q" using f' by blast
    then show ?thesis using 1 by (subst next_loop.simps) (simp add: try_recv_def poll_next_def next_spec_def)
  next
    case 2
    obtain q' where "future_poll (kp (q\<lparr>chan := []\<rparr>)) (q\<lparr>chan := []\<rparr>) = Some (Inr (Ready (Yield x), q'))"
      "holds al alloc E D h xs q'" "chan q' = []" using f by blast
    then show ?thesis using 2 assms
      by (subst next_loop.simps) (cases m; simp add: try_recv_def poll_next_def next_spec_def)
  next
    case 3
    obtain q' where "future_poll (kp (q\<lparr>chan := m' # ms\<rparr>)) (q\<lparr>chan := ms\<rparr>) = Some (Inr (Ready (Yield x), q'))"
      "holds al alloc E D h xs q'" "chan q' = ms" using f by blast
    then show ?thesis using 3 assms
      by (subst next_loop.simps) (cases m; cases m'; simp add: try_recv_def poll_next_def next_spec_def numeral_2_eq_2)
  qed
qed

lemma gives_mono: "gives r res P \<Longrightarrow> (\<And>q. P q \<Longrightarrow> Q q) \<Longrightarrow> gives r res Q"
  by (auto simp: gives_def split: sum.splits)

lemma iter_take_all:
  assumes "holds al alloc E D h xs q" "chan q = []"
  shows "\<exists>q'. iter_take kp (Suc (length xs)) q = Some (Inr (map (Some \<circ> Item) xs @ [Some Poke], q'))"
  using assms
proof (induction xs arbitrary: q)
  case Nil
  have "gives (iter_next kp q) (next_spec 42 [] []) (holds al alloc E D h [])"
    using next_empty[OF Nil(1), of 0 kp] Nil(2) by (simp add: iter_next_def)
  then obtain q' where "iter_next kp q = Some (Inr (Some Poke, q'))" by (auto simp: gives_def next_spec_def)
  then show ?case by simp
next
  case (Cons x xs)
  have "gives (iter_next kp q) (next_spec 2 (x # xs) []) (\<lambda>q'. holds al alloc E D h xs q' \<and> chan q' = [])"
    using next_item[OF Cons.prems(1), of kp 0] Cons.prems(2) by (simp add: iter_next_def)
  then obtain q' where q': "iter_next kp q = Some (Inr (Some (Item x), q'))" "holds al alloc E D h xs q'" "chan q' = []"
    by (auto simp: gives_def next_spec_def)
  obtain q'' where "iter_take kp (Suc (length xs)) q' = Some (Inr (map (Some \<circ> Item) xs @ [Some Poke], q''))"
    using Cons.IH[OF q'(2,3)] by blast
  then show ?case using q'(1) by simp
qed

text \<open>\<open>push\<close> and \<open>pop\<close> leave the channel alone, so that it stays empty on a queue nobody sends to.\<close>

lemma chan_kept:
  "new_chunk alloc q = Inr (p, q') \<Longrightarrow> chan q' = chan q" "free_chunk p q = Inr q' \<Longrightarrow> chan q' = chan q"
  "upd_chunk p f q = Inr q' \<Longrightarrow> chan q' = chan q" "write_slot p i f' q = Inr q' \<Longrightarrow> chan q' = chan q"
  by (auto simp: new_chunk_def access_defs split: option.splits if_splits)

lemma first_chunk_chan: "first_chunk alloc l q = Inr (go, l', q') \<Longrightarrow> chan q' = chan q"
  by (auto simp: first_chunk_def dest!: chan_kept split: if_splits option.splits)

lemma push_commit_chan: "push_commit v i t l q = Inr q' \<Longrightarrow> chan q' = chan q"
  by (auto simp: push_commit_def dest!: chan_kept split: if_splits option.splits)

lemma push_iter_chan:
  assumes "push_iter alloc v l q = Inr r"
  shows "case r of Inl (l', q') \<Rightarrow> chan q' = chan q | Inr q' \<Rightarrow> chan q' = chan q"
  using assms unfolding push_iter_def Let_def
  by (auto dest!: chan_kept first_chunk_chan push_commit_chan split: if_splits option.splits)

lemma push_loop_chan: "push_loop alloc v l q = Some (Inr q') \<Longrightarrow> chan q' = chan q"
proof -
  have "\<forall>q'. r = Inr q' \<longrightarrow> chan q' = chan q" if "push_loop alloc v l q = Some r" for r
    using _ that
  proof (rule push_loop.raw_induct[where P = "\<lambda>alloc v l q r. \<forall>q'. r = Inr q' \<longrightarrow> chan q' = chan q"])
    fix rec alloc v l q r
    assume ih: "\<And>alloc v l q r. rec alloc v l q = Some r \<Longrightarrow> \<forall>q'. r = Inr q' \<longrightarrow> chan q' = chan q"
      and "(case push_iter alloc v l q of Inl f \<Rightarrow> Some (Inl f) | Inr (Inl (l', q')) \<Rightarrow> rec alloc v l' q' | Inr (Inr q') \<Rightarrow> Some (Inr q')) = Some r"
    then show "\<forall>q'. r = Inr q' \<longrightarrow> chan q' = chan q" using push_iter_chan[of alloc v l q]
      by (auto split: sum.splits prod.splits)
  qed
  then show "push_loop alloc v l q = Some (Inr q') \<Longrightarrow> chan q' = chan q" by blast
qed

definition quiet_rep :: "usize \<Rightarrow> 'a chunk allocator \<Rightarrow> nat \<Rightarrow> nat \<Rightarrow> 'a chunk heap \<Rightarrow> 'a co_queue \<Rightarrow> 'a list \<Rightarrow> nat \<Rightarrow> nat \<Rightarrow> bool" where
  "quiet_rep al alloc E D h q xs e d \<longleftrightarrow> co_rep al alloc E D h q xs e d \<and> chan q = []"

interpretation quiet_fifo: fifo_queue "\<lambda>v q. co_push alloc (ks v q) v q" "\<lambda>q. co_pop (kp q) q" "quiet_rep al alloc E D h"
  for alloc ks kp al E D h
proof
  show "\<exists>q'. co_push alloc (ks v q) v q = Some (Inr q') \<and> quiet_rep al alloc E D h q' (xs @ [v]) e d"
    if r: "quiet_rep al alloc E D h q xs (Suc e) d" for q xs e d v
  proof -
    obtain q' where q': "co_push alloc (ks v q) v q = Some (Inr q')" "co_rep al alloc E D h q' (xs @ [v]) e d"
      using co_rep_enq[of al alloc E D h q xs e d "ks v q" v] r by (auto simp: quiet_rep_def)
    then have "chan q' = chan q" by (auto simp: co_push_def dest: push_loop_chan)
    then show ?thesis using q' r unfolding quiet_rep_def by simp
  qed
qed (use co_rep_deq_chan co_rep_none in \<open>fastforce simp: quiet_rep_def\<close>)+

lemma run_holds:
  assumes "good_alloc al alloc" "finite (dom h)" "enqs ops < 2 ^ 60" "roomy alloc (card (dom h) + enqs ops div 31 + 1)"
  shows "\<exists>q D. run_ops (\<lambda>v q. co_push alloc (ks v q) v q) (\<lambda>q. co_pop (kp q) q) ops (co_new h) =
      Some (Inr (fst (spec_run ops []), q)) \<and> holds al alloc (enqs ops) D h (snd (spec_run ops [])) q \<and> chan q = []"
proof -
  define d where "d = length (snd (spec_run ops []))"
  have "quiet_rep al alloc (enqs ops) (taken ops [] + d) h (co_new h) [] (enqs ops + 0) (taken ops [] + d)"
    using assms by (simp add: quiet_rep_def co_rep_def small_def fresh_def co_new_def)
  from quiet_fifo.run_ops_spec[OF this] show ?thesis unfolding holds_def d_def quiet_rep_def by blast
qed

section \<open>Properties\<close>

text \<open>
  C31. \<open>next\<close> on the iterator of a \<open>CoQueue\<close> always returns, after at most 21 polls: on a queue with elements it reads at
  most two messages of the channel, on an empty one at most 42. If one of these is \<open>Terminate\<close> the iteration ends, if one
  is an \<open>Error\<close> it panics, whichever comes first; otherwise it yields the front element, which leaves the queue, or pokes
  when there is none. All other messages are dropped, also those that carry a value.
\<close>

theorem stream_next_spec:
  assumes "good_alloc al alloc" "finite (dom h)" "enqs ops < 2 ^ 60" "roomy alloc (card (dom h) + enqs ops div 31 + 1)"
  defines "xs \<equiv> snd (spec_run ops [])"
  shows "\<exists>q. run_ops (\<lambda>v q. co_push alloc (ks v q) v q) (\<lambda>q. co_pop (kp q) q) ops (co_new h) =
      Some (Inr (fst (spec_run ops []), q)) \<and>
    gives (iter_next kq (q\<lparr>chan := ms\<rparr>)) (next_spec (if xs = [] then 42 else 2) xs ms)
      (\<lambda>q'. co_len q' = Inr (word_of_nat (length (if find is_stop (take 2 ms) = None then tl xs else xs))))"
proof -
  obtain q D where q: "run_ops (\<lambda>v q. co_push alloc (ks v q) v q) (\<lambda>q. co_pop (kp q) q) ops (co_new h) =
      Some (Inr (fst (spec_run ops []), q))" "holds al alloc (enqs ops) D h xs (q\<lparr>chan := ms\<rparr>)"
    using run_holds[OF assms(1-4), of ks kp] by (auto simp: xs_def)
  have len: "co_len q' = Inr (word_of_nat (length ys))" if "holds al alloc (enqs ops) D h ys q'" for ys q'
    using that co_rep_len by (auto simp: holds_def)
  have "gives (iter_next kq (q\<lparr>chan := ms\<rparr>)) (next_spec (if xs = [] then 42 else 2) xs ms)
      (\<lambda>q'. co_len q' = Inr (word_of_nat (length (if find is_stop (take 2 ms) = None then tl xs else xs))))"
  proof (cases xs)
    case Nil
    then show ?thesis using next_empty[of al alloc "enqs ops" D h "q\<lparr>chan := ms\<rparr>" 0 kq] q(2) len
      by (auto simp: iter_next_def elim!: gives_mono)
  next
    case (Cons x ys)
    have n: "(if xs = [] then 42 else 2) = (2 :: nat)" and tl: "tl xs = ys" using Cons by simp_all
    have "gives (iter_next kq (q\<lparr>chan := ms\<rparr>)) (next_spec 2 xs ms)
        (\<lambda>q'. holds al alloc (enqs ops) D h (if find is_stop (take 2 ms) = None then ys else xs) q')"
      using next_item[OF q(2)[unfolded Cons], of kq 0] Cons by (auto simp: iter_next_def elim!: gives_mono split: if_splits)
    then show ?thesis unfolding n tl by (rule gives_mono) (rule len)
  qed
  then show ?thesis using q(1) by blast
qed

theorem stream_next_spec_witness:
  "\<exists>q q'. run_ops (\<lambda>v q. co_push arena_alloc 0 v q) (\<lambda>q. co_pop 0 q) [Enq (7 :: nat), Enq 9, Deq] (co_new Map.empty) =
      Some (Inr ([Some 7], q)) \<and>
    iter_next (\<lambda>_. 0) (q\<lparr>chan := [Spin, Yield 5, Terminate]\<rparr>) = Some (Inr (Some (Item 9), q')) \<and> co_len q' = Inr 0"
proof -
  have "roomy arena_alloc (card (dom (Map.empty :: nat chunk heap)) + enqs [Enq (7 :: nat), Enq 9, Deq] div 31 + 1)"
    by (rule roomy_mono[OF arena_roomy]) simp
  moreover have "enqs [Enq (7 :: nat), Enq 9, Deq] < 2 ^ 60" "finite (dom (Map.empty :: nat chunk heap))" by simp_all
  moreover have "find is_stop (take 2 [Spin, Yield (5 :: nat), Terminate]) = None" by (simp add: take_Cons')
  ultimately show ?thesis
    using stream_next_spec[OF arena_alloc_good, of Map.empty "[Enq (7 :: nat), Enq 9, Deq]" "\<lambda>_ _. 0" "\<lambda>_. 0" "\<lambda>_. 0" "[Spin, Yield 5, Terminate]"]
    by (auto simp: gives_def next_spec_def)
qed

text \<open>
  The iterator drains the queue: with no messages in the channel, calling \<open>next\<close> once for each element that a history of
  \<open>push\<close> and \<open>pop\<close> calls has left, and once more, yields these elements in the order of their insertion and then a poke.
\<close>

theorem stream_drains_in_order:
  assumes "good_alloc al alloc" "finite (dom h)" "enqs ops < 2 ^ 60" "roomy alloc (card (dom h) + enqs ops div 31 + 1)"
  defines "xs \<equiv> snd (spec_run ops [])"
  shows "\<exists>q q'. run_ops (\<lambda>v q. co_push alloc (ks v q) v q) (\<lambda>q. co_pop (kp q) q) ops (co_new h) =
      Some (Inr (fst (spec_run ops []), q)) \<and>
    iter_take kq (Suc (length xs)) (q\<lparr>chan := []\<rparr>) = Some (Inr (map (Some \<circ> Item) xs @ [Some Poke], q'))"
proof -
  obtain q D where q: "run_ops (\<lambda>v q. co_push alloc (ks v q) v q) (\<lambda>q. co_pop (kp q) q) ops (co_new h) =
      Some (Inr (fst (spec_run ops []), q))" "holds al alloc (enqs ops) D h xs (q\<lparr>chan := []\<rparr>)"
    using run_holds[OF assms(1-4), of ks kp] by (auto simp: xs_def)
  show ?thesis using q(1) iter_take_all[OF q(2), of kq] by auto
qed

theorem stream_drains_in_order_witness:
  "\<exists>q q'. run_ops (\<lambda>v q. co_push arena_alloc 0 v q) (\<lambda>q. co_pop 0 q) [Enq (7 :: nat), Enq 9] (co_new Map.empty) = Some (Inr ([], q)) \<and>
    iter_take (\<lambda>_. 0) 3 (q\<lparr>chan := []\<rparr>) = Some (Inr ([Some (Item 7), Some (Item 9), Some Poke], q'))"
proof -
  have "roomy arena_alloc (card (dom (Map.empty :: nat chunk heap)) + enqs [Enq (7 :: nat), Enq 9] div 31 + 1)"
    by (rule roomy_mono[OF arena_roomy]) simp
  moreover have "enqs [Enq (7 :: nat), Enq 9] < 2 ^ 60" "finite (dom (Map.empty :: nat chunk heap))" by simp_all
  ultimately show ?thesis
    using stream_drains_in_order[OF arena_alloc_good, of Map.empty "[Enq (7 :: nat), Enq 9]" "\<lambda>_ _. 0" "\<lambda>_. 0" "\<lambda>_. 0"]
    by (simp add: numeral_3_eq_3)
qed

end
