(* ===== verification/Blocking.thy ===== *)
theory Blocking
  imports Co_Stream
begin

text \<open>
  \<open>blocking_col.rs\<close>: \<open>BlockingQueue\<close>, a \<open>CoQueue\<close> behind an \<open>RwLock\<close> with a channel of its own. The methods take
  the lock for reading and unwrap the result, so each of them panics when the lock is poisoned; a read guard never
  poisons. The queue is modelled as one thread uses it: the lock is then free at every call, and what is left of it
  is whether it is poisoned. Only \<open>next\<close> takes the lock for writing, in each round of its loop, and a panic under that guard poisons the
  lock. The state is therefore kept beside the outcome of \<open>next\<close>, also when it panics. The queue inside has its own
  channel, whose sender \<open>BlockingQueue\<close> does not hand out.
\<close>

section \<open>Model\<close>

record 'a blocking_queue =
  que :: "'a co_queue"
  que_poisoned :: bool
  brecv :: "'a queue_state list"




definition blocking_is_empty :: "'a blocking_queue \<Rightarrow> bool outcome" where
  "blocking_is_empty b = (if que_poisoned b then Inl Panic else Inr (co_is_empty (que b)))"



definition blocking_send :: "'a queue_state \<Rightarrow> 'a blocking_queue \<Rightarrow> 'a blocking_queue" where
  "blocking_send m b = b\<lparr>brecv := brecv b @ [m]\<rparr>"



section \<open>One call of next\<close>

text \<open>What is left of the channel after reading up to a message that stops the iteration, at most \<open>n\<close> messages.\<close>

fun left_after :: "nat \<Rightarrow> 'a queue_state list \<Rightarrow> 'a queue_state list" where
  "left_after 0 ms = ms"
| "left_after (Suc n) [] = []"
| "left_after (Suc n) (m # ms) = (if is_stop m then ms else left_after n ms)"

lemma left_after_Nil [simp]: "left_after n [] = []"
  by (cases n) auto


definition bholds :: "usize \<Rightarrow> 'a chunk allocator \<Rightarrow> nat \<Rightarrow> nat \<Rightarrow> 'a chunk heap \<Rightarrow> 'a list \<Rightarrow> 'a blocking_queue \<Rightarrow> bool" where
  "bholds al alloc E D h xs b \<longleftrightarrow> holds al alloc E D h xs (que b) \<and> chan (que b) = [] \<and> \<not> que_poisoned b"

lemma bholds_brecv [simp]: "bholds al alloc E D h xs (b\<lparr>brecv := ms\<rparr>) \<longleftrightarrow> bholds al alloc E D h xs b"
  by (simp add: bholds_def)






section \<open>Properties\<close>






end
