(* ===== verification/Parking_Lot.thy ===== *)
theory Parking_Lot
  imports Hash_Table
begin

text \<open>
  The parking lot of \<open>mutex/deadlock.rs\<close> as a whole: threads that register, park with or without a timeout and
  unpark each other on any keys, while other threads replace the hash table under them. The machine has
  the steps of \<open>get_hashtable\<close>, \<open>create_hashtable\<close>, \<open>lock_bucket\<close>, \<open>lock_bucket_checked\<close>, \<open>grow_hashtable\<close>, \<open>park\<close> and \<open>unpark_one\<close>: every
  access to \<open>HASHTABLE\<close> and every locking and unlocking of a bucket is a step of its own, and what happens
  between them is the operation of \<open>Park_Queue\<close> or \<open>Hash_Table\<close> on the bucket. A thread is named by the address of
  its \<open>ThreadData\<close>, a table by its position in the list of all tables ever made, since none is freed once it was
  published. A bucket lock is its holder; \<open>Word_Lock_Props\<close> shows that \<open>WordLock\<close> is such a lock.
\<close>

section \<open>State\<close>

text \<open>What a thread wants a bucket for, and what it wants the table for.\<close>

datatype lot_op = Op_park usize park_token bool | Op_timeout | Op_unpark usize
datatype want = For_op lot_op | For_grow usize

text \<open>What follows when the bucket has been unlocked.\<close>

datatype after = Return "park_result option" | Sleep bool | Again lot_op

datatype lpc =
    L_new
  | L_ready "park_result option"
  | L_table want
  | L_create want
  | L_key lot_op nat
  | L_lock lot_op usize nat
  | L_check lot_op usize nat
  | L_in lot_op usize nat
  | L_out nat nat after
  | L_sleep bool
  | G_size usize nat
  | G_lock usize nat nat
  | G_check usize nat
  | G_publish usize nat
  | G_out nat nat "usize option"

record lot_sys =
  tables :: "hash_table list"
  HASHTABLE :: "nat option"
  num_threads :: usize
  store :: tds
  locks :: "nat \<Rightarrow> nat \<Rightarrow> ptr option"
  lpcs :: "ptr \<Rightarrow> lpc"

definition lot_init :: lot_sys where
  "lot_init = \<lparr>tables = [], HASHTABLE = None, num_threads = 0, store = Map.empty, locks = (\<lambda>_ _. None), lpcs = (\<lambda>_. L_new)\<rparr>"

definition lgoto :: "ptr \<Rightarrow> lpc \<Rightarrow> lot_sys \<Rightarrow> lot_sys" where
  "lgoto t pc s = s\<lparr>lpcs := (lpcs s)(t := pc)\<rparr>"

definition set_lock :: "nat \<Rightarrow> nat \<Rightarrow> ptr option \<Rightarrow> lot_sys \<Rightarrow> lot_sys" where
  "set_lock n i h s = s\<lparr>locks := (locks s)(n := (locks s n)(i := h))\<rparr>"

text \<open>Locking blocks while somebody holds the bucket.\<close>

definition acquire :: "ptr \<Rightarrow> nat \<Rightarrow> nat \<Rightarrow> lot_sys \<Rightarrow> lot_sys option" where
  "acquire t n i s = (if locks s n i = None then Some (set_lock n i (Some t) s) else None)"

section \<open>The table\<close>

definition have_table :: "want \<Rightarrow> nat \<Rightarrow> lpc" where
  "have_table w n = (case w of For_op op \<Rightarrow> L_key op n | For_grow m \<Rightarrow> G_size m n)"

definition table_step :: "want \<Rightarrow> ptr \<Rightarrow> lot_sys \<Rightarrow> lot_sys" where
  "table_step w t s =
    lgoto t (case HASHTABLE s of None \<Rightarrow> L_create w | Some n \<Rightarrow> have_table w n) s"

text \<open>\<open>create_hashtable\<close>: a table that comes too late is freed again.\<close>

definition create_step :: "nat \<Rightarrow> want \<Rightarrow> ptr \<Rightarrow> lot_sys \<Rightarrow> lot_sys outcome" where
  "create_step now w t s =
    obind (hash_table_new LOAD_FACTOR now) (\<lambda>tab.
      case HASHTABLE s of
        None \<Rightarrow>
          let n = length (tables s) in
          Inr (lgoto t (have_table w n) (s\<lparr>tables := tables s @ [tab], HASHTABLE := Some n\<rparr>))
      | Some n \<Rightarrow> Inr (lgoto t (have_table w n) s))"

section \<open>Locking a bucket\<close>

text \<open>\<open>lock_bucket\<close> has its key as an argument, \<open>lock_bucket_checked\<close> reads it from the thread's own record in every round.\<close>

definition op_key :: "tds \<Rightarrow> ptr \<Rightarrow> lot_op \<Rightarrow> usize option" where
  "op_key S t op =
    (case op of Op_park k tok w \<Rightarrow> Some k | Op_unpark k \<Rightarrow> Some k | Op_timeout \<Rightarrow> map_option key (S t))"

definition key_step :: "lot_op \<Rightarrow> nat \<Rightarrow> ptr \<Rightarrow> lot_sys \<Rightarrow> lot_sys outcome" where
  "key_step op n t s =
    (case op_key (store s) t op of None \<Rightarrow> Inl Dangling | Some k \<Rightarrow> Inr (lgoto t (L_lock op k n) s))"

definition bucket_of :: "usize \<Rightarrow> nat \<Rightarrow> lot_sys \<Rightarrow> nat outcome" where
  "bucket_of k n s =
    (if length (tables s) \<le> n then Inl Dangling
     else obind (hash k (hash_bits (tables s ! n))) (\<lambda>h.
       if length (entries (tables s ! n)) \<le> unat h then Inl Panic else Inr (unat h)))"

definition lock_step :: "lot_op \<Rightarrow> usize \<Rightarrow> nat \<Rightarrow> ptr \<Rightarrow> lot_sys \<Rightarrow> lot_sys outcome option" where
  "lock_step op k n t s =
    (case bucket_of k n s of
       Inl f \<Rightarrow> Some (Inl f)
     | Inr i \<Rightarrow> map_option (\<lambda>s. Inr (lgoto t (L_check op k n) s)) (acquire t n i s))"

text \<open>The record's key is only written by its own thread here, so both comparisons are one step.\<close>

definition check_step :: "lot_op \<Rightarrow> usize \<Rightarrow> nat \<Rightarrow> ptr \<Rightarrow> lot_sys \<Rightarrow> lot_sys outcome" where
  "check_step op k n t s =
    obind (bucket_of k n s) (\<lambda>i.
      if HASHTABLE s = Some n \<and> op_key (store s) t op = Some k then Inr (lgoto t (L_in op k n) s)
      else Inr (lgoto t (L_out n i (Again op)) s))"

definition out_step :: "nat \<Rightarrow> nat \<Rightarrow> after \<Rightarrow> ptr \<Rightarrow> lot_sys \<Rightarrow> lot_sys" where
  "out_step n i a t s =
    lgoto t (case a of Return r \<Rightarrow> L_ready r | Sleep w \<Rightarrow> L_sleep w | Again op \<Rightarrow> L_table (For_op op)) (set_lock n i None s)"

section \<open>park and unpark_one\<close>

definition set_bucket :: "nat \<Rightarrow> nat \<Rightarrow> tds \<Rightarrow> bucket \<Rightarrow> lot_sys \<Rightarrow> lot_sys" where
  "set_bucket n i S b s =
    s\<lparr>store := S, tables := (tables s)[n := (tables s ! n)\<lparr>entries := (entries (tables s ! n))[i := b]\<rparr>]\<rparr>"

text \<open>
  What the thread does with its bucket. The answers of the callbacks are the environment's: \<open>valid\<close> is that of
  \<open>validate\<close>, \<open>tok\<close> the token that the unpark callback returns.
\<close>

definition in_step ::
    "bool \<Rightarrow> unpark_token \<Rightarrow> nat \<Rightarrow> lot_op \<Rightarrow> usize \<Rightarrow> nat \<Rightarrow> ptr \<Rightarrow> lot_sys \<Rightarrow> lot_sys outcome option" where
  "in_step valid tok now op k n t s =
    (case bucket_of k n s of
       Inl f \<Rightarrow> Some (Inl f)
     | Inr i \<Rightarrow>
         let b = entries (tables s ! n) ! i in
         (case op of
            Op_park _ ptok w \<Rightarrow>
              Some (if \<not> valid then Inr (lgoto t (L_out n i (Return (Some Invalid))) s)
                    else obind (park_enqueue t k ptok w (store s) b) (\<lambda>(S, b).
                      Inr (lgoto t (L_out n i (Sleep w)) (set_bucket n i S b s))))
          | Op_unpark _ \<Rightarrow>
              map_option (\<lambda>r. obind r (\<lambda>(_, S, b, _).
                  Inr (lgoto t (L_out n i (Return None)) (set_bucket n i S b s))))
                (unpark_one k (\<lambda>r e. (tok, e)) now (store s) b ())
          | Op_timeout \<Rightarrow>
              map_option (\<lambda>r. obind r (\<lambda>(res, S, b, _).
                  Inr (lgoto t (L_out n i (Return (Some res))) (set_bucket n i S b s))))
                (park_timeout t (\<lambda>_ _ e. e) (store s) b ())))"

text \<open>
  The parked thread: it goes on when it was unparked, or when it has a deadline and \<open>late\<close> says that it has passed.
  The deadlock hook \<open>on_unpark\<close> does nothing, since nothing ever sets \<open>deadlocked\<close>.
\<close>

definition sleep_step :: "bool \<Rightarrow> bool \<Rightarrow> ptr \<Rightarrow> lot_sys \<Rightarrow> lot_sys outcome option" where
  "sleep_step late w t s =
    (case store s t of
       None \<Rightarrow> Some (Inl Dangling)
     | Some td \<Rightarrow>
         if park_returns (parker td) then Some (Inr (lgoto t (L_ready (Some (Unparked (unpark_token td)))) s))
         else if w \<and> late then Some (Inr (lgoto t (L_table (For_op Op_timeout)) s))
         else None)"

section \<open>Registering and growing\<close>

definition new_step :: "ptr \<Rightarrow> lot_sys \<Rightarrow> lot_sys outcome" where
  "new_step t s =
    (let n = num_threads s + 1 in
     if n = 0 then Inl Panic else Inr (lgoto t (L_table (For_grow n)) (s\<lparr>num_threads := n\<rparr>)))"

definition registered :: "ptr \<Rightarrow> lot_sys \<Rightarrow> lot_sys" where
  "registered t s = lgoto t (L_ready None) (s\<lparr>store := (store s)(t \<mapsto> thread_data_new)\<rparr>)"

definition size_step :: "usize \<Rightarrow> nat \<Rightarrow> ptr \<Rightarrow> lot_sys \<Rightarrow> lot_sys outcome" where
  "size_step m n t s =
    (if length (tables s) \<le> n then Inl Dangling
     else obind (checked_mul LOAD_FACTOR m) (\<lambda>x.
       if unat x \<le> length (entries (tables s ! n)) then Inr (registered t s)
       else Inr (lgoto t (G_lock m n 0) s)))"

definition lock_all_step :: "usize \<Rightarrow> nat \<Rightarrow> nat \<Rightarrow> ptr \<Rightarrow> lot_sys \<Rightarrow> lot_sys option" where
  "lock_all_step m n i t s =
    (if i < length (entries (tables s ! n)) then map_option (lgoto t (G_lock m n (Suc i))) (acquire t n i s)
     else Some (lgoto t (G_check m n) s))"

definition grow_check_step :: "usize \<Rightarrow> nat \<Rightarrow> ptr \<Rightarrow> lot_sys \<Rightarrow> lot_sys" where
  "grow_check_step m n t s = lgoto t (if HASHTABLE s = Some n then G_publish m n else G_out n 0 (Some m)) s"

definition publish_step :: "nat \<Rightarrow> usize \<Rightarrow> nat \<Rightarrow> ptr \<Rightarrow> lot_sys \<Rightarrow> lot_sys outcome option" where
  "publish_step now m n t s =
    (case hash_table_new m now of
       Inl f \<Rightarrow> Some (Inl f)
     | Inr tab \<Rightarrow>
         map_option (\<lambda>r. obind r (\<lambda>(S, tab).
           Inr (lgoto t (G_out n 0 None)
             (s\<lparr>store := S, tables := tables s @ [tab], HASHTABLE := Some (length (tables s))\<rparr>))))
         (rehash_all (entries (tables s ! n)) (store s) tab))"

definition unlock_all_step :: "nat \<Rightarrow> nat \<Rightarrow> usize option \<Rightarrow> ptr \<Rightarrow> lot_sys \<Rightarrow> lot_sys" where
  "unlock_all_step n i retry t s =
    (if i < length (entries (tables s ! n)) then lgoto t (G_out n (Suc i) retry) (set_lock n i None s)
     else case retry of None \<Rightarrow> registered t s | Some m \<Rightarrow> lgoto t (L_table (For_grow m)) s)"

section \<open>The machine\<close>

datatype lot_action =
    L_register
  | L_exit
  | L_park usize park_token bool
  | L_unpark usize
  | L_run bool unpark_token nat

definition lot_run_step :: "bool \<Rightarrow> unpark_token \<Rightarrow> nat \<Rightarrow> ptr \<Rightarrow> lot_sys \<Rightarrow> lot_sys outcome option" where
  "lot_run_step yes tok now t s =
    (case lpcs s t of
       L_new \<Rightarrow> None
     | L_ready r \<Rightarrow> None
     | L_table w \<Rightarrow> Some (Inr (table_step w t s))
     | L_create w \<Rightarrow> Some (create_step now w t s)
     | L_key op n \<Rightarrow> Some (key_step op n t s)
     | L_lock op k n \<Rightarrow> lock_step op k n t s
     | L_check op k n \<Rightarrow> Some (check_step op k n t s)
     | L_in op k n \<Rightarrow> in_step yes tok now op k n t s
     | L_out n i a \<Rightarrow> Some (Inr (out_step n i a t s))
     | L_sleep w \<Rightarrow> sleep_step yes w t s
     | G_size m n \<Rightarrow> Some (size_step m n t s)
     | G_lock m n i \<Rightarrow> map_option Inr (lock_all_step m n i t s)
     | G_check m n \<Rightarrow> Some (Inr (grow_check_step m n t s))
     | G_publish m n \<Rightarrow> publish_step now m n t s
     | G_out n i r \<Rightarrow> Some (Inr (unlock_all_step n i r t s)))"

definition call_step :: "lpc \<Rightarrow> ptr \<Rightarrow> lot_sys \<Rightarrow> lot_sys outcome option" where
  "call_step pc t s = (case lpcs s t of L_ready r \<Rightarrow> Some (Inr (lgoto t pc s)) | _ \<Rightarrow> None)"

fun lot_step :: "lot_action \<Rightarrow> ptr \<Rightarrow> lot_sys \<Rightarrow> lot_sys outcome option" where
  "lot_step L_register t s = (if t \<noteq> null \<and> lpcs s t = L_new then Some (new_step t s) else None)"
| "lot_step L_exit t s =
     (case lpcs s t of
        L_ready r \<Rightarrow> Some (Inr (lgoto t L_new (s\<lparr>num_threads := num_threads s - 1, store := (store s)(t := None)\<rparr>)))
      | _ \<Rightarrow> None)"
| "lot_step (L_park k tok w) t s = call_step (L_table (For_op (Op_park k tok w))) t s"
| "lot_step (L_unpark k) t s = call_step (L_table (For_op (Op_unpark k))) t s"
| "lot_step (L_run yes tok now) t s = lot_run_step yes tok now t s"

text \<open>Fewer than \<open>2 ^ 29\<close> threads: more would need a table with more than \<open>2 ^ 31\<close> buckets.\<close>

inductive lot_trans :: "lot_sys \<Rightarrow> lot_sys \<Rightarrow> bool" where
  "lot_step a t s = Some (Inr s') \<Longrightarrow> unat (num_threads s') < 2 ^ 29 \<Longrightarrow> lot_trans s s'"

inductive_cases lot_transE: "lot_trans s s'"

fun lot_actions :: "(lot_action \<times> ptr) list \<Rightarrow> lot_sys \<Rightarrow> lot_sys outcome option" where
  "lot_actions [] s = Some (Inr s)"
| "lot_actions ((a, t) # as) s =
     (case lot_step a t s of
        None \<Rightarrow> None
      | Some (Inl f) \<Rightarrow> Some (Inl f)
      | Some (Inr s') \<Rightarrow> if unat (num_threads s') < 2 ^ 29 then lot_actions as s' else None)"

end
