(* ===== verification/Table_Ops.thy ===== *)
theory Table_Ops
  imports Hash_Table
begin

text \<open>
  The operations of \<open>Park_Queue\<close> on a bucket of a well-formed hash table: what they do to the lists of the table, to
  the keys and to the flags of the sleeping threads. Every lemma says that the operation does not fault and
  that the other buckets are untouched.
\<close>

definition awaiting :: "tds \<Rightarrow> ptr \<Rightarrow> bool" where
  "awaiting S p \<longleftrightarrow> (\<exists>td. S p = Some td \<and> timed_out (parker td))"

definition put_bucket :: "nat \<Rightarrow> bucket \<Rightarrow> hash_table \<Rightarrow> hash_table" where
  "put_bucket i b t = t\<lparr>entries := (entries t)[i := b]\<rparr>"

lemma put_bucket_simps [simp]:
  "hash_bits (put_bucket i b t) = hash_bits t" "length (entries (put_bucket i b t)) = length (entries t)"
  "good_table (put_bucket i b t) = good_table t"
  by (simp_all add: put_bucket_def good_table_def)

lemma awaiting_parker: "awaiting S p \<longleftrightarrow> (\<exists>k. map_option parker (S p) = Some k \<and> timed_out k)"
  by (auto simp: awaiting_def)

lemma awaiting_cong: "map_option parker (S' p) = map_option parker (S p) \<Longrightarrow> awaiting S' p \<longleftrightarrow> awaiting S p"
  by (simp only: awaiting_parker)

lemma waits_on_key: "waits_on S k p \<longleftrightarrow> map_option key (S p) = Some k"
  by (auto simp: waits_on_def)

lemma keys_eqI: "(\<And>k. waits_on S' k p \<longleftrightarrow> waits_on S k p) \<Longrightarrow> map_option key (S' p) = map_option key (S p)"
  unfolding waits_on_key by (cases "map_option key (S p)"; cases "map_option key (S' p)") auto

lemma slot_key: "map_option key (S' p) = map_option key (S p) \<Longrightarrow> slot S' bits p = slot S bits p"
  by (auto simp: slot_def split: option.splits)

lemma members_put:
  "i < length (entries t) \<Longrightarrow> members (put_bucket i b t) (f(i := xs)) = set xs \<union> (\<Union>j \<in> {..<length (entries t)} - {i}. set (f j))"
  by (auto simp: members_def split: if_splits)

lemma table_bucket:
  assumes "table_ok S t f" "i < length (entries t)"
  shows "bucket_list S (entries t ! i) (f i)" "\<And>p. p \<in> set (f i) \<Longrightarrow> slot S (hash_bits t) p = i" "set (f i) \<subseteq> members t f"
    "\<And>j. j < length (entries t) \<Longrightarrow> j \<noteq> i \<Longrightarrow> set (f i) \<inter> set (f j) = {}"
  using assms by (auto simp: table_ok_def table_rep_def members_def)

lemma table_put:
  assumes t: "table_ok S t f" "i < length (entries t)" and b: "bucket_list S' b xs" "\<And>p. p \<in> set xs \<Longrightarrow> slot S' (hash_bits t) p = i"
    and o: "only_in (insert q (set (f i))) S S'" "q \<notin> members t f \<or> q \<in> set (f i)" "set xs \<subseteq> insert q (set (f i))"
  shows "table_ok S' (put_bucket i b t) (f(i := xs))"
proof -
  have S': "S' p = S p" "p \<notin> set xs" if "j < length (entries t)" "j \<noteq> i" "p \<in> set (f j)" for j p
  proof -
    have "p \<notin> insert q (set (f i))" using that o(2) table_bucket(3)[OF t(1) that(1)] table_bucket(4)[OF t, of j] by blast
    then show "S' p = S p" "p \<notin> set xs" using o(1,3) by (auto simp: only_in_def)
  qed
  have "bucket_list S' (entries (put_bucket i b t) ! j) ((f(i := xs)) j)" if "j < length (entries t)" for j
    using that b(1) S' bucket_list_cong[OF table_bucket(1)[OF t(1) that]] by (cases "j = i") (auto simp: put_bucket_def)
  moreover have "set ((f(i := xs)) j) \<inter> set ((f(i := xs)) l) = {}" if "j < length (entries t)" "l < length (entries t)" "j \<noteq> l" for j l
    using that S'(2) table_bucket(4)[OF t(1), of j l] by auto
  moreover have "slot S' (hash_bits t) p = j" if "j < length (entries t)" "p \<in> set ((f(i := xs)) j)" for j p
    using that b(2) S'(1)[of j p] table_bucket(2)[OF t(1), of j p] by (auto simp: slot_def split: if_splits)
  ultimately show ?thesis using t(1) by (simp add: table_ok_def table_rep_def)
qed

section \<open>The three operations\<close>

abbreviation bucket_at :: "usize \<Rightarrow> hash_table \<Rightarrow> nat" where
  "bucket_at k t \<equiv> unat (hash_raw k (hash_bits t))"

lemma bucket_at_less: "table_ok S t f \<Longrightarrow> bucket_at k t < length (entries t)"
  using hash_raw_bound[of "hash_bits t" k] by (simp add: table_ok_def good_table_def)

lemma table_park:
  fixes k :: usize
  assumes t: "table_ok S t f" and self: "S self = Some td" "self \<noteq> null" "self \<notin> members t f"
  defines "i \<equiv> bucket_at k t"
  shows "\<exists>S' b. park_enqueue self k tok w S (entries t ! i) = Inr (S', b) \<and>
    table_ok S' (put_bucket i b t) (f(i := f i @ [self])) \<and>
    (\<forall>p. map_option key (S' p) = (if p = self then Some k else map_option key (S p))) \<and>
    (\<forall>p. awaiting S' p \<longleftrightarrow> p = self \<or> awaiting S p)"
proof -
  have i: "i < length (entries t)" unfolding i_def by (rule bucket_at_less[OF t])
  note b = table_bucket[OF t i]
  have "self \<notin> set (f i)" using self(3) b(3) by blast
  then obtain S' b' where e: "park_enqueue self k tok w S (entries t ! i) = Inr (S', b')" "bucket_list S' b' (f i @ [self])"
    "same_but_next (S(self \<mapsto> (set_parked w k tok td))) S'" "S' self = Some (set_parked w k tok td)" "only_in (insert self (set (f i))) S S'"
    using park_enqueue_list[OF b(1) self(1,2)] by blast
  have k: "map_option key (S' p) = (if p = self then Some k else map_option key (S p))" for p
    using same_but_next_waits[OF e(3)] e(4)
    by (cases "p = self") (auto simp: set_parked_def waits_on_upd intro!: keys_eqI)
  have w: "awaiting S' p \<longleftrightarrow> p = self \<or> awaiting S p" for p
    using same_but_next_parker[OF e(3), of p] e(4)
    by (cases "p = self") (auto simp: awaiting_parker set_parked_def futex_parker.prepared_times_out)
  have "slot S' (hash_bits t) p = i" if "p \<in> set (f i @ [self])" for p
    using that k[of p] b(2)[of p] slot_key[of S' p S] e(4) by (cases "p = self") (auto simp: slot_def i_def set_parked_def)
  then have "table_ok S' (put_bucket i b' t) (f(i := f i @ [self]))"
    using e(5) self(3) by (intro table_put[OF t i e(2)]) auto
  then show ?thesis using e(1) k w by blast
qed

lemma table_unpark:
  fixes k :: usize
  assumes t: "table_ok S t f"
  defines "i \<equiv> bucket_at k t"
  shows "\<exists>r S' b. unpark_one k (\<lambda>r e. (tok, e)) now S (entries t ! i) () = Some (Inr (r, S', b, ())) \<and>
    (\<forall>p. map_option key (S' p) = map_option key (S p)) \<and>
    (case filter (waits_on S k) (f i) of
       [] \<Rightarrow> S' = S \<and> b = entries t ! i
     | w # ws \<Rightarrow> table_ok S' (put_bucket i b t) (f(i := remove1 w (f i))) \<and>
         (\<forall>p. awaiting S' p \<longleftrightarrow> p \<noteq> w \<and> awaiting S p))"
proof (cases "filter (waits_on S k) (f i)")
  have i: "i < length (entries t)" unfolding i_def by (rule bucket_at_less[OF t])
  note b = table_bucket[OF t i]
  {
    case Nil
    then have "\<forall>x \<in> set (f i). \<not> waits_on S k x" by (simp add: filter_empty_conv)
    then show ?thesis using unpark_one_none[OF b(1), of k "\<lambda>r e. (tok, e)" now "()"] Nil by simp
  next
    case (Cons w ws)
    then obtain ys zs where f: "f i = ys @ w # zs" "\<forall>y \<in> set ys. \<not> waits_on S k y" "waits_on S k w"
      by (auto simp: filter_eq_Cons_iff)
    obtain fr ft where st: "should_timeout now (fair (entries t ! i)) = (fr, ft)" by fastforce
    obtain r S' b' td' where u: "unpark_one k (\<lambda>r e. (tok, e)) now S (entries t ! i) () = Some (Inr (r, S', b', ()))"
      "bucket_list S' b' (ys @ zs)" "S' w = Some td'" "park_returns (parker td')" "\<forall>p k. waits_on S' k p \<longleftrightarrow> waits_on S k p"
      "only_in (set (ys @ w # zs)) S S'" "\<forall>p. p \<noteq> w \<longrightarrow> map_option parker (S' p) = map_option parker (S p)"
      using unpark_one_found[where callback = "\<lambda>r e. (tok, e)" and e = "()", OF b(1)[unfolded f(1)] f(3,2) st refl refl] by blast
    have k: "map_option key (S' p) = map_option key (S p)" for p using u(5) by (intro keys_eqI) auto
    have "distinct (f i)" using b(1) by (simp add: bucket_list_def)
    then have rm: "remove1 w (f i) = ys @ zs" unfolding f(1) by (simp add: remove1_append)
    have "slot S' (hash_bits t) p = i" if "p \<in> set (ys @ zs)" for p using that b(2)[of p] slot_key[of S' p S, OF k] f(1) by auto
    then have "table_ok S' (put_bucket i b' t) (f(i := ys @ zs))"
      using u(6) f(1) by (intro table_put[OF t i u(2), of w]) (auto simp: insert_absorb)
    moreover have "awaiting S' p \<longleftrightarrow> p \<noteq> w \<and> awaiting S p" for p
      using u(3,4,7) by (cases "p = w") (auto simp: awaiting_parker futex_parker.timed_iff)
    ultimately show ?thesis using u(1) k Cons rm by auto
  }
qed

lemma table_timeout:
  assumes t: "table_ok S t f" and self: "S self = Some td" "timed_out (parker td) \<Longrightarrow> self \<in> set (f (bucket_at (key td) t))"
  defines "i \<equiv> bucket_at (key td) t"
  shows "\<exists>r S' b. park_timeout self (\<lambda>_ _ e. e) S (entries t ! i) () = Some (Inr (r, S', b, ())) \<and>
    table_ok S' (put_bucket i b t) (f(i := if timed_out (parker td) then remove1 self (f i) else f i)) \<and>
    (\<forall>p. map_option key (S' p) = map_option key (S p)) \<and> (\<forall>p. awaiting S' p \<longleftrightarrow> awaiting S p) \<and>
    (r = TimedOut \<longleftrightarrow> timed_out (parker td))"
proof (cases "timed_out (parker td)")
  have i: "i < length (entries t)" unfolding i_def by (rule bucket_at_less[OF t])
  note b = table_bucket[OF t i]
  {
    case True
    then obtain ys zs where f: "f i = ys @ self # zs" using self(2) split_list unfolding i_def by metis
    obtain S' b' where u: "park_timeout self (\<lambda>_ _ e. e) S (entries t ! i) () = Some (Inr (TimedOut, S', b', ()))"
      "bucket_list S' b' (ys @ zs)" "same_but_next S S'" "only_in (set ys) S S'"
      using park_timeout_list[OF b(1)[unfolded f] self(1) True, of "\<lambda>_ _ e. e" "()"] by blast
    have k: "map_option key (S' p) = map_option key (S p)" for p
      by (intro keys_eqI same_but_next_waits[OF u(3)])
    have "distinct (f i)" using b(1) by (simp add: bucket_list_def)
    then have rm: "remove1 self (f i) = ys @ zs" unfolding f by (simp add: remove1_append)
    have "slot S' (hash_bits t) p = i" if "p \<in> set (ys @ zs)" for p using that b(2)[of p] slot_key[of S' p S, OF k] f by auto
    then have "table_ok S' (put_bucket i b' t) (f(i := ys @ zs))"
      using only_in_mono[OF u(4), of "insert self (set (f i))"] f by (intro table_put[OF t i u(2), of self]) auto
    then show ?thesis using u(1) k rm True awaiting_cong[of S' _ S] same_but_next_parker[OF u(3)] by auto
  next
    case False
    have "table_ok S (put_bucket i (entries t ! i) t) (f(i := f i))" using t by (simp add: put_bucket_def)
    then show ?thesis using False self(1) by (auto simp: park_timeout_def)
  }
qed

end
