(* ===== verification/Lot_Safety.thy ===== *)
theory Lot_Safety
  imports Parking_Lot Table_Ops
begin

text \<open>
  The invariant of the parking lot and its preservation. \<open>owns\<close> reads off the position of a thread which buckets of
  which table it has locked, \<open>pc_ok\<close> what it knows there, and \<open>parkedish\<close> whether it is between the two halves of
  \<open>park\<close>. The invariant says that the locks are what the positions say, that the positions know the truth, that the
  current table is well formed, and that the threads in it are exactly the parked ones that nobody has woken.
\<close>

section \<open>Invariant\<close>

definition shape :: "lot_sys \<Rightarrow> nat list" where
  "shape s = map hash_bits (tables s)"

fun owns :: "nat list \<Rightarrow> lpc \<Rightarrow> nat \<Rightarrow> nat \<Rightarrow> bool" where
  "owns B (L_check op k m) n i \<longleftrightarrow> n = m \<and> i = unat (hash_raw k (B ! m))"
| "owns B (L_in op k m) n i \<longleftrightarrow> n = m \<and> i = unat (hash_raw k (B ! m))"
| "owns B (L_out m j a) n i \<longleftrightarrow> n = m \<and> i = j"
| "owns B (G_lock x m j) n i \<longleftrightarrow> n = m \<and> i < j"
| "owns B (G_check x m) n i \<longleftrightarrow> n = m \<and> i < 2 ^ (B ! m)"
| "owns B (G_publish x m) n i \<longleftrightarrow> n = m \<and> i < 2 ^ (B ! m)"
| "owns B (G_out m j r) n i \<longleftrightarrow> n = m \<and> j \<le> i \<and> i < 2 ^ (B ! m)"
| "owns B _ n i \<longleftrightarrow> False"

text \<open>The table of a position, and the size a growing thread wants. \<open>K\<close> is the key in the thread's own record, if it has one.\<close>

fun pc_table :: "lpc \<Rightarrow> nat option" where
  "pc_table (L_key op n) = Some n"
| "pc_table (L_lock op k n) = Some n"
| "pc_table (L_check op k n) = Some n"
| "pc_table (L_in op k n) = Some n"
| "pc_table (L_out n i a) = Some n"
| "pc_table (G_size m n) = Some n"
| "pc_table (G_lock m n i) = Some n"
| "pc_table (G_check m n) = Some n"
| "pc_table (G_publish m n) = Some n"
| "pc_table (G_out n i r) = Some n"
| "pc_table _ = None"

definition fits :: "usize \<Rightarrow> bool" where
  "fits m \<longleftrightarrow> m \<noteq> 0 \<and> unat m < 2 ^ 29"

fun wants :: "want \<Rightarrow> usize option" where
  "wants (For_op op) = None"
| "wants (For_grow m) = Some m"

fun grows :: "lpc \<Rightarrow> bool" where
  "grows L_new = True"
| "grows (L_table w) = (wants w \<noteq> None)"
| "grows (L_create w) = (wants w \<noteq> None)"
| "grows (G_size m n) = True"
| "grows (G_lock m n i) = True"
| "grows (G_check m n) = True"
| "grows (G_publish m n) = True"
| "grows (G_out n i r) = True"
| "grows _ = False"

definition key_of :: "usize option \<Rightarrow> lot_op \<Rightarrow> usize option" where
  "key_of K op = (case op of Op_park k tok w \<Rightarrow> Some k | Op_unpark k \<Rightarrow> Some k | Op_timeout \<Rightarrow> K)"

fun pc_knows :: "nat list \<Rightarrow> nat option \<Rightarrow> usize option \<Rightarrow> lpc \<Rightarrow> bool" where
  "pc_knows B H K (L_table w) = (\<forall>m. wants w = Some m \<longrightarrow> fits m)"
| "pc_knows B H K (L_create w) = (\<forall>m. wants w = Some m \<longrightarrow> fits m)"
| "pc_knows B H K (L_lock op k n) = (key_of K op = Some k)"
| "pc_knows B H K (L_check op k n) = (key_of K op = Some k)"
| "pc_knows B H K (L_in op k n) = (key_of K op = Some k \<and> H = Some n)"
| "pc_knows B H K (L_out n i a) = (i < 2 ^ (B ! n))"
| "pc_knows B H K (G_size m n) = fits m"
| "pc_knows B H K (G_lock m n i) = (fits m \<and> i \<le> 2 ^ (B ! n))"
| "pc_knows B H K (G_check m n) = fits m"
| "pc_knows B H K (G_publish m n) = (fits m \<and> H = Some n)"
| "pc_knows B H K (G_out n i r) = (i \<le> 2 ^ (B ! n) \<and> (\<forall>m. r = Some m \<longrightarrow> fits m))"
| "pc_knows B H K _ = True"

definition pc_ok :: "nat list \<Rightarrow> nat option \<Rightarrow> tds \<Rightarrow> ptr \<Rightarrow> lpc \<Rightarrow> bool" where
  "pc_ok B H S t pc \<longleftrightarrow> pc_knows B H (map_option key (S t)) pc \<and> (\<forall>n. pc_table pc = Some n \<longrightarrow> n < length B) \<and>
     (grows pc \<longleftrightarrow> S t = None) \<and> (pc \<noteq> L_new \<longrightarrow> t \<noteq> null)"

fun parkedish :: "lpc \<Rightarrow> bool" where
  "parkedish (L_sleep w) = True"
| "parkedish (L_table w) = (w = For_op Op_timeout)"
| "parkedish (L_create w) = (w = For_op Op_timeout)"
| "parkedish (L_key op n) = (op = Op_timeout)"
| "parkedish (L_lock op k n) = (op = Op_timeout)"
| "parkedish (L_check op k n) = (op = Op_timeout)"
| "parkedish (L_in op k n) = (op = Op_timeout)"
| "parkedish (L_out n i a) = (case a of Return r \<Rightarrow> False | Sleep w \<Rightarrow> True | Again op \<Rightarrow> op = Op_timeout)"
| "parkedish _ = False"

definition inv_tables :: "hash_table list \<Rightarrow> nat option \<Rightarrow> bool" where
  "inv_tables T H \<longleftrightarrow> (\<forall>tab \<in> set T. good_table tab) \<and> (\<forall>n. H = Some n \<longrightarrow> n < length T)"

definition inv_locks :: "nat list \<Rightarrow> (nat \<Rightarrow> nat \<Rightarrow> ptr option) \<Rightarrow> (ptr \<Rightarrow> lpc) \<Rightarrow> bool" where
  "inv_locks B L f \<longleftrightarrow> (\<forall>n i t. L n i = Some t \<longleftrightarrow> owns B (f t) n i)"

definition inv_pcs :: "nat list \<Rightarrow> nat option \<Rightarrow> tds \<Rightarrow> (ptr \<Rightarrow> lpc) \<Rightarrow> bool" where
  "inv_pcs B H S f \<longleftrightarrow> (\<forall>t. pc_ok B H S t (f t))"

text \<open>The lists \<open>q\<close> of the current table hold the parked threads that are still to be woken.\<close>

definition queued :: "hash_table list \<Rightarrow> nat option \<Rightarrow> (nat \<Rightarrow> ptr list) \<Rightarrow> ptr set" where
  "queued T H q = (case H of None \<Rightarrow> {} | Some n \<Rightarrow> members (T ! n) q)"

definition inv_queues :: "hash_table list \<Rightarrow> nat option \<Rightarrow> tds \<Rightarrow> (ptr \<Rightarrow> lpc) \<Rightarrow> (nat \<Rightarrow> ptr list) \<Rightarrow> bool" where
  "inv_queues T H S f q \<longleftrightarrow> (\<forall>n. H = Some n \<longrightarrow> table_ok S (T ! n) q) \<and>
     (\<forall>t. t \<in> queued T H q \<longleftrightarrow> parkedish (f t) \<and> awaiting S t)"

definition lot_at :: "(nat \<Rightarrow> ptr list) \<Rightarrow> lot_sys \<Rightarrow> bool" where
  "lot_at q s \<longleftrightarrow> inv_tables (tables s) (HASHTABLE s) \<and> inv_locks (shape s) (locks s) (lpcs s) \<and>
     inv_pcs (shape s) (HASHTABLE s) (store s) (lpcs s) \<and> inv_queues (tables s) (HASHTABLE s) (store s) (lpcs s) q \<and>
     unat (num_threads s) < 2 ^ 29"

definition lot_inv :: "lot_sys \<Rightarrow> bool" where
  "lot_inv s \<longleftrightarrow> (\<exists>q. lot_at q s)"

text \<open>The threads that wait on a key, in the order of their queue.\<close>

definition waiting_of :: "lot_sys \<Rightarrow> (nat \<Rightarrow> ptr list) \<Rightarrow> usize \<Rightarrow> ptr list" where
  "waiting_of s q k = (case HASHTABLE s of None \<Rightarrow> [] | Some n \<Rightarrow> filter (waits_on (store s) k) (q (bucket_at k (tables s ! n))))"

text \<open>A step does not fault and leads to a good state with these queues, provided the number of threads stays small.\<close>

definition keeps :: "(usize \<Rightarrow> ptr list) \<Rightarrow> lot_sys outcome option \<Rightarrow> bool" where
  "keeps A r \<longleftrightarrow> (case r of None \<Rightarrow> True | Some (Inl f) \<Rightarrow> False
     | Some (Inr s) \<Rightarrow> unat (num_threads s) < 2 ^ 29 \<longrightarrow> (\<exists>q. lot_at q s \<and> waiting_of s q = A))"

lemma lot_keeps_simps [simp]:
  "keeps A None" "\<not> keeps A (Some (Inl f))"
  "keeps A (Some (Inr s)) \<longleftrightarrow> (unat (num_threads s) < 2 ^ 29 \<longrightarrow> (\<exists>q. lot_at q s \<and> waiting_of s q = A))"
  by (simp_all add: keeps_def)

lemma lot_at_init: "lot_at q lot_init"
  by (simp add: lot_at_def lot_init_def inv_tables_def inv_locks_def inv_pcs_def pc_ok_def inv_queues_def queued_def)

section \<open>Locks\<close>

lemma inv_locks_same:
  assumes "inv_locks B L f" "\<And>n i. owns B pc n i \<longleftrightarrow> owns B (f t) n i"
  shows "inv_locks B L (f(t := pc))"
  using assms by (simp add: inv_locks_def)

lemma inv_locks_take:
  assumes "inv_locks B L f" "L m j = None" "\<And>n i. owns B pc n i \<longleftrightarrow> owns B (f t) n i \<or> (n = m \<and> i = j)"
  shows "inv_locks B (L(m := (L m)(j := Some t))) (f(t := pc))"
  using assms by (auto simp: inv_locks_def) (metis option.distinct(1))+

lemma inv_locks_drop:
  assumes "inv_locks B L f" "owns B (f t) m j" "\<And>n i. owns B pc n i \<longleftrightarrow> owns B (f t) n i \<and> \<not> (n = m \<and> i = j)"
  shows "inv_locks B (L(m := (L m)(j := None))) (f(t := pc))"
  using assms by (auto simp: inv_locks_def) (metis option.inject)+

lemma inv_locks_unique: "inv_locks B L f \<Longrightarrow> owns B (f t) n i \<Longrightarrow> owns B (f u) n i \<Longrightarrow> t = u"
  unfolding inv_locks_def by (metis option.inject)

lemma owns_append:
  "(\<And>n. pc_table pc = Some n \<Longrightarrow> n < length B) \<Longrightarrow> owns (B @ B') pc = owns B pc"
  by (cases pc) (auto simp: fun_eq_iff nth_append)

lemma pc_ok_append: "pc_ok B H S t pc \<Longrightarrow> pc_ok (B @ B') H S t pc"
  by (cases pc) (auto simp: pc_ok_def nth_append)

lemma inv_locks_append: "inv_locks B L f \<Longrightarrow> inv_pcs B H S f \<Longrightarrow> inv_locks (B @ B') L f"
  unfolding inv_locks_def inv_pcs_def by (metis owns_append pc_ok_def)

section \<open>Steps that only move\<close>

lemma lot_atD:
  assumes "lot_at q s"
  shows "inv_tables (tables s) (HASHTABLE s)" "inv_locks (shape s) (locks s) (lpcs s)"
    "inv_pcs (shape s) (HASHTABLE s) (store s) (lpcs s)" "inv_queues (tables s) (HASHTABLE s) (store s) (lpcs s) q"
    "unat (num_threads s) < 2 ^ 29"
  using assms by (auto simp: lot_at_def)

lemma lot_at_pc: "lot_at q s \<Longrightarrow> pc_ok (shape s) (HASHTABLE s) (store s) t (lpcs s t)"
  by (simp add: lot_at_def inv_pcs_def)

lemma lot_at_table: "lot_at q s \<Longrightarrow> HASHTABLE s = Some n \<Longrightarrow> table_ok (store s) (tables s ! n) q \<and> n < length (tables s)"
  by (auto simp: lot_at_def inv_queues_def inv_tables_def)

lemma good_shape: "lot_at q s \<Longrightarrow> n < length (tables s) \<Longrightarrow>
    good_table (tables s ! n) \<and> shape s ! n = hash_bits (tables s ! n) \<and> length (entries (tables s ! n)) = 2 ^ (shape s ! n)"
  by (auto simp: lot_at_def inv_tables_def shape_def good_table_def)

lemma length_shape [simp]: "length (shape s) = length (tables s)"
  by (simp add: shape_def)

lemma bucket_of_ok: "lot_at q s \<Longrightarrow> n < length (tables s) \<Longrightarrow> bucket_of k n s = Inr (unat (hash_raw k (shape s ! n)))"
  using good_shape[of q s n] hash_raw_bound[of "hash_bits (tables s ! n)" k]
  by (simp add: bucket_of_def hash_def good_table_def)

lemma lgoto_sel [simp]:
  "lpcs (lgoto t pc s) = (lpcs s)(t := pc)" "tables (lgoto t pc s) = tables s" "HASHTABLE (lgoto t pc s) = HASHTABLE s"
  "store (lgoto t pc s) = store s" "locks (lgoto t pc s) = locks s" "num_threads (lgoto t pc s) = num_threads s"
  "shape (lgoto t pc s) = shape s"
  by (simp_all add: lgoto_def shape_def)

lemma set_lock_sel [simp]:
  "lpcs (set_lock n i h s) = lpcs s" "tables (set_lock n i h s) = tables s" "HASHTABLE (set_lock n i h s) = HASHTABLE s"
  "store (set_lock n i h s) = store s" "locks (set_lock n i h s) = (locks s)(n := (locks s n)(i := h))"
  "num_threads (set_lock n i h s) = num_threads s" "shape (set_lock n i h s) = shape s"
  by (simp_all add: set_lock_def shape_def)

lemma inv_pcs_upd: "inv_pcs B H S f \<Longrightarrow> pc_ok B H S t pc \<Longrightarrow> inv_pcs B H S (f(t := pc))"
  by (simp add: inv_pcs_def)

lemma inv_queues_same:
  "inv_queues T H S f q \<Longrightarrow> parkedish pc = parkedish (f t) \<Longrightarrow> inv_queues T H S (f(t := pc)) q"
  by (simp add: inv_queues_def)

lemma inv_queues_awake:
  "inv_queues T H S f q \<Longrightarrow> \<not> awaiting S t \<Longrightarrow> inv_queues T H S (f(t := pc)) q"
  by (auto simp: inv_queues_def)

text \<open>The lock word of one bucket may change along with the position.\<close>

lemma lot_at_move:
  assumes "lot_at q s" "inv_locks (shape s) L ((lpcs s)(t := pc))" "pc_ok (shape s) (HASHTABLE s) (store s) t pc"
    "parkedish pc = parkedish (lpcs s t) \<or> \<not> awaiting (store s) t"
  shows "lot_at q (lgoto t pc (s\<lparr>locks := L\<rparr>))" "waiting_of (lgoto t pc (s\<lparr>locks := L\<rparr>)) q = waiting_of s q"
proof -
  note i = lot_atD[OF assms(1)]
  have "inv_queues (tables s) (HASHTABLE s) (store s) ((lpcs s)(t := pc)) q"
    using i(4) assms(4) inv_queues_same inv_queues_awake by blast
  then show "lot_at q (lgoto t pc (s\<lparr>locks := L\<rparr>))" "waiting_of (lgoto t pc (s\<lparr>locks := L\<rparr>)) q = waiting_of s q"
    using i assms(2) inv_pcs_upd[OF i(3) assms(3)] by (simp_all add: lot_at_def shape_def waiting_of_def fun_eq_iff split: option.split)
qed

lemma keeps_goto:
  assumes "lot_at q s" "\<And>n i. owns (shape s) pc n i \<longleftrightarrow> owns (shape s) (lpcs s t) n i" "pc_ok (shape s) (HASHTABLE s) (store s) t pc"
    "parkedish pc = parkedish (lpcs s t) \<or> \<not> awaiting (store s) t"
  shows "keeps (waiting_of s q) (Some (Inr (lgoto t pc s)))"
  using lot_at_move[OF assms(1) inv_locks_same[OF lot_atD(2)[OF assms(1)] assms(2)] assms(3,4)] by auto

lemma keeps_take:
  assumes "lot_at q s" "locks s m j = None" "\<And>n i. owns (shape s) pc n i \<longleftrightarrow> owns (shape s) (lpcs s t) n i \<or> (n = m \<and> i = j)"
    "pc_ok (shape s) (HASHTABLE s) (store s) t pc" "parkedish pc = parkedish (lpcs s t)"
  shows "keeps (waiting_of s q) (Some (Inr (lgoto t pc (set_lock m j (Some t) s))))"
  using lot_at_move[OF assms(1) inv_locks_take[OF lot_atD(2)[OF assms(1)] assms(2,3)] assms(4)] assms(5)
  by (auto simp: set_lock_def)

lemma keeps_drop:
  assumes "lot_at q s" "owns (shape s) (lpcs s t) m j" "\<And>n i. owns (shape s) pc n i \<longleftrightarrow> owns (shape s) (lpcs s t) n i \<and> \<not> (n = m \<and> i = j)"
    "pc_ok (shape s) (HASHTABLE s) (store s) t pc" "parkedish pc = parkedish (lpcs s t)"
  shows "keeps (waiting_of s q) (Some (Inr (lgoto t pc (set_lock m j None s))))"
  using lot_at_move[OF assms(1) inv_locks_drop[OF lot_atD(2)[OF assms(1)] assms(2,3)] assms(4)] assms(5)
  by (auto simp: set_lock_def)

lemma table_keeps:
  assumes "lot_at q s" "lpcs s t = L_table w"
  shows "keeps (waiting_of s q) (Some (Inr (table_step w t s)))"
  unfolding table_step_def
  using lot_at_pc[OF assms(1), of t] lot_at_table[OF assms(1)] assms(2)
  by (intro keeps_goto[OF assms(1)]; cases w) (auto simp: pc_ok_def have_table_def split: option.splits)

lemma key_keeps:
  assumes "lot_at q s" "lpcs s t = L_key op n"
  shows "keeps (waiting_of s q) (Some (key_step op n t s))"
proof -
  note pc = lot_at_pc[OF assms(1), of t, unfolded assms(2)]
  then obtain k where k: "op_key (store s) t op = Some k" by (cases op) (auto simp: op_key_def pc_ok_def)
  then have "pc_ok (shape s) (HASHTABLE s) (store s) t (L_lock op k n)"
    using pc by (auto simp: pc_ok_def key_of_def op_key_def split: lot_op.splits)
  then show ?thesis using keeps_goto[OF assms(1), of "L_lock op k n" t] k assms(2) by (simp add: key_step_def)
qed

lemma lot_lock_keeps:
  assumes "lot_at q s" "lpcs s t = L_lock op k n"
  shows "keeps (waiting_of s q) (lock_step op k n t s)"
proof -
  note pc = lot_at_pc[OF assms(1), of t, unfolded assms(2)]
  then have "n < length (tables s)" by (simp add: pc_ok_def)
  note b = bucket_of_ok[OF assms(1) this, of k]
  show ?thesis
  proof (cases "locks s n (unat (hash_raw k (shape s ! n))) = None")
    case True
    have "keeps (waiting_of s q) (Some (Inr (lgoto t (L_check op k n) (set_lock n (unat (hash_raw k (shape s ! n))) (Some t) s))))"
      using pc assms(2) by (intro keeps_take[OF assms(1) True]) (auto simp: pc_ok_def)
    then show ?thesis using True by (simp add: lock_step_def b acquire_def)
  qed (auto simp: lock_step_def b acquire_def)
qed

lemma check_keeps:
  assumes "lot_at q s" "lpcs s t = L_check op k n"
  shows "keeps (waiting_of s q) (Some (check_step op k n t s))"
proof -
  note pc = lot_at_pc[OF assms(1), of t, unfolded assms(2)]
  then have n: "n < length (tables s)" by (simp add: pc_ok_def)
  have lt: "unat (hash_raw k (shape s ! n)) < 2 ^ (shape s ! n)"
    using good_shape[OF assms(1) n] hash_raw_bound[of "shape s ! n" k] by (simp add: good_table_def)
  show ?thesis
  proof (cases "HASHTABLE s = Some n \<and> op_key (store s) t op = Some k")
    case True
    then have "keeps (waiting_of s q) (Some (Inr (lgoto t (L_in op k n) s)))"
      using pc assms(2) by (intro keeps_goto[OF assms(1)]) (auto simp: pc_ok_def)
    then show ?thesis using True by (simp add: check_step_def bucket_of_ok[OF assms(1) n])
  next
    case False
    have "keeps (waiting_of s q) (Some (Inr (lgoto t (L_out n (unat (hash_raw k (shape s ! n))) (Again op)) s)))"
      using pc assms(2) lt by (intro keeps_goto[OF assms(1)]) (auto simp: pc_ok_def)
    then show ?thesis using False by (auto simp: check_step_def bucket_of_ok[OF assms(1) n])
  qed
qed

lemma out_keeps:
  assumes "lot_at q s" "lpcs s t = L_out n i a"
  shows "keeps (waiting_of s q) (Some (Inr (out_step n i a t s)))"
  unfolding out_step_def using lot_at_pc[OF assms(1), of t] assms(2)
  by (intro keeps_drop[OF assms(1)]; cases a) (auto simp: pc_ok_def)

lemma sleep_keeps:
  assumes "lot_at q s" "lpcs s t = L_sleep w"
  shows "keeps (waiting_of s q) (sleep_step late w t s)"
proof -
  note pc = lot_at_pc[OF assms(1), of t, unfolded assms(2)]
  then obtain td where td: "store s t = Some td" by (auto simp: pc_ok_def)
  have "keeps (waiting_of s q) (Some (Inr (lgoto t (L_table (For_op Op_timeout)) s)))"
    using pc assms(2) by (intro keeps_goto[OF assms(1)]) (auto simp: pc_ok_def)
  moreover have "keeps (waiting_of s q) (Some (Inr (lgoto t (L_ready r) s)))" if "park_returns (parker td)" for r
    using pc assms(2) td that by (intro keeps_goto[OF assms(1)]) (auto simp: pc_ok_def awaiting_def futex_parker.timed_iff)
  ultimately show ?thesis by (simp add: sleep_step_def td)
qed

lemma call_keeps:
  assumes "lot_at q s" "op \<noteq> Op_timeout"
  shows "keeps (waiting_of s q) (call_step (L_table (For_op op)) t s)"
proof (cases "lpcs s t")
  case (L_ready r)
  have "keeps (waiting_of s q) (Some (Inr (lgoto t (L_table (For_op op)) s)))"
    using lot_at_pc[OF assms(1), of t] L_ready assms(2) by (intro keeps_goto[OF assms(1)]) (auto simp: pc_ok_def)
  then show ?thesis using L_ready by (simp add: call_step_def)
qed (simp_all add: call_step_def)

end
