(* ===== verification/Lot_Data.thy ===== *)
theory Lot_Data
  imports Lot_Safety
begin

text \<open>
  The steps of the parking lot that change the records, the buckets or the table, and with them the preservation of the
  invariant by every step.
\<close>

section \<open>Registering and exiting\<close>

lemma members_dom: "table_ok S t q \<Longrightarrow> p \<in> members t q \<Longrightarrow> S p \<noteq> None"
  by (auto simp: table_ok_def table_rep_def members_def bucket_list_def)

lemma table_ok_cong:
  assumes "table_ok S t q" "\<And>p. p \<in> members t q \<Longrightarrow> S' p = S p"
  shows "table_ok S' t q"
proof -
  have m: "S' p = S p" if "i < length (entries t)" "p \<in> set (q i)" for i p
    using assms(2)[of p] that by (auto simp: members_def)
  then have "bucket_list S' (entries t ! i) (q i)" if "i < length (entries t)" for i
    using bucket_list_cong[OF table_bucket(1)[OF assms(1) that]] that by blast
  moreover have "slot S' (hash_bits t) p = i" if "i < length (entries t)" "p \<in> set (q i)" for i p
    using table_bucket(2)[OF assms(1) that] m[OF that] by (simp add: slot_def)
  ultimately show ?thesis using assms(1) by (simp add: table_ok_def table_rep_def)
qed

lemma filter_waits_cong: "(\<And>p. p \<in> set xs \<Longrightarrow> map_option key (S' p) = map_option key (S p)) \<Longrightarrow> filter (waits_on S' k) xs = filter (waits_on S k) xs"
  by (intro filter_cong refl) (simp add: waits_on_key)

lemma bucket_queued:
  assumes "lot_at q s" "HASHTABLE s = Some n" "p \<in> set (q (bucket_at k (tables s ! n)))"
  shows "p \<in> queued (tables s) (HASHTABLE s) q"
  using assms lot_at_table[OF assms(1,2)] bucket_at_less[of "store s" "tables s ! n" q k] by (auto simp: queued_def members_def)

lemma lot_at_store:
  assumes "lot_at q s" "t \<notin> queued (tables s) (HASHTABLE s) q" "\<And>p. p \<noteq> t \<Longrightarrow> S' p = store s p"
    "\<And>n i. owns (shape s) pc n i \<longleftrightarrow> owns (shape s) (lpcs s t) n i" "pc_ok (shape s) (HASHTABLE s) S' t pc"
    "\<not> (parkedish pc \<and> awaiting S' t)" "unat m < 2 ^ 29"
  shows "keeps (waiting_of s q) (Some (Inr (lgoto t pc (s\<lparr>num_threads := m, store := S'\<rparr>))))"
proof -
  note i = lot_atD[OF assms(1)]
  have mem: "S' p = store s p" if "p \<in> queued (tables s) (HASHTABLE s) q" for p using that assms(2) assms(3)[of p] by metis
  have aw: "awaiting S' p = awaiting (store s) p" if "p \<noteq> t" for p using assms(3)[OF that] by (simp add: awaiting_def)
  have "inv_queues (tables s) (HASHTABLE s) S' ((lpcs s)(t := pc)) q"
    using i(4) mem assms(2,6) aw by (auto simp: inv_queues_def queued_def intro: table_ok_cong)
  moreover have "inv_pcs (shape s) (HASHTABLE s) S' ((lpcs s)(t := pc))"
    using i(3) assms(3,5) by (auto simp: inv_pcs_def pc_ok_def)
  ultimately have "lot_at q (lgoto t pc (s\<lparr>num_threads := m, store := S'\<rparr>))"
    using i(1) inv_locks_same[OF i(2) assms(4)] assms(7) by (simp add: lot_at_def shape_def)
  moreover have "filter (waits_on S' k) (q (bucket_at k (tables s ! n))) = filter (waits_on (store s) k) (q (bucket_at k (tables s ! n)))"
    if "HASHTABLE s = Some n" for k n
    using mem[OF bucket_queued[OF assms(1) that]] by (intro filter_waits_cong) simp
  ultimately show ?thesis by (auto simp: waiting_of_def fun_eq_iff split: option.split)
qed

lemma not_queued: "lot_at q s \<Longrightarrow> \<not> parkedish (lpcs s t) \<or> store s t = None \<Longrightarrow> t \<notin> queued (tables s) (HASHTABLE s) q"
  by (auto simp: lot_at_def inv_queues_def awaiting_def)

lemma registered_keeps:
  assumes "lot_at q s" "store s t = None" "\<And>n i. \<not> owns (shape s) (lpcs s t) n i" "t \<noteq> null"
  shows "keeps (waiting_of s q) (Some (Inr (registered t s)))"
proof -
  have "registered t s = lgoto t (L_ready None) (s\<lparr>num_threads := num_threads s, store := (store s)(t \<mapsto> thread_data_new)\<rparr>)"
    by (simp add: registered_def lgoto_def)
  moreover have "keeps (waiting_of s q) (Some (Inr (lgoto t (L_ready None) (s\<lparr>num_threads := num_threads s, store := (store s)(t \<mapsto> thread_data_new)\<rparr>))))"
    using assms lot_atD(5)[OF assms(1)]
    by (intro lot_at_store[OF assms(1) not_queued[OF assms(1)]]) (auto simp: pc_ok_def)
  ultimately show ?thesis by simp
qed

lemma exit_keeps:
  assumes "lot_at q s" "lpcs s t = L_ready r"
  shows "keeps (waiting_of s q) (Some (Inr (lgoto t L_new (s\<lparr>num_threads := num_threads s - 1, store := (store s)(t := None)\<rparr>))))"
proof (cases "unat (num_threads s - 1) < 2 ^ 29")
  case True
  then show ?thesis using assms(2) by (intro lot_at_store[OF assms(1) not_queued[OF assms(1)]]) (auto simp: pc_ok_def)
qed simp

lemma new_keeps:
  assumes "lot_at q s" "lpcs s t = L_new" "t \<noteq> null"
  shows "keeps (waiting_of s q) (Some (new_step t s))"
proof -
  have n: "unat (num_threads s + 1) = Suc (unat (num_threads s))"
    using lot_atD(5)[OF assms(1)] by (simp add: unat_word_ariths)
  then have "num_threads s + 1 \<noteq> 0" by (metis nat.distinct(1) unat_0)
  have st: "store s t = None" using lot_at_pc[OF assms(1), of t] assms(2) by (simp add: pc_ok_def)
  have "keeps (waiting_of s q) (Some (Inr (lgoto t (L_table (For_grow (num_threads s + 1)))
      (s\<lparr>num_threads := num_threads s + 1, store := store s\<rparr>))))"
  proof (cases "unat (num_threads s + 1) < 2 ^ 29")
    case True
    then show ?thesis using assms st \<open>num_threads s + 1 \<noteq> 0\<close>
      by (intro lot_at_store[OF assms(1) not_queued[OF assms(1)]]) (auto simp: pc_ok_def fits_def)
  qed simp
  then show ?thesis using \<open>num_threads s + 1 \<noteq> 0\<close> by (simp add: new_step_def Let_def)
qed

section \<open>Growing\<close>

lemma size_keeps:
  assumes "lot_at q s" "lpcs s t = G_size m n"
  shows "keeps (waiting_of s q) (Some (size_step m n t s))"
proof -
  note pc = lot_at_pc[OF assms(1), of t, unfolded assms(2)]
  have "checked_mul LOAD_FACTOR m = Inr (LOAD_FACTOR * m)"
    using pc by (simp add: pc_ok_def fits_def checked_mul_def LOAD_FACTOR_def)
  moreover have "keeps (waiting_of s q) (Some (Inr (registered t s)))"
    using pc assms(2) by (intro registered_keeps[OF assms(1)]) (auto simp: pc_ok_def)
  moreover have "keeps (waiting_of s q) (Some (Inr (lgoto t (G_lock m n 0) s)))"
    using pc assms(2) by (intro keeps_goto[OF assms(1)]) (auto simp: pc_ok_def)
  ultimately show ?thesis using pc by (simp add: size_step_def pc_ok_def)
qed

lemma lock_all_keeps:
  assumes "lot_at q s" "lpcs s t = G_lock m n i"
  shows "keeps (waiting_of s q) (map_option Inr (lock_all_step m n i t s))"
proof -
  note pc = lot_at_pc[OF assms(1), of t, unfolded assms(2)]
  then have n: "n < length (tables s)" "i \<le> 2 ^ (shape s ! n)" by (simp_all add: pc_ok_def)
  note g = good_shape[OF assms(1) n(1)]
  show ?thesis
  proof (cases "i < length (entries (tables s ! n))")
    case True
    have "keeps (waiting_of s q) (Some (Inr (lgoto t (G_lock m n (Suc i)) (set_lock n i (Some t) s))))" if "locks s n i = None"
      using pc assms(2) that True g by (intro keeps_take[OF assms(1) that]) (auto simp: pc_ok_def)
    then show ?thesis using True by (cases "locks s n i") (auto simp: lock_all_step_def acquire_def)
  next
    case False
    then have "i = 2 ^ (shape s ! n)" using g n(2) by simp
    then have "keeps (waiting_of s q) (Some (Inr (lgoto t (G_check m n) s)))"
      using pc assms(2) by (intro keeps_goto[OF assms(1)]) (auto simp: pc_ok_def)
    then show ?thesis using False by (simp add: lock_all_step_def)
  qed
qed

lemma grow_check_keeps:
  assumes "lot_at q s" "lpcs s t = G_check m n"
  shows "keeps (waiting_of s q) (Some (Inr (grow_check_step m n t s)))"
  unfolding grow_check_step_def using lot_at_pc[OF assms(1), of t] assms(2)
  by (intro keeps_goto[OF assms(1)]) (auto simp: pc_ok_def)

lemma unlock_all_keeps:
  assumes "lot_at q s" "lpcs s t = G_out n i r"
  shows "keeps (waiting_of s q) (Some (Inr (unlock_all_step n i r t s)))"
proof -
  note pc = lot_at_pc[OF assms(1), of t, unfolded assms(2)]
  then have n: "n < length (tables s)" "i \<le> 2 ^ (shape s ! n)" by (simp_all add: pc_ok_def)
  note g = good_shape[OF assms(1) n(1)]
  show ?thesis
  proof (cases "i < length (entries (tables s ! n))")
    case True
    have "keeps (waiting_of s q) (Some (Inr (lgoto t (G_out n (Suc i) r) (set_lock n i None s))))"
      using pc assms(2) True g by (intro keeps_drop[OF assms(1)]) (auto simp: pc_ok_def)
    then show ?thesis using True by (simp add: unlock_all_step_def)
  next
    case False
    then have "\<not> owns (shape s) (lpcs s t) m j" for m j using assms(2) g by simp
    then have "keeps (waiting_of s q) (Some (Inr (registered t s)))"
      "\<And>m. r = Some m \<Longrightarrow> keeps (waiting_of s q) (Some (Inr (lgoto t (L_table (For_grow m)) s)))"
      using pc assms by (intro registered_keeps[OF assms(1)] keeps_goto[OF assms(1)]; auto simp: pc_ok_def)+
    then show ?thesis using False by (auto simp: unlock_all_step_def split: option.split)
  qed
qed

text \<open>A new table that takes over the threads of the old one, while no other thread uses the old one.\<close>

lemma lot_at_publish:
  assumes "lot_at q s" "table_ok S' tab q'" "\<And>p. map_option key (S' p) = map_option key (store s p)"
    "\<And>p. awaiting S' p = awaiting (store s) p" "members tab q' = queued (tables s) (HASHTABLE s) q"
    "\<And>u op k n. u \<noteq> t \<Longrightarrow> lpcs s u \<noteq> L_in op k n" "\<And>u m n. u \<noteq> t \<Longrightarrow> lpcs s u \<noteq> G_publish m n"
    "\<And>n i. owns (shape s @ [hash_bits tab]) pc n i \<longleftrightarrow> owns (shape s) (lpcs s t) n i"
    "pc_ok (shape s @ [hash_bits tab]) (Some (length (tables s))) S' t pc" "parkedish pc = parkedish (lpcs s t)"
    "\<And>k. filter (waits_on S' k) (q' (bucket_at k tab)) = waiting_of s q k"
  shows "keeps (waiting_of s q) (Some (Inr (lgoto t pc
    (s\<lparr>store := S', tables := tables s @ [tab], HASHTABLE := Some (length (tables s))\<rparr>))))"
proof -
  let ?s = "lgoto t pc (s\<lparr>store := S', tables := tables s @ [tab], HASHTABLE := Some (length (tables s))\<rparr>)"
  note i = lot_atD[OF assms(1)]
  have none: "S' p = None \<longleftrightarrow> store s p = None" for p using assms(3)[of p] by (metis map_option_is_None)
  have sh: "shape ?s = shape s @ [hash_bits tab]" by (simp add: shape_def lgoto_def)
  have "pc_ok (shape ?s) (Some (length (tables s))) S' u (lpcs s u)" if "u \<noteq> t" for u
    using lot_at_pc[OF assms(1), of u] assms(6,7)[OF that] none[of u] assms(3)[of u] unfolding sh
    by (cases "lpcs s u") (auto simp: pc_ok_def nth_append)
  then have "inv_pcs (shape ?s) (HASHTABLE ?s) (store ?s) (lpcs ?s)" using assms(9) sh by (simp add: inv_pcs_def)
  moreover have "inv_locks (shape ?s) (locks ?s) (lpcs ?s)"
  proof -
    have "owns (shape s @ [hash_bits tab]) (lpcs s t) = owns (shape s) (lpcs s t)"
      using lot_at_pc[OF assms(1), of t] by (intro owns_append) (auto simp: pc_ok_def)
    then show ?thesis using inv_locks_same[OF inv_locks_append[OF i(2,3), of "[hash_bits tab]"], of pc t] assms(8) sh by simp
  qed
  moreover have "inv_queues (tables ?s) (HASHTABLE ?s) (store ?s) (lpcs ?s) q'"
    using i(4) assms(2,4,5,10) by (simp add: inv_queues_def queued_def)
  moreover have "inv_tables (tables ?s) (HASHTABLE ?s)" using i(1) assms(2) by (simp add: inv_tables_def table_ok_def)
  ultimately have "lot_at q' ?s" using i(5) by (simp add: lot_at_def)
  moreover have "waiting_of ?s q' = waiting_of s q" using assms(11) by (simp add: waiting_of_def fun_eq_iff)
  ultimately show ?thesis by auto
qed

lemma create_keeps:
  assumes "lot_at q s" "lpcs s t = L_create w"
  shows "keeps (waiting_of s q) (Some (create_step now w t s))"
proof -
  note pc = lot_at_pc[OF assms(1), of t, unfolded assms(2)]
  obtain tab where tab: "hash_table_new LOAD_FACTOR now = Inr tab" "good_table tab"
    "entries tab = map (\<lambda>i. bucket_new now (word_of_nat i + 1)) [0..<2 ^ hash_bits tab]"
    using hash_table_new_shape[of LOAD_FACTOR now] by (auto simp: LOAD_FACTOR_def good_table_def)
  show ?thesis
  proof (cases "HASHTABLE s")
    case None
    have ok: "table_ok (store s) tab (\<lambda>_. [])" using empty_table_rep[OF tab(3)] tab(2) by (simp add: table_ok_def)
    have no: "lpcs s u \<noteq> L_in op k n" "lpcs s u \<noteq> G_publish m n" for u op k n m
      using lot_at_pc[OF assms(1), of u] None by (auto simp: pc_ok_def)
    have "keeps (waiting_of s q) (Some (Inr (lgoto t (have_table w (length (tables s)))
        (s\<lparr>store := store s, tables := tables s @ [tab], HASHTABLE := Some (length (tables s))\<rparr>))))"
      using pc assms(2) None no
      by (intro lot_at_publish[OF assms(1) ok]; cases w)
        (auto simp: queued_def members_def waiting_of_def have_table_def pc_ok_def)
    then show ?thesis by (simp add: create_step_def tab(1) None Let_def)
  next
    case (Some n)
    have "keeps (waiting_of s q) (Some (Inr (lgoto t (have_table w n) s)))"
      using pc assms(2) lot_at_table[OF assms(1) Some]
      by (intro keeps_goto[OF assms(1)]; cases w) (auto simp: pc_ok_def have_table_def)
    then show ?thesis by (simp add: create_step_def tab(1) Some)
  qed
qed

lemma publish_keeps:
  assumes "lot_at q s" "lpcs s t = G_publish m n"
  shows "keeps (waiting_of s q) (publish_step now m n t s)"
proof -
  note pc = lot_at_pc[OF assms(1), of t, unfolded assms(2)]
  then have H: "HASHTABLE s = Some n" and f: "fits m" by (simp_all add: pc_ok_def)
  have n: "table_ok (store s) (tables s ! n) q" "n < length (tables s)" using lot_at_table[OF assms(1) H] by blast+
  note g = good_shape[OF assms(1) n(2)]
  obtain t0 S' tab q' where r: "hash_table_new m now = Inr t0" "rehash_all (entries (tables s ! n)) (store s) t0 = Some (Inr (S', tab))"
    "table_ok S' tab q'" "same_but_next (store s) S'" "members tab q' = members (tables s ! n) q"
    "\<forall>k. filter (waits_on S' k) (q' (bucket_at k tab)) = filter (waits_on (store s) k) (q (bucket_at k (tables s ! n)))"
    using rehash_table[OF n(1), of m now] f unfolding fits_def by blast
  have own: "owns (shape s) (lpcs s t) n i" if "i < 2 ^ (shape s ! n)" for i using that assms(2) by simp
  have lt: "unat (hash_raw k (shape s ! n)) < 2 ^ (shape s ! n)" for k
    using hash_raw_bound[of "shape s ! n" k] g by (simp add: good_table_def)
  have no1: "lpcs s u \<noteq> L_in op k n'" if "u \<noteq> t" for u op k n'
  proof
    assume u: "lpcs s u = L_in op k n'"
    then have "n' = n" using lot_at_pc[OF assms(1), of u] H by (simp add: pc_ok_def)
    then show False using inv_locks_unique[OF lot_atD(2)[OF assms(1)] own[OF lt[of k]], of u] u that by simp
  qed
  have no2: "lpcs s u \<noteq> G_publish m' n'" if "u \<noteq> t" for u m' n'
  proof
    assume u: "lpcs s u = G_publish m' n'"
    then have "n' = n" using lot_at_pc[OF assms(1), of u] H by (simp add: pc_ok_def)
    then show False using inv_locks_unique[OF lot_atD(2)[OF assms(1)] own[of 0], of u] u that by simp
  qed
  have k: "map_option key (S' p) = map_option key (store s p)" for p by (intro keys_eqI same_but_next_waits[OF r(4)])
  have a: "awaiting S' p = awaiting (store s) p" for p by (intro awaiting_cong same_but_next_parker[OF r(4)])
  have "keeps (waiting_of s q) (Some (Inr (lgoto t (G_out n 0 None)
      (s\<lparr>store := S', tables := tables s @ [tab], HASHTABLE := Some (length (tables s))\<rparr>))))"
    using pc assms(2) no1 no2 n(2) r(5,6) H same_but_next_None[OF r(4)]
    by (intro lot_at_publish[OF assms(1) r(3) k a]) (auto simp: queued_def waiting_of_def pc_ok_def nth_append)
  then show ?thesis by (simp add: publish_step_def r(1,2))
qed

section \<open>Using a bucket\<close>

lemma in_bucket:
  assumes "lot_at q s" "lpcs s t = L_in op k n"
  defines "tab \<equiv> tables s ! n"
  shows "HASHTABLE s = Some n" "table_ok (store s) tab q" "n < length (tables s)" "bucket_of k n s = Inr (bucket_at k tab)"
    "shape s ! n = hash_bits tab" "bucket_at k tab < length (entries tab)" "length (entries tab) = 2 ^ hash_bits tab"
    "key_of (map_option key (store s t)) op = Some k" "store s t \<noteq> None" "t \<noteq> null"
    "\<And>k. waiting_of s q k = filter (waits_on (store s) k) (q (bucket_at k tab))"
proof -
  note pc = lot_at_pc[OF assms(1), of t, unfolded assms(2)]
  show H: "HASHTABLE s = Some n" and "key_of (map_option key (store s t)) op = Some k" "store s t \<noteq> None" "t \<noteq> null"
    using pc by (simp_all add: pc_ok_def)
  show T: "table_ok (store s) tab q" and n: "n < length (tables s)" using lot_at_table[OF assms(1) H] by (simp_all add: tab_def)
  show sh: "shape s ! n = hash_bits tab" "length (entries tab) = 2 ^ hash_bits tab" using good_shape[OF assms(1) n] by (simp_all add: tab_def)
  show "bucket_of k n s = Inr (bucket_at k tab)" using bucket_of_ok[OF assms(1) n, of k] sh by simp
  show "bucket_at k tab < length (entries tab)" by (rule bucket_at_less[OF T])
  show "waiting_of s q k = filter (waits_on (store s) k) (q (bucket_at k tab))" for k by (simp add: waiting_of_def H tab_def)
qed

lemma lot_at_bucket:
  assumes "lot_at q s" "lpcs s t = L_in op k n"
  defines "tab \<equiv> tables s ! n" and "i \<equiv> bucket_at k (tables s ! n)"
  assumes "table_ok S' (put_bucket i b tab) q'" "\<And>u. u \<noteq> t \<Longrightarrow> map_option key (S' u) = map_option key (store s u)" "S' t \<noteq> None"
    "\<And>u. u \<in> members (put_bucket i b tab) q' \<longleftrightarrow> parkedish (((lpcs s)(t := L_out n i a)) u) \<and> awaiting S' u"
    "\<And>k'. filter (waits_on S' k') (q' (bucket_at k' tab)) = A k'"
  shows "keeps A (Some (Inr (lgoto t (L_out n i a) (set_bucket n i S' b s))))"
proof -
  let ?s = "lgoto t (L_out n i a) (set_bucket n i S' b s)"
  note f = in_bucket[OF assms(1,2), folded tab_def] and inv = lot_atD[OF assms(1)]
  have T: "tables ?s = (tables s)[n := put_bucket i b tab]" by (simp add: set_bucket_def put_bucket_def tab_def)
  have sh: "shape ?s = shape s" unfolding shape_def T map_update put_bucket_simps
    using f(3) by (simp add: tab_def list_update_same_conv)
  have o: "store ?s = S'" "HASHTABLE ?s = Some n" "locks ?s = locks s" "num_threads ?s = num_threads s"
    "lpcs ?s = (lpcs s)(t := L_out n i a)" using f(1) by (simp_all add: set_bucket_def)
  have i: "i < 2 ^ (shape s ! n)" using f(5,6,7) by (simp add: i_def tab_def)
  have none: "S' u = None \<longleftrightarrow> store s u = None" if "u \<noteq> t" for u using assms(6)[OF that] by (metis map_option_is_None)
  have "pc_ok (shape s) (HASHTABLE s) S' u (lpcs s u)" if "u \<noteq> t" for u
    using lot_at_pc[OF assms(1), of u] assms(6)[OF that] none[OF that] by (simp add: pc_ok_def)
  then have "inv_pcs (shape ?s) (HASHTABLE ?s) (store ?s) (lpcs ?s)"
    unfolding sh o using assms(7) i f(1,3,10) by (simp add: inv_pcs_def pc_ok_def)
  moreover have "inv_locks (shape ?s) (locks ?s) (lpcs ?s)"
    unfolding sh o using assms(2) f(5) by (intro inv_locks_same[OF inv(2)]) (simp add: i_def tab_def)
  moreover have "inv_queues (tables ?s) (HASHTABLE ?s) (store ?s) (lpcs ?s) q'"
    unfolding T o using assms(5,8) f(3) by (simp add: inv_queues_def queued_def)
  moreover have "inv_tables (tables ?s) (HASHTABLE ?s)"
    unfolding T o using inv(1) f(2,3) set_update_subset_insert[of "tables s" n "put_bucket i b tab"]
    by (auto simp: inv_tables_def table_ok_def)
  ultimately have "lot_at q' ?s" using inv(5) unfolding lot_at_def o by blast
  moreover have "waiting_of ?s q' = A" unfolding waiting_of_def fun_eq_iff o T using assms(9) f(3) by simp
  ultimately show ?thesis by auto
qed

lemma in_park_keeps:
  assumes "lot_at q s" "lpcs s t = L_in (Op_park k' ptok w) k n"
  shows "keeps (if valid then (waiting_of s q)(k := waiting_of s q k @ [t]) else waiting_of s q)
    (in_step valid tok now (Op_park k' ptok w) k n t s)"
proof -
  let ?tab = "tables s ! n" let ?i = "bucket_at k ?tab"
  note f = in_bucket[OF assms]
  show ?thesis
  proof (cases valid)
    case False
    have "keeps (waiting_of s q) (Some (Inr (lgoto t (L_out n ?i (Return (Some Invalid))) s)))"
      using lot_at_pc[OF assms(1), of t] assms(2) f(5,6,7) by (intro keeps_goto[OF assms(1)]) (auto simp: pc_ok_def)
    then show ?thesis using False by (simp add: in_step_def f(4) Let_def)
  next
    case True
    obtain td where td: "store s t = Some td" using f(9) by auto
    have nq: "t \<notin> members ?tab q" using not_queued[OF assms(1), of t] assms(2) f(1) by (simp add: queued_def)
    obtain S' b where r: "park_enqueue t k ptok w (store s) (entries ?tab ! ?i) = Inr (S', b)"
      "table_ok S' (put_bucket ?i b ?tab) (q(?i := q ?i @ [t]))"
      "\<forall>p. map_option key (S' p) = (if p = t then Some k else map_option key (store s p))"
      "\<forall>p. awaiting S' p \<longleftrightarrow> p = t \<or> awaiting (store s) p"
      using table_park[OF f(2) td f(10) nq] by blast
    have st: "S' t \<noteq> None" using r(3) by (metis map_option_is_None option.distinct(1))
    have mem: "members (put_bucket ?i b ?tab) (q(?i := q ?i @ [t])) = insert t (members ?tab q)"
      using members_append[OF f(6), of "put_bucket ?i b ?tab" q "[t]"] by simp
    have "filter (waits_on S' k') (q ?i) = filter (waits_on (store s) k') (q ?i)" for k'
      using r(3) nq table_bucket(3)[OF f(2,6)] by (intro filter_waits_cong) auto
    moreover have "filter (waits_on S' k') (q (bucket_at k' ?tab)) = filter (waits_on (store s) k') (q (bucket_at k' ?tab))" for k'
      using r(3) nq table_bucket(3)[OF f(2) bucket_at_less[OF f(2)]] by (intro filter_waits_cong) auto
    ultimately have "keeps ((waiting_of s q)(k := waiting_of s q k @ [t])) (Some (Inr (lgoto t (L_out n ?i (Sleep w)) (set_bucket n ?i S' b s))))"
      using r(2,3,4) st mem lot_atD(4)[OF assms(1)] f(1)
      by (intro lot_at_bucket[OF assms r(2)]) (auto simp: waits_on_key f(11) inv_queues_def queued_def)
    then show ?thesis using True r(1) by (simp add: in_step_def f(4) Let_def)
  qed
qed

text \<open>Taking one thread out of its bucket takes it out of the queue of its key and of no other.\<close>

lemma waiting_remove:
  assumes "waits_on S k w" "\<And>p. map_option key (S' p) = map_option key (S p)"
  shows "filter (waits_on S' k') ((q(bucket_at k tab := remove1 w (q (bucket_at k tab)))) (bucket_at k' tab)) =
    ((\<lambda>k. filter (waits_on S k) (q (bucket_at k tab)))(k := remove1 w (filter (waits_on S k) (q (bucket_at k tab))))) k'"
proof -
  have "waits_on S' k' = waits_on S k'" using assms(2) by (simp add: waits_on_key fun_eq_iff)
  moreover have "remove1 w (filter (waits_on S k') xs) = filter (waits_on S k') xs" if "k' \<noteq> k" for xs
    using assms(1) that by (intro remove1_idem) (auto simp: waits_on_def)
  ultimately show ?thesis by (auto simp: filter_remove1)
qed

lemma members_remove:
  assumes "table_ok S tab q" "i < length (entries tab)" "w \<in> set (q i)"
  shows "members (put_bucket i b tab) (q(i := remove1 w (q i))) = members tab q - {w}"
proof -
  have "distinct (q i)" using table_bucket(1)[OF assms(1,2)] by (simp add: bucket_list_def)
  then have "set (remove1 w (q i)) = set (q i) - {w}" by simp
  moreover have "w \<notin> set (q j)" if "j < length (entries tab)" "j \<noteq> i" for j using table_bucket(4)[OF assms(1,2) that] assms(3) by blast
  ultimately show ?thesis using assms(2) unfolding members_put[OF assms(2)] by (auto simp: members_def)
qed

lemma in_unpark_keeps:
  assumes "lot_at q s" "lpcs s t = L_in (Op_unpark k') k n"
  shows "keeps ((waiting_of s q)(k := tl (waiting_of s q k))) (in_step valid tok now (Op_unpark k') k n t s)"
proof -
  let ?tab = "tables s ! n" let ?i = "bucket_at k ?tab"
  note f = in_bucket[OF assms]
  have inv: "u \<in> members ?tab q \<longleftrightarrow> parkedish (lpcs s u) \<and> awaiting (store s) u" for u
    using lot_atD(4)[OF assms(1)] f(1) by (simp add: inv_queues_def queued_def)
  obtain r S' b where r: "unpark_one k (\<lambda>r e. (tok, e)) now (store s) (entries ?tab ! ?i) () = Some (Inr (r, S', b, ()))"
    "\<forall>p. map_option key (S' p) = map_option key (store s p)"
    "case filter (waits_on (store s) k) (q ?i) of [] \<Rightarrow> S' = store s \<and> b = entries ?tab ! ?i
     | w # ws \<Rightarrow> table_ok S' (put_bucket ?i b ?tab) (q(?i := remove1 w (q ?i))) \<and> (\<forall>p. awaiting S' p \<longleftrightarrow> p \<noteq> w \<and> awaiting (store s) p)"
    using table_unpark[OF f(2), of k tok now] by blast
  have st: "S' t \<noteq> None" using r(2) f(9) by (metis map_option_is_None)
  have "keeps ((waiting_of s q)(k := tl (waiting_of s q k))) (Some (Inr (lgoto t (L_out n ?i (Return None)) (set_bucket n ?i S' b s))))"
  proof (cases "filter (waits_on (store s) k) (q ?i)")
    case Nil
    then have "S' = store s" "put_bucket ?i b ?tab = ?tab" using r(3) by (simp_all add: put_bucket_def)
    then show ?thesis using f(2) st inv assms(2) Nil
      by (intro lot_at_bucket[OF assms, where q' = q]) (auto simp: f(11))
  next
    case (Cons w ws)
    then have w: "w \<in> set (q ?i)" "waits_on (store s) k w" by (auto simp: filter_eq_Cons_iff)
    have ok: "table_ok S' (put_bucket ?i b ?tab) (q(?i := remove1 w (q ?i)))" "\<forall>p. awaiting S' p \<longleftrightarrow> p \<noteq> w \<and> awaiting (store s) p"
      using r(3) Cons by simp_all
    show ?thesis
      using r(2) st inv assms(2) Cons ok(2) members_remove[OF f(2,6) w(1), of b] waiting_remove[OF w(2), of S' _ q ?tab]
      by (intro lot_at_bucket[OF assms ok(1)]) (auto simp: f(11))
  qed
  then show ?thesis using r(1) by (simp add: in_step_def f(4) Let_def)
qed

lemma timeout_queued:
  assumes "lot_at q s" "lpcs s t = L_in Op_timeout k n"
  obtains td where "store s t = Some td" "key td = k" "t \<in> set (q (bucket_at k (tables s ! n))) \<longleftrightarrow> timed_out (parker td)"
proof -
  let ?tab = "tables s ! n" let ?i = "bucket_at k ?tab"
  note f = in_bucket[OF assms]
  obtain td where td: "store s t = Some td" "key td = k" using f(8) by (auto simp: key_of_def)
  have "t \<in> members ?tab q \<longleftrightarrow> timed_out (parker td)"
    using lot_atD(4)[OF assms(1)] f(1) assms(2) td by (simp add: inv_queues_def queued_def awaiting_def)
  moreover have "t \<in> members ?tab q \<longleftrightarrow> t \<in> set (q ?i)"
  proof
    assume "t \<in> members ?tab q"
    then obtain j where j: "j < length (entries ?tab)" "t \<in> set (q j)" by (auto simp: members_def)
    then show "t \<in> set (q ?i)" using table_bucket(2)[OF f(2) j] td by (simp add: slot_def)
  qed (use table_bucket(3)[OF f(2,6)] in blast)
  ultimately show thesis using that td by simp
qed

lemma in_timeout_keeps:
  assumes "lot_at q s" "lpcs s t = L_in Op_timeout k n"
  shows "keeps ((waiting_of s q)(k := remove1 t (waiting_of s q k))) (in_step valid tok now Op_timeout k n t s)"
proof -
  let ?tab = "tables s ! n" let ?i = "bucket_at k ?tab"
  note f = in_bucket[OF assms]
  have inv: "u \<in> members ?tab q \<longleftrightarrow> parkedish (lpcs s u) \<and> awaiting (store s) u" for u
    using lot_atD(4)[OF assms(1)] f(1) by (simp add: inv_queues_def queued_def)
  obtain td where td: "store s t = Some td" "key td = k" and mem: "t \<in> set (q ?i) \<longleftrightarrow> timed_out (parker td)"
    by (rule timeout_queued[OF assms])
  let ?q = "q(?i := if timed_out (parker td) then remove1 t (q ?i) else q ?i)"
  obtain r S' b where r: "park_timeout t (\<lambda>_ _ e. e) (store s) (entries ?tab ! ?i) () = Some (Inr (r, S', b, ()))"
    "table_ok S' (put_bucket ?i b ?tab) ?q" "\<forall>p. map_option key (S' p) = map_option key (store s p)"
    "\<forall>p. awaiting S' p \<longleftrightarrow> awaiting (store s) p"
    using table_timeout[OF f(2) td(1)] mem unfolding td(2) by blast
  have q: "?q = q(?i := remove1 t (q ?i))" using mem by (simp add: remove1_idem)
  have st: "S' t \<noteq> None" using r(3) f(9) by (metis map_option_is_None)
  have "waits_on (store s) k t" using td by (simp add: waits_on_def)
  note w = waiting_remove[OF this, of S' _ q ?tab]
  have m: "members (put_bucket ?i b ?tab) ?q = members ?tab q - {t}"
  proof (cases "timed_out (parker td)")
    case True
    then show ?thesis using members_remove[OF f(2,6)] mem by (simp add: q)
  next
    case False
    then have "t \<notin> members ?tab q" using inv[of t] td by (simp add: awaiting_def)
    then show ?thesis using False by (simp add: members_def)
  qed
  have "keeps ((waiting_of s q)(k := remove1 t (waiting_of s q k))) (Some (Inr (lgoto t (L_out n ?i (Return (Some r))) (set_bucket n ?i S' b s))))"
    using r(3,4) st inv m w by (intro lot_at_bucket[OF assms r(2)]) (auto simp: f(11) q)
  then show ?thesis using r(1) by (simp add: in_step_def f(4) Let_def)
qed

section \<open>Every step\<close>

text \<open>What a step does to the queues: only the three operations under the bucket lock change them.\<close>

fun op_effect :: "lot_op \<Rightarrow> usize \<Rightarrow> bool \<Rightarrow> ptr \<Rightarrow> (usize \<Rightarrow> ptr list) \<Rightarrow> usize \<Rightarrow> ptr list" where
  "op_effect (Op_park k' tok w) k valid t A = (if valid then A(k := A k @ [t]) else A)"
| "op_effect (Op_unpark k') k valid t A = A(k := tl (A k))"
| "op_effect Op_timeout k valid t A = A(k := remove1 t (A k))"

fun lot_effect :: "lot_action \<Rightarrow> lpc \<Rightarrow> ptr \<Rightarrow> (usize \<Rightarrow> ptr list) \<Rightarrow> usize \<Rightarrow> ptr list" where
  "lot_effect (L_run yes tok now) (L_in op k n) t A = op_effect op k yes t A"
| "lot_effect _ _ t A = A"

lemma lot_run_keeps:
  assumes "lot_at q s"
  shows "keeps (lot_effect (L_run yes tok now) (lpcs s t) t (waiting_of s q)) (lot_run_step yes tok now t s)"
proof (cases "lpcs s t")
  case (L_in op k n)
  then show ?thesis
    using in_park_keeps[OF assms] in_unpark_keeps[OF assms] in_timeout_keeps[OF assms]
    by (cases op) (simp_all add: lot_run_step_def)
qed (simp_all add: lot_run_step_def table_keeps[OF assms] create_keeps[OF assms] key_keeps[OF assms] lot_lock_keeps[OF assms]
    check_keeps[OF assms] out_keeps[OF assms] sleep_keeps[OF assms] size_keeps[OF assms] lock_all_keeps[OF assms]
    grow_check_keeps[OF assms] publish_keeps[OF assms] unlock_all_keeps[OF assms] del: lot_keeps_simps(3))

lemma step_keeps:
  assumes "lot_at q s"
  shows "keeps (lot_effect a (lpcs s t) t (waiting_of s q)) (lot_step a t s)"
proof (cases a)
  case (L_run yes tok now)
  then show ?thesis using lot_run_keeps[OF assms] by simp
next
  case L_exit
  then show ?thesis using exit_keeps[OF assms] by (cases "lpcs s t") (simp_all del: lot_keeps_simps(3))
qed (use new_keeps[OF assms] call_keeps[OF assms] in \<open>simp_all del: lot_keeps_simps(3)\<close>)

end
