(* ===== verification/Lot_Props.thy ===== *)
theory Lot_Props
  imports Lot_Data
begin

text \<open>The properties of the parking lot as a whole, over all interleavings of threads that register, park, unpark, time out and exit.\<close>

section \<open>Runs\<close>

interpretation lot_runs: inductive_invariant "\<lambda>s. s = lot_init" lot_trans lot_inv
proof
  show "lot_inv s" if "s = lot_init" for s using that lot_at_init by (auto simp: lot_inv_def)
  show "lot_inv s'" if inv: "lot_inv s" and tr: "lot_trans s s'" for s s'
  proof -
    obtain q where "lot_at q s" using inv by (auto simp: lot_inv_def)
    note k = step_keeps[OF this]
    obtain a t where "lot_step a t s = Some (Inr s')" "unat (num_threads s') < 2 ^ 29" using tr by (rule lot_trans.cases) blast
    then show ?thesis using k[of a t] by (auto simp: lot_inv_def)
  qed
qed

text \<open>The queue of every key, as the table has it.\<close>

definition lot_queues :: "lot_sys \<Rightarrow> (usize \<Rightarrow> ptr list) \<Rightarrow> bool" where
  "lot_queues s A \<longleftrightarrow>
    (case HASHTABLE s of
       None \<Rightarrow> A = (\<lambda>_. [])
     | Some n \<Rightarrow> \<exists>q. table_ok (store s) (tables s ! n) q \<and>
         A = (\<lambda>k. filter (waits_on (store s) k) (q (unat (hash_raw k (hash_bits (tables s ! n)))))))"

lemma table_ok_unique:
  assumes "table_ok S t q" "table_ok S t q'" "i < length (entries t)"
  shows "q i = q' i"
  using table_bucket(1)[OF assms(1,3)] table_bucket(1)[OF assms(2,3)] unfolding bucket_list_def
  by (metis seg_null_unique)

lemma lot_queues_at: "lot_at q s \<Longrightarrow> lot_queues s (waiting_of s q)"
  using lot_at_table[of q s] by (auto simp: lot_queues_def waiting_of_def[abs_def] split: option.split)

lemma lot_queues_unique:
  assumes "lot_at q s" "lot_queues s A"
  shows "A = waiting_of s q"
proof (cases "HASHTABLE s")
  case (Some n)
  then obtain q' where q': "table_ok (store s) (tables s ! n) q'" "A = (\<lambda>k. filter (waits_on (store s) k) (q' (bucket_at k (tables s ! n))))"
    using assms(2) by (auto simp: lot_queues_def)
  have "table_ok (store s) (tables s ! n) q" using lot_at_table[OF assms(1) Some] by blast
  then show ?thesis using table_ok_unique[OF q'(1) _ bucket_at_less[OF q'(1)]] q'(2) Some by (simp add: waiting_of_def fun_eq_iff)
qed (use assms in \<open>simp add: lot_queues_def waiting_of_def fun_eq_iff\<close>)

lemma lot_actions_reach:
  "reach (\<lambda>s. s = lot_init) lot_trans s \<Longrightarrow> lot_actions as s = Some (Inr s') \<Longrightarrow> reach (\<lambda>s. s = lot_init) lot_trans s'"
proof (induction as s rule: lot_actions.induct)
  case (2 a t as s)
  then obtain s1 where "lot_step a t s = Some (Inr s1)" "unat (num_threads s1) < 2 ^ 29" "lot_actions as s1 = Some (Inr s')"
    by (auto split: option.splits sum.splits if_splits)
  then show ?case using 2(1)[OF _ refl] reach_step[OF 2(2) lot_trans.intros] by simp
qed simp

text \<open>A run for the witnesses: thread 8 registers, which makes the first table, and parks on key 5.\<close>

definition lot_run :: "(lot_action \<times> ptr) list" where
  "lot_run =
    (let r = (L_run True DEFAULT_UNPARK_TOKEN 0, 8) in
     [(L_register, 8), r, r, r, (L_park 5 DEFAULT_PARK_TOKEN False, 8), r, r, r, r])"

lemmas lot_step_defs = lot_run_step_def table_step_def create_step_def key_step_def lock_step_def check_step_def in_step_def out_step_def
  size_step_def new_step_def call_step_def have_table_def op_key_def bucket_of_def acquire_def registered_def lgoto_def set_lock_def
  set_bucket_def

lemma first_table:
  obtains tab where "hash_table_new LOAD_FACTOR 0 = Inr tab" "length (entries tab) = 2 ^ hash_bits tab" "9 \<le> length (entries tab)"
    "hash 5 (hash_bits tab) = Inr (hash_raw 5 (hash_bits tab))" "unat (hash_raw 5 (hash_bits tab)) < 2 ^ hash_bits tab"
    "\<And>S. table_ok S tab (\<lambda>_. [])" "queue_head (entries tab ! unat (hash_raw 5 (hash_bits tab))) = null"
proof -
  obtain tab where tab: "hash_table_new LOAD_FACTOR 0 = Inr tab" "0 < hash_bits tab" "hash_bits tab < 32" "length (entries tab) = 2 ^ hash_bits tab"
    "9 \<le> length (entries tab)" "entries tab = map (\<lambda>i. bucket_new 0 (word_of_nat i + 1)) [0..<2 ^ hash_bits tab]"
    using hash_table_new_shape[of LOAD_FACTOR 0] by (auto simp: LOAD_FACTOR_def)
  have h: "unat (hash_raw 5 (hash_bits tab)) < 2 ^ hash_bits tab" using tab(3) hash_raw_bound[of "hash_bits tab" 5] by simp
  have ok: "table_ok S tab (\<lambda>_. [])" for S
    using empty_table_rep[OF tab(6), of S] tab(2-4) by (simp add: table_ok_def good_table_def)
  have "queue_head (entries tab ! unat (hash_raw 5 (hash_bits tab))) = null"
    using table_bucket(1)[OF ok] h tab(4) by (simp add: bucket_list_Nil)
  then show thesis using that tab(1,2,4,5) h ok by (simp add: hash_def)
qed

lemma checked_mul_one: "checked_mul LOAD_FACTOR 1 = Inr 3"
  by (simp add: checked_mul_def LOAD_FACTOR_def)

lemmas lot_run_simps = lot_run_def lot_init_def lot_step_defs Let_def checked_mul_one

lemma lot_run_facts:
  "\<exists>s tab. lot_actions lot_run lot_init = Some (Inr s) \<and> lpcs s 8 = L_in (Op_park 5 DEFAULT_PARK_TOKEN False) 5 0 \<and>
    HASHTABLE s = Some 0 \<and> tables s = [tab] \<and> num_threads s = 1 \<and> table_ok (store s) tab (\<lambda>_. [])"
  by (rule first_table) (simp add: lot_run_simps)

lemma lot_nap_facts:
  "\<exists>s td. lot_actions (lot_run @ [(L_run True DEFAULT_UNPARK_TOKEN 0, 8), (L_run True DEFAULT_UNPARK_TOKEN 0, 8)]) lot_init =
      Some (Inr s) \<and> lpcs s 8 = L_sleep False \<and> store s 8 = Some td \<and> key td = 5 \<and> \<not> park_returns (parker td)"
  by (rule first_table) (simp add: lot_run_simps park_enqueue_def set_parked_def futex_parker.prepare_blocks)

definition lot_demo :: lot_sys where
  "lot_demo = (case lot_actions lot_run lot_init of Some (Inr s) \<Rightarrow> s | _ \<Rightarrow> lot_init)"

lemma lot_demo_facts:
  "reach (\<lambda>s. s = lot_init) lot_trans lot_demo" "lpcs lot_demo 8 = L_in (Op_park 5 DEFAULT_PARK_TOKEN False) 5 0"
  "num_threads lot_demo = 1" "lot_queues lot_demo (\<lambda>_. [])"
  using lot_run_facts lot_actions_reach[OF reach_init, of lot_init lot_run]
  by (auto simp: lot_demo_def lot_queues_def intro!: exI[of _ "\<lambda>_. []"])

section \<open>Properties\<close>

text \<open>
  C3. The parking lot refines a map from keys to queues of threads. In every reachable state the current table
  represents such a map, and every step of every thread, in any interleaving with threads that replace the table,
  runs without a fault and has the effect that its operation has on the map: a validated \<open>park\<close> appends the thread to
  the queue of its key, \<open>unpark_one\<close> removes the first thread of the queue of its key, a timeout removes the thread
  itself, and all other steps, the growth of the table included, leave the map alone.
\<close>

theorem parking_lot_refines:
  assumes "reach (\<lambda>s. s = lot_init) lot_trans s"
  shows "(\<exists>A. lot_queues s A) \<and>
    (\<forall>A a t r. lot_queues s A \<and> lot_step a t s = Some r \<longrightarrow>
      (\<exists>s'. r = Inr s' \<and> (unat (num_threads s') < 2 ^ 29 \<longrightarrow> lot_queues s' (lot_effect a (lpcs s t) t A))))"
proof -
  obtain q where q: "lot_at q s" using lot_runs.reach_inv[OF assms] by (auto simp: lot_inv_def)
  have "\<exists>s'. r = Inr s' \<and> (unat (num_threads s') < 2 ^ 29 \<longrightarrow> lot_queues s' (lot_effect a (lpcs s t) t A))"
    if "lot_queues s A" "lot_step a t s = Some r" for A a t r
    using step_keeps[OF q, of a t] lot_queues_unique[OF q that(1)] that(2) lot_queues_at
    by (cases r) (auto simp: keeps_def, metis lot_queues_at)
  then show ?thesis using lot_queues_at[OF q] by blast
qed

theorem parking_lot_refines_witness:
  "\<exists>s'. lot_step (L_run True DEFAULT_UNPARK_TOKEN 0) 8 lot_demo = Some (Inr s') \<and> lot_queues s' ((\<lambda>_. [])(5 := [8]))"
proof -
  let ?a = "L_run True DEFAULT_UNPARK_TOKEN 0"
  obtain r where r: "lot_step ?a 8 lot_demo = Some r"
    using lot_demo_facts(2) by (cases "bucket_of 5 0 lot_demo") (auto simp: lot_run_step_def in_step_def Let_def)
  obtain s' where s': "r = Inr s'" "unat (num_threads s') < 2 ^ 29 \<longrightarrow> lot_queues s' ((\<lambda>_. [])(5 := [8]))"
    using parking_lot_refines[OF lot_demo_facts(1)] lot_demo_facts(4) r lot_demo_facts(2) by fastforce
  have "num_threads s' = 1"
    using r s'(1) lot_demo_facts(2,3)
    by (auto simp: lot_run_step_def in_step_def Let_def set_bucket_def split: sum.splits)
  then show ?thesis using r s' by simp
qed

text \<open>
  C11. A bucket is used by one thread at a time, and never while the table is being replaced: a thread that works on the
  bucket of its key holds it in the current table, any other thread at work is in another bucket and has another key, and
  no thread is about to publish a new table. So what the code does between locking and unlocking a bucket is
  not disturbed by any other thread, although \<open>lock_bucket\<close> picks the table before it has the lock.
\<close>

theorem bucket_users_exclusive:
  assumes "reach (\<lambda>s. s = lot_init) lot_trans s" "lpcs s t = L_in op k n" "u \<noteq> t"
  shows "HASHTABLE s = Some n \<and> lpcs s u \<noteq> G_publish m n' \<and>
    (lpcs s u = L_in op' k' n' \<longrightarrow> n' = n \<and>
      unat (hash_raw k' (hash_bits (tables s ! n))) \<noteq> unat (hash_raw k (hash_bits (tables s ! n))) \<and> k' \<noteq> k)"
proof -
  obtain q where q: "lot_at q s" using lot_runs.reach_inv[OF assms(1)] by (auto simp: lot_inv_def)
  note f = in_bucket[OF q assms(2)]
  have own: "owns (shape s) (lpcs s t) n (bucket_at k (tables s ! n))" using assms(2) f(5) by simp
  have H: "n' = n" if "lpcs s u = G_publish m n' \<or> lpcs s u = L_in op' k' n'" using lot_at_pc[OF q, of u] that f(1) by (auto simp: pc_ok_def)
  have no: "\<not> owns (shape s) (lpcs s u) n (bucket_at k (tables s ! n))"
    using inv_locks_unique[OF lot_atD(2)[OF q] own, of u] assms(3) by blast
  then show ?thesis using f(1,5,6,7) H by auto
qed

theorem bucket_users_exclusive_witness: "HASHTABLE lot_demo = Some 0 \<and> lpcs lot_demo 16 \<noteq> G_publish 7 0"
  using bucket_users_exclusive[OF lot_demo_facts(1,2), of 16 7 0] by simp

text \<open>
  C12. No sleeper is forgotten by the parking lot: a thread that sleeps in \<open>park\<close> is in the queue of its key as long as nobody has
  unparked it, however often the table has grown, and is in no queue afterwards; every thread in a queue
  waits on that key.
\<close>

theorem sleeper_is_queued:
  assumes "reach (\<lambda>s. s = lot_init) lot_trans s" "lot_queues s A" "lpcs s t = L_sleep w"
  shows "\<exists>td. store s t = Some td \<and> (t \<in> set (A k) \<longleftrightarrow> key td = k \<and> \<not> park_returns (parker td))"
proof -
  obtain q where q: "lot_at q s" using lot_runs.reach_inv[OF assms(1)] by (auto simp: lot_inv_def)
  obtain td where td: "store s t = Some td" using lot_at_pc[OF q, of t] assms(3) by (auto simp: pc_ok_def)
  have inv: "t \<in> queued (tables s) (HASHTABLE s) q \<longleftrightarrow> \<not> park_returns (parker td)"
    using lot_atD(4)[OF q] assms(3) td by (simp add: inv_queues_def awaiting_def futex_parker.timed_iff)
  have A: "A = waiting_of s q" by (rule lot_queues_unique[OF q assms(2)])
  have "t \<in> set (A k) \<longleftrightarrow> key td = k \<and> t \<in> queued (tables s) (HASHTABLE s) q"
  proof (cases "HASHTABLE s")
    case (Some n)
    have "t \<in> set (q (bucket_at k (tables s ! n)))" if m: "t \<in> members (tables s ! n) q" and k: "key td = k"
    proof -
      obtain j where j: "j < length (entries (tables s ! n))" "t \<in> set (q j)" using m by (auto simp: members_def)
      moreover have "table_ok (store s) (tables s ! n) q" using lot_at_table[OF q Some] by blast
      ultimately show ?thesis using table_bucket(2)[of "store s" "tables s ! n" q j t] td k by (auto simp: slot_def)
    qed
    then show ?thesis using bucket_queued[OF q Some, of t k] Some td by (auto simp: A waiting_of_def queued_def)
  qed (simp add: A waiting_of_def queued_def)
  then show ?thesis using inv td by blast
qed

theorem sleeper_is_queued_witness:
  "\<exists>s A. lot_actions (lot_run @ [(L_run True DEFAULT_UNPARK_TOKEN 0, 8), (L_run True DEFAULT_UNPARK_TOKEN 0, 8)]) lot_init =
      Some (Inr s) \<and> lot_queues s A \<and> 8 \<in> set (A 5)"
proof -
  obtain s td where s: "lot_actions (lot_run @ [(L_run True DEFAULT_UNPARK_TOKEN 0, 8), (L_run True DEFAULT_UNPARK_TOKEN 0, 8)]) lot_init =
      Some (Inr s)" "lpcs s 8 = L_sleep False" "store s 8 = Some td" "key td = 5" "\<not> park_returns (parker td)"
    using lot_nap_facts by blast
  have r: "reach (\<lambda>s. s = lot_init) lot_trans s" using lot_actions_reach[OF reach_init s(1)] by simp
  then obtain A where A: "lot_queues s A" using lot_runs.reach_inv lot_queues_at unfolding lot_inv_def by blast
  show ?thesis using sleeper_is_queued[OF r A s(2), of 5] s A by auto
qed

end
