(* ===== verification/Word_Lock.thy ===== *)
theory Word_Lock
  imports Spin_Wait Thread_Parker
begin

text \<open>
  \<open>word_lock::WordLock\<close> of \<open>mutex/deadlock.rs\<close>, the lock of a bucket: one word that holds the locked bit,
  the queue-locked bit and the address of the first \<open>ThreadData\<close> of its wait queue. The queue is a list of
  records on the stacks of the sleeping threads; a new thread pushes itself to the front with one
  compare-exchange and sets only \<open>next\<close>, the unlocker that holds the queue-locked bit fills in \<open>prev\<close> and
  \<open>queue_tail\<close> and takes the last thread out. Every atomic access and every access to another thread's
  record is a step of the machine below. The records are a store: a step that touches a record that no
  longer exists is a fault. The address of a new record is a choice of the environment, limited to
  unused addresses with the two low bits clear (\<open>ThreadData::new\<close> asserts this alignment).
\<close>

section \<open>The lock word\<close>

definition LOCKED_BIT :: usize where "LOCKED_BIT = 1"
definition QUEUE_LOCKED_BIT :: usize where "QUEUE_LOCKED_BIT = 2"
definition QUEUE_MASK :: usize where "QUEUE_MASK = NOT 3"

definition is_locked :: "usize \<Rightarrow> bool" where
  "is_locked w \<longleftrightarrow> w AND LOCKED_BIT \<noteq> 0"

definition is_queue_locked :: "usize \<Rightarrow> bool" where
  "is_queue_locked w \<longleftrightarrow> w AND QUEUE_LOCKED_BIT \<noteq> 0"

definition queue_head :: "usize \<Rightarrow> ptr" where
  "queue_head w = w AND QUEUE_MASK"

definition with_queue_head :: "usize \<Rightarrow> ptr \<Rightarrow> usize" where
  "with_queue_head w p = (w AND NOT QUEUE_MASK) OR p"

section \<open>State\<close>

record word_thread =
  wparker :: thread_parker
  wqueue_tail :: ptr
  wprev :: ptr
  wnext :: ptr

definition word_thread_new :: word_thread where
  "word_thread_new = \<lparr>wparker = parker_new, wqueue_tail = null, wprev = null, wnext = null\<rparr>"

datatype wpc =
    W_idle
  | W_lock
  | W_load spin_wait
  | W_top spin_wait usize
  | W_enqueue spin_wait usize ptr
  | W_sleep spin_wait ptr
  | W_reload spin_wait ptr
  | W_held
  | W_unlock
  | U_load
  | U_top usize
  | U_scan usize ptr
  | U_set usize ptr
  | U_release usize
  | U_take usize ptr
  | U_empty usize ptr
  | U_pop usize ptr ptr
  | U_clear ptr
  | U_wake ptr

record word_sys =
  wstate :: usize
  wthreads :: "ptr \<rightharpoonup> word_thread"
  wpcs :: "tid \<Rightarrow> wpc"

definition word_init :: word_sys where
  "word_init = \<lparr>wstate = 0, wthreads = Map.empty, wpcs = (\<lambda>_. W_idle)\<rparr>"

definition wgoto :: "tid \<Rightarrow> wpc \<Rightarrow> word_sys \<Rightarrow> word_sys" where
  "wgoto t pc s = s\<lparr>wpcs := (wpcs s)(t := pc)\<rparr>"

text \<open>Reading and writing a record through a raw pointer.\<close>

definition on_thread :: "ptr \<Rightarrow> (word_thread \<Rightarrow> word_sys outcome) \<Rightarrow> word_sys \<Rightarrow> word_sys outcome" where
  "on_thread p k s = (case wthreads s p of None \<Rightarrow> Inl Dangling | Some td \<Rightarrow> k td)"

definition upd_thread :: "ptr \<Rightarrow> (word_thread \<Rightarrow> word_thread) \<Rightarrow> word_sys \<Rightarrow> word_sys outcome" where
  "upd_thread p f s = on_thread p (\<lambda>td. Inr (s\<lparr>wthreads := (wthreads s)(p \<mapsto> f td)\<rparr>)) s"

section \<open>lock\<close>

definition word_lock_step :: "bool \<Rightarrow> tid \<Rightarrow> word_sys \<Rightarrow> word_sys" where
  "word_lock_step spurious t s =
    (if \<not> spurious \<and> wstate s = 0
     then wgoto t W_held (s\<lparr>wstate := LOCKED_BIT\<rparr>)
     else wgoto t (W_load spin_wait_new) s)"

text \<open>The record that \<open>lock_slow\<close> fills in before it tries to push it to the queue.\<close>

definition enqueued_thread :: "ptr \<Rightarrow> ptr \<Rightarrow> word_thread" where
  "enqueued_thread p head =
    (let td = word_thread_new\<lparr>wparker := prepare_park (wparker word_thread_new)\<rparr> in
     if head = null then td\<lparr>wqueue_tail := p, wprev := null\<rparr>
     else td\<lparr>wqueue_tail := null, wprev := null, wnext := head\<rparr>)"

definition usable :: "ptr \<Rightarrow> word_sys \<Rightarrow> bool" where
  "usable p s \<longleftrightarrow> p \<noteq> null \<and> p AND NOT QUEUE_MASK = 0 \<and> wthreads s p = None"

definition word_lock_slow_step :: "bool \<Rightarrow> ptr \<Rightarrow> tid \<Rightarrow> spin_wait \<Rightarrow> usize \<Rightarrow> word_sys \<Rightarrow> word_sys option" where
  "word_lock_slow_step spurious p t w st s =
    (if \<not> is_locked st then
       (if \<not> spurious \<and> wstate s = st
        then Some (wgoto t W_held (s\<lparr>wstate := st OR LOCKED_BIT\<rparr>))
        else Some (wgoto t (W_top w (wstate s)) s))
     else case (if queue_head st = null then spin w else (False, [], w)) of (again, _, w') \<Rightarrow>
       if again then Some (wgoto t (W_load w') s)
       else if usable p s
       then Some (wgoto t (W_enqueue w' st p) (s\<lparr>wthreads := (wthreads s)(p \<mapsto> enqueued_thread p (queue_head st))\<rparr>))
       else None)"

definition word_enqueue_step :: "bool \<Rightarrow> tid \<Rightarrow> spin_wait \<Rightarrow> usize \<Rightarrow> ptr \<Rightarrow> word_sys \<Rightarrow> word_sys" where
  "word_enqueue_step spurious t w st p s =
    (if \<not> spurious \<and> wstate s = st
     then wgoto t (W_sleep w p) (s\<lparr>wstate := with_queue_head st p\<rparr>)
     else wgoto t (W_top w (wstate s)) (s\<lparr>wthreads := (wthreads s)(p := None)\<rparr>))"

text \<open>\<open>park\<close> returns when the futex word of the own record is zero; until then there is no step.\<close>

definition word_park_step :: "tid \<Rightarrow> spin_wait \<Rightarrow> ptr \<Rightarrow> word_sys \<Rightarrow> word_sys outcome option" where
  "word_park_step t w p s =
    (case wthreads s p of
       None \<Rightarrow> Some (Inl Dangling)
     | Some td \<Rightarrow> if park_returns (wparker td) then Some (Inr (wgoto t (W_reload w p) s)) else None)"

definition word_reload_step :: "tid \<Rightarrow> spin_wait \<Rightarrow> ptr \<Rightarrow> word_sys \<Rightarrow> word_sys" where
  "word_reload_step t w p s =
    wgoto t (W_top (spin_wait_reset w) (wstate s)) (s\<lparr>wthreads := (wthreads s)(p := None)\<rparr>)"

section \<open>unlock\<close>

definition word_unlock_step :: "tid \<Rightarrow> word_sys \<Rightarrow> word_sys" where
  "word_unlock_step t s =
    (let st = wstate s; s = s\<lparr>wstate := st - LOCKED_BIT\<rparr> in
     if is_queue_locked st \<or> queue_head st = null then wgoto t W_idle s else wgoto t U_load s)"

definition word_unlock_slow_step :: "bool \<Rightarrow> tid \<Rightarrow> usize \<Rightarrow> word_sys \<Rightarrow> word_sys" where
  "word_unlock_slow_step spurious t st s =
    (if is_queue_locked st \<or> queue_head st = null then wgoto t W_idle s
     else if \<not> spurious \<and> wstate s = st
     then (let st' = st OR QUEUE_LOCKED_BIT in wgoto t (U_scan st (queue_head st)) (s\<lparr>wstate := st'\<rparr>))
     else wgoto t (U_top (wstate s)) s)"

text \<open>
  One round of the inner loop that fills in \<open>prev\<close>. After a successful compare-exchange the local \<open>state\<close>
  of the source still lacks the queue-locked bit, so the next compare-exchange fails once and reloads it.
\<close>

definition word_scan_step :: "tid \<Rightarrow> usize \<Rightarrow> ptr \<Rightarrow> word_sys \<Rightarrow> word_sys outcome" where
  "word_scan_step t st current s =
    on_thread current (\<lambda>td.
      if wqueue_tail td \<noteq> null then Inr (wgoto t (U_set st (wqueue_tail td)) s)
      else obind (upd_thread (wnext td) (wprev_update (\<lambda>_. current)) s) (\<lambda>s.
        Inr (wgoto t (U_scan st (wnext td)) s))) s"

definition word_set_tail_step :: "tid \<Rightarrow> usize \<Rightarrow> ptr \<Rightarrow> word_sys \<Rightarrow> word_sys outcome" where
  "word_set_tail_step t st tail s =
    obind (upd_thread (queue_head st) (wqueue_tail_update (\<lambda>_. tail)) s) (\<lambda>s.
      Inr (wgoto t (if is_locked st then U_release st else U_take st tail) s))"

definition word_release_step :: "bool \<Rightarrow> tid \<Rightarrow> usize \<Rightarrow> word_sys \<Rightarrow> word_sys" where
  "word_release_step spurious t st s =
    (if \<not> spurious \<and> wstate s = st
     then wgoto t W_idle (s\<lparr>wstate := st AND NOT QUEUE_LOCKED_BIT\<rparr>)
     else wgoto t (U_scan (wstate s) (queue_head (wstate s))) s)"

definition word_take_step :: "tid \<Rightarrow> usize \<Rightarrow> ptr \<Rightarrow> word_sys \<Rightarrow> word_sys outcome" where
  "word_take_step t st tail s =
    on_thread tail (\<lambda>td.
      Inr (wgoto t (if wprev td = null then U_empty st tail else U_pop st tail (wprev td)) s)) s"

definition word_empty_step :: "bool \<Rightarrow> tid \<Rightarrow> usize \<Rightarrow> ptr \<Rightarrow> word_sys \<Rightarrow> word_sys" where
  "word_empty_step spurious t st tail s =
    (if \<not> spurious \<and> wstate s = st
     then wgoto t (U_wake tail) (s\<lparr>wstate := st AND LOCKED_BIT\<rparr>)
     else if queue_head (wstate s) = null then wgoto t (U_empty (wstate s) tail) s
     else wgoto t (U_scan (wstate s) (queue_head (wstate s))) s)"

definition word_pop_step :: "tid \<Rightarrow> usize \<Rightarrow> ptr \<Rightarrow> ptr \<Rightarrow> word_sys \<Rightarrow> word_sys outcome" where
  "word_pop_step t st tail new_tail s =
    obind (upd_thread (queue_head st) (wqueue_tail_update (\<lambda>_. new_tail)) s) (\<lambda>s.
      Inr (wgoto t (U_clear tail) s))"

definition word_clear_step :: "tid \<Rightarrow> ptr \<Rightarrow> word_sys \<Rightarrow> word_sys" where
  "word_clear_step t tail s = wgoto t (U_wake tail) (s\<lparr>wstate := wstate s AND NOT QUEUE_LOCKED_BIT\<rparr>)"

text \<open>
  \<open>unpark_lock\<close> clears the futex word of the record, which lets \<open>park\<close> of its owner return. The system call
  of \<open>unpark\<close> behind it only passes the address on: by then the owner may have left and the record may be
  gone, so the call touches no memory of the program and is no step here. What it does for a thread that
  is blocked in the kernel is the subject of the theory \<open>Futex\<close>.
\<close>

definition word_wake_step :: "tid \<Rightarrow> ptr \<Rightarrow> word_sys \<Rightarrow> word_sys outcome" where
  "word_wake_step t tail s =
    obind (upd_thread tail (wparker_update unpark_lock) s) (\<lambda>s. Inr (wgoto t W_idle s))"

section \<open>The machine\<close>

definition word_run_step :: "bool \<Rightarrow> ptr \<Rightarrow> tid \<Rightarrow> word_sys \<Rightarrow> word_sys outcome option" where
  "word_run_step spurious p t s =
    (case wpcs s t of
       W_idle \<Rightarrow> None
     | W_held \<Rightarrow> None
     | W_lock \<Rightarrow> Some (Inr (word_lock_step spurious t s))
     | W_load w \<Rightarrow> Some (Inr (wgoto t (W_top w (wstate s)) s))
     | W_top w st \<Rightarrow> map_option Inr (word_lock_slow_step spurious p t w st s)
     | W_enqueue w st q \<Rightarrow> Some (Inr (word_enqueue_step spurious t w st q s))
     | W_sleep w q \<Rightarrow> word_park_step t w q s
     | W_reload w q \<Rightarrow> Some (Inr (word_reload_step t w q s))
     | W_unlock \<Rightarrow> Some (Inr (word_unlock_step t s))
     | U_load \<Rightarrow> Some (Inr (wgoto t (U_top (wstate s)) s))
     | U_top st \<Rightarrow> Some (Inr (word_unlock_slow_step spurious t st s))
     | U_scan st cur \<Rightarrow> Some (word_scan_step t st cur s)
     | U_set st q \<Rightarrow> Some (word_set_tail_step t st q s)
     | U_release st \<Rightarrow> Some (Inr (word_release_step spurious t st s))
     | U_take st q \<Rightarrow> Some (word_take_step t st q s)
     | U_empty st q \<Rightarrow> Some (Inr (word_empty_step spurious t st q s))
     | U_pop st q nt \<Rightarrow> Some (word_pop_step t st q nt s)
     | U_clear q \<Rightarrow> Some (Inr (word_clear_step t q s))
     | U_wake q \<Rightarrow> Some (word_wake_step t q s))"

datatype waction = W_call_lock | W_call_unlock | W_run bool ptr

fun word_step :: "waction \<Rightarrow> tid \<Rightarrow> word_sys \<Rightarrow> word_sys outcome option" where
  "word_step W_call_lock t s = (if wpcs s t = W_idle then Some (Inr (wgoto t W_lock s)) else None)"
| "word_step W_call_unlock t s = (if wpcs s t = W_held then Some (Inr (wgoto t W_unlock s)) else None)"
| "word_step (W_run spurious p) t s = word_run_step spurious p t s"

inductive word_trans :: "word_sys \<Rightarrow> word_sys \<Rightarrow> bool" where
  "word_step a t s = Some (Inr s') \<Longrightarrow> word_trans s s'"

inductive_cases word_transE: "word_trans s s'"

fun word_actions :: "(waction \<times> tid) list \<Rightarrow> word_sys \<Rightarrow> word_sys outcome option" where
  "word_actions [] s = Some (Inr s)"
| "word_actions ((a, t) # as) s =
     (case word_step a t s of
        None \<Rightarrow> None | Some (Inl f) \<Rightarrow> Some (Inl f) | Some (Inr s') \<Rightarrow> word_actions as s')"

end
