(* ===== verification/Word_Lock_Bits.thy ===== *)
theory Word_Lock_Bits
  imports Word_Lock
begin

text \<open>
  The lock word as a triple: its locked bit, its queue-locked bit and the address of the first record.
  Every update of the word in \<open>lock\<close> and \<open>unlock\<close> changes one of them and keeps the others; these are
  the only facts about bits that the proofs on the machine use.
\<close>

lemma lt_two: "n < 2 \<longleftrightarrow> n = 0 \<or> n = (1 :: nat)"
  by auto

lemma bit_three: "bit (3 :: usize) n \<longleftrightarrow> n < 2"
proof -
  have "(3 :: usize) = mask 2" by (simp add: mask_eq_exp_minus_1)
  then show ?thesis unfolding \<open>3 = mask 2\<close> bit_mask_iff by auto
qed

lemma bit_mask_queue: "bit QUEUE_MASK n \<longleftrightarrow> 2 \<le> n \<and> n < 64"
  unfolding QUEUE_MASK_def bit_not_iff bit_three by auto

lemma bit_not_mask: "bit (NOT QUEUE_MASK) n \<longleftrightarrow> n < 2"
  unfolding QUEUE_MASK_def bit.double_compl bit_three ..

lemma bit_LOCKED [simp]: "bit LOCKED_BIT n \<longleftrightarrow> n = 0"
  by (simp add: LOCKED_BIT_def bit_1_iff)

lemma bit_QUEUE_LOCKED [simp]: "bit QUEUE_LOCKED_BIT n \<longleftrightarrow> n = 1"
  using bit_exp_iff[of 1 n, where 'a = usize] by (auto simp: QUEUE_LOCKED_BIT_def)

lemma and_zero_bits: "(v :: usize) AND w = 0 \<longleftrightarrow> (\<forall>n. \<not> (bit v n \<and> bit w n))"
  unfolding bit_eq_iff bit_and_iff using bit_imp_le_length[of v] by auto

lemma locked_bit: "is_locked w \<longleftrightarrow> bit w 0"
  by (auto simp: is_locked_def and_zero_bits)

lemma queue_locked_bit: "is_queue_locked w \<longleftrightarrow> bit w 1"
  by (auto simp: is_queue_locked_def and_zero_bits)

lemma head_bit: "bit (queue_head w) n \<longleftrightarrow> bit w n \<and> 2 \<le> n"
  unfolding queue_head_def bit_and_iff bit_mask_queue by (auto dest: bit_imp_le_length)

definition aligned4 :: "ptr \<Rightarrow> bool" where
  "aligned4 p \<longleftrightarrow> p AND NOT QUEUE_MASK = 0"

lemma aligned4_bits: "aligned4 p \<longleftrightarrow> \<not> bit p 0 \<and> \<not> bit p 1"
  unfolding aligned4_def and_zero_bits bit_not_mask lt_two by blast

lemma head_aligned: "aligned4 (queue_head w)"
  by (simp add: aligned4_bits head_bit)

lemma head_eqI: "(\<And>n. 2 \<le> n \<Longrightarrow> bit v n = bit w n) \<Longrightarrow> queue_head v = queue_head w"
  by (rule bit_word_eqI) (auto simp: head_bit)

named_theorems lock_word \<open>what an update of the lock word does to its three parts\<close>

lemma zero_word [lock_word, simp]: "\<not> is_locked 0" "\<not> is_queue_locked 0" "queue_head 0 = null"
  by (simp_all add: is_locked_def is_queue_locked_def queue_head_def)

lemma one_word [lock_word, simp]: "is_locked LOCKED_BIT" "\<not> is_queue_locked LOCKED_BIT" "queue_head LOCKED_BIT = null"
proof -
  show "queue_head LOCKED_BIT = null" using head_eqI[of LOCKED_BIT 0] by simp
qed (simp_all add: locked_bit queue_locked_bit)

lemma or_locked [lock_word, simp]:
  "is_locked (w OR LOCKED_BIT)" "is_queue_locked (w OR LOCKED_BIT) = is_queue_locked w"
  "queue_head (w OR LOCKED_BIT) = queue_head w"
proof -
  show "queue_head (w OR LOCKED_BIT) = queue_head w" by (rule head_eqI) (simp add: bit_or_iff)
qed (simp_all add: locked_bit queue_locked_bit bit_or_iff)

lemma or_queue_locked [lock_word, simp]:
  "is_locked (w OR QUEUE_LOCKED_BIT) = is_locked w" "is_queue_locked (w OR QUEUE_LOCKED_BIT)"
  "queue_head (w OR QUEUE_LOCKED_BIT) = queue_head w"
proof -
  show "queue_head (w OR QUEUE_LOCKED_BIT) = queue_head w" by (rule head_eqI) (simp add: bit_or_iff)
qed (simp_all add: locked_bit queue_locked_bit bit_or_iff)

lemma clear_queue_locked [lock_word, simp]:
  "is_locked (w AND NOT QUEUE_LOCKED_BIT) = is_locked w" "\<not> is_queue_locked (w AND NOT QUEUE_LOCKED_BIT)"
  "queue_head (w AND NOT QUEUE_LOCKED_BIT) = queue_head w"
proof -
  show "queue_head (w AND NOT QUEUE_LOCKED_BIT) = queue_head w"
    by (rule head_eqI) (auto simp: bit_and_iff bit_not_iff dest: bit_imp_le_length)
qed (auto simp: locked_bit queue_locked_bit bit_and_iff bit_not_iff)

lemma only_locked [lock_word, simp]:
  "is_locked (w AND LOCKED_BIT) = is_locked w" "\<not> is_queue_locked (w AND LOCKED_BIT)" "queue_head (w AND LOCKED_BIT) = null"
proof -
  show "queue_head (w AND LOCKED_BIT) = null" using head_eqI[of "w AND LOCKED_BIT" 0] by (simp add: bit_and_iff)
qed (auto simp: locked_bit queue_locked_bit bit_and_iff)

lemma sub_locked [lock_word]:
  assumes "is_locked w"
  shows "\<not> is_locked (w - LOCKED_BIT)" "is_queue_locked (w - LOCKED_BIT) = is_queue_locked w"
    "queue_head (w - LOCKED_BIT) = queue_head w"
proof -
  have b: "bit w 0" using assms by (simp add: locked_bit)
  have "(w AND NOT LOCKED_BIT) AND LOCKED_BIT = 0" by (auto simp: and_zero_bits bit_and_iff bit_not_iff)
  then have "(w AND NOT LOCKED_BIT) + LOCKED_BIT = (w AND NOT LOCKED_BIT) OR LOCKED_BIT" by (rule disjunctive_add_eq_or)
  also have "\<dots> = w" by (rule bit_word_eqI) (use b in \<open>auto simp: bit_and_iff bit_or_iff bit_not_iff\<close>)
  finally have w: "w - LOCKED_BIT = w AND NOT LOCKED_BIT" by (simp only: diff_eq_eq)
  show "queue_head (w - LOCKED_BIT) = queue_head w" unfolding w
    by (rule head_eqI) (auto simp: bit_and_iff bit_not_iff dest: bit_imp_le_length)
  show "\<not> is_locked (w - LOCKED_BIT)" "is_queue_locked (w - LOCKED_BIT) = is_queue_locked w"
    unfolding w by (auto simp: locked_bit queue_locked_bit bit_and_iff bit_not_iff dest: bit_imp_le_length)
qed

lemma with_head [lock_word]:
  assumes "aligned4 p"
  shows "is_locked (with_queue_head w p) = is_locked w" "is_queue_locked (with_queue_head w p) = is_queue_locked w"
    "queue_head (with_queue_head w p) = p"
proof -
  have p: "\<not> bit p 0" "\<not> bit p 1" using assms by (simp_all add: aligned4_bits)
  show "is_locked (with_queue_head w p) = is_locked w" "is_queue_locked (with_queue_head w p) = is_queue_locked w"
    using p by (auto simp: locked_bit queue_locked_bit with_queue_head_def bit_or_iff bit_and_iff bit_not_mask simp del: bit_not_iff)
  have "bit (queue_head (with_queue_head w p)) n = bit p n" for n
    using p by (cases "n < 2") (auto simp: head_bit with_queue_head_def bit_or_iff bit_and_iff bit_not_mask lt_two)
  then show "queue_head (with_queue_head w p) = p" by (intro bit_word_eqI) blast
qed

lemma word_eqI3:
  assumes "is_locked v = is_locked w" "is_queue_locked v = is_queue_locked w" "queue_head v = queue_head w"
  shows "v = w"
proof (rule bit_word_eqI)
  fix n
  have "bit (queue_head v) n = bit (queue_head w) n" using assms(3) by simp
  then show "bit v n = bit w n" using assms(1,2)
    by (cases "n < 2") (auto simp: head_bit locked_bit queue_locked_bit lt_two)
qed

text \<open>
  The lock word packs and unpacks: the three parts of a word determine it, and \<open>with_queue_head\<close> replaces
  the address by any address with clear low bits and keeps the two flags, so that reading the head
  back gives the address and putting the old head back gives the old word.
\<close>

theorem lock_word_round_trip:
  assumes "p AND NOT QUEUE_MASK = 0"
  shows "queue_head (with_queue_head w p) = p \<and> is_locked (with_queue_head w p) = is_locked w \<and>
    is_queue_locked (with_queue_head w p) = is_queue_locked w \<and>
    with_queue_head (with_queue_head w p) (queue_head w) = w \<and>
    (is_locked w' = is_locked w \<and> is_queue_locked w' = is_queue_locked w \<and> queue_head w' = queue_head w \<longleftrightarrow> w' = w)"
proof -
  have p: "aligned4 p" using assms by (simp add: aligned4_def)
  have "with_queue_head (with_queue_head w p) (queue_head w) = w"
    by (rule word_eqI3) (simp_all add: with_head[OF head_aligned] with_head[OF p])
  then show ?thesis using with_head[OF p] word_eqI3[of w' w] by blast
qed

theorem lock_word_round_trip_witness:
  "queue_head (with_queue_head 0x1003 0x2000) = 0x2000 \<and> with_queue_head (with_queue_head 0x1003 0x2000) (queue_head 0x1003) = 0x1003"
proof -
  have "(0x2000 :: usize) AND NOT QUEUE_MASK = 0" by (simp add: QUEUE_MASK_def)
  from lock_word_round_trip[OF this, of "0x1003"] show ?thesis by blast
qed

end
