(* ===== verification/Word_Queue.thy ===== *)
theory Word_Queue
  imports Word_Lock_Bits
begin

text \<open>
  The wait queue of \<open>WordLock\<close> as a list of addresses, first record first. \<open>linked\<close> says that \<open>next\<close> leads
  from each record to the following one. \<open>processed\<close> describes the back part: record number \<open>k\<close> is
  the first one whose \<open>queue_tail\<close> is set, and it names the last record; \<open>prev\<close> is filled in behind \<open>k\<close>
  and, while an unlocker walks from record \<open>j\<close> and has arrived at record \<open>c\<close>, between these two. The
  lemmas follow the accesses of \<open>lock_slow\<close> and \<open>unlock_slow\<close>: push to the front, one round of the walk, setting
  \<open>queue_tail\<close> on the first record, and taking the last record out.
\<close>

section \<open>Fields through raw pointers\<close>

definition qt :: "(ptr \<rightharpoonup> word_thread) \<Rightarrow> ptr \<Rightarrow> ptr" where
  "qt S p = (case S p of Some td \<Rightarrow> wqueue_tail td | None \<Rightarrow> null)"

definition pv :: "(ptr \<rightharpoonup> word_thread) \<Rightarrow> ptr \<Rightarrow> ptr" where
  "pv S p = (case S p of Some td \<Rightarrow> wprev td | None \<Rightarrow> null)"

definition nx :: "(ptr \<rightharpoonup> word_thread) \<Rightarrow> ptr \<Rightarrow> ptr" where
  "nx S p = (case S p of Some td \<Rightarrow> wnext td | None \<Rightarrow> null)"

definition asleep :: "(ptr \<rightharpoonup> word_thread) \<Rightarrow> ptr \<Rightarrow> bool" where
  "asleep S p \<longleftrightarrow> (\<exists>td. S p = Some td \<and> \<not> park_returns (wparker td))"

lemma field_Some [simp]:
  assumes "S p = Some td"
  shows "qt S p = wqueue_tail td" "pv S p = wprev td" "nx S p = wnext td" "asleep S p \<longleftrightarrow> \<not> park_returns (wparker td)"
  using assms by (simp_all add: qt_def pv_def nx_def asleep_def)

lemma field_upd:
  "qt (S(p \<mapsto> td)) = (qt S)(p := wqueue_tail td)" "pv (S(p \<mapsto> td)) = (pv S)(p := wprev td)"
  "nx (S(p \<mapsto> td)) = (nx S)(p := wnext td)" "asleep (S(p \<mapsto> td)) = (asleep S)(p := \<not> park_returns (wparker td))"
  by (auto simp: qt_def pv_def nx_def asleep_def fun_eq_iff)

definition same_links :: "(ptr \<rightharpoonup> word_thread) \<Rightarrow> (ptr \<rightharpoonup> word_thread) \<Rightarrow> ptr list \<Rightarrow> bool" where
  "same_links S S' xs \<longleftrightarrow> (\<forall>p \<in> set xs. p \<in> dom S' \<and> qt S' p = qt S p \<and> pv S' p = pv S p \<and> nx S' p = nx S p)"

section \<open>The queue\<close>

definition linked :: "(ptr \<rightharpoonup> word_thread) \<Rightarrow> ptr list \<Rightarrow> bool" where
  "linked S xs \<longleftrightarrow> distinct xs \<and> null \<notin> set xs \<and> set xs \<subseteq> dom S \<and>
     (\<forall>i. Suc i < length xs \<longrightarrow> nx S (xs ! i) = xs ! Suc i)"

definition processed :: "(ptr \<rightharpoonup> word_thread) \<Rightarrow> ptr list \<Rightarrow> nat \<Rightarrow> nat \<Rightarrow> nat \<Rightarrow> bool" where
  "processed S xs k j c \<longleftrightarrow> j \<le> c \<and> c \<le> k \<and> k < length xs \<and>
     (\<forall>i < k. qt S (xs ! i) = null) \<and> qt S (xs ! k) = last xs \<and>
     (\<forall>i < length xs. pv S (xs ! i) = (if j < i \<and> i \<le> c \<or> k < i then xs ! (i - 1) else null))"

lemma linked_frame: "linked S xs \<Longrightarrow> same_links S S' xs \<Longrightarrow> linked S' xs"
  by (auto simp: linked_def same_links_def)

lemma processed_frame: "processed S xs k j c \<Longrightarrow> same_links S S' xs \<Longrightarrow> processed S' xs k j c"
  by (auto simp: processed_def same_links_def)

lemma linked_Nil [simp]: "linked S []"
  by (simp add: linked_def)

lemma linked_mono: "linked S xs \<Longrightarrow> nx S' = nx S \<Longrightarrow> dom S \<subseteq> dom S' \<Longrightarrow> linked S' xs"
  unfolding linked_def by (metis subset_trans)

lemma linked_butlast: "linked S xs \<Longrightarrow> linked S (butlast xs)"
  by (auto simp: linked_def distinct_butlast nth_butlast dest: in_set_butlastD)

lemma linked_nth: "linked S xs \<Longrightarrow> i < length xs \<Longrightarrow> \<exists>td. S (xs ! i) = Some td \<and> xs ! i \<noteq> null"
  unfolding linked_def by (metis domD nth_mem subsetD)

lemma linked_nth_eq: "linked S xs \<Longrightarrow> i < length xs \<Longrightarrow> m < length xs \<Longrightarrow> xs ! i = xs ! m \<longleftrightarrow> i = m"
  by (simp add: linked_def nth_eq_iff_index_eq)

lemma processed_rest: "processed S xs k j j \<Longrightarrow> processed S xs k 0 0"
  by (auto simp: processed_def)

lemma linked_push:
  assumes "linked S xs" "S p = Some (enqueued_thread p (if xs = [] then null else hd xs))" "p \<notin> set xs" "p \<noteq> null"
  shows "linked S (p # xs)"
proof -
  have "nx S p = hd xs" if "xs \<noteq> []"
    using assms(1,2) that by (auto simp: linked_def enqueued_thread_def Let_def word_thread_new_def)
  then have "nx S ((p # xs) ! i) = (p # xs) ! Suc i" if "Suc i < length (p # xs)" for i
    using assms(1) that by (cases i) (auto simp: linked_def hd_conv_nth)
  then show ?thesis using assms by (auto simp: linked_def)
qed

lemma processed_push_first:
  assumes "S p = Some (enqueued_thread p null)"
  shows "processed S [p] 0 0 0"
  using assms by (simp add: processed_def enqueued_thread_def word_thread_new_def)

lemma processed_push:
  assumes "processed S xs k j c" "S p = Some (enqueued_thread p (hd xs))" "hd xs \<noteq> null"
  shows "processed S (p # xs) (Suc k) (Suc j) (Suc c)"
proof -
  have p: "qt S p = null" "pv S p = null" using assms(2,3) by (simp_all add: enqueued_thread_def word_thread_new_def)
  have "qt S ((p # xs) ! i) = null" if "i < Suc k" for i
    using that assms(1) p by (cases i) (auto simp: processed_def)
  moreover have "pv S ((p # xs) ! i) = (if Suc j < i \<and> i \<le> Suc c \<or> Suc k < i then (p # xs) ! (i - 1) else null)"
    if "i < length (p # xs)" for i
  proof (cases i)
    case (Suc m)
    then have "pv S (xs ! m) = (if j < m \<and> m \<le> c \<or> k < m then xs ! (m - 1) else null)"
      using that assms(1) by (simp add: processed_def)
    then show ?thesis using Suc by (cases m) auto
  qed (use p in simp)
  ultimately show ?thesis using assms(1) by (auto simp: processed_def)
qed

text \<open>One round of the walk.\<close>

lemma scan_found:
  assumes "processed S xs k j c" "linked S xs" "qt S (xs ! c) \<noteq> null"
  shows "c = k" "qt S (xs ! c) = last xs"
proof -
  show "c = k" using assms(1,3) by (auto simp: processed_def dest: le_neq_implies_less)
  then show "qt S (xs ! c) = last xs" using assms(1) by (simp add: processed_def)
qed

lemma scan_next:
  assumes p: "processed S xs k j c" and l: "linked S xs" and n: "qt S (xs ! c) = null"
  shows "Suc c \<le> k" "Suc c < length xs" "nx S (xs ! c) = xs ! Suc c"
proof -
  have "last xs \<noteq> null" using p l by (metis last_in_set length_greater_0_conv linked_def not_less0 processed_def neq0_conv)
  then have "c \<noteq> k" using p n by (auto simp: processed_def)
  then show "Suc c \<le> k" using p by (simp add: processed_def)
  then show "Suc c < length xs" using p by (simp add: processed_def)
  then show "nx S (xs ! c) = xs ! Suc c" using l by (simp add: linked_def)
qed

lemma scan_prev:
  assumes p: "processed S xs k j c" and l: "linked S xs" and c: "Suc c \<le> k" and td: "S (xs ! Suc c) = Some td"
  defines "S' \<equiv> S(xs ! Suc c \<mapsto> td\<lparr>wprev := xs ! c\<rparr>)"
  shows "linked S' xs" "processed S' xs k j (Suc c)"
proof -
  have len: "Suc c < length xs" using p c by (simp add: processed_def)
  have q: "qt S' = qt S" "nx S' = nx S" "pv S' = (pv S)(xs ! Suc c := xs ! c)"
    using td by (auto simp: S'_def field_upd)
  have dm: "dom S \<subseteq> dom S'" by (auto simp: S'_def)
  show "linked S' xs" by (rule linked_mono[OF l q(2) dm])
  have "xs ! i = xs ! Suc c \<longleftrightarrow> i = Suc c" if "i < length xs" for i using linked_nth_eq[OF l that len] .
  then show "processed S' xs k j (Suc c)" using p c by (auto simp: processed_def q)
qed

lemma set_tail:
  assumes p: "processed S xs k j k" and l: "linked S xs" and td: "S (xs ! j) = Some td"
  defines "S' \<equiv> S(xs ! j \<mapsto> td\<lparr>wqueue_tail := last xs\<rparr>)"
  shows "linked S' xs" "processed S' xs j j j"
proof -
  have len: "j < length xs" "j \<le> k" using p by (auto simp: processed_def)
  have q: "pv S' = pv S" "nx S' = nx S" "qt S' = (qt S)(xs ! j := last xs)"
    using td by (auto simp: S'_def field_upd)
  have dm: "dom S \<subseteq> dom S'" by (auto simp: S'_def)
  show "linked S' xs" by (rule linked_mono[OF l q(2) dm])
  have "xs ! i = xs ! j \<longleftrightarrow> i = j" if "i < length xs" for i using linked_nth_eq[OF l that len(1)] .
  then show "processed S' xs j j j" using p len by (auto simp: processed_def q)
qed

text \<open>The last record: its \<open>prev\<close> is null exactly when it is record \<open>j\<close>.\<close>

lemma tail_prev:
  assumes p: "processed S xs j j j" and l: "linked S xs"
  shows "pv S (last xs) = null \<longleftrightarrow> Suc j = length xs"
    "pv S (last xs) \<noteq> null \<Longrightarrow> Suc j < length xs \<and> pv S (last xs) = last (butlast xs)"
proof -
  have len: "j < length xs" using p by (simp add: processed_def)
  then have last: "last xs = xs ! (length xs - 1)" by (intro last_conv_nth) auto
  have pv: "pv S (last xs) = (if j < length xs - 1 then xs ! (length xs - 1 - 1) else null)"
    unfolding last using p len by (simp add: processed_def)
  have "last (butlast xs) = xs ! (length xs - 2)" if "Suc j < length xs"
    using that by (subst last_conv_nth) (simp_all add: nth_butlast numeral_2_eq_2 flip: length_0_conv)
  then show "pv S (last xs) \<noteq> null \<Longrightarrow> Suc j < length xs \<and> pv S (last xs) = last (butlast xs)"
    using pv by (auto split: if_splits simp: numeral_2_eq_2)
  have "xs ! (length xs - 1 - 1) \<noteq> null" using linked_nth[OF l, of "length xs - 1 - 1"] len by auto
  then show "pv S (last xs) = null \<longleftrightarrow> Suc j = length xs" using pv len by auto
qed

lemma pop_tail:
  assumes p: "processed S xs j j j" and l: "linked S xs" and j: "Suc j < length xs" and td: "S (xs ! j) = Some td"
  defines "S' \<equiv> S(xs ! j \<mapsto> td\<lparr>wqueue_tail := last (butlast xs)\<rparr>)"
  shows "linked S' (butlast xs)" "processed S' (butlast xs) j j j" "butlast xs ! j = xs ! j" "last xs \<notin> set (butlast xs)"
proof -
  have q: "pv S' = pv S" "nx S' = nx S" "qt S' = (qt S)(xs ! j := last (butlast xs))"
    using td by (auto simp: S'_def field_upd)
  have dm: "dom S \<subseteq> dom S'" by (auto simp: S'_def)
  have ne: "xs \<noteq> []" using j by auto
  then have d: "distinct (butlast xs @ [last xs])" using l by (simp add: linked_def)
  then show "last xs \<notin> set (butlast xs)" by simp
  show bj: "butlast xs ! j = xs ! j" using j by (simp add: nth_butlast)
  show "linked S' (butlast xs)" by (rule linked_mono[OF linked_butlast[OF l] q(2) dm])
  have "xs ! i = xs ! j \<longleftrightarrow> i = j" if "i < length xs" for i using linked_nth_eq[OF l that] j by simp
  then show "processed S' (butlast xs) j j j" using p j by (auto simp: processed_def q nth_butlast)
qed

end
