(* ===== verification/Word_Lock_Safety.thy ===== *)
theory Word_Lock_Safety
  imports Word_Queue
begin

text \<open>
  The invariant of the \<open>WordLock\<close> machine and what follows from it: mutual exclusion, safe access to the
  records on other threads' stacks, and no lost wake-up. It has four parts: the two bits of the word
  belong to at most one thread each; the queue and the position of its unlocker in it; the records, each
  owned by one thread, and which of their owners sleep; and somebody is there to wake them.
\<close>

section \<open>The invariant\<close>

fun wowns :: "wpc \<Rightarrow> bool" where
  "wowns W_held = True"
| "wowns W_unlock = True"
| "wowns _ = False"

fun queue_holder :: "wpc \<Rightarrow> bool" where
  "queue_holder (U_scan st q) = True"
| "queue_holder (U_set st q) = True"
| "queue_holder (U_release st) = True"
| "queue_holder (U_take st q) = True"
| "queue_holder (U_empty st q) = True"
| "queue_holder (U_pop st q r) = True"
| "queue_holder (U_clear q) = True"
| "queue_holder _ = False"

fun record_of :: "wpc \<Rightarrow> ptr option" where
  "record_of (W_enqueue w st p) = Some p"
| "record_of (W_sleep w p) = Some p"
| "record_of (W_reload w p) = Some p"
| "record_of _ = None"

fun sleeps :: "wpc \<Rightarrow> ptr option" where
  "sleeps (W_sleep w p) = Some p"
| "sleeps _ = None"

text \<open>The record that an unlocker has taken out of the queue and not yet woken.\<close>

fun carries :: "wpc \<Rightarrow> ptr option" where
  "carries (U_clear q) = Some q"
| "carries (U_wake q) = Some q"
| "carries _ = None"

fun active :: "(ptr \<rightharpoonup> word_thread) \<Rightarrow> wpc \<Rightarrow> bool" where
  "active S W_idle = False"
| "active S W_held = False"
| "active S W_unlock = False"
| "active S (W_sleep w p) = (\<not> asleep S p)"
| "active S (U_top st) = (\<not> is_queue_locked st \<and> queue_head st \<noteq> null)"
| "active S _ = True"

fun queue_pc :: "ptr list \<Rightarrow> nat \<Rightarrow> nat \<Rightarrow> nat \<Rightarrow> wpc \<Rightarrow> bool" where
  "queue_pc xs k j c (U_scan st q) = (xs \<noteq> [] \<and> queue_head st = xs ! j \<and> q = xs ! c)"
| "queue_pc xs k j c (U_set st q) = (xs \<noteq> [] \<and> queue_head st = xs ! j \<and> c = k \<and> q = last xs)"
| "queue_pc xs k j c (U_release st) = (xs \<noteq> [] \<and> is_locked st \<and> j = k)"
| "queue_pc xs k j c (U_take st q) = (xs \<noteq> [] \<and> queue_head st = xs ! j \<and> j = k \<and> q = last xs)"
| "queue_pc xs k j c (U_empty st q) = (xs \<noteq> [] \<and> queue_head st = xs ! j \<and> j = k \<and> q = last xs \<and> Suc j = length xs)"
| "queue_pc xs k j c (U_pop st q r) =
     (xs \<noteq> [] \<and> queue_head st = xs ! j \<and> j = k \<and> q = last xs \<and> Suc j < length xs \<and> r = last (butlast xs))"
| "queue_pc xs k j c (U_clear q) = (j = c)"
| "queue_pc xs k j c _ = True"

definition exclusive :: "bool \<Rightarrow> (tid \<Rightarrow> bool) \<Rightarrow> bool" where
  "exclusive L F \<longleftrightarrow> (\<forall>t. F t \<longrightarrow> L) \<and> (\<forall>t u. F t \<and> F u \<longrightarrow> t = u) \<and> (L \<longrightarrow> (\<exists>t. F t))"

definition inv_flags :: "usize \<Rightarrow> (tid \<Rightarrow> wpc) \<Rightarrow> bool" where
  "inv_flags w f \<longleftrightarrow> exclusive (is_locked w) (wowns \<circ> f) \<and> exclusive (is_queue_locked w) (queue_holder \<circ> f)"

definition inv_list :: "usize \<Rightarrow> (ptr \<rightharpoonup> word_thread) \<Rightarrow> (tid \<Rightarrow> wpc) \<Rightarrow> ptr list \<Rightarrow> nat \<Rightarrow> nat \<Rightarrow> nat \<Rightarrow> bool" where
  "inv_list w S f xs k j c \<longleftrightarrow>
     queue_head w = (if xs = [] then null else hd xs) \<and> linked S xs \<and> (xs \<noteq> [] \<longrightarrow> processed S xs k j c) \<and>
     (\<not> is_queue_locked w \<longrightarrow> j = c) \<and> (\<forall>t. queue_pc xs k j c (f t))"

definition inv_records :: "(ptr \<rightharpoonup> word_thread) \<Rightarrow> (tid \<Rightarrow> ptr option) \<Rightarrow> bool" where
  "inv_records S F \<longleftrightarrow> dom S = ran F \<and>
     (\<forall>t u p. F t = Some p \<and> F u = Some p \<longrightarrow> t = u) \<and> (\<forall>p \<in> ran F. p \<noteq> null \<and> aligned4 p)"

definition inv_sleep :: "(ptr \<rightharpoonup> word_thread) \<Rightarrow> ptr list \<Rightarrow> (tid \<Rightarrow> ptr option) \<Rightarrow> (tid \<Rightarrow> ptr option) \<Rightarrow> bool" where
  "inv_sleep S xs F C \<longleftrightarrow> set xs \<subseteq> ran F \<and> ran C \<subseteq> ran F - set xs \<and>
     (\<forall>t u p. C t = Some p \<and> C u = Some p \<longrightarrow> t = u) \<and>
     (\<forall>p \<in> ran F. asleep S p \<longleftrightarrow> p \<in> set xs \<union> ran C)"

definition inv_enqueue :: "(ptr \<rightharpoonup> word_thread) \<Rightarrow> (tid \<Rightarrow> wpc) \<Rightarrow> bool" where
  "inv_enqueue S f \<longleftrightarrow> (\<forall>t w st p. f t = W_enqueue w st p \<longrightarrow>
     is_locked st \<and> S p = Some (enqueued_thread p (queue_head st)))"

definition inv_awake :: "usize \<Rightarrow> (ptr \<rightharpoonup> word_thread) \<Rightarrow> ptr list \<Rightarrow> (tid \<Rightarrow> wpc) \<Rightarrow> bool" where
  "inv_awake w S xs f \<longleftrightarrow> (xs \<noteq> [] \<and> \<not> is_locked w \<longrightarrow> (\<exists>t. active S (f t)))"

definition inv_at :: "usize \<Rightarrow> (ptr \<rightharpoonup> word_thread) \<Rightarrow> (tid \<Rightarrow> wpc) \<Rightarrow> ptr list \<Rightarrow> nat \<Rightarrow> nat \<Rightarrow> nat \<Rightarrow> bool" where
  "inv_at w S f xs k j c \<longleftrightarrow> inv_flags w f \<and> inv_list w S f xs k j c \<and> inv_records S (record_of \<circ> f) \<and>
     inv_sleep S xs (sleeps \<circ> f) (carries \<circ> f) \<and> inv_enqueue S f \<and> inv_awake w S xs f"

definition word_inv :: "word_sys \<Rightarrow> bool" where
  "word_inv s \<longleftrightarrow> (\<exists>xs k j c. inv_at (wstate s) (wthreads s) (wpcs s) xs k j c)"

section \<open>One thread moves\<close>

lemma comp_upd_same: "g pc = g (f t) \<Longrightarrow> g \<circ> f(t := pc) = g \<circ> f"
  by (auto simp: fun_eq_iff)

lemma exclusive_same: "exclusive L F \<Longrightarrow> b = F t \<Longrightarrow> exclusive L (F(t := b))"
  by simp

lemma exclusive_take: "exclusive L F \<Longrightarrow> \<not> L \<Longrightarrow> exclusive True (F(t := True))"
  by (auto simp: exclusive_def)

lemma exclusive_drop: "exclusive L F \<Longrightarrow> F t \<Longrightarrow> exclusive False (F(t := False))"
  by (auto simp: exclusive_def)

lemma exclusiveD: "exclusive L F \<Longrightarrow> F t \<Longrightarrow> L" "exclusive L F \<Longrightarrow> L \<Longrightarrow> \<exists>t. F t"
  "exclusive L F \<Longrightarrow> F t \<Longrightarrow> F u \<Longrightarrow> t = u"
  by (auto simp: exclusive_def)

lemma queue_pc_other: "\<not> queue_holder pc \<Longrightarrow> queue_pc xs k j c pc"
  by (cases pc) auto

lemma holder_active: "queue_holder pc \<Longrightarrow> active S pc"
  by (cases pc) auto

lemma inv_records_same: "inv_records S F \<Longrightarrow> dom S' = dom S \<Longrightarrow> r = F t \<Longrightarrow> inv_records S' (F(t := r))"
  by (simp add: inv_records_def)

lemma ran_drop:
  assumes "F t = Some p" "\<And>u. F u = Some p \<Longrightarrow> u = t"
  shows "ran (F(t := None)) = ran F - {p}"
proof -
  have "(F(t := None)) u = Some q \<longleftrightarrow> F u = Some q \<and> q \<noteq> p" for u q
  proof (cases "u = t")
    case False
    then have "F u \<noteq> Some p" using assms(2) by blast
    then show ?thesis using False by auto
  qed (use assms(1) in simp)
  then show ?thesis unfolding ran_def by blast
qed

lemma inv_records_new:
  assumes "inv_records S F" "F t = None" "p \<notin> dom S" "p \<noteq> null" "aligned4 p"
  shows "inv_records (S(p \<mapsto> td)) (F(t := Some p))"
proof -
  have u: "F u \<noteq> Some p" for u using assms(1,3) unfolding inv_records_def ran_def by blast
  have "ran (F(t \<mapsto> p)) = insert p (ran F)" using assms(2) by (rule ran_map_upd)
  then show ?thesis using assms u unfolding inv_records_def by (auto split: if_splits)
qed

lemma inv_records_drop:
  assumes "inv_records S F" "F t = Some p"
  shows "inv_records (S(p := None)) (F(t := None))"
proof -
  have "ran (F(t := None)) = ran F - {p}" using assms unfolding inv_records_def by (intro ran_drop) blast+
  then show ?thesis using assms(1) unfolding inv_records_def by (auto split: if_splits)
qed

lemma inv_enqueue_upd:
  assumes e: "inv_enqueue S f" and pc: "\<And>w st p. pc \<noteq> W_enqueue w st p"
    and S: "\<And>u p. u \<noteq> t \<Longrightarrow> record_of (f u) = Some p \<Longrightarrow> sleeps (f u) = None \<Longrightarrow> S' p = S p"
  shows "inv_enqueue S' (f(t := pc))"
  unfolding inv_enqueue_def
proof (intro allI impI)
  fix u w st p
  assume u: "(f(t := pc)) u = W_enqueue w st p"
  then have "u \<noteq> t" "f u = W_enqueue w st p" using pc by (auto split: if_splits)
  then show "is_locked st \<and> S' p = Some (enqueued_thread p (queue_head st))"
    using e S[of u p] unfolding inv_enqueue_def by simp
qed

lemma inv_awake_active: "active S pc \<Longrightarrow> inv_awake w S xs (f(t := pc))"
  unfolding inv_awake_def by (metis fun_upd_same)

lemma inv_awake_locked: "is_locked w \<Longrightarrow> inv_awake w S xs f"
  by (simp add: inv_awake_def)

lemma inv_awake_other:
  assumes "inv_awake w S xs f" "is_locked w' = is_locked w" "xs' \<noteq> [] \<Longrightarrow> xs \<noteq> []" "\<not> active S (f t) \<or> active S pc"
  shows "inv_awake w' S xs' (f(t := pc))"
  unfolding inv_awake_def
proof
  assume "xs' \<noteq> [] \<and> \<not> is_locked w'"
  then obtain u where "active S (f u)" using assms(1-3) by (auto simp: inv_awake_def)
  then have "active S ((f(t := pc)) (if u = t then t else u))" using assms(4) by auto
  then show "\<exists>u. active S ((f(t := pc)) u)" by blast
qed

lemma inv_awake_holder:
  assumes "inv_flags w f" "is_queue_locked w" "\<not> queue_holder (f t)"
  shows "inv_awake w' S xs (f(t := pc))"
proof -
  have "exclusive (is_queue_locked w) (queue_holder \<circ> f)" using assms(1) by (simp add: inv_flags_def)
  then obtain u where u: "queue_holder (f u)" using exclusiveD(2)[of "is_queue_locked w" "queue_holder \<circ> f"] assms(2) by auto
  then have "u \<noteq> t" using assms(3) by blast
  then show ?thesis using holder_active[OF u] unfolding inv_awake_def by (metis fun_upd_other)
qed

text \<open>A thread that neither owns a bit nor a record changes its program counter.\<close>

fun plain :: "wpc \<Rightarrow> bool" where
  "plain W_idle = True"
| "plain W_lock = True"
| "plain (W_load w) = True"
| "plain (W_top w st) = True"
| "plain U_load = True"
| "plain (U_top st) = True"
| "plain _ = False"

lemma plainD:
  assumes "plain pc"
  shows "\<not> wowns pc" "\<not> queue_holder pc" "record_of pc = None" "sleeps pc = None" "carries pc = None"
    "pc \<noteq> W_enqueue w st p"
  using assms by (cases pc; simp)+

lemma inv_at_parts:
  assumes "inv_at w S f xs k j c"
  shows "inv_flags w f" "inv_list w S f xs k j c" "inv_records S (record_of \<circ> f)"
    "inv_sleep S xs (sleeps \<circ> f) (carries \<circ> f)" "inv_enqueue S f" "inv_awake w S xs f"
  using assms by (simp_all add: inv_at_def)

lemma inv_list_upd:
  assumes "inv_list w S f xs k j c" "queue_head w' = queue_head w" "is_queue_locked w' = is_queue_locked w"
    "\<not> queue_holder pc"
  shows "inv_list w' S (f(t := pc)) xs k j c"
  using assms queue_pc_other[of pc xs k j c] by (simp add: inv_list_def)

text \<open>The thread keeps its record, if it has one, and the queue does not change.\<close>

lemma inv_at_move:
  assumes inv: "inv_at w S f xs k j c"
    and same: "record_of pc = record_of (f t)" "sleeps pc = sleeps (f t)" "carries pc = carries (f t)"
      "\<not> queue_holder pc" "\<not> queue_holder (f t)" "\<And>w st p. pc \<noteq> W_enqueue w st p"
    and w: "queue_head w' = queue_head w" "is_queue_locked w' = is_queue_locked w"
    and ex: "exclusive (is_locked w') ((wowns \<circ> f)(t := wowns pc))" and aw: "inv_awake w' S xs (f(t := pc))"
  shows "inv_at w' S (f(t := pc)) xs k j c"
proof -
  note p = inv_at_parts[OF inv]
  have "exclusive (is_queue_locked w') ((queue_holder \<circ> f)(t := queue_holder pc))"
    using p(1) same(4,5) w(2) by (intro exclusive_same) (simp_all add: inv_flags_def)
  then have "inv_flags w' (f(t := pc))" using ex by (simp add: inv_flags_def fun_upd_comp)
  moreover have "inv_list w' S (f(t := pc)) xs k j c" by (rule inv_list_upd[OF p(2) w same(4)])
  moreover have "inv_enqueue S (f(t := pc))" by (rule inv_enqueue_upd[OF p(5) same(6)]) simp
  ultimately show ?thesis using p(3,4) aw unfolding inv_at_def
      comp_upd_same[of record_of pc f t, OF same(1)] comp_upd_same[of sleeps pc f t, OF same(2)] comp_upd_same[of carries pc f t, OF same(3)]
    by blast
qed

lemma inv_at_roam:
  assumes inv: "inv_at w S f xs k j c" and pl: "plain (f t)" "plain pc"
    and aw: "active S pc \<or> \<not> active S (f t) \<or> xs = [] \<or> is_locked w \<or> is_queue_locked w"
  shows "inv_at w S (f(t := pc)) xs k j c"
proof (rule inv_at_move[OF inv])
  note d = plainD[OF pl(1)] plainD[OF pl(2)]
  show "record_of pc = record_of (f t)" "sleeps pc = sleeps (f t)" "carries pc = carries (f t)"
    "\<not> queue_holder pc" "\<not> queue_holder (f t)" using d by simp_all
  show "pc \<noteq> W_enqueue w st p" for w st p using pl(2) by auto
  show "exclusive (is_locked w) ((wowns \<circ> f)(t := wowns pc))"
    using inv_at_parts(1)[OF inv] d by (intro exclusive_same) (simp_all add: inv_flags_def)
  show "inv_awake w S xs (f(t := pc))"
    using aw inv_at_parts(6)[OF inv] inv_awake_holder[OF inv_at_parts(1)[OF inv] _ d(2)]
    by (auto simp: inv_awake_active inv_awake_locked intro: inv_awake_other) (simp add: inv_awake_def)
qed simp_all

section \<open>Taking and giving back the lock\<close>

lemma inv_at_take:
  assumes inv: "inv_at w S f xs k j c" and pl: "plain (f t)" and l: "\<not> is_locked w" "is_locked w'"
    and w: "queue_head w' = queue_head w" "is_queue_locked w' = is_queue_locked w"
  shows "inv_at w' S (f(t := W_held)) xs k j c"
proof (rule inv_at_move[OF inv])
  note d = plainD[OF pl]
  show "record_of W_held = record_of (f t)" "sleeps W_held = sleeps (f t)" "carries W_held = carries (f t)"
    "\<not> queue_holder (f t)" using d by simp_all
  show "exclusive (is_locked w') ((wowns \<circ> f)(t := wowns W_held))"
    using inv_at_parts(1)[OF inv] exclusive_take[of "is_locked w" "wowns \<circ> f" t] l by (simp add: inv_flags_def)
  show "inv_awake w' S xs (f(t := W_held))" by (rule inv_awake_locked[OF l(2)])
qed (use w in simp_all)

lemma inv_at_unlock:
  assumes inv: "inv_at w S f xs k j c" and t: "f t = W_unlock"
    and pc: "pc = U_load \<or> (pc = W_idle \<and> (is_queue_locked w \<or> queue_head w = null))"
  shows "inv_at (w - LOCKED_BIT) S (f(t := pc)) xs k j c"
proof -
  note p = inv_at_parts[OF inv]
  have ex: "exclusive (is_locked w) (wowns \<circ> f)" using p(1) by (simp add: inv_flags_def)
  have lw: "is_locked w" using exclusiveD(1)[OF ex, of t] t by simp
  note w = sub_locked[OF lw]
  show ?thesis
  proof (rule inv_at_move[OF inv])
    show "exclusive (is_locked (w - LOCKED_BIT)) ((wowns \<circ> f)(t := wowns pc))"
      using exclusive_drop[OF ex, of t] t w pc by auto
    have "xs = []" if "queue_head w = null"
    proof -
      have "queue_head w = (if xs = [] then null else hd xs)" "null \<notin> set xs" using p(2) by (auto simp: inv_list_def linked_def)
      then show ?thesis using that by (metis list.set_sel(1))
    qed
    then show "inv_awake (w - LOCKED_BIT) S xs (f(t := pc))"
      using pc inv_awake_holder[OF p(1), of t] t by (auto simp: inv_awake_active) (simp add: inv_awake_def)
  qed (use t pc w in auto)
qed

section \<open>Records of waiting threads\<close>

lemma inv_sleep_same:
  assumes "inv_sleep S xs F C" "\<And>p. p \<in> ran F \<Longrightarrow> asleep S' p = asleep S p"
  shows "inv_sleep S' xs F C"
  using assms unfolding inv_sleep_def by simp

lemma sleeps_record: "sleeps pc = Some p \<Longrightarrow> record_of pc = Some p"
  by (cases pc) auto

lemma sleepers: "p \<in> ran (sleeps \<circ> f) \<longleftrightarrow> (\<exists>t sw. f t = W_sleep sw p)"
proof
  assume "p \<in> ran (sleeps \<circ> f)"
  then obtain t where "sleeps (f t) = Some p" by (auto simp: ran_def)
  then show "\<exists>t sw. f t = W_sleep sw p" by (cases "f t") auto
next
  assume "\<exists>t sw. f t = W_sleep sw p"
  then show "p \<in> ran (sleeps \<circ> f)" by (auto simp: ran_def) (metis sleeps.simps(1))
qed

lemma queue_record:
  assumes "inv_at w S f xs k j c" "p \<in> set xs"
  shows "\<exists>t sw. f t = W_sleep sw p"
  using inv_at_parts(4)[OF assms(1)] assms(2) sleepers unfolding inv_sleep_def by blast

lemma record_unique:
  assumes "inv_at w S f xs k j c" "record_of (f t) = Some p" "record_of (f u) = Some p"
  shows "t = u"
  using inv_at_parts(3)[OF assms(1)] assms(2,3) unfolding inv_records_def comp_def by blast

lemma own_record_free:
  assumes inv: "inv_at w S f xs k j c" and t: "record_of (f t) = Some p" "sleeps (f t) = None"
  shows "p \<notin> ran (sleeps \<circ> f)" "p \<notin> set xs" "p \<notin> ran (carries \<circ> f)"
proof -
  show "p \<notin> ran (sleeps \<circ> f)"
  proof
    assume "p \<in> ran (sleeps \<circ> f)"
    then obtain u where u: "sleeps (f u) = Some p" by (auto simp: ran_def)
    then have "u = t" using record_unique[OF inv sleeps_record[OF u] t(1)] by blast
    then show False using t(2) u by simp
  qed
  then show "p \<notin> set xs" "p \<notin> ran (carries \<circ> f)"
    using inv_at_parts(4)[OF inv] unfolding inv_sleep_def by blast+
qed

lemma inv_at_new:
  assumes inv: "inv_at w S f xs k j c" and pl: "plain (f t)" and st: "is_locked st"
    and p: "p \<noteq> null" "aligned4 p" "S p = None"
  shows "inv_at w (S(p \<mapsto> enqueued_thread p (queue_head st))) (f(t := W_enqueue sw st p)) xs k j c"
proof -
  let ?S = "S(p \<mapsto> enqueued_thread p (queue_head st))" and ?f = "f(t := W_enqueue sw st p)"
  note i = inv_at_parts[OF inv] and d = plainD[OF pl]
  have nd: "p \<notin> dom S" using p(3) by auto
  have in_dom: "q \<in> dom S" if "q \<in> ran (sleeps \<circ> f)" for q
    using i(3) that sleeps_record unfolding inv_records_def ran_def by fastforce
  have other: "?S q = S q" if "q \<in> dom S" for q using that nd by auto
  have "inv_flags w ?f" using i(1) d by (simp add: inv_flags_def fun_upd_comp exclusive_same)
  moreover have "same_links S ?S xs"
    using i(2) nd unfolding inv_list_def linked_def same_links_def by (auto simp: field_upd)
  then have "inv_list w ?S ?f xs k j c"
    using i(2) linked_frame[of S xs ?S] processed_frame[of S xs k j c ?S] by (auto simp: inv_list_def)
  moreover have "inv_records ?S (record_of \<circ> ?f)"
    using inv_records_new[OF i(3) _ nd p(1,2), of t] d(3) by (simp add: fun_upd_comp)
  moreover have "inv_sleep ?S xs (sleeps \<circ> f) (carries \<circ> f)"
  proof (rule inv_sleep_same[OF i(4)])
    fix q assume "q \<in> ran (sleeps \<circ> f)"
    then show "asleep ?S q = asleep S q" using other[OF in_dom] by (simp add: asleep_def)
  qed
  then have "inv_sleep ?S xs (sleeps \<circ> ?f) (carries \<circ> ?f)"
    using d comp_upd_same[of sleeps _ f t] comp_upd_same[of carries _ f t] by simp
  moreover have "inv_enqueue ?S ?f"
    unfolding inv_enqueue_def
  proof (intro allI impI)
    fix u w' st' q assume u: "?f u = W_enqueue w' st' q"
    show "is_locked st' \<and> ?S q = Some (enqueued_thread q (queue_head st'))"
    proof (cases "u = t")
      case False
      then have "is_locked st'" "S q = Some (enqueued_thread q (queue_head st'))" using u i(5) by (auto simp: inv_enqueue_def)
      then show ?thesis using p(3) by auto
    qed (use u st in auto)
  qed
  moreover have "inv_awake w ?S xs ?f" by (rule inv_awake_active) simp
  ultimately show ?thesis by (simp add: inv_at_def)
qed

lemma queue_pc_push_first: "queue_pc [] k j c pc \<Longrightarrow> queue_pc [p] 0 0 0 pc"
  by (cases pc) auto

lemma queue_pc_push:
  assumes "queue_pc xs k j c pc" "xs \<noteq> []"
  shows "queue_pc (p # xs) (Suc k) (Suc j) (Suc c) pc"
proof (cases pc)
  case (U_pop st q r)
  then have "0 < length (butlast xs)" using assms by simp
  then have "butlast xs \<noteq> []" by (rule length_greater_0_conv[THEN iffD1])
  then show ?thesis using assms U_pop by simp
qed (use assms in simp_all)

lemma enqueued_asleep: "S p = Some (enqueued_thread p h) \<Longrightarrow> asleep S p"
  by (simp add: enqueued_thread_def Let_def prepare_park_def park_returns_def)

lemma inv_list_push:
  assumes i: "inv_list st S f xs k j c" and S: "S p = Some (enqueued_thread p (queue_head st))"
    and p: "p \<notin> set xs" "p \<noteq> null" "aligned4 p"
  shows "\<exists>k j c. inv_list (with_queue_head st p) S (f(t := W_sleep sw p)) (p # xs) k j c"
proof -
  note w = with_head[OF p(3)]
  have h: "queue_head st = (if xs = [] then null else hd xs)" "linked S xs" "xs \<noteq> [] \<longrightarrow> processed S xs k j c"
    "\<not> is_queue_locked st \<longrightarrow> j = c" "\<And>u. queue_pc xs k j c (f u)" using i by (auto simp: inv_list_def)
  have l: "linked S (p # xs)" using linked_push[OF h(2) _ p(1,2)] S h(1) by simp
  show ?thesis
  proof (cases "xs = []")
    case True
    then have "processed S [p] 0 0 0" using processed_push_first[of S p] S h(1) by simp
    then have "inv_list (with_queue_head st p) S (f(t := W_sleep sw p)) (p # xs) 0 0 0"
      using True l w queue_pc_push_first[of k j c _ p] h(5) by (simp add: inv_list_def)
    then show ?thesis by blast
  next
    case False
    then have "hd xs \<noteq> null" using h(2) by (metis linked_def list.set_sel(1))
    then have "processed S (p # xs) (Suc k) (Suc j) (Suc c)" using processed_push[of S xs k j c p] h(1,3) False S by simp
    moreover have "queue_pc (p # xs) (Suc k) (Suc j) (Suc c) (f u)" for u using queue_pc_push[OF h(5) False] by blast
    ultimately have "inv_list (with_queue_head st p) S (f(t := W_sleep sw p)) (p # xs) (Suc k) (Suc j) (Suc c)"
      using l w h(4) by (simp add: inv_list_def)
    then show ?thesis by blast
  qed
qed

lemma inv_at_push:
  assumes inv: "inv_at st S f xs k j c" and t: "f t = W_enqueue sw st p"
  shows "\<exists>k j c. inv_at (with_queue_head st p) S (f(t := W_sleep sw p)) (p # xs) k j c"
proof -
  let ?w = "with_queue_head st p" and ?f = "f(t := W_sleep sw p)"
  note i = inv_at_parts[OF inv]
  have p: "p \<noteq> null" "aligned4 p" using i(3) t unfolding inv_records_def by (metis comp_apply ranI record_of.simps(1))+
  note w = with_head[OF p(2)]
  have st: "is_locked st" and S: "S p = Some (enqueued_thread p (queue_head st))" using i(5) t unfolding inv_enqueue_def by blast+
  have fr: "p \<notin> set xs" "p \<notin> ran (carries \<circ> f)" using own_record_free[OF inv, of t p] t by auto
  have "inv_flags ?w ?f" using i(1) t w by (simp add: inv_flags_def fun_upd_comp exclusive_same)
  moreover have "inv_records S (record_of \<circ> ?f)" using i(3) t comp_upd_same[of record_of "W_sleep sw p" f t] by simp
  moreover have "inv_sleep S (p # xs) (sleeps \<circ> ?f) (carries \<circ> ?f)"
  proof -
    have "carries \<circ> ?f = carries \<circ> f" using t by (intro comp_upd_same) simp
    moreover have "ran (sleeps \<circ> ?f) = insert p (ran (sleeps \<circ> f))" using t by (simp add: fun_upd_comp)
    ultimately show ?thesis using i(4) fr enqueued_asleep[of S p, OF S] by (auto simp: inv_sleep_def)
  qed
  moreover have "inv_enqueue S ?f" by (rule inv_enqueue_upd[OF i(5)]) simp_all
  moreover have "inv_awake ?w S (p # xs) ?f" using st w by (intro inv_awake_locked) simp
  ultimately show ?thesis using inv_list_push[OF i(2) S fr(1) p, of t sw] unfolding inv_at_def by blast
qed

lemma inv_at_drop:
  assumes inv: "inv_at w S f xs k j c" and t: "f t = W_enqueue sw st p \<or> f t = W_reload sw p"
  shows "inv_at w (S(p := None)) (f(t := W_top sw' st')) xs k j c"
proof -
  let ?S = "S(p := None)" and ?f = "f(t := W_top sw' st')"
  note i = inv_at_parts[OF inv]
  have r: "record_of (f t) = Some p" "sleeps (f t) = None" "carries (f t) = None" "\<not> wowns (f t)" "\<not> queue_holder (f t)" using t by auto
  have fr: "p \<notin> set xs" using own_record_free[OF inv r(1,2)] by auto
  have ne: "q \<noteq> p" if "record_of (f u) = Some q" "u \<noteq> t" for u q using record_unique[OF inv r(1)] that by blast
  have "inv_flags w ?f" using i(1) r by (simp add: inv_flags_def fun_upd_comp exclusive_same)
  moreover have "same_links S ?S xs" using i(2) fr
    unfolding inv_list_def linked_def same_links_def by (auto simp: qt_def pv_def nx_def)
  then have "inv_list w ?S ?f xs k j c"
    using i(2) linked_frame[of S xs ?S] processed_frame[of S xs k j c ?S] by (auto simp: inv_list_def)
  moreover have "inv_records ?S (record_of \<circ> ?f)" using inv_records_drop[OF i(3), of t p] r(1) by (simp add: fun_upd_comp)
  moreover have "inv_sleep ?S xs (sleeps \<circ> f) (carries \<circ> f)"
  proof (rule inv_sleep_same[OF i(4)])
    fix q assume "q \<in> ran (sleeps \<circ> f)"
    then have "q \<noteq> p" using own_record_free(1)[OF inv r(1,2)] by blast
    then show "asleep ?S q = asleep S q" by (simp add: asleep_def)
  qed
  then have "inv_sleep ?S xs (sleeps \<circ> ?f) (carries \<circ> ?f)"
    using r comp_upd_same[of sleeps _ f t] comp_upd_same[of carries _ f t] by simp
  moreover have "inv_enqueue ?S ?f" by (rule inv_enqueue_upd[OF i(5)]) (use ne in auto)
  moreover have "inv_awake w ?S xs ?f" by (rule inv_awake_active) simp
  ultimately show ?thesis by (simp add: inv_at_def)
qed

lemma inv_at_park:
  assumes inv: "inv_at w S f xs k j c" and t: "f t = W_sleep sw p" and a: "\<not> asleep S p"
  shows "inv_at w S (f(t := W_reload sw p)) xs k j c"
proof -
  let ?f = "f(t := W_reload sw p)"
  note i = inv_at_parts[OF inv]
  have "p \<in> ran (sleeps \<circ> f)" using t sleepers by blast
  then have n: "p \<notin> set xs" "p \<notin> ran (carries \<circ> f)" using i(4) a unfolding inv_sleep_def by blast+
  have "inv_flags w ?f" using i(1) t by (simp add: inv_flags_def fun_upd_comp exclusive_same)
  moreover have "inv_list w S ?f xs k j c" by (rule inv_list_upd[OF i(2)]) simp_all
  moreover have "inv_records S (record_of \<circ> ?f)" using i(3) t comp_upd_same[of record_of "W_reload sw p" f t] by simp
  moreover have "inv_sleep S xs (sleeps \<circ> ?f) (carries \<circ> ?f)"
  proof -
    have "carries \<circ> ?f = carries \<circ> f" using t by (intro comp_upd_same) simp
    moreover have "ran ((sleeps \<circ> f)(t := None)) = ran (sleeps \<circ> f) - {p}"
      using t record_unique[OF inv sleeps_record, of _ p t] by (intro ran_drop) simp_all
    then have "ran (sleeps \<circ> ?f) = ran (sleeps \<circ> f) - {p}" by (simp add: fun_upd_comp)
    ultimately show ?thesis using i(4) n by (auto simp: inv_sleep_def)
  qed
  moreover have "inv_enqueue S ?f" by (rule inv_enqueue_upd[OF i(5)]) simp_all
  moreover have "inv_awake w S xs ?f" by (rule inv_awake_active) simp
  ultimately show ?thesis by (simp add: inv_at_def)
qed

section \<open>Under the queue lock\<close>

lemma holder_facts:
  assumes inv: "inv_at w S f xs k j c" and t: "queue_holder (f t)"
  shows "is_queue_locked w" "\<And>u pc k j c xs. u \<noteq> t \<Longrightarrow> queue_pc xs k j c (f u)" "\<not> wowns (f t)"
    "record_of (f t) = None" "sleeps (f t) = None"
proof -
  have ex: "exclusive (is_queue_locked w) (queue_holder \<circ> f)" using inv_at_parts(1)[OF inv] by (simp add: inv_flags_def)
  show "is_queue_locked w" using exclusiveD(1)[OF ex, of t] t by simp
  show "queue_pc xs k j c (f u)" if "u \<noteq> t" for u pc k j c xs
    using exclusiveD(3)[OF ex, of t u] t that by (intro queue_pc_other) auto
  show "\<not> wowns (f t)" "record_of (f t) = None" "sleeps (f t) = None" using t by (cases "f t"; simp)+
qed

lemma queue_facts:
  assumes "inv_at w S f xs k j c"
  shows "linked S xs" "xs \<noteq> [] \<Longrightarrow> processed S xs k j c" "queue_head w = (if xs = [] then null else hd xs)"
    "queue_pc xs k j c (f t)" "queue_head w \<noteq> null \<longleftrightarrow> xs \<noteq> []"
proof -
  show h: "linked S xs" "xs \<noteq> [] \<Longrightarrow> processed S xs k j c" "queue_head w = (if xs = [] then null else hd xs)"
    "queue_pc xs k j c (f t)" using inv_at_parts(2)[OF assms] by (auto simp: inv_list_def)
  show "queue_head w \<noteq> null \<longleftrightarrow> xs \<noteq> []" using h(1,3) by (metis linked_def list.set_sel(1))
qed

lemma inv_at_enter:
  assumes inv: "inv_at st S f xs k j c" and t: "f t = U_top st" and st: "\<not> is_queue_locked st" "queue_head st \<noteq> null"
  shows "inv_at (st OR QUEUE_LOCKED_BIT) S (f(t := U_scan st (queue_head st))) xs k 0 0"
proof -
  let ?f = "f(t := U_scan st (queue_head st))" and ?w = "st OR QUEUE_LOCKED_BIT"
  note i = inv_at_parts[OF inv] and q = queue_facts[OF inv]
  have ne: "xs \<noteq> []" "queue_head st = xs ! 0" using q(3,5) st(2) by (auto simp: hd_conv_nth)
  have nh: "\<not> queue_holder (f u)" for u using i(1) st(1) by (auto simp: inv_flags_def exclusive_def)
  have "j = c" using i(2) st(1) by (simp add: inv_list_def)
  then have pr: "processed S xs k 0 0" using q(2)[OF ne(1)] by (auto intro: processed_rest)
  have "inv_flags ?w ?f" using i(1) t exclusive_take[of "is_queue_locked st" "queue_holder \<circ> f" t] st(1)
    by (simp add: inv_flags_def fun_upd_comp exclusive_same)
  moreover have "inv_list ?w S ?f xs k 0 0"
    using q(1,3) pr ne nh queue_pc_other by (simp add: inv_list_def)
  moreover have "inv_enqueue S ?f" by (rule inv_enqueue_upd[OF i(5)]) simp_all
  moreover have "inv_awake ?w S xs ?f" by (rule inv_awake_active) simp
  ultimately show ?thesis using i(3,4) t unfolding inv_at_def
    by (simp add: comp_upd_same[of record_of _ f t] comp_upd_same[of sleeps _ f t] comp_upd_same[of carries _ f t])
qed

text \<open>A step of the unlocker that keeps the queue lock and the queue, and may write link fields.\<close>

lemma inv_at_hold:
  assumes inv: "inv_at w S f xs k j c" and t: "queue_holder (f t)" "queue_holder pc" "carries pc = carries (f t)"
    and S: "dom S' = dom S" "asleep S' = asleep S" "\<And>p. p \<notin> set xs \<Longrightarrow> S' p = S p"
    and q: "linked S' xs" "xs \<noteq> [] \<Longrightarrow> processed S' xs k' j' c'" "queue_pc xs k' j' c' pc"
  shows "inv_at w S' (f(t := pc)) xs k' j' c'"
proof -
  let ?f = "f(t := pc)"
  note i = inv_at_parts[OF inv] and h = holder_facts[OF inv t(1)]
  have pc: "\<not> wowns pc" "record_of pc = None" "sleeps pc = None" "\<And>w st p. pc \<noteq> W_enqueue w st p" using t(2) by (cases pc; simp)+
  have "inv_flags w ?f" using i(1) t h(3) pc by (simp add: inv_flags_def fun_upd_comp exclusive_same)
  moreover have "inv_list w S' ?f xs k' j' c'" using q h(1,2) queue_facts(3)[OF inv] by (simp add: inv_list_def)
  moreover have "inv_records S' (record_of \<circ> f)" using i(3) S(1) by (simp add: inv_records_def)
  moreover have "inv_sleep S' xs (sleeps \<circ> f) (carries \<circ> f)" using i(4) S(2) by (simp add: inv_sleep_def)
  moreover have "inv_enqueue S' ?f"
  proof (rule inv_enqueue_upd[OF i(5) pc(4)])
    show "S' p = S p" if "u \<noteq> t" "record_of (f u) = Some p" "sleeps (f u) = None" for u p
      using own_record_free(2)[OF inv that(2,3)] S(3) by blast
  qed
  moreover have "inv_awake w S' xs ?f" using t(2) by (intro inv_awake_active holder_active)
  ultimately show ?thesis using t(3) h(4,5) pc unfolding inv_at_def
    by (simp add: comp_upd_same[of record_of _ f t] comp_upd_same[of sleeps _ f t] comp_upd_same[of carries _ f t])
qed

text \<open>The unlocker gives the queue lock back: because the lock is taken again, or after a removal.\<close>

lemma inv_at_leave:
  assumes inv: "inv_at w S f xs k j c" and t: "queue_holder (f t)"
    and pc: "pc = W_idle \<or> (\<exists>q. pc = U_wake q)" "carries pc = carries (f t)"
    and jc: "j = c" and aw: "is_locked w \<or> active S pc"
  shows "inv_at (w AND NOT QUEUE_LOCKED_BIT) S (f(t := pc)) xs k j c"
proof -
  let ?f = "f(t := pc)" and ?w = "w AND NOT QUEUE_LOCKED_BIT"
  note i = inv_at_parts[OF inv] and h = holder_facts[OF inv t] and q = queue_facts[OF inv]
  have pcs: "\<not> wowns pc" "\<not> queue_holder pc" "record_of pc = None" "sleeps pc = None" "\<And>w st p. pc \<noteq> W_enqueue w st p" using pc(1) by auto
  have "inv_flags ?w ?f" using i(1) t h(3) pcs exclusive_drop[of "is_queue_locked w" "queue_holder \<circ> f" t]
    by (simp add: inv_flags_def fun_upd_comp exclusive_same)
  moreover have "inv_list ?w S ?f xs k j c" using q(1-3) h(2) jc queue_pc_other[OF pcs(2)] by (simp add: inv_list_def)
  moreover have "inv_enqueue S ?f" by (rule inv_enqueue_upd[OF i(5) pcs(5)]) simp
  moreover have "inv_awake ?w S xs ?f" using aw by (auto intro: inv_awake_active inv_awake_locked)
  ultimately show ?thesis using i(3,4) pc(2) h(4,5) pcs unfolding inv_at_def
    by (simp add: comp_upd_same[of record_of _ f t] comp_upd_same[of sleeps _ f t] comp_upd_same[of carries _ f t])
qed

text \<open>The last record leaves the queue and is carried by the unlocker.\<close>

lemma inv_sleep_carry:
  assumes "inv_sleep S xs F C" "xs = ys @ [q]" "distinct xs" "C t = None" "asleep S' = asleep S"
  shows "inv_sleep S' ys F (C(t := Some q))"
proof -
  have r: "ran (C(t \<mapsto> q)) = insert q (ran C)" using assms(4) by (rule ran_map_upd)
  have "q \<notin> ran C" using assms(1,2) by (auto simp: inv_sleep_def)
  then have "C u \<noteq> Some q" for u by (auto simp: ran_def)
  then show ?thesis using assms r unfolding inv_sleep_def by (auto split: if_splits)
qed

lemma inv_at_pop:
  assumes inv: "inv_at w S f xs j j c" and t: "f t = U_pop st q r" and td: "S (xs ! j) = Some td"
  shows "inv_at w (S(xs ! j \<mapsto> td\<lparr>wqueue_tail := r\<rparr>)) (f(t := U_clear q)) (butlast xs) j j j"
proof -
  let ?S = "S(xs ! j \<mapsto> td\<lparr>wqueue_tail := r\<rparr>)" and ?f = "f(t := U_clear q)"
  have th: "queue_holder (f t)" using t by simp
  note i = inv_at_parts[OF inv] and h = holder_facts[OF inv th] and qf = queue_facts[OF inv]
  have pc: "xs \<noteq> []" "q = last xs" "Suc j < length xs" "r = last (butlast xs)" using qf(4)[of t] t by auto
  have pr: "processed S xs j j j" using qf(2)[OF pc(1)] by (auto simp: processed_def)
  note pt = pop_tail[OF pr qf(1) pc(3) td, folded pc(4)]
  have "0 < length (butlast xs)" using pc(3) by simp
  then have ne: "butlast xs \<noteq> []" by (rule length_greater_0_conv[THEN iffD1])
  have as: "asleep ?S = asleep S" using td by (auto simp: field_upd fun_eq_iff)
  have xs: "xs = butlast xs @ [q]" using pc(1,2) by simp
  have d: "distinct xs" using qf(1) by (simp add: linked_def)
  have "inv_flags w ?f" using i(1) t by (simp add: inv_flags_def fun_upd_comp exclusive_same)
  moreover have "hd (butlast xs) = hd xs" using ne xs by (metis hd_append2)
  then have "inv_list w ?S ?f (butlast xs) j j j" using pt(1,2) ne pc(1) h(1,2) qf(3) by (simp add: inv_list_def)
  moreover have "inv_records ?S (record_of \<circ> ?f)"
    using i(3) t td comp_upd_same[of record_of "U_clear q" f t] by (auto simp: inv_records_def)
  moreover have "sleeps \<circ> ?f = sleeps \<circ> f" using t by (intro comp_upd_same) simp
  then have "inv_sleep ?S (butlast xs) (sleeps \<circ> ?f) (carries \<circ> ?f)"
    using inv_sleep_carry[OF i(4) xs d _ as, of t] t by (simp add: fun_upd_comp)
  moreover have "inv_enqueue ?S ?f"
  proof (rule inv_enqueue_upd[OF i(5)])
    show "?S p = S p" if "u \<noteq> t" "record_of (f u) = Some p" "sleeps (f u) = None" for u p
      using own_record_free(2)[OF inv that(2,3)] pc(3) by auto
  qed simp
  moreover have "inv_awake w ?S (butlast xs) ?f" by (rule inv_awake_active) simp
  ultimately show ?thesis by (simp add: inv_at_def)
qed

lemma inv_at_empty:
  assumes inv: "inv_at st S f xs k j c" and t: "f t = U_empty st q"
  shows "inv_at (st AND LOCKED_BIT) S (f(t := U_wake q)) [] 0 0 0"
proof -
  let ?f = "f(t := U_wake q)" and ?w = "st AND LOCKED_BIT"
  have th: "queue_holder (f t)" using t by simp
  note i = inv_at_parts[OF inv] and h = holder_facts[OF inv th] and qf = queue_facts[OF inv]
  have pc: "xs \<noteq> []" "q = last xs" "Suc j = length xs" "queue_head st = xs ! j" using qf(4)[of t] t by auto
  have "xs ! j = xs ! 0" using pc(1,4) qf(3) by (simp add: hd_conv_nth)
  then have "j = 0" using linked_nth_eq[OF qf(1), of j 0] pc(1,3) by auto
  then have "length xs = 1" using pc(3) by simp
  then have xs: "xs = [] @ [q]" using pc(2) by (cases xs) auto
  have d: "distinct xs" using qf(1) by (simp add: linked_def)
  have "inv_flags ?w ?f" using i(1) t exclusive_drop[of "is_queue_locked st" "queue_holder \<circ> f" t]
    by (simp add: inv_flags_def fun_upd_comp exclusive_same)
  moreover have "inv_list ?w S ?f [] 0 0 0" using h(2) by (simp add: inv_list_def)
  moreover have "inv_records S (record_of \<circ> ?f)" using i(3) t comp_upd_same[of record_of "U_wake q" f t] by simp
  moreover have "sleeps \<circ> ?f = sleeps \<circ> f" using t by (intro comp_upd_same) simp
  then have "inv_sleep S [] (sleeps \<circ> ?f) (carries \<circ> ?f)"
    using inv_sleep_carry[OF i(4) xs d _ refl, of t] t by (simp add: fun_upd_comp)
  moreover have "inv_enqueue S ?f" by (rule inv_enqueue_upd[OF i(5)]) simp_all
  moreover have "inv_awake ?w S [] ?f" by (simp add: inv_awake_def)
  ultimately show ?thesis by (simp add: inv_at_def)
qed

lemma carried_facts:
  assumes inv: "inv_at w S f xs k j c" and t: "carries (f t) = Some q"
  shows "q \<notin> set xs" "\<exists>u sw. u \<noteq> t \<and> f u = W_sleep sw q" "\<exists>td. S q = Some td" "\<And>u. carries (f u) = Some q \<Longrightarrow> u = t"
proof -
  note i = inv_at_parts[OF inv]
  have "(carries \<circ> f) t = Some q" using t by simp
  then have "q \<in> ran (carries \<circ> f)" by (rule ranI)
  then have r: "q \<notin> set xs" "q \<in> ran (sleeps \<circ> f)" using i(4) unfolding inv_sleep_def by blast+
  then show "q \<notin> set xs" by simp
  obtain u sw where u: "f u = W_sleep sw q" using r(2)[unfolded sleepers] by blast
  then have "u \<noteq> t" using t by auto
  then show "\<exists>u sw. u \<noteq> t \<and> f u = W_sleep sw q" using u by blast
  have "(record_of \<circ> f) u = Some q" using u by simp
  then have "q \<in> ran (record_of \<circ> f)" by (rule ranI)
  then show "\<exists>td. S q = Some td" using i(3) unfolding inv_records_def by blast
  show "u = t" if "carries (f u) = Some q" for u using i(4) t that unfolding inv_sleep_def comp_def by blast
qed

lemma inv_at_wake:
  assumes inv: "inv_at w S f xs k j c" and t: "f t = U_wake q" and td: "S q = Some td"
  shows "inv_at w (S(q \<mapsto> td\<lparr>wparker := unpark_lock (wparker td)\<rparr>)) (f(t := W_idle)) xs k j c"
proof -
  let ?S = "S(q \<mapsto> td\<lparr>wparker := unpark_lock (wparker td)\<rparr>)" and ?f = "f(t := W_idle)"
  note i = inv_at_parts[OF inv] and cf = carried_facts[OF inv, of t q]
  have ct: "carries (f t) = Some q" using t by simp
  have fl: "qt ?S = qt S" "pv ?S = pv S" "nx ?S = nx S" "asleep ?S = (asleep S)(q := False)"
    using td by (auto simp: field_upd fun_eq_iff unpark_lock_def park_returns_def)
  have dm: "dom ?S = dom S" using td by auto
  have "inv_flags w ?f" using i(1) t by (simp add: inv_flags_def fun_upd_comp exclusive_same)
  moreover have "same_links S ?S xs" using i(2) unfolding inv_list_def linked_def same_links_def fl dm by blast
  then have "inv_list w ?S ?f xs k j c"
    using i(2) linked_frame[of S xs ?S] processed_frame[of S xs k j c ?S] by (auto simp: inv_list_def)
  moreover have "inv_records ?S (record_of \<circ> ?f)"
    using i(3) t comp_upd_same[of record_of "W_idle" f t] dm by (simp add: inv_records_def)
  moreover have "inv_sleep ?S xs (sleeps \<circ> ?f) (carries \<circ> ?f)"
  proof -
    have "sleeps \<circ> ?f = sleeps \<circ> f" using t by (intro comp_upd_same) simp
    moreover have "ran ((carries \<circ> f)(t := None)) = ran (carries \<circ> f) - {q}"
      by (rule ran_drop) (simp add: ct, rule cf(4)[OF ct], simp)
    moreover have "carries \<circ> ?f = (carries \<circ> f)(t := None)" by (simp add: fun_upd_comp)
    ultimately show ?thesis using i(4) cf(1)[OF ct] unfolding inv_sleep_def fl by (auto split: if_splits)
  qed
  moreover have "inv_enqueue ?S ?f"
  proof (rule inv_enqueue_upd[OF i(5)])
    show "?S p = S p" if "u \<noteq> t" "record_of (f u) = Some p" "sleeps (f u) = None" for u p
    proof -
      have "p \<notin> ran (carries \<circ> f)" by (rule own_record_free(3)[OF inv that(2,3)])
      then have "p \<noteq> q" using ct by (auto simp: ran_def)
      then show ?thesis by simp
    qed
  qed simp
  moreover have "inv_awake w ?S xs ?f"
  proof -
    obtain u sw where "u \<noteq> t" "f u = W_sleep sw q" using cf(2)[OF ct] by blast
    then have "active ?S (?f u)" by (simp add: fl)
    then show ?thesis unfolding inv_awake_def by blast
  qed
  ultimately show ?thesis by (simp add: inv_at_def)
qed

section \<open>Every step keeps the invariant and touches only live records\<close>

lemma wgoto_sel [simp]:
  "wstate (wgoto t pc s) = wstate s" "wthreads (wgoto t pc s) = wthreads s" "wpcs (wgoto t pc s) = (wpcs s)(t := pc)"
  by (simp_all add: wgoto_def)

definition keeps :: "word_sys outcome option \<Rightarrow> bool" where
  "keeps r \<longleftrightarrow> (\<forall>f. r \<noteq> Some (Inl f)) \<and> (\<forall>s'. r = Some (Inr s') \<longrightarrow> word_inv s')"

lemma keeps_simps [simp]: "keeps None" "keeps (Some (Inr s)) \<longleftrightarrow> word_inv s" "\<not> keeps (Some (Inl f))"
  by (simp_all add: keeps_def)

lemma word_invI: "inv_at (wstate s) (wthreads s) (wpcs s) xs k j c \<Longrightarrow> word_inv s"
  by (auto simp: word_inv_def)

lemma word_inv_roam:
  assumes "inv_at (wstate s) (wthreads s) (wpcs s) xs k j c" "plain (wpcs s t)" "plain pc"
    "active (wthreads s) pc \<or> \<not> active (wthreads s) (wpcs s t) \<or> xs = [] \<or> is_locked (wstate s) \<or> is_queue_locked (wstate s)"
  shows "word_inv (wgoto t pc s)"
  using inv_at_roam[OF assms] by (intro word_invI) simp

lemma lock_keeps:
  assumes inv: "inv_at (wstate s) (wthreads s) (wpcs s) xs k j c" and pc: "wpcs s t = W_lock"
  shows "word_inv (word_lock_step sp t s)"
proof (cases "\<not> sp \<and> wstate s = 0")
  case True
  then have "inv_at LOCKED_BIT (wthreads s) ((wpcs s)(t := W_held)) xs k j c"
    using inv_at_take[OF inv, of t LOCKED_BIT] pc by simp
  then show ?thesis using True by (intro word_invI) (simp add: word_lock_step_def)
next
  case False
  then show ?thesis using word_inv_roam[OF inv, of t "W_load spin_wait_new"] pc by (auto simp: word_lock_step_def)
qed

lemma lock_slow_keeps:
  assumes inv: "inv_at (wstate s) (wthreads s) (wpcs s) xs k j c" and pc: "wpcs s t = W_top w st"
    and step: "word_lock_slow_step sp p t w st s = Some s'"
  shows "word_inv s'"
proof (cases "is_locked st")
  case False
  show ?thesis
  proof (cases "\<not> sp \<and> wstate s = st")
    case True
    then have "inv_at (st OR LOCKED_BIT) (wthreads s) ((wpcs s)(t := W_held)) xs k j c"
      using inv_at_take[OF inv, of t "st OR LOCKED_BIT"] pc False by simp
    then show ?thesis using step True False by (intro word_invI) (auto simp: word_lock_slow_step_def)
  next
    case no: False
    then have "s' = wgoto t (W_top w (wstate s)) s" using step False by (auto simp: word_lock_slow_step_def)
    then show ?thesis using word_inv_roam[OF inv, of t "W_top w (wstate s)"] pc by simp
  qed
next
  case True
  obtain again h w' where sp: "(if queue_head st = null then spin w else (False, [], w)) = (again, h, w')" by (metis surj_pair)
  show ?thesis
  proof (cases again)
    case ag: True
    then have "s' = wgoto t (W_load w') s" using step True sp by (simp add: word_lock_slow_step_def split: if_splits)
    then show ?thesis using word_inv_roam[OF inv, of t "W_load w'"] pc by simp
  next
    case ag: False
    then have u: "usable p s" and s': "s' = wgoto t (W_enqueue w' st p) (s\<lparr>wthreads := (wthreads s)(p \<mapsto> enqueued_thread p (queue_head st))\<rparr>)"
      using step True sp by (simp_all add: word_lock_slow_step_def split: if_splits)
    have "inv_at (wstate s) (wthreads s') (wpcs s') xs k j c"
      using inv_at_new[OF inv, of t st p w'] u pc True by (simp add: usable_def aligned4_def s')
    then show ?thesis by (intro word_invI) (simp add: s')
  qed
qed

lemma enqueue_keeps:
  assumes inv: "inv_at (wstate s) (wthreads s) (wpcs s) xs k j c" and pc: "wpcs s t = W_enqueue w st p"
  shows "word_inv (word_enqueue_step sp t w st p s)"
proof (cases "\<not> sp \<and> wstate s = st")
  case True
  then obtain k j c where "inv_at (with_queue_head st p) (wthreads s) ((wpcs s)(t := W_sleep w p)) (p # xs) k j c"
    using inv_at_push[of st "wthreads s" "wpcs s" xs k j c t w p] inv pc by auto
  then show ?thesis using True by (intro word_invI) (simp add: word_enqueue_step_def)
next
  case False
  then show ?thesis using inv_at_drop[OF inv, of t w st p w "wstate s"] pc
    by (intro word_invI) (auto simp: word_enqueue_step_def)
qed

lemma unlock_keeps:
  assumes inv: "inv_at (wstate s) (wthreads s) (wpcs s) xs k j c" and pc: "wpcs s t = W_unlock"
  shows "word_inv (word_unlock_step t s)"
  using inv_at_unlock[OF inv pc] by (intro word_invI[of _ xs k j c]) (simp add: word_unlock_step_def Let_def)

lemma unlock_slow_keeps:
  assumes inv: "inv_at (wstate s) (wthreads s) (wpcs s) xs k j c" and pc: "wpcs s t = U_top st"
  shows "word_inv (word_unlock_slow_step sp t st s)"
proof -
  consider (none) "is_queue_locked st \<or> queue_head st = null"
    | (enter) "\<not> is_queue_locked st" "queue_head st \<noteq> null" "\<not> sp" "wstate s = st"
    | (again) "\<not> is_queue_locked st" "queue_head st \<noteq> null" "sp \<or> wstate s \<noteq> st" by blast
  then show ?thesis
  proof cases
    case none
    then show ?thesis using word_inv_roam[OF inv, of t W_idle] pc by (auto simp: word_unlock_slow_step_def)
  next
    case enter
    then have "inv_at (st OR QUEUE_LOCKED_BIT) (wthreads s) ((wpcs s)(t := U_scan st (queue_head st))) xs k 0 0"
      using inv_at_enter[of st "wthreads s" "wpcs s" xs k j c t] inv pc by simp
    then show ?thesis using enter by (intro word_invI) (simp add: word_unlock_slow_step_def Let_def)
  next
    case again
    have "\<not> is_queue_locked (wstate s) \<Longrightarrow> xs \<noteq> [] \<Longrightarrow> active (wthreads s) (U_top (wstate s))"
      using queue_facts(5)[OF inv] by simp
    then show ?thesis using word_inv_roam[OF inv, of t "U_top (wstate s)"] again pc by (auto simp: word_unlock_slow_step_def)
  qed
qed

text \<open>What the unlocker knows about the queue at each program point.\<close>

lemma holder_queue:
  assumes inv: "inv_at w S f xs k j c" and t: "queue_holder (f t)" "carries (f t) = None"
  shows "xs \<noteq> []" "linked S xs" "processed S xs k j c" "queue_pc xs k j c (f t)" "queue_head w = xs ! 0"
    "\<exists>td. S (xs ! j) = Some td" "\<exists>td. S (xs ! c) = Some td" "\<exists>td. S (last xs) = Some td"
proof -
  note qf = queue_facts[OF inv]
  show q: "queue_pc xs k j c (f t)" by (rule qf(4))
  then show ne: "xs \<noteq> []" using t by (cases "f t") auto
  then show pr: "processed S xs k j c" by (rule qf(2))
  show l: "linked S xs" by (rule qf(1))
  show "queue_head w = xs ! 0" using qf(3) ne by (simp add: hd_conv_nth)
  have "j < length xs" "c < length xs" using pr by (auto simp: processed_def)
  then show "\<exists>td. S (xs ! j) = Some td" "\<exists>td. S (xs ! c) = Some td" using linked_nth[OF l] by blast+
  show "\<exists>td. S (last xs) = Some td" using linked_nth[OF l, of "length xs - 1"] ne by (auto simp: last_conv_nth)
qed

lemma rescan_keeps:
  assumes inv: "inv_at (wstate s) (wthreads s) (wpcs s) xs k j c" and t: "queue_holder (wpcs s t)" "carries (wpcs s t) = None" and jk: "j = k"
  shows "word_inv (wgoto t (U_scan (wstate s) (queue_head (wstate s))) s)"
proof -
  note h = holder_queue[OF inv t]
  have "c = j" using h(3) jk by (simp add: processed_def)
  then have "processed (wthreads s) xs k 0 0" using h(3) by (auto intro: processed_rest)
  then have "inv_at (wstate s) (wthreads s) ((wpcs s)(t := U_scan (wstate s) (queue_head (wstate s)))) xs k 0 0"
    using h t by (intro inv_at_hold[OF inv]) auto
  then show ?thesis by (intro word_invI) simp
qed

lemma scan_keeps:
  assumes inv: "inv_at (wstate s) (wthreads s) (wpcs s) xs k j c" and pc: "wpcs s t = U_scan st q"
  shows "keeps (Some (word_scan_step t st q s))"
proof -
  let ?S = "wthreads s"
  have t: "queue_holder (wpcs s t)" "carries (wpcs s t) = None" using pc by simp_all
  note h = holder_queue[OF inv t]
  have q: "q = xs ! c" "queue_head st = xs ! j" using h(4) pc by simp_all
  obtain td where td: "?S q = Some td" using h(7) q by auto
  show ?thesis
  proof (cases "wqueue_tail td = null")
    case False
    then have "c = k" "wqueue_tail td = last xs" using scan_found[OF h(3,2)] td q by auto
    then have "inv_at (wstate s) ?S ((wpcs s)(t := U_set st (wqueue_tail td))) xs k j c"
      using h t q by (intro inv_at_hold[OF inv]) auto
    then show ?thesis using td False by (auto simp: word_scan_step_def on_thread_def intro: word_invI)
  next
    case True
    have n: "Suc c \<le> k" "Suc c < length xs" "wnext td = xs ! Suc c" using scan_next[OF h(3,2)] td q True by auto
    obtain td' where td': "?S (xs ! Suc c) = Some td'" using linked_nth[OF h(2) n(2)] by blast
    let ?S' = "?S(xs ! Suc c \<mapsto> td'\<lparr>wprev := xs ! c\<rparr>)"
    have "inv_at (wstate s) ?S' ((wpcs s)(t := U_scan st (xs ! Suc c))) xs k j (Suc c)"
      using scan_prev[OF h(3,2) n(1) td'] t q h(1) td' n(2)
      by (intro inv_at_hold[OF inv]) (auto simp: field_upd fun_eq_iff)
    then show ?thesis using td td' True n(3) q(1)
      by (auto simp: word_scan_step_def on_thread_def upd_thread_def intro: word_invI)
  qed
qed

lemma set_tail_keeps:
  assumes inv: "inv_at (wstate s) (wthreads s) (wpcs s) xs k j c" and pc: "wpcs s t = U_set st q"
  shows "keeps (Some (word_set_tail_step t st q s))"
proof -
  let ?S = "wthreads s" and ?pc = "if is_locked st then U_release st else U_take st q"
  have t: "queue_holder (wpcs s t)" "carries (wpcs s t) = None" using pc by simp_all
  note h = holder_queue[OF inv t]
  have q: "queue_head st = xs ! j" "c = k" "q = last xs" using h(4) pc by simp_all
  obtain td where td: "?S (xs ! j) = Some td" using h(6) by blast
  let ?S' = "?S(xs ! j \<mapsto> td\<lparr>wqueue_tail := q\<rparr>)"
  have "j < length xs" using h(3) by (simp add: processed_def)
  then have "inv_at (wstate s) ?S' ((wpcs s)(t := ?pc)) xs j j j"
    using set_tail[OF h(3)[unfolded q(2)] h(2) td, folded q(3)] t q h(1) td
    by (intro inv_at_hold[OF inv]) (auto simp: field_upd fun_eq_iff)
  then show ?thesis using td q(1) by (auto simp: word_set_tail_step_def on_thread_def upd_thread_def intro: word_invI)
qed

lemma release_keeps:
  assumes inv: "inv_at (wstate s) (wthreads s) (wpcs s) xs k j c" and pc: "wpcs s t = U_release st"
  shows "word_inv (word_release_step sp t st s)"
proof -
  have t: "queue_holder (wpcs s t)" "carries (wpcs s t) = None" using pc by simp_all
  note h = holder_queue[OF inv t]
  have q: "j = k" "is_locked st" using h(4) pc by simp_all
  then have "j = c" using h(3) by (simp add: processed_def)
  show ?thesis
  proof (cases "\<not> sp \<and> wstate s = st")
    case True
    then have "inv_at (wstate s AND NOT QUEUE_LOCKED_BIT) (wthreads s) ((wpcs s)(t := W_idle)) xs k j c"
      using q \<open>j = c\<close> t pc by (intro inv_at_leave[OF inv]) auto
    then show ?thesis using True by (intro word_invI) (simp add: word_release_step_def)
  next
    case False
    then show ?thesis using rescan_keeps[OF inv t q(1)] by (auto simp: word_release_step_def)
  qed
qed

lemma take_keeps:
  assumes inv: "inv_at (wstate s) (wthreads s) (wpcs s) xs k j c" and pc: "wpcs s t = U_take st q"
  shows "keeps (Some (word_take_step t st q s))"
proof -
  let ?S = "wthreads s"
  have t: "queue_holder (wpcs s t)" "carries (wpcs s t) = None" using pc by simp_all
  note h = holder_queue[OF inv t]
  have q: "queue_head st = xs ! j" "j = k" "q = last xs" using h(4) pc by simp_all
  have "j = c" using h(3) q(2) by (simp add: processed_def)
  then have pr: "processed ?S xs j j j" using h(3) q(2) by simp
  obtain td where td: "?S q = Some td" using h(8) q(3) by blast
  let ?pc = "if wprev td = null then U_empty st q else U_pop st q (wprev td)"
  have "queue_pc xs j j j ?pc" using tail_prev[OF pr h(2)] td q h(1) by auto
  then have "inv_at (wstate s) ?S ((wpcs s)(t := ?pc)) xs j j j"
    using h t pr by (intro inv_at_hold[OF inv]) auto
  then show ?thesis using td by (auto simp: word_take_step_def on_thread_def intro: word_invI)
qed

lemma empty_keeps:
  assumes inv: "inv_at (wstate s) (wthreads s) (wpcs s) xs k j c" and pc: "wpcs s t = U_empty st q"
  shows "word_inv (word_empty_step sp t st q s)"
proof -
  have t: "queue_holder (wpcs s t)" "carries (wpcs s t) = None" using pc by simp_all
  note h = holder_queue[OF inv t]
  have "j = k" using h(4) pc by simp
  moreover have "queue_head (wstate s) \<noteq> null" using queue_facts(5)[OF inv] h(1) by blast
  ultimately show ?thesis
    using inv_at_empty[of "wstate s" "wthreads s" "wpcs s" xs k j c t q] inv pc rescan_keeps[OF inv t]
    by (auto simp: word_empty_step_def intro: word_invI)
qed

lemma pop_keeps:
  assumes inv: "inv_at (wstate s) (wthreads s) (wpcs s) xs k j c" and pc: "wpcs s t = U_pop st q r"
  shows "keeps (Some (word_pop_step t st q r s))"
proof -
  have t: "queue_holder (wpcs s t)" "carries (wpcs s t) = None" using pc by simp_all
  note h = holder_queue[OF inv t]
  have q: "queue_head st = xs ! j" "j = k" using h(4) pc by simp_all
  obtain td where td: "wthreads s (xs ! j) = Some td" using h(6) by blast
  note inv_at_pop[OF inv[folded q(2)] pc td]
  then show ?thesis using td q(1) by (auto simp: word_pop_step_def on_thread_def upd_thread_def intro: word_invI)
qed

lemma clear_keeps:
  assumes inv: "inv_at (wstate s) (wthreads s) (wpcs s) xs k j c" and pc: "wpcs s t = U_clear q"
  shows "word_inv (word_clear_step t q s)"
proof -
  have "j = c" using queue_facts(4)[OF inv, of t] pc by simp
  then have "inv_at (wstate s AND NOT QUEUE_LOCKED_BIT) (wthreads s) ((wpcs s)(t := U_wake q)) xs k j c"
    using pc by (intro inv_at_leave[OF inv]) auto
  then show ?thesis by (intro word_invI) (simp add: word_clear_step_def)
qed

lemma wake_keeps:
  assumes inv: "inv_at (wstate s) (wthreads s) (wpcs s) xs k j c" and pc: "wpcs s t = U_wake q"
  shows "keeps (Some (word_wake_step t q s))"
proof -
  obtain td where td: "wthreads s q = Some td" using carried_facts(3)[OF inv, of t q] pc by auto
  have e: "wparker_update unpark_lock td = td\<lparr>wparker := unpark_lock (wparker td)\<rparr>" by (cases td) simp
  note inv_at_wake[OF inv pc td, folded e]
  then show ?thesis using td by (auto simp: word_wake_step_def on_thread_def upd_thread_def intro: word_invI)
qed

lemma park_keeps:
  assumes inv: "inv_at (wstate s) (wthreads s) (wpcs s) xs k j c" and pc: "wpcs s t = W_sleep w q"
  shows "keeps (word_park_step t w q s)"
proof -
  have "(record_of \<circ> wpcs s) t = Some q" using pc by simp
  then obtain td where td: "wthreads s q = Some td" using inv_at_parts(3)[OF inv] unfolding inv_records_def by (metis domD ranI)
  show ?thesis
  proof (cases "park_returns (wparker td)")
    case True
    then show ?thesis using td inv_at_park[OF inv pc] by (auto simp: word_park_step_def intro: word_invI)
  qed (use td in \<open>simp add: word_park_step_def\<close>)
qed

lemma run_keeps:
  assumes "word_inv s"
  shows "keeps (word_run_step sp p t s)"
proof -
  obtain xs k j c where inv: "inv_at (wstate s) (wthreads s) (wpcs s) xs k j c" using assms by (auto simp: word_inv_def)
  note steps = lock_keeps[OF inv] lock_slow_keeps[OF inv] enqueue_keeps[OF inv] park_keeps[OF inv] unlock_keeps[OF inv]
    unlock_slow_keeps[OF inv] scan_keeps[OF inv] set_tail_keeps[OF inv] release_keeps[OF inv] take_keeps[OF inv]
    empty_keeps[OF inv] pop_keeps[OF inv] clear_keeps[OF inv] wake_keeps[OF inv]
  show ?thesis
  proof (cases "wpcs s t")
    case (W_top w st)
    then show ?thesis using steps(2) by (cases "word_lock_slow_step sp p t w st s") (auto simp: word_run_step_def)
  next
    case (W_reload w q)
    then show ?thesis using inv_at_drop[OF inv, of t w _ q "spin_wait_reset w" "wstate s"]
      by (auto simp: word_run_step_def word_reload_step_def intro: word_invI)
  next
    case (W_load w)
    then show ?thesis using word_inv_roam[OF inv, of t "W_top w (wstate s)"] by (simp add: word_run_step_def)
  next
    case U_load
    then show ?thesis using word_inv_roam[OF inv, of t "U_top (wstate s)"] queue_facts(5)[OF inv]
      by (auto simp: word_run_step_def)
  qed (use steps in \<open>auto simp: word_run_step_def\<close>)
qed

end
