(* ===== verification/Word_Lock_Props.thy ===== *)
theory Word_Lock_Props
  imports Word_Lock_Safety
begin

text \<open>
  The properties of \<open>WordLock\<close>, read off the invariant of \<open>Word_Lock_Safety\<close>: mutual exclusion, memory
  safety, no lost wake-up, and that an unlock is never stuck, wherever the other threads have left it.
  This is the bucket lock that the models of \<open>park\<close> and \<open>unpark_one\<close> use.
\<close>

lemma word_step_keeps: "word_inv s \<Longrightarrow> keeps (word_step a t s)"
proof (cases a)
  case W_call_lock
  assume "word_inv s"
  then obtain xs k j c where inv: "inv_at (wstate s) (wthreads s) (wpcs s) xs k j c" by (auto simp: word_inv_def)
  show ?thesis using W_call_lock word_inv_roam[OF inv, of t W_lock] by simp
next
  case W_call_unlock
  assume "word_inv s"
  then obtain xs k j c where inv: "inv_at (wstate s) (wthreads s) (wpcs s) xs k j c" by (auto simp: word_inv_def)
  have fl: "exclusive (is_locked (wstate s)) (wowns \<circ> wpcs s)" using inv_at_parts(1)[OF inv] by (simp add: inv_flags_def)
  have "word_inv (wgoto t W_unlock s)" if "wpcs s t = W_held"
  proof -
    have "is_locked (wstate s)" using exclusiveD(1)[OF fl, of t] that by simp
    then have "inv_at (wstate s) (wthreads s) ((wpcs s)(t := W_unlock)) xs k j c"
      using fl that by (intro inv_at_move[OF inv] inv_awake_locked exclusive_same) simp_all
    then show ?thesis by (intro word_invI) simp
  qed
  then show ?thesis using W_call_unlock by simp
qed (use run_keeps in simp)

lemma word_inv_init: "word_inv word_init"
proof -
  have "inv_at (wstate word_init) (wthreads word_init) (wpcs word_init) [] 0 0 0"
    by (simp add: word_init_def inv_at_def inv_flags_def exclusive_def inv_list_def inv_records_def inv_sleep_def
        inv_enqueue_def inv_awake_def ran_def)
  then show ?thesis by (rule word_invI)
qed

interpretation word_runs: inductive_invariant "\<lambda>s. s = word_init" word_trans word_inv
proof
  show "word_inv s" if "s = word_init" for s using that word_inv_init by simp
  show "word_inv s'" if "word_inv s" "word_trans s s'" for s s'
    using that(2) word_step_keeps[OF that(1)] by (auto simp: keeps_def elim: word_transE)
qed

lemma word_flags:
  assumes "word_inv s"
  shows "exclusive (is_locked (wstate s)) (wowns \<circ> wpcs s)"
  using assms by (auto simp: word_inv_def inv_at_def inv_flags_def)

lemma word_actions_reach:
  "reach (\<lambda>s. s = word_init) word_trans s \<Longrightarrow> word_actions as s = Some (Inr s') \<Longrightarrow> reach (\<lambda>s. s = word_init) word_trans s'"
proof (induction as arbitrary: s)
  case (Cons at as)
  obtain a t where at: "at = (a, t)" by (cases at)
  then obtain s1 where "word_step a t s = Some (Inr s1)" "word_actions as s1 = Some (Inr s')"
    using Cons.prems(2) by (auto split: option.splits sum.splits)
  then show ?case using Cons.IH[of s1] Cons.prems(1) by (blast intro: reach_step word_trans.intros)
qed auto

section \<open>Progress\<close>

lemma active_enabled:
  assumes "active (wthreads s) (wpcs s t)" "usable p s"
  shows "word_run_step False p t s \<noteq> None"
proof (cases "wpcs s t")
  case (W_top w st)
  then show ?thesis using assms(2) by (auto simp: word_run_step_def word_lock_slow_step_def split: prod.splits)
next
  case (W_sleep w q)
  then show ?thesis using assms(1)
    by (auto simp: word_run_step_def word_park_step_def asleep_def split: option.splits)
qed (use assms(1) in \<open>simp_all add: word_run_step_def\<close>)

lemma sleeper_progress:
  assumes "word_inv s" "wpcs s t = W_sleep w q" "usable p s"
  shows "\<exists>u. wpcs s u = W_held \<or> word_run_step False p u s \<noteq> None"
proof -
  obtain xs k j c where inv: "inv_at (wstate s) (wthreads s) (wpcs s) xs k j c" using assms(1) by (auto simp: word_inv_def)
  note i = inv_at_parts[OF inv]
  have "q \<in> ran (sleeps \<circ> wpcs s)" using assms(2) sleepers by blast
  then consider "\<not> asleep (wthreads s) q" | "q \<in> set xs" | "q \<in> ran (carries \<circ> wpcs s)"
    using i(4) unfolding inv_sleep_def by blast
  then show ?thesis
  proof cases
    case 1
    then show ?thesis using active_enabled[of s t p] assms(2,3) by auto
  next
    case 2
    then have ne: "xs \<noteq> []" by auto
    show ?thesis
    proof (cases "is_locked (wstate s)")
      case True
      then obtain u where "wowns (wpcs s u)" using exclusiveD(2)[OF word_flags[OF assms(1)]] by auto
      then have "wpcs s u = W_held \<or> word_run_step False p u s \<noteq> None"
        by (cases "wpcs s u") (auto simp: word_run_step_def)
      then show ?thesis by blast
    next
      case False
      then show ?thesis using i(6) ne active_enabled[OF _ assms(3)] unfolding inv_awake_def by blast
    qed
  next
    case 3
    then obtain u where "carries (wpcs s u) = Some q" by (auto simp: ran_def)
    then have "active (wthreads s) (wpcs s u)" by (cases "wpcs s u") auto
    then show ?thesis using active_enabled[OF _ assms(3)] by blast
  qed
qed

section \<open>An unlock on its own\<close>

text \<open>\<open>returns t s\<close>: some number of steps of thread \<open>t\<close>, with no other thread moving, brings it back to idle.\<close>

definition returns :: "tid \<Rightarrow> word_sys \<Rightarrow> bool" where
  "returns t s \<longleftrightarrow> (\<exists>n s'. word_actions (replicate n (W_run False null, t)) s = Some (Inr s') \<and> wpcs s' t = W_idle)"

lemma returns_idle: "wpcs s t = W_idle \<Longrightarrow> returns t s"
  unfolding returns_def by (rule exI[of _ 0]) simp

lemma returns_step:
  assumes "word_run_step False null t s = Some (Inr s')" "returns t s'"
  shows "returns t s"
proof -
  obtain n s'' where "word_actions (replicate n (W_run False null, t)) s' = Some (Inr s'')" "wpcs s'' t = W_idle"
    using assms(2) by (auto simp: returns_def)
  then show ?thesis unfolding returns_def using assms(1) by (intro exI[of _ "Suc n"] exI[of _ s'']) simp
qed

text \<open>A thread inside \<open>unlock\<close>. Its next step always exists, does not fault and keeps the invariant.\<close>

fun unlocking :: "wpc \<Rightarrow> bool" where
  "unlocking W_unlock = True"
| "unlocking U_load = True"
| "unlocking (U_top st) = True"
| "unlocking (U_scan st q) = True"
| "unlocking (U_set st q) = True"
| "unlocking (U_release st) = True"
| "unlocking (U_take st q) = True"
| "unlocking (U_empty st q) = True"
| "unlocking (U_pop st q r) = True"
| "unlocking (U_clear q) = True"
| "unlocking (U_wake q) = True"
| "unlocking _ = False"

lemma unlock_runs:
  assumes "word_inv s" "unlocking (wpcs s t)"
  shows "\<exists>s'. word_run_step False null t s = Some (Inr s') \<and> word_inv s'"
proof -
  have "word_run_step False null t s \<noteq> None" using assms(2) by (cases "wpcs s t") (simp_all add: word_run_step_def)
  then show ?thesis using run_keeps[OF assms(1), of False null t] by (auto simp: keeps_def) (metis sumE)
qed

inductive unprocessed :: "(ptr \<Rightarrow> ptr) \<Rightarrow> (ptr \<Rightarrow> ptr) \<Rightarrow> ptr \<Rightarrow> bool" for tail nxt where
  found: "tail q \<noteq> null \<Longrightarrow> unprocessed tail nxt q"
| walk: "tail q = null \<Longrightarrow> unprocessed tail nxt (nxt q) \<Longrightarrow> unprocessed tail nxt q"

lemma scan_distance:
  assumes p: "processed S xs k j c" and l: "linked S xs" and i: "i \<le> k"
  shows "unprocessed (qt S) (nx S) (xs ! i)"
  using i
proof (induction "k - i" arbitrary: i)
  case 0
  have "last xs \<noteq> null" using p l by (metis last_in_set linked_def list.size(3) not_less0 processed_def)
  then show ?case using 0 p by (intro unprocessed.found) (auto simp: processed_def)
next
  case (Suc d)
  then have "Suc i \<le> k" "Suc i < length xs" using p by (auto simp: processed_def)
  then have "nx S (xs ! i) = xs ! Suc i" "qt S (xs ! i) = null" using p l by (auto simp: processed_def linked_def)
  moreover have "unprocessed (qt S) (nx S) (xs ! Suc i)" using Suc.hyps(1)[of "Suc i"] Suc.hyps(2) \<open>Suc i \<le> k\<close> by simp
  ultimately show ?case by (metis walk)
qed

lemma scan_ends:
  assumes "unprocessed tail nxt q" "tail = qt (wthreads s)" "nxt = nx (wthreads s)" "word_inv s" "wpcs s t = U_scan st q"
    "\<And>s' q'. word_inv s' \<Longrightarrow> wpcs s' t = U_set st q' \<Longrightarrow> wstate s' = wstate s \<Longrightarrow> returns t s'"
  shows "returns t s"
  using assms
proof (induction arbitrary: s rule: unprocessed.induct)
  case (found q)
  note pr = found.prems
  obtain s' where s': "word_run_step False null t s = Some (Inr s')" "word_inv s'" using unlock_runs[OF pr(3), of t] pr(4) by auto
  then obtain td where td: "wthreads s q = Some td"
    using pr(4) by (auto simp: word_run_step_def word_scan_step_def on_thread_def split: option.splits)
  then have "s' = wgoto t (U_set st (wqueue_tail td)) s"
    using s'(1) pr(1,4) found.hyps by (auto simp: word_run_step_def word_scan_step_def on_thread_def)
  then show ?case using returns_step[OF s'(1)] s'(2) pr(5)[of s'] by simp
next
  case (walk q)
  note pr = walk.prems
  obtain s' where s': "word_run_step False null t s = Some (Inr s')" "word_inv s'" using unlock_runs[OF pr(3), of t] pr(4) by auto
  then obtain td where td: "wthreads s q = Some td"
    using pr(4) by (auto simp: word_run_step_def word_scan_step_def on_thread_def split: option.splits)
  then have q: "wqueue_tail td = null" "nxt q = wnext td" using walk.hyps(1) pr(1,2) by auto
  then obtain td' where td': "wthreads s (wnext td) = Some td'"
    using s'(1) pr(4) td by (auto simp: word_run_step_def word_scan_step_def upd_thread_def on_thread_def split: option.splits)
  then have e: "s' = wgoto t (U_scan st (wnext td)) (s\<lparr>wthreads := (wthreads s)(wnext td \<mapsto> td'\<lparr>wprev := q\<rparr>)\<rparr>)"
    using s'(1) pr(4) td q by (auto simp: word_run_step_def word_scan_step_def upd_thread_def on_thread_def)
  have l: "tail = qt (wthreads s')" "nxt = nx (wthreads s')" using e td' pr(1,2) by (auto simp: field_upd)
  have p: "wpcs s' t = U_scan st (nxt q)" "wstate s' = wstate s" using e q(2) by simp_all
  have "returns t s'" by (rule walk.IH[OF l s'(2) p(1)]) (use pr(5) p(2) in simp)
  then show ?case by (rule returns_step[OF s'(1)])
qed

lemma unlocker_scan:
  assumes "word_inv s" "wpcs s t = U_scan st q"
    "\<And>s' q'. word_inv s' \<Longrightarrow> wpcs s' t = U_set st q' \<Longrightarrow> wstate s' = wstate s \<Longrightarrow> returns t s'"
  shows "returns t s"
proof -
  obtain xs k j c where inv: "inv_at (wstate s) (wthreads s) (wpcs s) xs k j c" using assms(1) by (auto simp: word_inv_def)
  have "queue_holder (wpcs s t)" "carries (wpcs s t) = None" using assms(2) by simp_all
  note h = holder_queue[OF inv this]
  have "q = xs ! c" "c \<le> k" using h(3,4) assms(2) by (simp_all add: processed_def)
  then show ?thesis using scan_ends[OF scan_distance[OF h(3,2)], of c s t st] assms by simp
qed

lemma wake_returns:
  assumes "word_inv s" "wpcs s t = U_wake q"
  shows "returns t s"
proof -
  obtain s' where s': "word_run_step False null t s = Some (Inr s')" using unlock_runs[of s t] assms by auto
  then have "wpcs s' t = W_idle" using assms(2)
    by (auto simp: word_run_step_def word_wake_step_def)
  then show ?thesis by (rule returns_step[OF s' returns_idle])
qed

lemma clear_returns:
  assumes "word_inv s" "wpcs s t = U_clear q"
  shows "returns t s"
proof -
  obtain s1 where s1: "word_run_step False null t s = Some (Inr s1)" "word_inv s1" using unlock_runs[of s t] assms by auto
  then have "wpcs s1 t = U_wake q" using assms(2) by (auto simp: word_run_step_def word_clear_step_def)
  then show ?thesis using returns_step[OF s1(1)] wake_returns[OF s1(2)] by blast
qed

lemma pop_returns:
  assumes "word_inv s" "wpcs s t = U_pop st q r"
  shows "returns t s"
proof -
  obtain s1 where s1: "word_run_step False null t s = Some (Inr s1)" "word_inv s1" using unlock_runs[of s t] assms by auto
  then have "wpcs s1 t = U_clear q" using assms(2) by (auto simp: word_run_step_def word_pop_step_def)
  then show ?thesis using returns_step[OF s1(1)] clear_returns[OF s1(2)] by blast
qed

text \<open>
  The positions that depend on a local copy of the word. With an up-to-date copy the unlock ends; with a
  stale one it reloads the copy and scans once more.
\<close>

definition rescan :: "tid \<Rightarrow> usize \<Rightarrow> usize \<Rightarrow> bool" where
  "rescan t st w \<longleftrightarrow> (\<forall>s. word_inv s \<longrightarrow> wpcs s t = U_scan w (queue_head w) \<longrightarrow> wstate s = w \<longrightarrow> st \<noteq> w \<longrightarrow> returns t s)"

lemma rescan_fresh: "rescan t w w"
  by (simp add: rescan_def)

lemma release_returns:
  assumes "word_inv s" "wpcs s t = U_release st" "rescan t st (wstate s)"
  shows "returns t s"
proof -
  obtain s1 where s1: "word_run_step False null t s = Some (Inr s1)" "word_inv s1" using unlock_runs[of s t] assms by auto
  then have "s1 = word_release_step False t st s" using assms(2) by (simp add: word_run_step_def)
  then have "returns t s1" using assms(3) s1(2) by (auto simp: word_release_step_def rescan_def intro: returns_idle split: if_splits)
  then show ?thesis by (rule returns_step[OF s1(1)])
qed

lemma empty_returns:
  assumes "word_inv s" "wpcs s t = U_empty st q" "rescan t st (wstate s)"
  shows "returns t s"
proof -
  obtain s1 where s1: "word_run_step False null t s = Some (Inr s1)" "word_inv s1" using unlock_runs[of s t] assms by auto
  obtain xs k j c where inv: "inv_at (wstate s) (wthreads s) (wpcs s) xs k j c" using assms(1) by (auto simp: word_inv_def)
  have "queue_head (wstate s) \<noteq> null" using holder_queue(1)[OF inv, of t] queue_facts(5)[OF inv] assms(2) by simp
  then have "wpcs s1 t = U_wake q \<or> (wpcs s1 t = U_scan (wstate s) (queue_head (wstate s)) \<and> wstate s1 = wstate s \<and> st \<noteq> wstate s)"
    using s1(1) assms(2) by (auto simp: word_run_step_def word_empty_step_def)
  then have "returns t s1" using wake_returns[OF s1(2)] assms(3) s1(2) unfolding rescan_def by blast
  then show ?thesis by (rule returns_step[OF s1(1)])
qed

lemma take_returns:
  assumes "word_inv s" "wpcs s t = U_take st q" "rescan t st (wstate s)"
  shows "returns t s"
proof -
  obtain s1 where s1: "word_run_step False null t s = Some (Inr s1)" "word_inv s1" using unlock_runs[of s t] assms by auto
  then have "wpcs s1 t = U_empty st q \<or> (\<exists>r. wpcs s1 t = U_pop st q r)" "wstate s1 = wstate s"
    using assms(2) by (auto simp: word_run_step_def word_take_step_def on_thread_def split: option.splits if_splits)
  then have "returns t s1" using empty_returns[OF s1(2)] pop_returns[OF s1(2)] assms(3) by metis
  then show ?thesis by (rule returns_step[OF s1(1)])
qed

lemma set_returns:
  assumes "word_inv s" "wpcs s t = U_set st q" "rescan t st (wstate s)"
  shows "returns t s"
proof -
  obtain s1 where s1: "word_run_step False null t s = Some (Inr s1)" "word_inv s1" using unlock_runs[of s t] assms by auto
  then have "wpcs s1 t = (if is_locked st then U_release st else U_take st q)" "wstate s1 = wstate s"
    using assms(2) by (auto simp: word_run_step_def word_set_tail_step_def upd_thread_def on_thread_def split: option.splits)
  then have "returns t s1" using release_returns[OF s1(2)] take_returns[OF s1(2)] assms(3) by metis
  then show ?thesis by (rule returns_step[OF s1(1)])
qed

lemma rescan_returns: "rescan t st w"
  unfolding rescan_def
proof (intro allI impI)
  fix s
  assume s: "word_inv s" "wpcs s t = U_scan w (queue_head w)" and w: "wstate s = w"
  show "returns t s"
    by (rule unlocker_scan[OF s]) (metis set_returns rescan_fresh w)
qed

lemma scan_returns:
  assumes "word_inv s" "wpcs s t = U_scan st q"
  shows "returns t s"
  by (rule unlocker_scan[OF assms]) (blast intro: set_returns rescan_returns)

lemma top_returns:
  assumes "word_inv s" "wpcs s t = U_top st"
  shows "returns t s"
proof -
  have step: "wpcs s' t = W_idle \<or> (\<exists>q. wpcs s' t = U_scan st q) \<or> (st \<noteq> wstate s \<and> wpcs s' t = U_top (wstate s) \<and> wstate s' = wstate s)"
    if "word_run_step False null t s = Some (Inr s')" "wpcs s t = U_top st" for s s' st
    using that by (cases "st = wstate s") (auto simp: word_run_step_def word_unlock_slow_step_def Let_def split: if_splits)
  have fresh: "returns t s" if f: "word_inv s" "wpcs s t = U_top (wstate s)" for s
  proof -
    obtain s1 where s1: "word_run_step False null t s = Some (Inr s1)" "word_inv s1" using unlock_runs[of s t] f by auto
    then show ?thesis using returns_step[OF s1(1)] returns_idle scan_returns[OF s1(2)] step[OF s1(1) f(2)] by blast
  qed
  obtain s1 where s1: "word_run_step False null t s = Some (Inr s1)" "word_inv s1" using unlock_runs[of s t] assms by auto
  then show ?thesis using returns_step[OF s1(1)] returns_idle scan_returns[OF s1(2)] fresh[OF s1(2)] step[OF s1(1) assms(2)] by metis
qed

lemma load_returns:
  assumes "word_inv s" "wpcs s t = U_load"
  shows "returns t s"
proof -
  obtain s1 where s1: "word_run_step False null t s = Some (Inr s1)" "word_inv s1" using unlock_runs[of s t] assms by auto
  then have "wpcs s1 t = U_top (wstate s)" using assms(2) by (auto simp: word_run_step_def)
  then show ?thesis by (rule returns_step[OF s1(1) top_returns[OF s1(2)]])
qed

lemma unlock_returns:
  assumes "word_inv s" "wpcs s t = W_unlock"
  shows "returns t s"
proof -
  obtain s1 where s1: "word_run_step False null t s = Some (Inr s1)" "word_inv s1" using unlock_runs[of s t] assms by auto
  then have "wpcs s1 t = W_idle \<or> wpcs s1 t = U_load" using assms(2) by (auto simp: word_run_step_def word_unlock_step_def Let_def split: if_splits)
  then show ?thesis using returns_step[OF s1(1)] returns_idle load_returns[OF s1(2)] by blast
qed

lemmas inside_returns = unlock_returns load_returns top_returns scan_returns set_returns[OF _ _ rescan_returns]
  release_returns[OF _ _ rescan_returns] take_returns[OF _ _ rescan_returns] empty_returns[OF _ _ rescan_returns]
  pop_returns clear_returns wake_returns

section \<open>Properties\<close>

text \<open>
  A run in which thread 1 takes the lock, thread 2 spins and goes to sleep with its record at address 8, thread 3
  finds a queue and goes to sleep at once with its record at address 16.
\<close>

definition word_run :: "(waction \<times> tid) list" where
  "word_run = [(W_call_lock, 1), (W_run False 8, 1), (W_call_lock, 2)] @ replicate 24 (W_run False 8, 2) @
     [(W_call_lock, 3)] @ replicate 4 (W_run False 16, 3)"

definition word_demo :: word_sys where
  "word_demo = (case word_actions word_run word_init of Some (Inr s) \<Rightarrow> s | _ \<Rightarrow> word_init)"

lemma word_run_facts:
  "(case word_actions word_run word_init of Some (Inr s) \<Rightarrow>
      wpcs s 1 = W_held \<and> (case wpcs s 2 of W_sleep w p \<Rightarrow> p = 8 | _ \<Rightarrow> False) \<and>
      (case wpcs s 3 of W_sleep w p \<Rightarrow> p = 16 | _ \<Rightarrow> False) \<and> usable 32 s | _ \<Rightarrow> False)"
  by code_simp

lemma word_demo_facts:
  "wpcs word_demo 1 = W_held" "\<exists>w. wpcs word_demo 2 = W_sleep w 8" "\<exists>w. wpcs word_demo 3 = W_sleep w 16" "usable 32 word_demo"
  using word_run_facts by (auto simp: word_demo_def split: option.splits sum.splits wpc.splits)

lemma word_demo_reachable: "reach (\<lambda>s. s = word_init) word_trans word_demo"
proof -
  obtain s where "word_actions word_run word_init = Some (Inr s)"
    using word_run_facts by (auto split: option.splits sum.splits)
  then show ?thesis using word_actions_reach[OF reach_init, of word_init word_run s] by (simp add: word_demo_def)
qed

text \<open>
  C9. Mutual exclusion of the bucket lock: in every state that threads reach by calling \<open>lock\<close> and \<open>unlock\<close> of one
  \<open>WordLock\<close>, in any interleaving of their accesses and with spurious failures of the weak
  compare-exchanges, at most one thread is between the two, and the locked bit is set exactly then.
\<close>

theorem word_lock_exclusive:
  assumes "reach (\<lambda>s. s = word_init) word_trans s"
  shows "(wpcs s t = W_held \<and> wpcs s u = W_held \<longrightarrow> t = u) \<and>
    (is_locked (wstate s) \<longleftrightarrow> (\<exists>t. wpcs s t = W_held \<or> wpcs s t = W_unlock))"
proof -
  note ex = word_flags[OF word_runs.reach_inv[OF assms]]
  have o: "wowns pc \<longleftrightarrow> pc = W_held \<or> pc = W_unlock" for pc by (cases pc) auto
  show ?thesis using exclusiveD(3)[OF ex, of t u] exclusiveD(1,2)[OF ex] by (auto simp: o)
qed

theorem word_lock_exclusive_witness: "is_locked (wstate word_demo) \<and> wpcs word_demo 2 \<noteq> W_held"
  using word_lock_exclusive[OF word_demo_reachable, of 1 2] word_demo_facts(1,2) by auto

text \<open>
  C10. Memory safety of the bucket lock: the records of the queue live on the stacks of sleeping threads and
  are used by other threads through raw pointers; in no reachable state does any step of any thread touch
  a record that does not exist (any more), whatever addresses the records get.
\<close>

theorem word_lock_no_dangling:
  assumes "reach (\<lambda>s. s = word_init) word_trans s"
  shows "word_step a t s \<noteq> Some (Inl f)"
  using word_step_keeps[OF word_runs.reach_inv[OF assms]] by (auto simp: keeps_def)

theorem word_lock_no_dangling_witness: "word_step W_call_unlock 1 word_demo \<noteq> Some (Inl Dangling)"
  by (rule word_lock_no_dangling[OF word_demo_reachable])

text \<open>
  C14. No lost wake-up of the bucket lock: whenever a thread sleeps in the queue of a reachable state, some
  thread holds the lock (and its \<open>unlock\<close> is still to come) or some thread can take a step right away,
  provided there is an unused address for the record of a thread that wants to enter the queue.
\<close>

theorem word_lock_no_lost_wakeup:
  assumes "reach (\<lambda>s. s = word_init) word_trans s" "wpcs s t = W_sleep w q" "usable p s"
  shows "\<exists>u. wpcs s u = W_held \<or> word_run_step False p u s \<noteq> None"
  by (rule sleeper_progress[OF word_runs.reach_inv[OF assms(1)] assms(2,3)])

theorem word_lock_no_lost_wakeup_witness:
  "\<exists>u. wpcs word_demo u = W_held \<or> word_run_step False 32 u word_demo \<noteq> None"
proof -
  obtain w where "wpcs word_demo 2 = W_sleep w 8" using word_demo_facts(2) by blast
  then show ?thesis by (rule word_lock_no_lost_wakeup[OF word_demo_reachable _ word_demo_facts(4)])
qed

text \<open>
  C29. An unlock is never stuck: in every reachable state a thread that is inside \<open>unlock\<close>, at any position and
  whatever the other threads did before, comes back from it after finitely many of its own steps if it then
  runs alone and none of its weak compare-exchanges fails spuriously, however long the queue is. The
  compare-exchange loops end, with a local copy of the word that is out of date as well, and so does the
  walk over the records of the queue. (While other threads keep changing the word the loops may go on.)
\<close>

theorem word_unlock_terminates:
  assumes "reach (\<lambda>s. s = word_init) word_trans s" "unlocking (wpcs s t)"
  shows "\<exists>n s'. word_actions (replicate n (W_run False null, t)) s = Some (Inr s') \<and> wpcs s' t = W_idle"
proof -
  have "word_inv s" by (rule word_runs.reach_inv[OF assms(1)])
  then have "returns t s" using assms(2) by (cases "wpcs s t") (simp_all add: inside_returns)
  then show ?thesis by (simp add: returns_def)
qed

text \<open>The run continued: the holder unlocks, takes the queue lock and is about to walk over two records.\<close>

theorem word_unlock_terminates_witness:
  "\<exists>s n s'. word_actions (word_run @ (W_call_unlock, 1) # replicate 3 (W_run False 32, 1)) word_init = Some (Inr s) \<and>
     (\<exists>st. wpcs s 1 = U_scan st 16) \<and>
     word_actions (replicate n (W_run False null, 1)) s = Some (Inr s') \<and> wpcs s' 1 = W_idle"
proof -
  let ?as = "word_run @ (W_call_unlock, 1) # replicate 3 (W_run False 32, 1)"
  have "case word_actions ?as word_init of Some (Inr s) \<Rightarrow> (case wpcs s 1 of U_scan st q \<Rightarrow> q = 16 | _ \<Rightarrow> False) | _ \<Rightarrow> False"
    by code_simp
  then obtain s st where s: "word_actions ?as word_init = Some (Inr s)" "wpcs s 1 = U_scan st 16"
    by (auto split: option.splits sum.splits wpc.splits)
  have "reach (\<lambda>s. s = word_init) word_trans s" using word_actions_reach[OF reach_init s(1)] by simp
  then show ?thesis using word_unlock_terminates[of s 1] s by auto
qed

end
