(* ===== verification/Backoff.thy ===== *)
theory Backoff
  imports Prelude
begin

text \<open>
  \<open>Backoff\<close> of \<open>backoff.rs\<close>: the counter that the loops of \<open>CoQueue\<close> use between two attempts. Each call returns what it
  does to the processor or the scheduler and the updated counter. The condition variable that \<open>nap\<close> creates
  and drops at once has no effect.
\<close>

definition SPIN_LIMIT :: u32 where "SPIN_LIMIT = 6"
definition YIELD_LIMIT :: u32 where "YIELD_LIMIT = 10"

record backoff =
  step :: u32

datatype pause = Spin_hints nat | Yield_now

definition backoff_new :: backoff where
  "backoff_new = \<lparr>step = 0\<rparr>"

definition backoff_reset :: "backoff \<Rightarrow> backoff" where
  "backoff_reset b = b\<lparr>step := 0\<rparr>"

definition backoff_spin :: "backoff \<Rightarrow> pause \<times> backoff" where
  "backoff_spin b =
    (Spin_hints (2 ^ unat (min (step b) SPIN_LIMIT)),
     if step b \<le> SPIN_LIMIT then b\<lparr>step := step b + 1\<rparr> else b)"

definition backoff_nap :: "backoff \<Rightarrow> pause \<times> backoff" where
  "backoff_nap b =
    (if step b \<le> SPIN_LIMIT then Spin_hints (2 ^ unat (step b)) else Yield_now,
     if step b \<le> YIELD_LIMIT then b\<lparr>step := step b + 1\<rparr> else b)"

definition is_completed :: "backoff \<Rightarrow> bool" where
  "is_completed b \<longleftrightarrow> step b > YIELD_LIMIT"

text \<open>A sequence of calls: \<open>True\<close> is \<open>nap\<close>, \<open>False\<close> is \<open>spin\<close>.\<close>

fun pauses :: "bool list \<Rightarrow> backoff \<Rightarrow> pause list \<times> backoff" where
  "pauses [] b = ([], b)"
| "pauses (c # cs) b =
     (case (if c then backoff_nap b else backoff_spin b) of (p, b') \<Rightarrow>
      case pauses cs b' of (ps, b'') \<Rightarrow> (p # ps, b''))"

lemmas backoff_defs = backoff_spin_def backoff_nap_def SPIN_LIMIT_def YIELD_LIMIT_def word_le_nat_alt word_less_nat_alt min_def

definition hint_ok :: "pause \<Rightarrow> bool" where
  "hint_ok p \<longleftrightarrow> (case p of Spin_hints n \<Rightarrow> n \<in> {1, 2, 4, 8, 16, 32, 64} | Yield_now \<Rightarrow> True)"

lemma unat_step_Suc: "unat (step b) < 12 \<Longrightarrow> unat (step b + 1) = Suc (unat (step b))"
  by (simp add: unat_word_ariths)

lemma small_power: "(2 :: nat) ^ n \<in> {1, 2, 4, 8, 16, 32, 64}" if "n \<le> 6"
proof -
  have "n \<in> set [0..<7]" using that by simp
  then show ?thesis by (simp add: upt_conv_Cons) auto
qed

lemma pause_step:
  assumes "unat (step b) \<le> 11" "(p, b') = (if c then backoff_nap b else backoff_spin b)"
  shows "unat (step b') = (if c then min 11 (Suc (unat (step b))) else max (unat (step b)) (min 7 (Suc (unat (step b)))))" "hint_ok p"
  using assms unat_step_Suc[of b] small_power[of "unat (step b)"] small_power[of 6]
  by (auto simp: backoff_defs hint_ok_def split: if_splits)

lemma pauses_bounded:
  "unat (step b) \<le> 11 \<Longrightarrow> unat (step (snd (pauses cs b))) \<le> 11 \<and> list_all hint_ok (fst (pauses cs b))"
proof (induction cs arbitrary: b)
  case (Cons c cs)
  obtain p b' where pb: "(if c then backoff_nap b else backoff_spin b) = (p, b')" by (cases "if c then backoff_nap b else backoff_spin b")
  note st = pause_step[OF Cons.prems pb[symmetric]]
  have "unat (step b') \<le> 11" using st(1) Cons.prems by (auto simp: min_def max_def split: if_splits)
  then show ?case using Cons.IH[of b'] st(2) pb by (auto split: prod.splits)
qed simp

lemma pauses_same:
  "unat (step b) \<le> 11 \<Longrightarrow> unat (step (snd (pauses (replicate n c) b))) =
    (if c then min 11 (n + unat (step b)) else max (unat (step b)) (min 7 (n + unat (step b))))"
proof (induction n arbitrary: b)
  case (Suc n)
  obtain p b' where pb: "(if c then backoff_nap b else backoff_spin b) = (p, b')" by (cases "if c then backoff_nap b else backoff_spin b")
  note st = pause_step(1)[OF Suc.prems pb[symmetric]]
  have "unat (step b') \<le> 11" using st Suc.prems by (auto simp: min_def max_def split: if_splits)
  then show ?case using Suc.IH[of b'] st pb by (auto simp: min_def max_def split: prod.splits if_splits)
qed (simp add: min_def max_def)

text \<open>
  C40. Backing off is bounded: after any mixture of \<open>spin\<close> and \<open>nap\<close> calls the counter is at most 11, so its increment never
  overflows, and every call spins at most 64 times or yields. Napping alone completes the backoff after
  exactly eleven calls, spinning alone never does.
\<close>

theorem backoff_bounded:
  "unat (step (snd (pauses cs backoff_new))) \<le> 11 \<and> list_all hint_ok (fst (pauses cs backoff_new)) \<and>
   (is_completed (snd (pauses (replicate n True) backoff_new)) \<longleftrightarrow> 11 \<le> n) \<and>
   \<not> is_completed (snd (pauses (replicate n False) backoff_new))"
  using pauses_bounded[of backoff_new cs] pauses_same[of backoff_new n True] pauses_same[of backoff_new n False]
  by (simp add: backoff_new_def is_completed_def YIELD_LIMIT_def word_less_nat_alt) linarith

end
