(* ===== verification/Co_Steps.thy ===== *)
theory Co_Steps
  imports Co_Queue
begin

text \<open>
  \<open>CoQueue\<close> used by many threads at once. Every access to shared memory of \<open>push\<close>, \<open>pop\<close>, \<open>is_empty\<close> and
  \<open>len\<close> (\<open>lockless_queue.rs\<close>) is one step of a thread, and the steps of the threads interleave in any
  order: memory is sequentially consistent. A thread is at a point of the operation it executes, with
  the local variables of the operation as registers. The weak compare-exchange may fail at any time.
  Two history variables record what happened and are never read by a step: the elements in the order
  in which their indices were claimed, and the chunks in the order in which they were linked in.
\<close>

section \<open>Threads\<close>

datatype 'a call = Call_push 'a | Call_pop | Call_is_empty | Call_len
datatype 'a answer = Pushed | Popped "'a option" | Emptiness bool | Length usize

text \<open>
  Where \<open>push\<close> is: about to load the tail index, to load the tail chunk, to decide what the index asks
  for, to allocate the first chunk, to publish it, to hand it to the head, to claim the index; then,
  with the index claimed, to store the next chunk, the index behind the end of the chunk and the link,
  to write the value and to mark it written; and to drop a chunk that was not needed.
\<close>

datatype push_at = P_index | P_chunk | P_check | P_first | P_cas_chunk | P_head | P_cas
  | P_tchunk | P_tindex | P_next | P_value | P_write | P_drop

record push_regs =
  ctail :: usize
  cchunk :: ptr
  cspare :: "ptr option"
  cnew :: ptr

datatype pop_at = O_index | O_chunk | O_check | O_tail | O_cas
  | O_wait_next | O_next_next | O_hchunk | O_hindex | O_wait_write | O_read
  | O_mark | O_scan nat | O_flag nat | O_free

record 'a pop_regs =
  chead :: usize
  cochunk :: ptr
  cnhead :: usize
  cnextp :: ptr
  cnidx :: usize
  citem :: "'a option"

datatype len_at = L_tail | L_head | L_again

datatype 'a thread =
    Idle
  | Push 'a push_at push_regs
  | Pop pop_at "'a pop_regs"
  | Emptying "usize option"
  | Counting len_at usize usize
  | Answered "'a answer"
  | Failed "'a call" fault

text \<open>What a step means for the history of the queue.\<close>

datatype 'a remark = Quiet | Linked ptr | Enqueued 'a | Dequeued | Seen_empty

definition start_of :: "'a call \<Rightarrow> 'a thread" where
  "start_of c =
    (case c of
       Call_push x \<Rightarrow> Push x P_index \<lparr>ctail = 0, cchunk = null, cspare = None, cnew = null\<rparr>
     | Call_pop \<Rightarrow> Pop O_index \<lparr>chead = 0, cochunk = null, cnhead = 0, cnextp = null, cnidx = 0, citem = None\<rparr>
     | Call_is_empty \<Rightarrow> Emptying None
     | Call_len \<Rightarrow> Counting L_tail 0 0)"

type_synonym 'a step_result = "('a thread \<times> 'a co_queue \<times> 'a remark) outcome"

section \<open>push\<close>

definition push_check :: "'a chunk allocator \<Rightarrow> 'a \<Rightarrow> push_regs \<Rightarrow> 'a co_queue \<Rightarrow> 'a step_result" where
  "push_check alloc x r q =
    (let offset = offset_of (ctail r); go = (\<lambda>r. Push x (if cchunk r = null then P_first else P_cas) r) in
     if offset = CHUNK_CAP then Inr (Push x P_index r, q, Quiet)
     else if offset + 1 = CHUNK_CAP \<and> cspare r = None then
       obind (new_chunk alloc q) (\<lambda>(p, q). Inr (go (r\<lparr>cspare := Some p\<rparr>), q, Quiet))
     else Inr (go r, q, Quiet))"

definition push_cas_chunk :: "'a \<Rightarrow> push_regs \<Rightarrow> 'a co_queue \<Rightarrow> 'a step_result" where
  "push_cas_chunk x r q =
    (if tchunk q = cchunk r then Inr (Push x P_head r, q\<lparr>tchunk := cnew r\<rparr>, Linked (cnew r))
     else obind (case cspare r of None \<Rightarrow> Inr q | Some old \<Rightarrow> free_chunk old q) (\<lambda>q.
       Inr (Push x P_index (r\<lparr>cspare := Some (cnew r)\<rparr>), q, Quiet)))"

definition push_cas :: "bool \<Rightarrow> 'a \<Rightarrow> push_regs \<Rightarrow> 'a co_queue \<Rightarrow> 'a step_result" where
  "push_cas spurious x r q =
    obind (checked_add (ctail r) (push_bit SHIFT 1)) (\<lambda>new_tail.
      if \<not> spurious \<and> tindex q = ctail r then
        Inr (Push x (if offset_of (ctail r) + 1 = CHUNK_CAP then P_tchunk else P_value) r,
             q\<lparr>tindex := new_tail\<rparr>, Enqueued x)
      else Inr (Push x P_chunk (r\<lparr>ctail := tindex q\<rparr>), q, Quiet))"

fun push_step :: "'a chunk allocator \<Rightarrow> bool \<Rightarrow> 'a \<Rightarrow> push_at \<Rightarrow> push_regs \<Rightarrow> 'a co_queue \<Rightarrow> 'a step_result" where
  "push_step alloc spurious x P_index r q = Inr (Push x P_chunk (r\<lparr>ctail := tindex q\<rparr>), q, Quiet)"
| "push_step alloc spurious x P_chunk r q = Inr (Push x P_check (r\<lparr>cchunk := tchunk q\<rparr>), q, Quiet)"
| "push_step alloc spurious x P_check r q = push_check alloc x r q"
| "push_step alloc spurious x P_first r q =
     obind (new_chunk alloc q) (\<lambda>(p, q). Inr (Push x P_cas_chunk (r\<lparr>cnew := p\<rparr>), q, Quiet))"
| "push_step alloc spurious x P_cas_chunk r q = push_cas_chunk x r q"
| "push_step alloc spurious x P_head r q =
     Inr (Push x P_cas (r\<lparr>cchunk := cnew r\<rparr>), q\<lparr>hchunk := cnew r\<rparr>, Quiet)"
| "push_step alloc spurious x P_cas r q = push_cas spurious x r q"
| "push_step alloc spurious x P_tchunk r q =
     (case cspare r of
        None \<Rightarrow> Inl Panic
      | Some next_chunk \<Rightarrow> Inr (Push x P_tindex r, q\<lparr>tchunk := next_chunk\<rparr>, Linked next_chunk))"
| "push_step alloc spurious x P_tindex r q =
     Inr (Push x P_next r, q\<lparr>tindex := ctail r + push_bit SHIFT 1 + push_bit SHIFT 1\<rparr>, Quiet)"
| "push_step alloc spurious x P_next r q =
     (case cspare r of
        None \<Rightarrow> Inl Panic
      | Some next_chunk \<Rightarrow> obind (upd_chunk (cchunk r) (cnext_update (\<lambda>_. next_chunk)) q) (\<lambda>q.
          Inr (Push x P_value (r\<lparr>cspare := None\<rparr>), q, Quiet)))"
| "push_step alloc spurious x P_value r q =
     obind (write_slot (cchunk r) (offset_of (ctail r)) (svalue_update (\<lambda>_. Some x)) q) (\<lambda>q.
       Inr (Push x P_write r, q, Quiet))"
| "push_step alloc spurious x P_write r q =
     obind (write_slot (cchunk r) (offset_of (ctail r)) (sstate_update (\<lambda>w. w OR WRITE)) q) (\<lambda>q.
       Inr (if cspare r = None then Answered Pushed else Push x P_drop r, q, Quiet))"
| "push_step alloc spurious x P_drop r q =
     (case cspare r of
        None \<Rightarrow> Inr (Answered Pushed, q, Quiet)
      | Some p \<Rightarrow> obind (free_chunk p q) (\<lambda>q. Inr (Answered Pushed, q, Quiet)))"

section \<open>pop\<close>

definition pop_ready :: "'a pop_regs \<Rightarrow> 'a thread" where
  "pop_ready r = Pop (if cochunk r = null then O_index else O_cas) r"

definition pop_check :: "'a pop_regs \<Rightarrow> 'a co_queue \<Rightarrow> 'a step_result" where
  "pop_check r q =
    (if offset_of (chead r) = CHUNK_CAP then Inr (Pop O_index r, q, Quiet)
     else obind (checked_add (chead r) (push_bit SHIFT 1)) (\<lambda>new_head.
       if new_head AND HAS_NEXT = 0 then Inr (Pop O_tail (r\<lparr>cnhead := new_head\<rparr>), q, Quiet)
       else Inr (pop_ready (r\<lparr>cnhead := new_head\<rparr>), q, Quiet)))"

definition pop_tail :: "'a pop_regs \<Rightarrow> 'a co_queue \<Rightarrow> 'a step_result" where
  "pop_tail r q =
    (let tail = tindex q in
     if drop_bit SHIFT (chead r) = drop_bit SHIFT tail then Inr (Answered (Popped None), q, Seen_empty)
     else if drop_bit SHIFT (chead r) div LAP \<noteq> drop_bit SHIFT tail div LAP
     then Inr (pop_ready (r\<lparr>cnhead := cnhead r OR HAS_NEXT\<rparr>), q, Quiet)
     else Inr (pop_ready r, q, Quiet))"

definition pop_cas :: "bool \<Rightarrow> 'a pop_regs \<Rightarrow> 'a co_queue \<Rightarrow> 'a step_result" where
  "pop_cas spurious r q =
    (if \<not> spurious \<and> hindex q = chead r then
       Inr (Pop (if offset_of (chead r) + 1 = CHUNK_CAP then O_wait_next else O_wait_write) r,
            q\<lparr>hindex := cnhead r\<rparr>, Dequeued)
     else Inr (Pop O_chunk (r\<lparr>chead := hindex q\<rparr>), q, Quiet))"

text \<open>One iteration of the loops of \<open>Chunk::wait_next\<close> and \<open>Slot::wait_write\<close>.\<close>

definition wait_next_step :: "'a pop_regs \<Rightarrow> 'a co_queue \<Rightarrow> 'a step_result" where
  "wait_next_step r q = obind (read_chunk (cochunk r) q) (\<lambda>ch.
     Inr (if cnext ch = null then Pop O_wait_next r else Pop O_next_next (r\<lparr>cnextp := cnext ch\<rparr>), q, Quiet))"

definition wait_write_step :: "'a pop_regs \<Rightarrow> 'a co_queue \<Rightarrow> 'a step_result" where
  "wait_write_step r q = obind (read_slot (cochunk r) (unat (offset_of (chead r))) q) (\<lambda>s.
     Inr (Pop (if sstate s AND WRITE = 0 then O_wait_write else O_read) r, q, Quiet))"

text \<open>The loop of \<open>Chunk::destroy\<close> at index \<open>i\<close>: the next slot to look at, or the end of the loop.\<close>

definition scan_from :: "nat \<Rightarrow> pop_at" where
  "scan_from i = (if i < unat CHUNK_CAP then O_scan i else O_free)"

fun pop_step :: "bool \<Rightarrow> pop_at \<Rightarrow> 'a pop_regs \<Rightarrow> 'a co_queue \<Rightarrow> 'a step_result" where
  "pop_step spurious O_index r q = Inr (Pop O_chunk (r\<lparr>chead := hindex q\<rparr>), q, Quiet)"
| "pop_step spurious O_chunk r q = Inr (Pop O_check (r\<lparr>cochunk := hchunk q\<rparr>), q, Quiet)"
| "pop_step spurious O_check r q = pop_check r q"
| "pop_step spurious O_tail r q = pop_tail r q"
| "pop_step spurious O_cas r q = pop_cas spurious r q"
| "pop_step spurious O_wait_next r q = wait_next_step r q"
| "pop_step spurious O_next_next r q =
     obind (read_chunk (cnextp r) q) (\<lambda>ch.
       let next_idx = (cnhead r AND NOT HAS_NEXT) + push_bit SHIFT 1
       in Inr (Pop O_hchunk (r\<lparr>cnidx := if cnext ch \<noteq> null then next_idx OR HAS_NEXT else next_idx\<rparr>), q, Quiet))"
| "pop_step spurious O_hchunk r q = Inr (Pop O_hindex r, q\<lparr>hchunk := cnextp r\<rparr>, Quiet)"
| "pop_step spurious O_hindex r q = Inr (Pop O_wait_write r, q\<lparr>hindex := cnidx r\<rparr>, Quiet)"
| "pop_step spurious O_wait_write r q = wait_write_step r q"
| "pop_step spurious O_read r q =
     obind (read_slot (cochunk r) (unat (offset_of (chead r))) q) (\<lambda>s.
       case svalue s of
         None \<Rightarrow> Inl Uninitialised
       | Some v \<Rightarrow> Inr (Pop (if offset_of (chead r) + 1 = CHUNK_CAP then scan_from 0 else O_mark)
                     (r\<lparr>citem := Some v\<rparr>), q, Quiet))"
| "pop_step spurious O_mark r q =
     obind (read_slot (cochunk r) (unat (offset_of (chead r))) q) (\<lambda>s.
     obind (write_slot (cochunk r) (offset_of (chead r)) (sstate_update (\<lambda>w. w OR READ)) q) (\<lambda>q.
       Inr (if sstate s AND DESTROY \<noteq> 0 then Pop (scan_from (unat (offset_of (chead r) + 1))) r
            else Answered (Popped (citem r)), q, Quiet)))"
| "pop_step spurious (O_scan i) r q =
     obind (read_slot (cochunk r) i q) (\<lambda>s.
       Inr (Pop (if sstate s AND READ = 0 then O_flag i else scan_from (Suc i)) r, q, Quiet))"
| "pop_step spurious (O_flag i) r q =
     obind (read_slot (cochunk r) i q) (\<lambda>s.
     obind (write_slot (cochunk r) (word_of_nat i) (sstate_update (\<lambda>w. w OR DESTROY)) q) (\<lambda>q.
       Inr (if sstate s AND READ = 0 then Answered (Popped (citem r)) else Pop (scan_from (Suc i)) r, q, Quiet)))"
| "pop_step spurious O_free r q =
     obind (free_chunk (cochunk r) q) (\<lambda>q. Inr (Answered (Popped (citem r)), q, Quiet))"

declare wait_next_step_def [simp] wait_write_step_def [simp]

section \<open>is_empty and len\<close>

fun is_empty_step :: "usize option \<Rightarrow> 'a co_queue \<Rightarrow> 'a step_result" where
  "is_empty_step None q = Inr (Emptying (Some (hindex q)), q, Quiet)"
| "is_empty_step (Some head) q =
     Inr (Answered (Emptiness (drop_bit SHIFT head = drop_bit SHIFT (tindex q))), q, Quiet)"

text \<open>The arithmetic on the two indices that \<open>len\<close> has read is that of \<open>co_len\<close>.\<close>

fun len_step :: "len_at \<Rightarrow> usize \<Rightarrow> usize \<Rightarrow> 'a co_queue \<Rightarrow> 'a step_result" where
  "len_step L_tail tail head q = Inr (Counting L_head (tindex q) head, q, Quiet)"
| "len_step L_head tail head q = Inr (Counting L_again tail (hindex q), q, Quiet)"
| "len_step L_again tail head q =
     (if tindex q = tail
      then obind (co_len (q\<lparr>tindex := tail, hindex := head\<rparr>)) (\<lambda>n. Inr (Answered (Length n), q, Quiet))
      else Inr (Counting L_tail tail head, q, Quiet))"

section \<open>The machine\<close>

fun thread_step :: "'a chunk allocator \<Rightarrow> bool \<Rightarrow> 'a thread \<Rightarrow> 'a co_queue \<Rightarrow> 'a step_result option" where
  "thread_step alloc spurious (Push x at r) q = Some (push_step alloc spurious x at r q)"
| "thread_step alloc spurious (Pop at r) q = Some (pop_step spurious at r q)"
| "thread_step alloc spurious (Emptying h) q = Some (is_empty_step h q)"
| "thread_step alloc spurious (Counting at t h) q = Some (len_step at t h q)"
| "thread_step alloc spurious _ q = None"

text \<open>The call a thread is executing.\<close>

fun call_of :: "'a thread \<Rightarrow> 'a call" where
  "call_of (Push x at r) = Call_push x"
| "call_of (Pop at r) = Call_pop"
| "call_of (Emptying h) = Call_is_empty"
| "call_of (Counting at t h) = Call_len"
| "call_of (Failed c f) = c"
| "call_of _ = Call_is_empty"

record 'a conc =
  sh :: "'a co_queue"
  thr :: "tid \<Rightarrow> 'a thread"
  log :: "'a list"
  laps :: "ptr list"

fun log_note :: "'a remark \<Rightarrow> 'a list \<Rightarrow> 'a list" where
  "log_note (Enqueued x) xs = xs @ [x]"
| "log_note _ xs = xs"

fun laps_note :: "'a remark \<Rightarrow> ptr list \<Rightarrow> ptr list" where
  "laps_note (Linked p) ps = ps @ [p]"
| "laps_note _ ps = ps"

datatype 'a event = Invoke tid "'a call" | Return tid "'a answer" | Internal

inductive conc_step :: "'a chunk allocator \<Rightarrow> 'a conc \<Rightarrow> 'a event \<Rightarrow> 'a conc \<Rightarrow> bool" for alloc where
  conc_invoke: "thr s i = Idle \<Longrightarrow>
    conc_step alloc s (Invoke i c) (s\<lparr>thr := (thr s)(i := start_of c)\<rparr>)"
| conc_run: "thread_step alloc spurious (thr s i) (sh s) = Some (Inr (t, q, n)) \<Longrightarrow>
    conc_step alloc s Internal
      \<lparr>sh = q, thr = (thr s)(i := t), log = log_note n (log s), laps = laps_note n (laps s)\<rparr>"
| conc_fail: "thread_step alloc spurious (thr s i) (sh s) = Some (Inl f) \<Longrightarrow>
    conc_step alloc s Internal (s\<lparr>thr := (thr s)(i := Failed (call_of (thr s i)) f)\<rparr>)"
| conc_return: "thr s i = Answered a \<Longrightarrow>
    conc_step alloc s (Return i a) (s\<lparr>thr := (thr s)(i := Idle)\<rparr>)"

definition conc_init :: "'a chunk heap \<Rightarrow> 'a conc" where
  "conc_init h = \<lparr>sh = co_new h, thr = (\<lambda>_. Idle), log = [], laps = []\<rparr>"

end
