(* ===== verification/Co_Conc.thy ===== *)
theory Co_Conc
  imports Co_Steps Co_Index
begin

text \<open>
  The invariant of \<open>CoQueue\<close> under concurrency. \<open>ginv\<close> speaks of the shared memory and its history,
  \<open>linv\<close> of what one thread knows at the point where it is, and \<open>apart\<close> of two threads: they own
  different spare chunks and have claimed different places. \<open>evolves\<close> is what a thread may rely on while
  others run; \<open>linv_evolves\<close> is the proof that its knowledge survives.
\<close>

section \<open>What threads own\<close>

fun spare_of :: "push_regs \<Rightarrow> ptr set" where
  "spare_of r = (case cspare r of None \<Rightarrow> {} | Some p \<Rightarrow> {p})"

fun owned :: "'a thread \<Rightarrow> ptr set" where
  "owned (Push x P_tindex r) = {}"
| "owned (Push x P_next r) = {}"
| "owned (Push x P_cas_chunk r) = insert (cnew r) (spare_of r)"
| "owned (Push x at r) = spare_of r"
| "owned t = {}"

fun pclaim :: "'a thread \<Rightarrow> nat option" where
  "pclaim (Push x at r) =
     (if at \<in> {P_tchunk, P_tindex, P_next, P_value, P_write} then Some (place (ctail r)) else None)"
| "pclaim t = None"

fun oclaim :: "'a thread \<Rightarrow> nat option" where
  "oclaim (Pop at r) =
     (if at \<in> {O_index, O_chunk, O_check, O_tail, O_cas} then None else Some (place (chead r)))"
| "oclaim t = None"

text \<open>The threads that are about to change the tail index, the head index or the first head chunk for everyone.\<close>

fun extending :: "'a thread \<Rightarrow> bool" where
  "extending (Push x at r) \<longleftrightarrow> at \<in> {P_tchunk, P_tindex}"
| "extending t \<longleftrightarrow> False"

fun advancing :: "'a thread \<Rightarrow> bool" where
  "advancing (Pop at r) \<longleftrightarrow> at \<in> {O_wait_next, O_next_next, O_hchunk, O_hindex}"
| "advancing t \<longleftrightarrow> False"

fun handing :: "'a thread \<Rightarrow> bool" where
  "handing (Push x at r) \<longleftrightarrow> at = P_head"
| "handing t \<longleftrightarrow> False"

definition apart :: "'a thread \<Rightarrow> 'a thread \<Rightarrow> bool" where
  "apart t u \<longleftrightarrow> owned t \<inter> owned u = {} \<and> (\<forall>p. pclaim t = Some p \<longrightarrow> pclaim u \<noteq> Some p) \<and>
     (\<forall>p. oclaim t = Some p \<longrightarrow> oclaim u \<noteq> Some p) \<and> \<not> (handing t \<and> handing u)"

section \<open>The shared memory\<close>

abbreviation tplace :: "'a co_queue \<Rightarrow> nat" where
  "tplace q \<equiv> place (tindex q)"

abbreviation hplace :: "'a co_queue \<Rightarrow> nat" where
  "hplace q \<equiv> place (hindex q)"

definition slot_of :: "'a co_queue \<Rightarrow> ptr list \<Rightarrow> nat \<Rightarrow> 'a slot" where
  "slot_of q cs p = cslots (the (chunks q (cs ! (p div 32)))) ! (p mod 32)"

definition slot_good :: "'a list \<Rightarrow> nat \<Rightarrow> 'a slot \<Rightarrow> bool" where
  "slot_good lg n s \<longleftrightarrow> (sstate s AND WRITE \<noteq> 0 \<longrightarrow> n < length lg \<and> svalue s = Some (lg ! n))"

definition lap_good :: "nat \<Rightarrow> 'a list \<Rightarrow> ptr list \<Rightarrow> nat \<Rightarrow> 'a chunk \<Rightarrow> bool" where
  "lap_good tp lg cs k ch \<longleftrightarrow> length (cslots ch) = 31 \<and>
     (cnext ch \<noteq> null \<longrightarrow> k < tp div 32 \<and> Suc k < length cs \<and> cnext ch = cs ! Suc k) \<and>
     (\<forall>j < 31. slot_good lg (31 * k + j) (cslots ch ! j)) \<and> sstate (cslots ch ! 30) AND READ = 0"

definition chunks_good :: "'a co_queue \<Rightarrow> 'a list \<Rightarrow> ptr list \<Rightarrow> bool" where
  "chunks_good q lg cs \<longleftrightarrow> distinct cs \<and> null \<notin> set cs \<and>
     (\<forall>k < length cs. \<exists>ch. chunks q (cs ! k) = Some ch \<and> lap_good (tplace q) lg cs k ch)"

definition tail_good :: "'a co_queue \<Rightarrow> 'a list \<Rightarrow> ptr list \<Rightarrow> bool" where
  "tail_good q lg cs \<longleftrightarrow> even (unat (tindex q)) \<and> length lg = cnt (tplace q) \<and>
     (if cs = [] then tindex q = 0 \<and> tchunk q = null
      else tchunk q = last cs \<and>
        (length cs = Suc (tplace q div 32) \<or> tplace q mod 32 = 31 \<and> length cs = Suc (Suc (tplace q div 32))))"

definition head_good :: "'a co_queue \<Rightarrow> ptr list \<Rightarrow> bool" where
  "head_good q cs \<longleftrightarrow> hplace q \<le> tplace q \<and> (odd (unat (hindex q)) \<longrightarrow> hplace q div 32 < tplace q div 32) \<and>
     (if hchunk q = null then hindex q = 0
      else hplace q div 32 < length cs \<and> hchunk q = cs ! (hplace q div 32) \<or>
           hplace q mod 32 = 31 \<and> Suc (hplace q div 32) < length cs \<and> hchunk q = cs ! Suc (hplace q div 32))"

definition ginv :: "'a co_queue \<Rightarrow> 'a list \<Rightarrow> ptr list \<Rightarrow> bool" where
  "ginv q lg cs \<longleftrightarrow> chunks_good q lg cs \<and> tail_good q lg cs \<and> head_good q cs"

lemmas ginv_defs = ginv_def tail_good_def head_good_def

section \<open>What a thread knows\<close>

definition spare_good :: "'a co_queue \<Rightarrow> ptr list \<Rightarrow> 'a thread \<Rightarrow> bool" where
  "spare_good q cs t \<longleftrightarrow> (\<forall>p \<in> owned t. chunks q p = Some chunk_new \<and> p \<noteq> null \<and> p \<notin> set cs)"

definition seen_tail :: "'a co_queue \<Rightarrow> push_regs \<Rightarrow> bool" where
  "seen_tail q r \<longleftrightarrow> ctail r \<le> tindex q \<and>
     (ctail r = tindex q \<and> place (ctail r) mod 32 \<noteq> 31 \<longrightarrow> cchunk r = tchunk q \<or> cchunk r = null)"

definition ready :: "push_regs \<Rightarrow> bool" where
  "ready r \<longleftrightarrow> place (ctail r) mod 32 \<noteq> 31 \<and> (place (ctail r) mod 32 = 30 \<longrightarrow> cspare r \<noteq> None)"

definition claimed :: "'a co_queue \<Rightarrow> 'a list \<Rightarrow> ptr list \<Rightarrow> 'a \<Rightarrow> push_regs \<Rightarrow> bool" where
  "claimed q lg cs x r \<longleftrightarrow> (let p = place (ctail r) in
     p mod 32 \<noteq> 31 \<and> p < tplace q \<and> lg ! cnt p = x \<and> p div 32 < length cs \<and> cchunk r = cs ! (p div 32) \<and>
     unat (ctail r) = 2 * p \<and> sstate (slot_of q cs p) AND WRITE = 0)"

fun push_inv :: "'a co_queue \<Rightarrow> 'a list \<Rightarrow> ptr list \<Rightarrow> 'a \<Rightarrow> push_at \<Rightarrow> push_regs \<Rightarrow> bool" where
  "push_inv q lg cs x P_index r \<longleftrightarrow> True"
| "push_inv q lg cs x P_chunk r \<longleftrightarrow> ctail r \<le> tindex q"
| "push_inv q lg cs x P_check r \<longleftrightarrow> seen_tail q r"
| "push_inv q lg cs x P_first r \<longleftrightarrow> seen_tail q r \<and> ready r \<and> cchunk r = null"
| "push_inv q lg cs x P_cas_chunk r \<longleftrightarrow> seen_tail q r \<and> ready r \<and> cchunk r = null \<and> cspare r \<noteq> Some (cnew r)"
| "push_inv q lg cs x P_head r \<longleftrightarrow> seen_tail q (r\<lparr>cchunk := cnew r\<rparr>) \<and> ready r \<and> cnew r \<noteq> null \<and>
     cs \<noteq> [] \<and> cs ! 0 = cnew r \<and> hchunk q = null"
| "push_inv q lg cs x P_cas r \<longleftrightarrow> seen_tail q r \<and> ready r \<and> cchunk r \<noteq> null"
| "push_inv q lg cs x P_tchunk r \<longleftrightarrow> claimed q lg cs x r \<and> place (ctail r) mod 32 = 30 \<and>
     tplace q = Suc (place (ctail r)) \<and> length cs = Suc (tplace q div 32) \<and> cspare r \<noteq> None"
| "push_inv q lg cs x P_tindex r \<longleftrightarrow> claimed q lg cs x r \<and> place (ctail r) mod 32 = 30 \<and>
     tplace q = Suc (place (ctail r)) \<and> length cs = Suc (Suc (tplace q div 32)) \<and>
     cspare r = Some (cs ! Suc (place (ctail r) div 32))"
| "push_inv q lg cs x P_next r \<longleftrightarrow> claimed q lg cs x r \<and> place (ctail r) mod 32 = 30 \<and>
     place (ctail r) div 32 < tplace q div 32 \<and> Suc (place (ctail r) div 32) < length cs \<and>
     cspare r = Some (cs ! Suc (place (ctail r) div 32))"
| "push_inv q lg cs x P_value r \<longleftrightarrow> claimed q lg cs x r"
| "push_inv q lg cs x P_write r \<longleftrightarrow> claimed q lg cs x r \<and> svalue (slot_of q cs (place (ctail r))) = Some x"
| "push_inv q lg cs x P_drop r \<longleftrightarrow> True"

definition seen_head :: "'a co_queue \<Rightarrow> 'a pop_regs \<Rightarrow> bool" where
  "seen_head q r \<longleftrightarrow> chead r \<le> hindex q \<and>
     (chead r = hindex q \<and> place (chead r) mod 32 \<noteq> 31 \<longrightarrow> cochunk r = hchunk q \<or> cochunk r = null)"

definition taken_slot :: "'a co_queue \<Rightarrow> 'a list \<Rightarrow> ptr list \<Rightarrow> 'a pop_regs \<Rightarrow> bool" where
  "taken_slot q lg cs r \<longleftrightarrow> (let p = place (chead r) in
     p mod 32 \<noteq> 31 \<and> p < hplace q \<and> p div 32 < length cs \<and> cochunk r = cs ! (p div 32))"

definition took_item :: "'a list \<Rightarrow> 'a pop_regs \<Rightarrow> bool" where
  "took_item lg r \<longleftrightarrow> citem r = Some (lg ! cnt (place (chead r)))"

definition turning :: "'a co_queue \<Rightarrow> 'a pop_regs \<Rightarrow> bool" where
  "turning q r \<longleftrightarrow> place (chead r) mod 32 = 30 \<and> hplace q = Suc (place (chead r)) \<and>
     place (cnhead r) = Suc (place (chead r))"

definition turned :: "'a co_queue \<Rightarrow> ptr list \<Rightarrow> 'a pop_regs \<Rightarrow> bool" where
  "turned q cs r \<longleftrightarrow> place (chead r) div 32 < tplace q div 32 \<and> Suc (place (chead r) div 32) < length cs \<and>
     cnextp r = cs ! Suc (place (chead r) div 32)"

definition aimed :: "'a co_queue \<Rightarrow> 'a pop_regs \<Rightarrow> bool" where
  "aimed q r \<longleftrightarrow> place (cnidx r) = Suc (Suc (place (chead r))) \<and>
     (odd (unat (cnidx r)) \<longrightarrow> Suc (place (chead r) div 32) < tplace q div 32)"

fun pop_inv :: "'a co_queue \<Rightarrow> 'a list \<Rightarrow> ptr list \<Rightarrow> pop_at \<Rightarrow> 'a pop_regs \<Rightarrow> bool" where
  "pop_inv q lg cs O_index r \<longleftrightarrow> True"
| "pop_inv q lg cs O_chunk r \<longleftrightarrow> chead r \<le> hindex q"
| "pop_inv q lg cs O_check r \<longleftrightarrow> seen_head q r"
| "pop_inv q lg cs O_tail r \<longleftrightarrow> seen_head q r \<and> place (chead r) mod 32 \<noteq> 31 \<and> even (unat (chead r)) \<and>
     cnhead r = chead r + 2"
| "pop_inv q lg cs O_cas r \<longleftrightarrow> seen_head q r \<and> place (chead r) mod 32 \<noteq> 31 \<and> cochunk r \<noteq> null \<and>
     place (cnhead r) = Suc (place (chead r)) \<and>
     (chead r = hindex q \<longrightarrow> hplace q < tplace q \<and> (odd (unat (cnhead r)) \<longrightarrow> hplace q div 32 < tplace q div 32))"
| "pop_inv q lg cs O_wait_next r \<longleftrightarrow> taken_slot q lg cs r \<and> turning q r \<and> hchunk q = cochunk r"
| "pop_inv q lg cs O_next_next r \<longleftrightarrow> taken_slot q lg cs r \<and> turning q r \<and> turned q cs r \<and> hchunk q = cochunk r"
| "pop_inv q lg cs O_hchunk r \<longleftrightarrow>
     taken_slot q lg cs r \<and> turning q r \<and> turned q cs r \<and> aimed q r \<and> hchunk q = cochunk r"
| "pop_inv q lg cs O_hindex r \<longleftrightarrow>
     taken_slot q lg cs r \<and> turning q r \<and> turned q cs r \<and> aimed q r \<and> hchunk q = cnextp r"
| "pop_inv q lg cs O_wait_write r \<longleftrightarrow> taken_slot q lg cs r"
| "pop_inv q lg cs O_read r \<longleftrightarrow> taken_slot q lg cs r \<and> sstate (slot_of q cs (place (chead r))) AND WRITE \<noteq> 0"
| "pop_inv q lg cs O_mark r \<longleftrightarrow> taken_slot q lg cs r \<and> took_item lg r \<and> place (chead r) mod 32 \<noteq> 30"
| "pop_inv q lg cs (O_scan i) r \<longleftrightarrow> taken_slot q lg cs r \<and> took_item lg r \<and> i < 31"
| "pop_inv q lg cs (O_flag i) r \<longleftrightarrow> taken_slot q lg cs r \<and> took_item lg r \<and> i < 31"
| "pop_inv q lg cs O_free r \<longleftrightarrow> False"

fun linv :: "'a co_queue \<Rightarrow> 'a list \<Rightarrow> ptr list \<Rightarrow> 'a thread \<Rightarrow> bool" where
  "linv q lg cs (Push x at r) \<longleftrightarrow> push_inv q lg cs x at r \<and> spare_good q cs (Push x at r)"
| "linv q lg cs (Pop at r) \<longleftrightarrow> pop_inv q lg cs at r"
| "linv q lg cs (Emptying (Some h)) \<longleftrightarrow> h \<le> hindex q"
| "linv q lg cs (Failed c f) \<longleftrightarrow> f = Out_of_memory \<and> (\<exists>x. c = Call_push x) \<or> f = Panic \<and> c = Call_len"
| "linv q lg cs _ \<longleftrightarrow> True"

definition conc_inv :: "'a conc \<Rightarrow> bool" where
  "conc_inv s \<longleftrightarrow> ginv (sh s) (log s) (laps s) \<and> (\<forall>i. linv (sh s) (log s) (laps s) (thr s i)) \<and>
     (\<forall>i j. i \<noteq> j \<longrightarrow> apart (thr s i) (thr s j))"

section \<open>Non-interference\<close>

definition evolves ::
    "'a co_queue \<Rightarrow> 'a list \<Rightarrow> ptr list \<Rightarrow> 'a co_queue \<Rightarrow> 'a list \<Rightarrow> ptr list \<Rightarrow> 'a thread \<Rightarrow> bool" where
  "evolves q lg cs q' lg' cs' t \<longleftrightarrow>
     tindex q \<le> tindex q' \<and> hindex q \<le> hindex q' \<and> (\<exists>e. lg' = lg @ e) \<and> (\<exists>e. cs' = cs @ e) \<and>
     (tindex q' = tindex q \<and> tplace q mod 32 \<noteq> 31 \<and> tchunk q \<noteq> null \<longrightarrow> tchunk q' = tchunk q) \<and>
     (hindex q' = hindex q \<and> hplace q mod 32 \<noteq> 31 \<and> hchunk q \<noteq> null \<longrightarrow> hchunk q' = hchunk q) \<and>
     (\<forall>p \<in> owned t. chunks q' p = chunks q p \<and> p \<notin> set cs') \<and>
     (\<forall>p. pclaim t = Some p \<longrightarrow> sstate (slot_of q' cs' p) AND WRITE = sstate (slot_of q cs' p) AND WRITE \<and>
        svalue (slot_of q' cs' p) = svalue (slot_of q cs' p)) \<and>
     (\<forall>p. oclaim t = Some p \<longrightarrow> sstate (slot_of q cs' p) AND WRITE \<noteq> 0 \<longrightarrow> sstate (slot_of q' cs' p) AND WRITE \<noteq> 0) \<and>
     (extending t \<longrightarrow> tindex q' = tindex q \<and> cs' = cs) \<and>
     (advancing t \<longrightarrow> hindex q' = hindex q \<and> hchunk q' = hchunk q) \<and>
     (handing t \<longrightarrow> hchunk q' = hchunk q)"

lemma evolvesD:
  assumes "evolves q lg cs q' lg' cs' t"
  shows "tindex q \<le> tindex q'" "hindex q \<le> hindex q'" "tplace q \<le> tplace q'" "hplace q \<le> hplace q'"
    "tplace q div 32 \<le> tplace q' div 32" "\<exists>e. lg' = lg @ e" "\<exists>e. cs' = cs @ e"
    "tindex q' = tindex q \<Longrightarrow> tplace q mod 32 \<noteq> 31 \<Longrightarrow> tchunk q \<noteq> null \<Longrightarrow> tchunk q' = tchunk q"
    "hindex q' = hindex q \<Longrightarrow> hplace q mod 32 \<noteq> 31 \<Longrightarrow> hchunk q \<noteq> null \<Longrightarrow> hchunk q' = hchunk q"
    "extending t \<Longrightarrow> tindex q' = tindex q \<and> cs' = cs"
    "advancing t \<Longrightarrow> hindex q' = hindex q \<and> hchunk q' = hchunk q"
    "handing t \<Longrightarrow> hchunk q' = hchunk q"
  using assms by (simp_all add: evolves_def place_mono div_le_mono)

lemma seen_tail_mono:
  assumes "seen_tail q r" "evolves q lg cs q' lg' cs' t"
  shows "seen_tail q' r"
proof -
  have le: "ctail r \<le> tindex q" using assms(1) by (simp add: seen_tail_def)
  have "tindex q = tindex q'" if "ctail r = tindex q'" using le evolvesD(1)[OF assms(2)] that by simp
  then show ?thesis using assms(1) le evolvesD(1)[OF assms(2)] evolvesD(8)[OF assms(2)]
    by (auto simp: seen_tail_def)
qed

lemma seen_head_mono:
  assumes "seen_head q r" "evolves q lg cs q' lg' cs' t"
  shows "seen_head q' r"
proof -
  have le: "chead r \<le> hindex q" using assms(1) by (simp add: seen_head_def)
  have "hindex q = hindex q'" if "chead r = hindex q'" using le evolvesD(2)[OF assms(2)] that by simp
  then show ?thesis using assms(1) le evolvesD(2)[OF assms(2)] evolvesD(9)[OF assms(2)]
    by (auto simp: seen_head_def)
qed

lemma slot_of_append: "p div 32 < length cs \<Longrightarrow> slot_of q (cs @ e) p = slot_of q cs p"
  by (simp add: slot_of_def nth_append)

lemma claimed_evolves:
  assumes "claimed q lg cs x r" "length lg = cnt (tplace q)"
    "evolves q lg cs q' lg' cs' t" "pclaim t = Some (place (ctail r))"
  shows "claimed q' lg' cs' x r"
proof -
  let ?p = "place (ctail r)"
  obtain e e' where e: "cs' = cs @ e" "lg' = lg @ e'" using assms(3) by (auto simp: evolves_def)
  have t: "place (tindex q) \<le> place (tindex q')" using assms(3) by (intro place_mono) (simp add: evolves_def)
  have c: "?p mod 32 \<noteq> 31" "?p < tplace q" "lg ! cnt ?p = x" "?p div 32 < length cs" "cchunk r = cs ! (?p div 32)"
    "unat (ctail r) = 2 * ?p" "sstate (slot_of q cs ?p) AND WRITE = 0"
    using assms(1) by (simp_all add: claimed_def Let_def)
  have "cnt ?p < length lg" using cnt_less[OF c(2,1)] assms(2) by simp
  moreover have "sstate (slot_of q' cs' ?p) AND WRITE = 0"
    using assms(3,4) c(4,7) slot_of_append[of ?p cs q e] e by (simp add: evolves_def)
  ultimately show ?thesis using c t e by (simp add: claimed_def Let_def nth_append)
qed

lemma taken_evolves:
  assumes "taken_slot q lg cs r" "evolves q lg cs q' lg' cs' t"
  shows "taken_slot q' lg' cs' r"
proof -
  obtain e where e: "cs' = cs @ e" using assms(2) by (auto simp: evolves_def)
  have "hplace q \<le> hplace q'" using assms(2) by (intro place_mono) (simp add: evolves_def)
  then show ?thesis using assms(1) e by (simp add: taken_slot_def Let_def nth_append)
qed

lemma took_evolves:
  assumes "took_item lg r" "taken_slot q lg cs r" "hplace q \<le> tplace q" "length lg = cnt (tplace q)"
    "evolves q lg cs q' lg' cs' t"
  shows "took_item lg' r"
proof -
  obtain e where e: "lg' = lg @ e" using assms(5) by (auto simp: evolves_def)
  have "cnt (place (chead r)) < length lg"
    using assms(2,3,4) cnt_less[of "place (chead r)" "tplace q"] by (simp add: taken_slot_def Let_def)
  then show ?thesis using assms(1) e by (simp add: took_item_def nth_append)
qed

lemma turned_evolves: "turned q cs r \<Longrightarrow> evolves q lg cs q' lg' cs' t \<Longrightarrow> turned q' cs' r"
  using evolvesD(5,7)[of q lg cs q' lg' cs' t] by (auto simp: turned_def nth_append)

lemma aimed_evolves: "aimed q r \<Longrightarrow> evolves q lg cs q' lg' cs' t \<Longrightarrow> aimed q' r"
  using evolvesD(5)[of q lg cs q' lg' cs' t] by (auto simp: aimed_def)

lemma spare_evolves: "spare_good q cs t \<Longrightarrow> evolves q lg cs q' lg' cs' t \<Longrightarrow> spare_good q' cs' t"
  by (auto simp: spare_good_def evolves_def)


lemma cas_evolves:
  assumes "pop_inv q lg cs O_cas r" "evolves q lg cs q' lg' cs' t"
  shows "pop_inv q' lg' cs' O_cas r"
proof -
  have le: "chead r \<le> hindex q" using assms(1) by (simp add: seen_head_def)
  have "hindex q = hindex q'" if "chead r = hindex q'" using le evolvesD(2)[OF assms(2)] that by simp
  then show ?thesis
    using assms(1) seen_head_mono[OF _ assms(2), of r] evolvesD(3,5)[OF assms(2)] by auto
qed

lemma claim_slot_evolves:
  assumes "evolves q lg cs q' lg' cs' t" "p div 32 < length cs"
  shows "pclaim t = Some p \<Longrightarrow> svalue (slot_of q' cs' p) = svalue (slot_of q cs p)"
    and "oclaim t = Some p \<Longrightarrow> sstate (slot_of q cs p) AND WRITE \<noteq> 0 \<Longrightarrow> sstate (slot_of q' cs' p) AND WRITE \<noteq> 0"
  using assms slot_of_append[OF assms(2), of q] by (auto simp: evolves_def)

lemma push_inv_evolves:
  assumes i: "push_inv q lg cs x at r" and l: "length lg = cnt (tplace q)"
    and e: "evolves q lg cs q' lg' cs' (Push x at r)"
  shows "push_inv q' lg' cs' x at r"
proof -
  note d = evolvesD[OF e]
  obtain e1 where e1: "cs' = cs @ e1" using d(7) by blast
  have cl: "claimed q' lg' cs' x r" if "claimed q lg cs x r" "pclaim (Push x at r) = Some (place (ctail r))"
    using claimed_evolves[OF that(1) l e that(2)] .
  have sl: "place (ctail r) div 32 < length cs" if "claimed q lg cs x r"
    using that by (simp add: claimed_def Let_def)
  show ?thesis
  proof (cases at)
    case P_write
    then show ?thesis using i cl sl claim_slot_evolves(1)[OF e, of "place (ctail r)"] by simp
  next
    case P_next
    then show ?thesis using i cl d(5) e1 by (auto simp: nth_append)
  next
    case P_chunk
    then show ?thesis using i d(1) by simp
  qed (use i cl d(10,12) e1 seen_tail_mono[OF _ e] in \<open>auto simp: nth_append\<close>)
qed

lemma pop_inv_evolves:
  assumes i: "pop_inv q lg cs at r" and l: "length lg = cnt (tplace q)" "hplace q \<le> tplace q"
    and e: "evolves q lg cs q' lg' cs' (Pop at r)"
  shows "pop_inv q' lg' cs' at r"
proof -
  note d = evolvesD[OF e]
  note m = taken_evolves[OF _ e] turned_evolves[OF _ e] aimed_evolves[OF _ e] seen_head_mono[OF _ e]
  have tk: "took_item lg' r" if "took_item lg r" "taken_slot q lg cs r"
    using took_evolves[OF that l(2,1) e] .
  have tn: "turning q' r" if "turning q r" "advancing (Pop at r)" using that d(11) by (simp add: turning_def)
  have sl: "place (chead r) div 32 < length cs" if "taken_slot q lg cs r"
    using that by (simp add: taken_slot_def Let_def)
  show ?thesis
  proof (cases at)
    case O_cas
    then show ?thesis using i cas_evolves e by blast
  next
    case O_chunk
    then show ?thesis using i d(2) by simp
  next
    case O_read
    then show ?thesis using i m(1) sl claim_slot_evolves(2)[OF e, of "place (chead r)"] by simp
  qed (use i m tk tn d(11) in \<open>auto simp: turned_def\<close>)
qed

lemma linv_evolves:
  assumes "linv q lg cs t" "ginv q lg cs" "evolves q lg cs q' lg' cs' t"
  shows "linv q' lg' cs' t"
proof -
  have l: "length lg = cnt (tplace q)" "hplace q \<le> tplace q"
    using assms(2) by (simp_all add: ginv_defs)
  show ?thesis
  proof (cases t)
    case (Push x at r)
    then show ?thesis using assms push_inv_evolves[OF _ l(1)] spare_evolves[OF _ assms(3)] by auto
  next
    case (Pop at r)
    then show ?thesis using assms pop_inv_evolves[OF _ l] by auto
  next
    case (Emptying h)
    then show ?thesis using assms evolvesD(2)[OF assms(3)] by (cases h) auto
  qed (use assms in auto)
qed

end
