(* ===== verification/Co_Keeps.thy ===== *)
theory Co_Keeps
  imports Co_Conc
begin

text \<open>
  Every step of \<open>push\<close> and \<open>pop\<close> keeps the invariant of the shared memory, leaves its own thread with the
  knowledge of its next point, and respects what the other threads rely on. The lemmas of the first
  sections treat the kinds of writes; the later ones go through the steps.
\<close>

section \<open>The obligation of a step\<close>

definition keeps ::
    "'a co_queue \<Rightarrow> 'a list \<Rightarrow> ptr list \<Rightarrow> 'a thread \<Rightarrow> 'a co_queue \<Rightarrow> 'a list \<Rightarrow> ptr list \<Rightarrow> 'a thread \<Rightarrow> bool" where
  "keeps q lg cs t q' lg' cs' t' \<longleftrightarrow> ginv q' lg' cs' \<and> linv q' lg' cs' t' \<and>
     (\<forall>u. linv q lg cs u \<longrightarrow> apart t u \<longrightarrow> evolves q lg cs q' lg' cs' u \<and> apart t' u)"

fun good_result :: "'a co_queue \<Rightarrow> 'a list \<Rightarrow> ptr list \<Rightarrow> 'a thread \<Rightarrow> 'a step_result \<Rightarrow> bool" where
  "good_result q lg cs t (Inl f) \<longleftrightarrow> linv q lg cs (Failed (call_of t) f)"
| "good_result q lg cs t (Inr (t', q', n)) \<longleftrightarrow> keeps q lg cs t q' (log_note n lg) (laps_note n cs) t'"

definition lesser :: "'a thread \<Rightarrow> 'a thread \<Rightarrow> bool" where
  "lesser t' t \<longleftrightarrow> owned t' \<subseteq> owned t \<and> (pclaim t' = None \<or> pclaim t' = pclaim t) \<and>
     (oclaim t' = None \<or> oclaim t' = oclaim t) \<and> (handing t' \<longrightarrow> handing t)"

lemma apart_lesser: "apart t u \<Longrightarrow> lesser t' t \<Longrightarrow> apart t' u"
  unfolding apart_def lesser_def by (intro conjI; force)

lemma apart_owned: "apart t u \<Longrightarrow> p \<in> owned t \<Longrightarrow> p \<notin> owned u"
  by (auto simp: apart_def)

lemma apart_sym: "apart t u \<Longrightarrow> apart u t"
  by (auto simp: apart_def)

lemma linv_spare: "linv q lg cs u \<Longrightarrow> p \<in> owned u \<Longrightarrow> chunks q p = Some chunk_new \<and> p \<noteq> null \<and> p \<notin> set cs"
  by (cases u) (auto simp: spare_good_def)

lemma linv_pclaim:
  "linv q lg cs u \<Longrightarrow> pclaim u = Some p \<Longrightarrow>
   p mod 32 \<noteq> 31 \<and> p < tplace q \<and> p div 32 < length cs \<and> sstate (slot_of q cs p) AND WRITE = 0"
  by (cases u; simp split: if_splits; elim disjE; simp add: claimed_def Let_def)

lemma linv_oclaim:
  "linv q lg cs u \<Longrightarrow> oclaim u = Some p \<Longrightarrow> p mod 32 \<noteq> 31 \<and> p < hplace q \<and> p div 32 < length cs"
  by (cases u; simp split: if_splits; case_tac x31; simp add: taken_slot_def Let_def)

lemma linv_extending:
  "linv q lg cs u \<Longrightarrow> extending u \<Longrightarrow> \<exists>p. pclaim u = Some p \<and> p mod 32 = 30 \<and> tplace q = Suc p"
  by (cases u) auto

lemma linv_advancing:
  "linv q lg cs u \<Longrightarrow> advancing u \<Longrightarrow> \<exists>p. oclaim u = Some p \<and> p mod 32 = 30 \<and> hplace q = Suc p"
  by (cases u) (auto simp: turning_def)

lemma linv_handing: "linv q lg cs u \<Longrightarrow> handing u \<Longrightarrow> hchunk q = null \<and> cs \<noteq> []"
  by (cases u) auto

lemma evolves_refl: "linv q lg cs u \<Longrightarrow> evolves q lg cs q lg cs u"
  using linv_spare[of q lg cs u] by (auto simp: evolves_def)

lemma keeps_refl: "ginv q lg cs \<Longrightarrow> linv q lg cs t' \<Longrightarrow> lesser t' t \<Longrightarrow> keeps q lg cs t q lg cs t'"
  by (auto simp: keeps_def evolves_refl intro: apart_lesser)

lemma ginv_bounds:
  assumes "ginv q lg cs" "small (length lg)"
  shows "unat (tindex q) < 2 ^ 62" "unat (hindex q) < 2 ^ 62"
proof -
  have "tplace q < 2 ^ 61" using assms by (intro cnt_bound) (simp add: ginv_defs small_def)
  moreover have "hplace q \<le> tplace q" using assms by (simp add: ginv_defs)
  ultimately show "unat (tindex q) < 2 ^ 62" "unat (hindex q) < 2 ^ 62" by (auto simp: place_def)
qed

lemma ginvD:
  assumes "ginv q lg cs"
  shows "chunks_good q lg cs" "distinct cs" "null \<notin> set cs" "even (unat (tindex q))" "length lg = cnt (tplace q)"
    "hplace q \<le> tplace q" "odd (unat (hindex q)) \<Longrightarrow> hplace q div 32 < tplace q div 32"
    "tchunk q = null \<longleftrightarrow> cs = []" "cs \<noteq> [] \<Longrightarrow> tchunk q = last cs" "cs = [] \<Longrightarrow> tindex q = 0"
    "cs \<noteq> [] \<Longrightarrow> tplace q mod 32 \<noteq> 31 \<Longrightarrow> length cs = Suc (tplace q div 32)"
    "hchunk q = null \<Longrightarrow> hindex q = 0" "cs = [] \<Longrightarrow> hchunk q = null"
    "hchunk q \<noteq> null \<Longrightarrow> hplace q mod 32 \<noteq> 31 \<Longrightarrow>
       hplace q div 32 < length cs \<and> hchunk q = cs ! (hplace q div 32)"
proof -
  show "null \<notin> set cs" "chunks_good q lg cs" "distinct cs" using assms by (simp_all add: ginv_def chunks_good_def)
  then have "last cs \<noteq> null" if "cs \<noteq> []" using that last_in_set[of cs] by metis
  then show "tchunk q = null \<longleftrightarrow> cs = []" using assms by (cases "cs = []") (simp_all add: ginv_defs)
qed (use assms in \<open>auto simp: ginv_defs split: if_splits\<close>)

section \<open>Writes to chunks\<close>

lemma ginv_cong:
  assumes "ginv q lg cs" "chunks_good q' lg cs" "tindex q' = tindex q" "tchunk q' = tchunk q"
    "hindex q' = hindex q" "hchunk q' = hchunk q"
  shows "ginv q' lg cs"
  using assms by (simp add: ginv_defs)

lemma chunks_good_at:
  assumes "chunks_good q lg cs" "k < length cs"
  obtains ch where "chunks q (cs ! k) = Some ch" "lap_good (tplace q) lg cs k ch"
  using assms by (auto simp: chunks_good_def)

text \<open>A chunk that is not linked in is written, allocated or freed.\<close>

lemma keeps_private:
  assumes g: "ginv q lg cs" and p: "p \<notin> set cs"
    and own: "\<And>u. linv q lg cs u \<Longrightarrow> apart t u \<Longrightarrow> p \<notin> owned u"
    and t': "linv (q\<lparr>chunks := (chunks q)(p := v)\<rparr>) lg cs t'" "\<And>u. linv q lg cs u \<Longrightarrow> apart t u \<Longrightarrow> apart t' u"
  shows "keeps q lg cs t (q\<lparr>chunks := (chunks q)(p := v)\<rparr>) lg cs t'"
proof -
  let ?q = "q\<lparr>chunks := (chunks q)(p := v)\<rparr>"
  have ne: "cs ! k \<noteq> p" if "k < length cs" for k using p that nth_mem by fastforce
  have "chunks_good ?q lg cs" using g ne by (simp add: ginv_def chunks_good_def)
  then have "ginv ?q lg cs" using g by (rule_tac ginv_cong) auto
  moreover have "evolves q lg cs ?q lg cs u" if u: "linv q lg cs u" "apart t u" for u
  proof -
    have "chunks ?q p' = chunks q p'" if "p' \<in> owned u" for p' using own[OF u] that by auto
    moreover have "slot_of ?q cs n = slot_of q cs n" if "n div 32 < length cs" for n
      using ne[OF that] by (simp add: slot_of_def)
    ultimately show ?thesis
      using evolves_refl[OF u(1)] linv_pclaim[OF u(1)] linv_oclaim[OF u(1)] by (simp add: evolves_def)
  qed
  ultimately show ?thesis using t' by (simp add: keeps_def)
qed

lemma chunks_good_upd:
  assumes "chunks_good q lg cs" "k < length cs" "lap_good (tplace q) lg cs k ch"
  shows "chunks_good (q\<lparr>chunks := (chunks q)(cs ! k \<mapsto> ch)\<rparr>) lg cs"
  using assms nth_eq_iff_index_eq[of cs _ k] by (auto simp: chunks_good_def)

lemma slot_of_upd:
  assumes "distinct cs" "k < length cs" "n div 32 < length cs"
  shows "slot_of (q\<lparr>chunks := (chunks q)(cs ! k \<mapsto> ch)\<rparr>) cs n =
    (if n div 32 = k then cslots ch ! (n mod 32) else slot_of q cs n)"
  using assms nth_eq_iff_index_eq[of cs "n div 32" k] by (auto simp: slot_of_def)

text \<open>A chunk that is linked in is written: no thread loses a value or a mark it has claimed.\<close>

lemma keeps_linked:
  assumes g: "ginv q lg cs" and k: "k < length cs" "chunks q (cs ! k) = Some ch"
    and lg: "lap_good (tplace q) lg cs k ch'"
    and p: "\<And>u n. linv q lg cs u \<Longrightarrow> apart t u \<Longrightarrow> pclaim u = Some n \<Longrightarrow> n div 32 = k \<Longrightarrow>
      sstate (cslots ch' ! (n mod 32)) AND WRITE = sstate (cslots ch ! (n mod 32)) AND WRITE \<and>
      svalue (cslots ch' ! (n mod 32)) = svalue (cslots ch ! (n mod 32))"
    and w: "\<And>j. j < 31 \<Longrightarrow> sstate (cslots ch ! j) AND WRITE \<noteq> 0 \<Longrightarrow> sstate (cslots ch' ! j) AND WRITE \<noteq> 0"
    and t': "linv (q\<lparr>chunks := (chunks q)(cs ! k \<mapsto> ch')\<rparr>) lg cs t'" "lesser t' t"
  shows "keeps q lg cs t (q\<lparr>chunks := (chunks q)(cs ! k \<mapsto> ch')\<rparr>) lg cs t'"
proof -
  let ?q = "q\<lparr>chunks := (chunks q)(cs ! k \<mapsto> ch')\<rparr>"
  have cg: "chunks_good q lg cs" "distinct cs" using g by (simp_all add: ginv_def chunks_good_def)
  have "ginv ?q lg cs" using chunks_good_upd[OF cg(1) k(1) lg] g by (rule_tac ginv_cong) auto
  moreover have "evolves q lg cs ?q lg cs u" if u: "linv q lg cs u" "apart t u" for u
  proof -
    have old: "slot_of q cs n = cslots ch ! (n mod 32)" if "n div 32 = k" for n
      using that k(2) by (simp add: slot_of_def)
    have j: "n mod 32 < 31" if "n mod 32 \<noteq> 31" for n :: nat using that mod_less_divisor[of 32 n] by linarith
    have "chunks ?q p' = chunks q p'" if "p' \<in> owned u" for p'
      using linv_spare[OF u(1) that] k(1) nth_mem by fastforce
    moreover have "sstate (slot_of ?q cs n) AND WRITE = sstate (slot_of q cs n) AND WRITE \<and>
        svalue (slot_of ?q cs n) = svalue (slot_of q cs n)" if "pclaim u = Some n" for n
      using p[OF u that] linv_pclaim[OF u(1) that] old[of n] by (auto simp: slot_of_upd[OF cg(2) k(1)])
    moreover have "sstate (slot_of ?q cs n) AND WRITE \<noteq> 0"
      if "oclaim u = Some n" "sstate (slot_of q cs n) AND WRITE \<noteq> 0" for n
      using that w[OF j] linv_oclaim[OF u(1) that(1)] old[of n] by (auto simp: slot_of_upd[OF cg(2) k(1)])
    ultimately show ?thesis using evolves_refl[OF u(1)] by (simp add: evolves_def)
  qed
  ultimately show ?thesis using t' by (auto simp: keeps_def intro: apart_lesser)
qed


section \<open>Steps of push before the claim\<close>

lemma P_index_keeps:
  "ginv q lg cs \<Longrightarrow> linv q lg cs (Push x P_index r) \<Longrightarrow>
   good_result q lg cs (Push x P_index r) (push_step alloc sp x P_index r q)"
  by (auto intro!: keeps_refl simp: lesser_def spare_good_def)

lemma P_chunk_keeps:
  "ginv q lg cs \<Longrightarrow> linv q lg cs (Push x P_chunk r) \<Longrightarrow>
   good_result q lg cs (Push x P_chunk r) (push_step alloc sp x P_chunk r q)"
  by (auto intro!: keeps_refl simp: lesser_def spare_good_def seen_tail_def)

lemma fresh_ptr:
  assumes "good_alloc al alloc" "alloc (chunks q) = Some p" "ginv q lg cs"
  shows "p \<notin> set cs" "p \<noteq> null" "linv q lg cs u \<Longrightarrow> p \<notin> owned u"
proof -
  have none: "chunks q p = None" and "p \<noteq> null" using assms(1,2) by (auto simp: good_alloc_def)
  then show "p \<noteq> null" by simp
  show "p \<notin> set cs" using assms(3) none by (force simp: ginv_def chunks_good_def in_set_conv_nth)
  show "linv q lg cs u \<Longrightarrow> p \<notin> owned u" using linv_spare[of q lg cs u p] none by auto
qed

lemma keeps_alloc:
  assumes g: "ginv q lg cs" and t: "linv q lg cs t" and al: "good_alloc al alloc" "alloc (chunks q) = Some p"
    and t': "owned t' = insert p (owned t)" "pclaim t' = None" "oclaim t' = None" "\<not> handing t'"
      "spare_good (q\<lparr>chunks := (chunks q)(p \<mapsto> chunk_new)\<rparr>) cs t' \<Longrightarrow>
       linv (q\<lparr>chunks := (chunks q)(p \<mapsto> chunk_new)\<rparr>) lg cs t'"
  shows "keeps q lg cs t (q\<lparr>chunks := (chunks q)(p \<mapsto> chunk_new)\<rparr>) lg cs t'"
proof (rule keeps_private[OF g])
  note f = fresh_ptr[OF al g]
  show "p \<notin> set cs" by (rule f(1))
  show "p \<notin> owned u" if "linv q lg cs u" for u using f(3)[OF that] .
  show "apart t' u" if "linv q lg cs u" "apart t u" for u
    using f(3)[OF that(1)] that(2) t'(1-4) by (auto simp: apart_def)
  show "linv (q\<lparr>chunks := (chunks q)(p \<mapsto> chunk_new)\<rparr>) lg cs t'"
    using t'(1) f(1,2) linv_spare[OF t] by (intro t'(5)) (auto simp: spare_good_def)
qed

lemma new_chunk_cases:
  "new_chunk alloc q = (case alloc (chunks q) of None \<Rightarrow> Inl Out_of_memory
     | Some p \<Rightarrow> Inr (p, q\<lparr>chunks := (chunks q)(p \<mapsto> chunk_new)\<rparr>))"
  by (simp add: new_chunk_def box_new_def split: option.split)

lemma P_check_keeps:
  assumes g: "ginv q lg cs" and t: "linv q lg cs (Push x P_check r)" and al: "good_alloc al alloc"
  shows "good_result q lg cs (Push x P_check r) (push_step alloc sp x P_check r q)"
proof -
  have st: "seen_tail q r" using t by simp
  consider (cap) "place (ctail r) mod 32 = 31" | (last) "place (ctail r) mod 32 = 30" "cspare r = None"
    | (go) "ready r" "\<not> (place (ctail r) mod 32 = 30 \<and> cspare r = None)" by (auto simp: ready_def)
  then show ?thesis
  proof cases
    case cap
    then have "push_step alloc sp x P_check r q = Inr (Push x P_index r, q, Quiet)"
      by (simp add: push_check_def offset_cap_iff)
    then show ?thesis using t by (auto intro!: keeps_refl[OF g] simp: lesser_def spare_good_def)
  next
    case go
    then have "push_step alloc sp x P_check r q = Inr (Push x (if cchunk r = null then P_first else P_cas) r, q, Quiet)"
      by (auto simp: push_check_def offset_cap_iff offset_last_iff ready_def)
    then show ?thesis using t st go(1) by (auto intro!: keeps_refl[OF g] simp: lesser_def spare_good_def)
  next
    case last
    show ?thesis
    proof (cases "alloc (chunks q)")
      case None
      then show ?thesis using last by (simp add: push_check_def offset_cap_iff offset_last_iff new_chunk_cases)
    next
      case (Some p)
      let ?t = "Push x (if cchunk r = null then P_first else P_cas) (r\<lparr>cspare := Some p\<rparr>)"
      have res: "push_step alloc sp x P_check r q = Inr (?t, q\<lparr>chunks := (chunks q)(p \<mapsto> chunk_new)\<rparr>, Quiet)"
        using last Some by (simp add: push_check_def offset_cap_iff offset_last_iff new_chunk_cases)
      have "keeps q lg cs (Push x P_check r) (q\<lparr>chunks := (chunks q)(p \<mapsto> chunk_new)\<rparr>) lg cs ?t"
        using st last by (intro keeps_alloc[OF g t al Some]) (auto simp: seen_tail_def ready_def)
      then show ?thesis using res by simp
    qed
  qed
qed

lemma P_first_keeps:
  assumes g: "ginv q lg cs" and t: "linv q lg cs (Push x P_first r)" and al: "good_alloc al alloc"
  shows "good_result q lg cs (Push x P_first r) (push_step alloc sp x P_first r q)"
proof (cases "alloc (chunks q)")
  case None
  then show ?thesis by (simp add: new_chunk_cases)
next
  case (Some p)
  have "p \<notin> spare_of r" using fresh_ptr(3)[OF al Some g t] by simp
  then have "keeps q lg cs (Push x P_first r) (q\<lparr>chunks := (chunks q)(p \<mapsto> chunk_new)\<rparr>) lg cs
      (Push x P_cas_chunk (r\<lparr>cnew := p\<rparr>))"
    using t by (intro keeps_alloc[OF g t al Some]) (auto simp: seen_tail_def ready_def)
  then show ?thesis using Some by (simp add: new_chunk_cases)
qed

text \<open>A spare chunk is freed.\<close>

lemma keeps_free:
  assumes g: "ginv q lg cs" and t: "linv q lg cs t" and p: "p \<in> owned t"
    and t': "linv (q\<lparr>chunks := (chunks q)(p := None)\<rparr>) lg cs t'" "lesser t' t"
  shows "keeps q lg cs t (q\<lparr>chunks := (chunks q)(p := None)\<rparr>) lg cs t'"
  using linv_spare[OF t p] t' apart_owned[OF _ p] by (intro keeps_private[OF g]) (auto intro: apart_lesser)

lemma free_chunk_ok: "chunks q p \<noteq> None \<Longrightarrow> free_chunk p q = Inr (q\<lparr>chunks := (chunks q)(p := None)\<rparr>)"
  by (simp add: free_chunk_def box_drop_def)

lemma P_drop_keeps:
  assumes g: "ginv q lg cs" and t: "linv q lg cs (Push x P_drop r)"
  shows "good_result q lg cs (Push x P_drop r) (push_step alloc sp x P_drop r q)"
proof (cases "cspare r")
  case None
  then show ?thesis by (auto intro!: keeps_refl[OF g] simp: lesser_def)
next
  case (Some p)
  then have "free_chunk p q = Inr (q\<lparr>chunks := (chunks q)(p := None)\<rparr>)"
    using linv_spare[OF t, of p] by (intro free_chunk_ok) simp
  then show ?thesis using Some by (auto intro!: keeps_free[OF g t] simp: lesser_def)
qed

section \<open>The first chunk\<close>

lemma chunk_new_good: "lap_good tp lg cs k chunk_new"
  by (simp add: lap_good_def chunk_new_def CHUNK_CAP_31 slot_good_def)

text \<open>A spare chunk is linked in behind the last one.\<close>

lemma chunks_good_snoc:
  assumes "chunks_good q lg cs" "chunks q p = Some chunk_new" "p \<noteq> null" "p \<notin> set cs"
  shows "chunks_good (q\<lparr>tchunk := p\<rparr>) lg (cs @ [p])"
proof -
  have "lap_good tp lg (cs @ [p]) k ch" if "lap_good tp lg cs k ch" for tp k ch
    using that by (auto simp: lap_good_def nth_append)
  then show ?thesis using assms chunk_new_good by (fastforce simp: chunks_good_def nth_append)
qed


text \<open>A step that writes indices and chunk pointers only.\<close>

lemma evolves_fields:
  assumes u: "linv q lg cs u" and same: "chunks q' = chunks q"
    and mono: "tindex q \<le> tindex q'" "hindex q \<le> hindex q'"
    and new: "set d \<inter> owned u = {}"
    and t: "tindex q' = tindex q \<Longrightarrow> tplace q mod 32 \<noteq> 31 \<Longrightarrow> tchunk q \<noteq> null \<Longrightarrow> tchunk q' = tchunk q"
    and h: "hindex q' = hindex q \<Longrightarrow> hplace q mod 32 \<noteq> 31 \<Longrightarrow> hchunk q \<noteq> null \<Longrightarrow> hchunk q' = hchunk q"
    and "extending u \<Longrightarrow> tindex q' = tindex q \<and> d = []"
    and "advancing u \<Longrightarrow> hindex q' = hindex q \<and> hchunk q' = hchunk q"
    and "handing u \<Longrightarrow> hchunk q' = hchunk q"
  shows "evolves q lg cs q' (lg @ e) (cs @ d) u"
  using assms linv_spare[OF u] by (auto simp: evolves_def slot_of_def)

lemma P_cas_chunk_keeps:
  assumes g: "ginv q lg cs" and t: "linv q lg cs (Push x P_cas_chunk r)"
  shows "good_result q lg cs (Push x P_cas_chunk r) (push_step alloc sp x P_cas_chunk r q)"
proof (cases "tchunk q = null")
  case True
  note d = ginvD[OF g]
  have cs: "cs = []" using True d(8) by simp
  then have h: "hchunk q = null" "hindex q = 0" "tindex q = 0" "lg = []"
    using d(5,10,12,13) by (auto simp: place_def)
  note new = linv_spare[OF t, of "cnew r", simplified]
  let ?q = "q\<lparr>tchunk := cnew r\<rparr>"
  have "ginv ?q lg [cnew r]"
    using chunks_good_snoc[of q lg cs "cnew r"] g new h cs by (simp add: ginv_defs place_def)
  moreover have "linv ?q lg [cnew r] (Push x P_head r)"
    using t new h linv_spare[OF t] by (auto simp: seen_tail_def spare_good_def split: option.splits)
  moreover have "evolves q lg cs ?q lg [cnew r] u \<and> apart (Push x P_head r) u"
    if u: "linv q lg cs u" "apart (Push x P_cas_chunk r) u" for u
  proof -
    have "evolves q lg cs ?q (lg @ []) (cs @ [cnew r]) u"
      using u True h linv_extending[OF u(1)] by (intro evolves_fields) (auto simp: apart_def place_def)
    then show ?thesis using u cs linv_handing[OF u(1)] by (auto simp: apart_def)
  qed
  ultimately show ?thesis using True t cs by (simp add: push_cas_chunk_def keeps_def)
next
  case False
  let ?t = "Push x P_index (r\<lparr>cspare := Some (cnew r)\<rparr>)"
  have le: "lesser ?t (Push x P_cas_chunk r)" by (simp add: lesser_def)
  show ?thesis
  proof (cases "cspare r")
    case None
    then show ?thesis using False t le
      by (auto simp: push_cas_chunk_def spare_good_def intro!: keeps_refl[OF g])
  next
    case (Some p)
    note p = linv_spare[OF t, of p, simplified Some, simplified]
    have "linv (q\<lparr>chunks := (chunks q)(p := None)\<rparr>) lg cs ?t"
      using t Some by (auto simp: spare_good_def)
    then show ?thesis using False t le Some p keeps_free[OF g t, of p ?t]
      by (simp add: push_cas_chunk_def free_chunk_ok)
  qed
qed

lemma P_head_keeps:
  assumes g: "ginv q lg cs" and t: "linv q lg cs (Push x P_head r)"
  shows "good_result q lg cs (Push x P_head r) (push_step alloc sp x P_head r q)"
proof -
  let ?q = "q\<lparr>hchunk := cnew r\<rparr>" and ?t = "Push x P_cas (r\<lparr>cchunk := cnew r\<rparr>)"
  have n: "hchunk q = null" "cs \<noteq> []" "cs ! 0 = cnew r" "cnew r \<noteq> null" using t by auto
  then have h: "hindex q = 0" using g by (simp add: ginv_defs)
  have "ginv ?q lg cs" using g n h by (simp add: ginv_defs chunks_good_def place_def)
  moreover have "linv ?q lg cs ?t" using t by (auto simp: seen_tail_def spare_good_def ready_def)
  moreover have "evolves q lg cs ?q (lg @ []) (cs @ []) u"
    if u: "linv q lg cs u" "apart (Push x P_head r) u" for u
    using u n h linv_advancing[OF u(1)] by (intro evolves_fields) (auto simp: apart_def place_def)
  moreover have "lesser ?t (Push x P_head r)" by (simp add: lesser_def)
  ultimately show ?thesis by (auto simp: keeps_def intro: apart_lesser)
qed

end
