(* ===== verification/Co_Push_Steps.thy ===== *)
theory Co_Push_Steps
  imports Co_Keeps
begin

text \<open>
  The steps of \<open>push\<close> from the claim of an index on: the compare-exchange on the tail index, the three
  stores that open the next chunk, the write of the value and the mark that publishes it.
\<close>

section \<open>The claim\<close>

lemma lap_good_mono:
  assumes "lap_good tp lg cs k ch" "tp \<le> tp'"
  shows "lap_good tp' (lg @ e) cs k ch"
  using assms div_le_mono[OF assms(2), of 32] by (auto simp: lap_good_def slot_good_def nth_append)

lemma chunks_good_tail:
  assumes "chunks_good q lg cs" "tplace q \<le> tplace q'" "chunks q' = chunks q"
  shows "chunks_good q' (lg @ e) cs"
  using assms(1,3) lap_good_mono[OF _ assms(2)] by (fastforce simp: chunks_good_def)

lemma head_good_tail:
  assumes "head_good q cs" "tplace q \<le> tplace q'" "hindex q' = hindex q" "hchunk q' = hchunk q"
  shows "head_good q' cs"
  using assms div_le_mono[OF assms(2), of 32] by (auto simp: head_good_def)

lemma even_place: "even (unat w) \<Longrightarrow> unat w = 2 * place w"
  by (simp add: place_def)

lemma Suc_lap: "p mod 32 \<noteq> 31 \<Longrightarrow> Suc p div 32 = p div 32" "p mod 32 = 31 \<Longrightarrow> Suc p div 32 = Suc (p div 32)"
  "p mod 32 = 30 \<Longrightarrow> Suc p mod 32 = 31" "p mod 32 = 31 \<Longrightarrow> Suc p mod 32 = 0"
  by (simp_all add: div_Suc mod_Suc)

lemma unwritten:
  assumes "ginv q lg cs" "p mod 32 \<noteq> 31" "p div 32 < length cs" "length lg \<le> cnt p"
  shows "sstate (slot_of q cs p) AND WRITE = 0"
proof -
  obtain ch where ch: "chunks q (cs ! (p div 32)) = Some ch" "lap_good (tplace q) lg cs (p div 32) ch"
    using chunks_good_at[OF ginvD(1)[OF assms(1)] assms(3)] .
  have "p mod 32 < 31" using assms(2) mod_less_divisor[of 32 p] by linarith
  then have "slot_good lg (cnt p) (slot_of q cs p)" using ch assms(2) by (simp add: lap_good_def slot_of_def cnt_slot)
  then show ?thesis using assms(4) by (auto simp: slot_good_def)
qed

lemma claim_keeps:
  assumes g: "ginv q lg cs" and b: "small (length lg)" and t: "linv q lg cs (Push x P_cas r)" and eq: "tindex q = ctail r"
  defines "t' \<equiv> Push x (if place (ctail r) mod 32 = 30 then P_tchunk else P_value) r"
  shows "keeps q lg cs (Push x P_cas r) (q\<lparr>tindex := ctail r + 2\<rparr>) (lg @ [x]) cs t'"
proof -
  note d = ginvD[OF g]
  let ?q = "q\<lparr>tindex := ctail r + 2\<rparr>" and ?p = "place (ctail r)"
  have un: "unat (ctail r) < 2 ^ 63" using ginv_bounds(1)[OF g b] eq by simp
  have pl: "place (ctail r + 2) = Suc ?p" "even (unat (ctail r + 2))"
    using place_next[OF un] unat_next[OF un] d(4) eq by simp_all
  have r: "?p mod 32 \<noteq> 31" "cchunk r = tchunk q" "cs \<noteq> []"
    using t eq d(8) by (auto simp: ready_def seen_tail_def)
  have len: "length cs = Suc (?p div 32)" using d(11) r eq by simp
  have "chunks_good ?q (lg @ [x]) cs" "head_good ?q cs"
    using g pl eq by (auto intro: chunks_good_tail[of q] head_good_tail[of q] simp: ginv_def)
  then have "ginv ?q (lg @ [x]) cs" using d(5,9) r len pl eq by (simp add: ginv_def tail_good_def cnt_Suc Suc_lap)
  moreover have cl: "claimed ?q (lg @ [x]) cs x r"
    using r len pl eq d(4,5,9) unwritten[OF g r(1)]
    by (simp add: claimed_def Let_def nth_append last_conv_nth slot_of_def place_def)
  then have "linv ?q (lg @ [x]) cs t'"
    using t eq r len pl by (auto simp: t'_def ready_def spare_good_def Suc_lap)
  moreover have "evolves q lg cs ?q (lg @ [x]) (cs @ []) u \<and> apart t' u"
    if u: "linv q lg cs u" "apart (Push x P_cas r) u" for u
  proof
    have ne: "tindex q < ctail r + 2" using unat_next[OF un] eq by (simp add: word_less_nat_alt)
    show "evolves q lg cs ?q (lg @ [x]) (cs @ []) u"
      using ne r(1) eq linv_extending[OF u(1)] by (intro evolves_fields[OF u(1)]) (auto simp: Suc_lap)
    show "apart t' u" using u(2) linv_pclaim[OF u(1)] eq by (auto simp: apart_def t'_def)
  qed
  ultimately show ?thesis by (simp add: keeps_def)
qed

lemma P_cas_keeps:
  assumes g: "ginv q lg cs" and b: "small (length lg)" and t: "linv q lg cs (Push x P_cas r)"
  shows "good_result q lg cs (Push x P_cas r) (push_step alloc sp x P_cas r q)"
proof -
  have "unat (ctail r) \<le> unat (tindex q)" using t by (simp add: seen_tail_def word_le_nat_alt)
  then have ck: "checked_add (ctail r) 2 = Inr (ctail r + 2)"
    using ginv_bounds(1)[OF g b] by (intro checked_next) simp
  show ?thesis
  proof (cases "\<not> sp \<and> tindex q = ctail r")
    case True
    then show ?thesis using claim_keeps[OF g b t] ck
      by (simp add: push_cas_def one_place offset_last_iff del: push_bit_of_1)
  next
    case False
    then have "push_step alloc sp x P_cas r q = Inr (Push x P_chunk (r\<lparr>ctail := tindex q\<rparr>), q, Quiet)"
      using ck by (auto simp: push_cas_def one_place simp del: push_bit_of_1)
    then show ?thesis using t by (auto intro!: keeps_refl[OF g] simp: lesser_def spare_good_def)
  qed
qed

section \<open>The next chunk\<close>

lemma claimed_cong:
  assumes "claimed q lg cs x r" "chunks q' = chunks q" "tplace q \<le> tplace q'"
  shows "claimed q' lg (cs @ d) x r"
  using assms by (auto simp: claimed_def Let_def nth_append slot_of_def)

lemma P_tchunk_keeps:
  assumes g: "ginv q lg cs" and t: "linv q lg cs (Push x P_tchunk r)"
  shows "good_result q lg cs (Push x P_tchunk r) (push_step alloc sp x P_tchunk r q)"
proof -
  note d = ginvD[OF g]
  let ?p = "place (ctail r)"
  obtain nc where nc: "cspare r = Some nc" using t by auto
  have own: "chunks q nc = Some chunk_new" "nc \<noteq> null" "nc \<notin> set cs" using linv_spare[OF t, of nc] nc by auto
  let ?q = "q\<lparr>tchunk := nc\<rparr>" and ?t = "Push x P_tindex r"
  have i: "?p mod 32 = 30" "tplace q = Suc ?p" "length cs = Suc (tplace q div 32)" "claimed q lg cs x r"
    using t by simp_all
  have "ginv ?q lg (cs @ [nc])"
    using chunks_good_snoc[OF d(1), of nc] own d(4,5,6,7) i(1-3) g
    by (auto simp: ginv_defs Suc_lap nth_append)
  moreover have "linv ?q lg (cs @ [nc]) ?t"
    using i nc claimed_cong[OF i(4), of ?q "[nc]"] by (simp add: Suc_lap spare_good_def nth_append)
  moreover have "evolves q lg cs ?q (lg @ []) (cs @ [nc]) u"
    if u: "linv q lg cs u" "apart (Push x P_tchunk r) u" for u
    using u i nc linv_extending[OF u(1)] by (intro evolves_fields[OF u(1)]) (auto simp: apart_def Suc_lap)
  moreover have "lesser ?t (Push x P_tchunk r)" by (simp add: lesser_def)
  ultimately show ?thesis using nc by (auto simp: keeps_def intro: apart_lesser)
qed

lemma P_tindex_keeps:
  assumes g: "ginv q lg cs" and b: "small (length lg)" and t: "linv q lg cs (Push x P_tindex r)"
  shows "good_result q lg cs (Push x P_tindex r) (push_step alloc sp x P_tindex r q)"
proof -
  note d = ginvD[OF g]
  let ?p = "place (ctail r)"
  let ?q = "q\<lparr>tindex := ctail r + 2 + 2\<rparr>" and ?t = "Push x P_next r"
  have i: "?p mod 32 = 30" "tplace q = Suc ?p" "length cs = Suc (Suc (tplace q div 32))" "claimed q lg cs x r"
    using t by simp_all
  have lap: "Suc ?p div 32 = ?p div 32" "Suc (Suc ?p) div 32 = Suc (?p div 32)" "Suc ?p mod 32 = 31"
    using i(1) by (simp_all add: Suc_lap)
  have ev: "unat (ctail r) = 2 * ?p" using i(4) by (simp add: claimed_def Let_def)
  have un: "unat (ctail r) < 2 ^ 62" using ginv_bounds(1)[OF g b] i(2) ev even_place[OF d(4)] by simp
  then have up: "unat (ctail r + 2) = unat (ctail r) + 2" by (intro unat_next) simp
  have up2: "unat (ctail r + 2 + 2) = unat (ctail r) + 4" using unat_next[of "ctail r + 2"] un up by simp
  have pl: "place (ctail r + 2 + 2) = Suc (Suc ?p)" "even (unat (ctail r + 2 + 2))"
    unfolding place_def[of "ctail r + 2 + 2"] up2 ev by simp_all
  have lt: "tindex q < ctail r + 2 + 2"
    using up2 ev i(2) even_place[OF d(4)] by (simp add: word_less_nat_alt)
  have "chunks_good ?q (lg @ []) cs" "head_good ?q cs"
    using g pl i(2) by (auto intro: chunks_good_tail[of q lg cs ?q "[]", simplified] head_good_tail[of q] simp: ginv_def)
  then have "ginv ?q lg cs" using d(5,9) pl i lap by (auto simp: ginv_def tail_good_def cnt_Suc)
  moreover have "linv ?q lg cs ?t"
    using i lap pl t claimed_cong[OF i(4), of ?q "[]"] by (simp add: spare_good_def)
  moreover have "evolves q lg cs ?q (lg @ []) (cs @ []) u"
    if u: "linv q lg cs u" "apart (Push x P_tindex r) u" for u
    using u i lt linv_extending[OF u(1)] by (intro evolves_fields[OF u(1)]) (auto simp: apart_def)
  moreover have "lesser ?t (Push x P_tindex r)" by (simp add: lesser_def)
  ultimately show ?thesis
    by (auto simp: keeps_def one_place simp del: push_bit_of_1 intro: apart_lesser)
qed


section \<open>Writing the slot\<close>

lemma state_bits [simp]:
  "(w OR WRITE) AND READ = w AND READ" "(w OR WRITE) AND WRITE \<noteq> 0" "(w OR READ) AND WRITE = w AND WRITE"
  "(w OR DESTROY) AND WRITE = w AND WRITE" "(w OR DESTROY) AND READ = w AND READ"
  by (simp_all add: co_consts bit.conj_disj_distrib2)

text \<open>The chunk and slot of a claimed place.\<close>

lemma slot_split:
  assumes "ginv q lg cs" "p mod 32 \<noteq> 31" "p div 32 < length cs"
  obtains ch where "chunks q (cs ! (p div 32)) = Some ch" "lap_good (tplace q) lg cs (p div 32) ch"
    "p mod 32 < 31" "slot_of q cs p = cslots ch ! (p mod 32)" "p mod 32 < length (cslots ch)"
    "slot_good lg (cnt p) (cslots ch ! (p mod 32))"
proof -
  obtain ch where ch: "chunks q (cs ! (p div 32)) = Some ch" "lap_good (tplace q) lg cs (p div 32) ch"
    using chunks_good_at[OF ginvD(1)[OF assms(1)] assms(3)] .
  moreover have "p mod 32 < 31" using assms(2) mod_less_divisor[of 32 p] by linarith
  ultimately show thesis using that assms(2) by (simp add: slot_of_def lap_good_def cnt_slot)
qed

lemma lap_good_slot:
  assumes "lap_good tp lg cs k ch" "j < 31" "slot_good lg (31 * k + j) s" "j = 30 \<Longrightarrow> sstate s AND READ = 0"
  shows "lap_good tp lg cs k (ch\<lparr>cslots := (cslots ch)[j := s]\<rparr>)"
  using assms by (auto simp: lap_good_def nth_list_update)

text \<open>A thread that has claimed a place to write to changes its slot: no other pusher has that place.\<close>

lemma keeps_own_slot:
  assumes g: "ginv q lg cs" and t: "linv q lg cs t" "pclaim t = Some p"
    and ch: "chunks q (cs ! (p div 32)) = Some ch"
    and s: "slot_good lg (cnt p) s" "sstate s AND READ = sstate (cslots ch ! (p mod 32)) AND READ"
    and t': "linv (q\<lparr>chunks := (chunks q)(cs ! (p div 32) \<mapsto> ch\<lparr>cslots := (cslots ch)[p mod 32 := s]\<rparr>)\<rparr>) lg cs t'"
      "lesser t' t"
  shows "keeps q lg cs t
    (q\<lparr>chunks := (chunks q)(cs ! (p div 32) \<mapsto> ch\<lparr>cslots := (cslots ch)[p mod 32 := s]\<rparr>)\<rparr>) lg cs t'"
proof -
  note c = linv_pclaim[OF t]
  obtain lap: "lap_good (tplace q) lg cs (p div 32) ch" "p mod 32 < 31" "slot_of q cs p = cslots ch ! (p mod 32)"
      "p mod 32 < length (cslots ch)"
    using slot_split[OF g, of p] c ch by (metis option.inject)
  have free: "sstate (cslots ch ! (p mod 32)) AND WRITE = 0" using c lap(3) by simp
  show ?thesis
  proof (rule keeps_linked[OF g _ ch _ _ _ t'])
    show "p div 32 < length cs" using c by simp
    show "lap_good (tplace q) lg cs (p div 32) (ch\<lparr>cslots := (cslots ch)[p mod 32 := s]\<rparr>)"
      using lap s c by (intro lap_good_slot) (auto simp: cnt_slot lap_good_def)
  next
    fix u n assume u: "apart t u" "pclaim u = Some n" "n div 32 = p div 32"
    then have "n \<noteq> p" using t(2) by (auto simp: apart_def)
    then have "n mod 32 \<noteq> p mod 32" using u(3) div_mult_mod_eq[of n 32] div_mult_mod_eq[of p 32] by metis
    then show "sstate (cslots (ch\<lparr>cslots := (cslots ch)[p mod 32 := s]\<rparr>) ! (n mod 32)) AND WRITE =
        sstate (cslots ch ! (n mod 32)) AND WRITE \<and>
        svalue (cslots (ch\<lparr>cslots := (cslots ch)[p mod 32 := s]\<rparr>) ! (n mod 32)) = svalue (cslots ch ! (n mod 32))"
      by simp
  next
    fix j assume "sstate (cslots ch ! j) AND WRITE \<noteq> 0"
    then show "sstate (cslots (ch\<lparr>cslots := (cslots ch)[p mod 32 := s]\<rparr>) ! j) AND WRITE \<noteq> 0"
      using free lap(4) by (cases "j = p mod 32") auto
  qed
qed

lemma upd_chunk_Some: "chunks q p = Some ch \<Longrightarrow> upd_chunk p f q = Inr (q\<lparr>chunks := (chunks q)(p \<mapsto> f ch)\<rparr>)"
  by (simp add: upd_chunk_def)

lemma P_value_keeps:
  assumes g: "ginv q lg cs" and t: "linv q lg cs (Push x P_value r)"
  shows "good_result q lg cs (Push x P_value r) (push_step alloc sp x P_value r q)"
proof -
  let ?p = "place (ctail r)"
  have c: "claimed q lg cs x r" using t by simp
  then have p: "?p mod 32 \<noteq> 31" "?p div 32 < length cs" "cchunk r = cs ! (?p div 32)"
      "sstate (slot_of q cs ?p) AND WRITE = 0"
    by (simp_all add: claimed_def Let_def)
  obtain ch where ch: "chunks q (cs ! (?p div 32)) = Some ch" "slot_of q cs ?p = cslots ch ! (?p mod 32)"
      "?p mod 32 < length (cslots ch)"
    using slot_split[OF g p(1,2)] by metis
  let ?s = "(cslots ch ! (?p mod 32))\<lparr>svalue := Some x\<rparr>"
  let ?q = "q\<lparr>chunks := (chunks q)(cs ! (?p div 32) \<mapsto> ch\<lparr>cslots := (cslots ch)[?p mod 32 := ?s]\<rparr>)\<rparr>"
  have "slot_of ?q cs ?p = ?s" using ch(3) by (simp add: slot_of_upd[OF ginvD(2)[OF g] p(2) p(2)])
  then have "linv ?q lg cs (Push x P_write r)"
    using t p ch(2) nth_mem[OF p(2)] by (auto simp: claimed_def Let_def spare_good_def)
  then have "keeps q lg cs (Push x P_value r) ?q lg cs (Push x P_write r)"
    using p(4) ch(2) by (intro keeps_own_slot[OF g t _ ch(1)]) (auto simp: slot_good_def lesser_def)
  then show ?thesis using p(3) ch(1,3) by (simp add: upd_slot_def unat_offset)
qed


lemma P_write_keeps:
  assumes g: "ginv q lg cs" and t: "linv q lg cs (Push x P_write r)"
  shows "good_result q lg cs (Push x P_write r) (push_step alloc sp x P_write r q)"
proof -
  let ?p = "place (ctail r)"
  have c: "claimed q lg cs x r" and v: "svalue (slot_of q cs ?p) = Some x" using t by simp_all
  then have p: "?p mod 32 \<noteq> 31" "?p div 32 < length cs" "cchunk r = cs ! (?p div 32)" "?p < tplace q" "lg ! cnt ?p = x"
    by (simp_all add: claimed_def Let_def)
  obtain ch where ch: "chunks q (cs ! (?p div 32)) = Some ch" "slot_of q cs ?p = cslots ch ! (?p mod 32)"
      "?p mod 32 < length (cslots ch)"
    using slot_split[OF g p(1,2)] by metis
  let ?s = "sstate_update (\<lambda>w. w OR WRITE) (cslots ch ! (?p mod 32))"
  let ?q = "q\<lparr>chunks := (chunks q)(cs ! (?p div 32) \<mapsto> ch\<lparr>cslots := (cslots ch)[?p mod 32 := ?s]\<rparr>)\<rparr>"
  let ?t = "if cspare r = None then Answered Pushed else Push x P_drop r"
  have "slot_good lg (cnt ?p) ?s"
    using v p(5) ch(2) cnt_less[OF p(4,1)] ginvD(5)[OF g] by (simp add: slot_good_def)
  moreover have "linv ?q lg cs ?t" using t p(2) nth_mem[OF p(2)] by (auto simp: spare_good_def)
  ultimately have "keeps q lg cs (Push x P_write r) ?q lg cs ?t"
    by (intro keeps_own_slot[OF g t _ ch(1)]) (auto simp: lesser_def)
  then show ?thesis using p(3) ch(1,3) by (simp add: upd_slot_def unat_offset)
qed

lemma P_next_keeps:
  assumes g: "ginv q lg cs" and t: "linv q lg cs (Push x P_next r)"
  shows "good_result q lg cs (Push x P_next r) (push_step alloc sp x P_next r q)"
proof -
  let ?p = "place (ctail r)"
  have c: "claimed q lg cs x r" and n: "cspare r = Some (cs ! Suc (?p div 32))" "?p div 32 < tplace q div 32"
      "Suc (?p div 32) < length cs" using t by simp_all
  then have p: "?p mod 32 \<noteq> 31" "?p div 32 < length cs" "cchunk r = cs ! (?p div 32)"
    by (simp_all add: claimed_def Let_def)
  obtain ch where ch: "chunks q (cs ! (?p div 32)) = Some ch" "lap_good (tplace q) lg cs (?p div 32) ch"
      "slot_of q cs ?p = cslots ch ! (?p mod 32)"
    using slot_split[OF g p(1,2)] by metis
  let ?ch = "ch\<lparr>cnext := cs ! Suc (?p div 32)\<rparr>"
  let ?q = "q\<lparr>chunks := (chunks q)(cs ! (?p div 32) \<mapsto> ?ch)\<rparr>" and ?t = "Push x P_value (r\<lparr>cspare := None\<rparr>)"
  have "slot_of ?q cs ?p = slot_of q cs ?p" using ch(3) by (simp add: slot_of_upd[OF ginvD(2)[OF g] p(2) p(2)])
  then have "linv ?q lg cs ?t" using c by (simp add: claimed_def Let_def spare_good_def)
  moreover have "lap_good (tplace q) lg cs (?p div 32) ?ch" using ch(2) n by (simp add: lap_good_def)
  ultimately have "keeps q lg cs (Push x P_next r) ?q lg cs ?t"
    by (intro keeps_linked[OF g p(2) ch(1)]) (auto simp: lesser_def)
  then show ?thesis using p(3) n(1) ch(1) by (simp add: upd_chunk_Some)
qed

theorem push_step_keeps:
  assumes "ginv q lg cs" "small (length lg)" "linv q lg cs (Push x at r)" "good_alloc al alloc"
  shows "good_result q lg cs (Push x at r) (push_step alloc sp x at r q)"
  using assms
  by (cases at) (metis P_index_keeps P_chunk_keeps P_check_keeps P_first_keeps P_cas_chunk_keeps P_head_keeps
      P_cas_keeps P_tchunk_keeps P_tindex_keeps P_next_keeps P_value_keeps P_write_keeps P_drop_keeps)+

end
