(* ===== verification/Co_Pop_Steps.thy ===== *)
theory Co_Pop_Steps
  imports Co_Push_Steps
begin

text \<open>
  The steps of \<open>pop\<close>: the decision whether there is an element, the compare-exchange on the head index,
  the move of the head to the next chunk, and the read, mark and clean-up of the slot.
\<close>

section \<open>Finding an element\<close>

lemma O_index_keeps:
  "ginv q lg cs \<Longrightarrow> good_result q lg cs (Pop O_index r) (pop_step sp O_index r q)"
  by (auto intro!: keeps_refl simp: lesser_def)

lemma O_chunk_keeps:
  "ginv q lg cs \<Longrightarrow> linv q lg cs (Pop O_chunk r) \<Longrightarrow>
   good_result q lg cs (Pop O_chunk r) (pop_step sp O_chunk r q)"
  by (auto intro!: keeps_refl simp: lesser_def seen_head_def)

lemma pop_ready_keeps:
  assumes "ginv q lg cs" "oclaim t = None" "cochunk r \<noteq> null \<Longrightarrow> linv q lg cs (Pop O_cas r)"
  shows "keeps q lg cs t q lg cs (pop_ready r)"
  using assms by (auto intro!: keeps_refl simp: lesser_def pop_ready_def)

lemma seen_head_bound:
  assumes "ginv q lg cs" "small (length lg)" "seen_head q r"
  shows "unat (chead r) < 2 ^ 62"
  using ginv_bounds(2)[OF assms(1,2)] assms(3) by (simp add: seen_head_def word_le_nat_alt)

lemma O_check_keeps:
  assumes g: "ginv q lg cs" and b: "small (length lg)" and t: "linv q lg cs (Pop O_check r)"
  shows "good_result q lg cs (Pop O_check r) (pop_step sp O_check r q)"
proof (cases "place (chead r) mod 32 = 31")
  case True
  then show ?thesis by (auto simp: pop_check_def offset_cap_iff lesser_def intro!: keeps_refl[OF g])
next
  case False
  have sh: "seen_head q r" using t by simp
  have un: "unat (chead r) < 2 ^ 63" using seen_head_bound[OF g b sh] by simp
  note n = checked_next[OF un] place_next[OF un] unat_next[OF un]
  let ?r = "r\<lparr>cnhead := chead r + 2\<rparr>"
  have sh': "seen_head q ?r" using sh by (auto simp: seen_head_def)
  show ?thesis
  proof (cases "even (unat (chead r))")
    case True
    then have "pop_step sp O_check r q = Inr (Pop O_tail ?r, q, Quiet)"
      using False n by (simp add: pop_check_def offset_cap_iff one_place has_next_iff del: push_bit_of_1)
    then show ?thesis using sh' False True by (auto intro!: keeps_refl[OF g] simp: lesser_def)
  next
    case odd: False
    then have "pop_step sp O_check r q = Inr (pop_ready ?r, q, Quiet)"
      using False n by (simp add: pop_check_def offset_cap_iff one_place has_next_iff del: push_bit_of_1)
    moreover have "linv q lg cs (Pop O_cas ?r)" if "cochunk ?r \<noteq> null"
      using that sh' False n odd ginvD(6,7)[OF g] by (auto simp: order_less_le)
    ultimately show ?thesis using pop_ready_keeps[OF g, of "Pop O_check r" ?r] by simp
  qed
qed

lemma O_tail_keeps:
  assumes g: "ginv q lg cs" and b: "small (length lg)" and t: "linv q lg cs (Pop O_tail r)"
  shows "good_result q lg cs (Pop O_tail r) (pop_step sp O_tail r q)"
proof (cases "place (chead r) = tplace q")
  case True
  then show ?thesis by (auto simp: pop_tail_def drop_eq_iff lesser_def intro!: keeps_refl[OF g])
next
  case False
  have i: "seen_head q r" "place (chead r) mod 32 \<noteq> 31" "even (unat (chead r))" "cnhead r = chead r + 2" using t by simp_all
  have un: "unat (chead r) < 2 ^ 62" using seen_head_bound[OF g b i(1)] .
  have n: "place (cnhead r) = Suc (place (chead r))" "even (unat (cnhead r))" "unat (cnhead r) < 2 ^ 63"
    using place_next[of "chead r"] unat_next[of "chead r"] un i(3,4) by simp_all
  have lt: "hplace q < tplace q" if "chead r = hindex q" using that False ginvD(6)[OF g] by simp
  let ?r = "if place (chead r) div 32 \<noteq> tplace q div 32 then r\<lparr>cnhead := cnhead r OR HAS_NEXT\<rparr> else r"
  have "pop_step sp O_tail r q = Inr (pop_ready ?r, q, Quiet)"
    using False by (simp add: pop_tail_def drop_eq_iff drop_lap_iff)
  moreover have "linv q lg cs (Pop O_cas ?r)" if "cochunk ?r \<noteq> null"
    using that i n lt or_next[OF n(3)] div_le_mono[OF ginvD(6)[OF g], of 32] by (auto simp: seen_head_def)
  ultimately show ?thesis using pop_ready_keeps[OF g, of "Pop O_tail r" ?r] by simp
qed

section \<open>The claim\<close>

lemma claim_head_keeps:
  assumes g: "ginv q lg cs" and t: "linv q lg cs (Pop O_cas r)" and eq: "hindex q = chead r"
  defines "t' \<equiv> Pop (if place (chead r) mod 32 = 30 then O_wait_next else O_wait_write) r"
  shows "keeps q lg cs (Pop O_cas r) (q\<lparr>hindex := cnhead r\<rparr>) lg cs t'"
proof -
  note d = ginvD[OF g]
  let ?q = "q\<lparr>hindex := cnhead r\<rparr>" and ?p = "place (chead r)"
  have i: "?p mod 32 \<noteq> 31" "cochunk r = hchunk q" "hchunk q \<noteq> null" "place (cnhead r) = Suc ?p" "?p < tplace q"
      "odd (unat (cnhead r)) \<Longrightarrow> ?p div 32 < tplace q div 32"
    using t eq by (auto simp: seen_head_def)
  have at: "?p div 32 < length cs" "hchunk q = cs ! (?p div 32)" using d(14) i eq by simp_all
  have lt: "hindex q < cnhead r"
  proof (rule ccontr)
    assume "\<not> hindex q < cnhead r"
    then have "place (cnhead r) \<le> ?p" using eq by (intro place_mono) simp
    then show False using i(4) by simp
  qed
  have "ginv ?q lg cs" using g i at by (auto simp: ginv_defs chunks_good_def Suc_lap)
  moreover have "linv ?q lg cs t'" using i at by (simp add: t'_def taken_slot_def turning_def Let_def)
  moreover have "evolves q lg cs ?q (lg @ []) (cs @ []) u \<and> apart t' u"
    if u: "linv q lg cs u" "apart (Pop O_cas r) u" for u
  proof
    show "evolves q lg cs ?q (lg @ []) (cs @ []) u"
      using lt i(1,3) eq linv_advancing[OF u(1)] linv_handing[OF u(1)]
      by (intro evolves_fields[OF u(1)]) (auto simp: Suc_lap)
    show "apart t' u" using u(2) linv_oclaim[OF u(1)] eq by (auto simp: apart_def t'_def)
  qed
  ultimately show ?thesis by (simp add: keeps_def)
qed

lemma O_cas_keeps:
  assumes g: "ginv q lg cs" and t: "linv q lg cs (Pop O_cas r)"
  shows "good_result q lg cs (Pop O_cas r) (pop_step sp O_cas r q)"
proof (cases "\<not> sp \<and> hindex q = chead r")
  case True
  then show ?thesis using claim_head_keeps[OF g t] by (simp add: pop_cas_def offset_last_iff)
next
  case False
  then have "pop_step sp O_cas r q = Inr (Pop O_chunk (r\<lparr>chead := hindex q\<rparr>), q, Quiet)" by (auto simp: pop_cas_def)
  then show ?thesis by (auto intro!: keeps_refl[OF g] simp: lesser_def)
qed

section \<open>The next chunk\<close>

lemma taken_facts:
  assumes "taken_slot q lg cs r"
  shows "place (chead r) mod 32 \<noteq> 31" "place (chead r) < hplace q" "place (chead r) div 32 < length cs"
    "cochunk r = cs ! (place (chead r) div 32)"
  using assms by (simp_all add: taken_slot_def Let_def)

lemma lap_read:
  assumes "ginv q lg cs" "k < length cs"
  obtains ch where "read_chunk (cs ! k) q = Inr ch" "lap_good (tplace q) lg cs k ch" "chunks q (cs ! k) = Some ch"
    "\<And>j. j < 31 \<Longrightarrow> read_slot (cs ! k) j q = Inr (cslots ch ! j)"
proof -
  obtain ch where "chunks q (cs ! k) = Some ch" "lap_good (tplace q) lg cs k ch"
    using chunks_good_at[OF ginvD(1)[OF assms(1)] assms(2)] .
  then show thesis using that by (simp add: read_chunk_def read_slot_def lap_good_def)
qed

lemma O_wait_next_keeps:
  assumes g: "ginv q lg cs" and t: "linv q lg cs (Pop O_wait_next r)"
  shows "good_result q lg cs (Pop O_wait_next r) (pop_step sp O_wait_next r q)"
proof -
  have i: "taken_slot q lg cs r" "turning q r" "hchunk q = cochunk r" using t by simp_all
  note k = taken_facts[OF i(1)]
  obtain ch where ch: "read_chunk (cochunk r) q = Inr ch" "lap_good (tplace q) lg cs (place (chead r) div 32) ch"
    using lap_read[OF g k(3)] k(4) by metis
  let ?r = "r\<lparr>cnextp := cnext ch\<rparr>"
  have "linv q lg cs (Pop O_next_next ?r)" if "cnext ch \<noteq> null"
    using that i ch(2) by (auto simp: lap_good_def taken_slot_def turning_def turned_def Let_def)
  then show ?thesis using t ch(1) by (auto simp: lesser_def intro!: keeps_refl[OF g])
qed

lemma O_next_next_keeps:
  assumes g: "ginv q lg cs" and b: "small (length lg)" and t: "linv q lg cs (Pop O_next_next r)"
  shows "good_result q lg cs (Pop O_next_next r) (pop_step sp O_next_next r q)"
proof -
  have i: "taken_slot q lg cs r" "turning q r" "turned q cs r" "hchunk q = cochunk r" using t by simp_all
  let ?k = "Suc (place (chead r) div 32)"
  have k: "?k < length cs" "cnextp r = cs ! ?k" using i(3) by (simp_all add: turned_def)
  obtain ch where ch: "read_chunk (cnextp r) q = Inr ch" "lap_good (tplace q) lg cs ?k ch"
    using lap_read[OF g k(1)] k(2) by metis
  have pn: "place (cnhead r) = hplace q" using i(2) by (simp add: turning_def)
  then have un: "unat (cnhead r) < 2 ^ 62 + 2" using ginv_bounds(2)[OF g b] by (simp add: place_def)
  let ?w = "(cnhead r AND NOT HAS_NEXT) + 2"
  have cl: "unat (cnhead r AND NOT HAS_NEXT) = 2 * place (cnhead r)" using un by (intro clear_next) simp
  then have uw: "unat ?w = 2 * place (cnhead r) + 2" using un unat_next[of "cnhead r AND NOT HAS_NEXT"] by (simp add: place_def)
  then have pw: "place ?w = Suc (place (cnhead r))" "even (unat ?w)" unfolding place_def[of ?w] uw by simp_all
  have ub: "unat ?w < 2 ^ 63" using uw un by (simp add: place_def)
  let ?i = "if cnext ch \<noteq> null then ?w OR HAS_NEXT else ?w"
  have "aimed q (r\<lparr>cnidx := ?i\<rparr>)"
    using pw or_next[OF ub] i(2) ch(2) by (auto simp: aimed_def turning_def lap_good_def)
  then have "linv q lg cs (Pop O_hchunk (r\<lparr>cnidx := ?i\<rparr>))"
    using i by (simp add: taken_slot_def turning_def turned_def Let_def)
  then show ?thesis using ch(1)
    by (auto simp: one_place lesser_def Let_def simp del: push_bit_of_1 intro!: keeps_refl[OF g])
qed

lemma O_hchunk_keeps:
  assumes g: "ginv q lg cs" and t: "linv q lg cs (Pop O_hchunk r)"
  shows "good_result q lg cs (Pop O_hchunk r) (pop_step sp O_hchunk r q)"
proof -
  note d = ginvD[OF g]
  let ?q = "q\<lparr>hchunk := cnextp r\<rparr>" and ?t = "Pop O_hindex r" and ?p = "place (chead r)"
  have i: "taken_slot q lg cs r" "turning q r" "turned q cs r" "aimed q r" "hchunk q = cochunk r" using t by simp_all
  note k = taken_facts[OF i(1)]
  have h: "?p mod 32 = 30" "hplace q = Suc ?p" "Suc (?p div 32) < length cs" "cnextp r = cs ! Suc (?p div 32)"
    using i by (simp_all add: turning_def turned_def)
  have nn: "cnextp r \<noteq> null" "hchunk q \<noteq> null" using d(3) h(3,4) k(3,4) i(5) nth_mem by metis+
  have "ginv ?q lg cs" using g h nn by (auto simp: ginv_defs chunks_good_def Suc_lap)
  moreover have "linv ?q lg cs ?t"
    using i by (simp add: taken_slot_def turning_def turned_def aimed_def Let_def)
  moreover have "evolves q lg cs ?q (lg @ []) (cs @ []) u"
    if u: "linv q lg cs u" "apart (Pop O_hchunk r) u" for u
    using u(2) h nn linv_advancing[OF u(1)] linv_handing[OF u(1)]
    by (intro evolves_fields[OF u(1)]) (auto simp: apart_def Suc_lap)
  moreover have "lesser ?t (Pop O_hchunk r)" by (simp add: lesser_def)
  ultimately show ?thesis by (auto simp: keeps_def intro: apart_lesser)
qed

lemma O_hindex_keeps:
  assumes g: "ginv q lg cs" and t: "linv q lg cs (Pop O_hindex r)"
  shows "good_result q lg cs (Pop O_hindex r) (pop_step sp O_hindex r q)"
proof -
  note d = ginvD[OF g]
  let ?q = "q\<lparr>hindex := cnidx r\<rparr>" and ?t = "Pop O_wait_write r" and ?p = "place (chead r)"
  have i: "taken_slot q lg cs r" "turning q r" "turned q cs r" "aimed q r" "hchunk q = cnextp r" using t by simp_all
  note k = taken_facts[OF i(1)]
  have h: "?p mod 32 = 30" "hplace q = Suc ?p" "Suc (?p div 32) < length cs" "cnextp r = cs ! Suc (?p div 32)"
      "place (cnidx r) = Suc (Suc ?p)" "?p div 32 < tplace q div 32"
      "odd (unat (cnidx r)) \<Longrightarrow> Suc (?p div 32) < tplace q div 32"
    using i by (simp_all add: turning_def turned_def aimed_def)
  have lap: "Suc (Suc ?p) div 32 = Suc (?p div 32)" "Suc ?p mod 32 = 31" using h(1) by (simp_all add: Suc_lap)
  have le: "Suc (Suc ?p) \<le> tplace q"
    using h(1,6) div_mult_mod_eq[of ?p 32] div_mult_mod_eq[of "tplace q" 32] by simp
  have nn: "cnextp r \<noteq> null" using d(3) h(3,4) nth_mem by metis
  have lt: "hindex q < cnidx r"
  proof (rule ccontr)
    assume "\<not> hindex q < cnidx r"
    then have "place (cnidx r) \<le> hplace q" by (intro place_mono) simp
    then show False using h(2,5) by simp
  qed
  have "ginv ?q lg cs" using g h i(5) nn lap le by (auto simp: ginv_defs chunks_good_def)
  moreover have "linv ?q lg cs ?t" using i(1) h(2,5) by (simp add: taken_slot_def Let_def)
  moreover have "evolves q lg cs ?q (lg @ []) (cs @ []) u"
    if u: "linv q lg cs u" "apart (Pop O_hindex r) u" for u
    using u(2) h(2) lt i(5) nn linv_advancing[OF u(1)]
    by (intro evolves_fields[OF u(1)]) (auto simp: apart_def)
  moreover have "lesser ?t (Pop O_hindex r)" by (simp add: lesser_def)
  ultimately show ?thesis by (auto simp: keeps_def intro: apart_lesser)
qed


section \<open>Reading the slot\<close>

lemma O_wait_write_keeps:
  assumes g: "ginv q lg cs" and t: "linv q lg cs (Pop O_wait_write r)"
  shows "good_result q lg cs (Pop O_wait_write r) (pop_step sp O_wait_write r q)"
proof -
  let ?p = "place (chead r)"
  have i: "taken_slot q lg cs r" using t by simp
  note k = taken_facts[OF i]
  obtain ch where ch: "chunks q (cs ! (?p div 32)) = Some ch" "?p mod 32 < 31" "slot_of q cs ?p = cslots ch ! (?p mod 32)"
    using slot_split[OF g k(1,3)] by metis
  then have "read_slot (cochunk r) (?p mod 32) q = Inr (slot_of q cs ?p)"
    using lap_read[OF g k(3)] k(4) by (metis option.inject)
  then show ?thesis using i by (auto simp: unat_offset lesser_def intro!: keeps_refl[OF g])
qed

lemma O_read_keeps:
  assumes g: "ginv q lg cs" and t: "linv q lg cs (Pop O_read r)"
  shows "good_result q lg cs (Pop O_read r) (pop_step sp O_read r q)"
proof -
  let ?p = "place (chead r)"
  have i: "taken_slot q lg cs r" "sstate (slot_of q cs ?p) AND WRITE \<noteq> 0" using t by simp_all
  note k = taken_facts[OF i(1)]
  obtain ch where ch: "chunks q (cs ! (?p div 32)) = Some ch" "?p mod 32 < 31" "slot_of q cs ?p = cslots ch ! (?p mod 32)"
      "slot_good lg (cnt ?p) (cslots ch ! (?p mod 32))"
    using slot_split[OF g k(1,3)] by metis
  then have rd: "read_slot (cochunk r) (?p mod 32) q = Inr (slot_of q cs ?p)"
    using lap_read[OF g k(3)] k(4) by (metis option.inject)
  have v: "svalue (slot_of q cs ?p) = Some (lg ! cnt ?p)" using ch i(2) by (simp add: slot_good_def)
  have "linv q lg cs (Pop (if ?p mod 32 = 30 then scan_from 0 else O_mark) (r\<lparr>citem := Some (lg ! cnt ?p)\<rparr>))"
    using i(1) by (simp add: took_item_def taken_slot_def Let_def scan_from_def CHUNK_CAP_31(2))
  then show ?thesis using rd v i(1)
    by (auto simp: taken_slot_def took_item_def Let_def unat_offset offset_last_iff lesser_def scan_from_def CHUNK_CAP_31(2) intro!: keeps_refl[OF g])
qed

text \<open>Marks for readers and for the clean-up touch neither a value nor the mark that publishes it.\<close>

lemma keeps_state:
  assumes g: "ginv q lg cs" and k: "k < length cs" "chunks q (cs ! k) = Some ch" "j < 31"
    and w: "f (sstate (cslots ch ! j)) AND WRITE = sstate (cslots ch ! j) AND WRITE"
      "j = 30 \<Longrightarrow> f (sstate (cslots ch ! j)) AND READ = sstate (cslots ch ! j) AND READ"
    and t': "\<And>q'. hindex q' = hindex q \<Longrightarrow> linv q' lg cs t'" "lesser t' t"
  shows "keeps q lg cs t (q\<lparr>chunks := (chunks q)(cs ! k \<mapsto>
    ch\<lparr>cslots := (cslots ch)[j := sstate_update f (cslots ch ! j)]\<rparr>)\<rparr>) lg cs t'"
proof (rule keeps_linked[OF g k(1,2)])
  have lap: "lap_good (tplace q) lg cs k ch"
    using chunks_good_at[OF ginvD(1)[OF g] k(1)] k(2) by (metis option.inject)
  then have len: "j < length (cslots ch)" using k(3) by (simp add: lap_good_def)
  show "lap_good (tplace q) lg cs k (ch\<lparr>cslots := (cslots ch)[j := sstate_update f (cslots ch ! j)]\<rparr>)"
    using lap k(3) w by (intro lap_good_slot) (auto simp: lap_good_def slot_good_def)
  show "sstate (cslots (ch\<lparr>cslots := (cslots ch)[j := sstate_update f (cslots ch ! j)]\<rparr>) ! (n mod 32)) AND WRITE =
      sstate (cslots ch ! (n mod 32)) AND WRITE \<and>
      svalue (cslots (ch\<lparr>cslots := (cslots ch)[j := sstate_update f (cslots ch ! j)]\<rparr>) ! (n mod 32)) =
      svalue (cslots ch ! (n mod 32))" for n :: nat
    using w(1) len by (cases "n mod 32 = j") auto
  show "sstate (cslots (ch\<lparr>cslots := (cslots ch)[j := sstate_update f (cslots ch ! j)]\<rparr>) ! i) AND WRITE \<noteq> 0"
    if "sstate (cslots ch ! i) AND WRITE \<noteq> 0" for i
    using that w(1) len by (cases "i = j") auto
qed (use t' in auto)

lemma O_mark_keeps:
  assumes g: "ginv q lg cs" and t: "linv q lg cs (Pop O_mark r)"
  shows "good_result q lg cs (Pop O_mark r) (pop_step sp O_mark r q)"
proof -
  let ?p = "place (chead r)"
  have i: "taken_slot q lg cs r" "took_item lg r" "?p mod 32 \<noteq> 30" using t by simp_all
  note k = taken_facts[OF i(1)]
  have j: "?p mod 32 < 31" "Suc (?p mod 32) < 31" using k(1) i(3) mod_less_divisor[of 32 ?p] by linarith+
  obtain ch where ch: "chunks q (cs ! (?p div 32)) = Some ch" "read_slot (cochunk r) (?p mod 32) q = Inr (cslots ch ! (?p mod 32))"
    using lap_read[OF g k(3)] k(4) j(1) by metis
  let ?t = "if sstate (cslots ch ! (?p mod 32)) AND DESTROY \<noteq> 0 then Pop (O_scan (Suc (?p mod 32))) r else Answered (Popped (citem r))"
  have "linv q' lg cs ?t" if "hindex q' = hindex q" for q'
    using that i j by (simp add: taken_slot_def Let_def)
  then have "keeps q lg cs (Pop O_mark r) (q\<lparr>chunks := (chunks q)(cs ! (?p div 32) \<mapsto>
      ch\<lparr>cslots := (cslots ch)[?p mod 32 := sstate_update (\<lambda>w. w OR READ) (cslots ch ! (?p mod 32))]\<rparr>)\<rparr>) lg cs ?t"
    using i(3) by (intro keeps_state[OF g k(3) ch(1) j(1)]) (auto simp: lesser_def)
  then show ?thesis using ch k(4) j
    by (auto simp: unat_offset unat_offset_Suc write_slot_def upd_chunk_Some upd_slot_def scan_from_def CHUNK_CAP_31(2))
qed

lemma O_scan_keeps:
  assumes g: "ginv q lg cs" and t: "linv q lg cs (Pop (O_scan i) r)"
  shows "good_result q lg cs (Pop (O_scan i) r) (pop_step sp (O_scan i) r q)"
proof -
  have i: "taken_slot q lg cs r" "took_item lg r" "i < 31" using t by simp_all
  note k = taken_facts[OF i(1)]
  obtain ch where ch: "lap_good (tplace q) lg cs (place (chead r) div 32) ch" "read_slot (cochunk r) i q = Inr (cslots ch ! i)"
    using lap_read[OF g k(3)] k(4) i(3) by metis
  let ?t = "Pop (if sstate (cslots ch ! i) AND READ = 0 then O_flag i else scan_from (Suc i)) r"
  have "Suc i < 31" if "sstate (cslots ch ! i) AND READ \<noteq> 0"
    using that ch(1) i(3) by (cases "i = 30") (auto simp: lap_good_def)
  then have "linv q lg cs ?t" "lesser ?t (Pop (O_scan i) r)"
    using i by (auto simp: scan_from_def CHUNK_CAP_31(2) lesser_def)
  then show ?thesis using ch(2) keeps_refl[OF g] by simp
qed

lemma O_flag_keeps:
  assumes g: "ginv q lg cs" and t: "linv q lg cs (Pop (O_flag i) r)"
  shows "good_result q lg cs (Pop (O_flag i) r) (pop_step sp (O_flag i) r q)"
proof -
  have i: "taken_slot q lg cs r" "took_item lg r" "i < 31" using t by simp_all
  note k = taken_facts[OF i(1)]
  let ?k = "place (chead r) div 32"
  obtain ch where ch: "chunks q (cs ! ?k) = Some ch" "lap_good (tplace q) lg cs ?k ch"
      "read_slot (cochunk r) i q = Inr (cslots ch ! i)"
    using lap_read[OF g k(3)] k(4) i(3) by metis
  let ?t = "if sstate (cslots ch ! i) AND READ = 0 then Answered (Popped (citem r)) else Pop (scan_from (Suc i)) r"
  have "Suc i < 31" if "sstate (cslots ch ! i) AND READ \<noteq> 0"
    using that ch(2) i(3) by (cases "i = 30") (auto simp: lap_good_def)
  then have "linv q' lg cs ?t" if "hindex q' = hindex q" for q'
    using that i by (auto simp: scan_from_def CHUNK_CAP_31(2) taken_slot_def Let_def)
  moreover have "lesser ?t (Pop (O_flag i) r)" by (auto simp: lesser_def scan_from_def)
  ultimately have "keeps q lg cs (Pop (O_flag i) r) (q\<lparr>chunks := (chunks q)(cs ! ?k \<mapsto>
      ch\<lparr>cslots := (cslots ch)[i := sstate_update (\<lambda>w. w OR DESTROY) (cslots ch ! i)]\<rparr>)\<rparr>) lg cs ?t"
    by (intro keeps_state[OF g k(3) ch(1) i(3)]) auto
  moreover have "unat (word_of_nat i :: usize) = i" using i(3) by (simp add: unat_of_nat)
  ultimately show ?thesis using ch(1,3) k(4) by (simp add: write_slot_def upd_chunk_Some upd_slot_def)
qed

theorem pop_step_keeps:
  assumes "ginv q lg cs" "small (length lg)" "linv q lg cs (Pop at r)"
  shows "good_result q lg cs (Pop at r) (pop_step sp at r q)"
proof (cases at)
  case O_free
  then show ?thesis using assms by simp
qed (use assms O_index_keeps O_chunk_keeps O_check_keeps O_tail_keeps O_cas_keeps O_wait_next_keeps O_next_next_keeps
      O_hchunk_keeps O_hindex_keeps O_wait_write_keeps O_read_keeps O_mark_keeps O_scan_keeps O_flag_keeps in metis)+

section \<open>is_empty and len\<close>

lemma is_empty_step_keeps:
  "ginv q lg cs \<Longrightarrow> good_result q lg cs (Emptying h) (is_empty_step h q)"
  by (cases h) (auto intro!: keeps_refl simp: lesser_def)

lemma co_len_fault: "co_len q = Inl f \<Longrightarrow> f = Panic"
  by (auto simp: co_len_def checked_add_def checked_sub_def Let_def split: if_splits)

lemma len_step_keeps:
  "ginv q lg cs \<Longrightarrow> good_result q lg cs (Counting at tail head) (len_step at tail head q)"
proof (cases at)
  case L_again
  assume g: "ginv q lg cs"
  show ?thesis
    using L_again co_len_fault[of "q\<lparr>tindex := tail, hindex := head\<rparr>"]
    by (cases "co_len (q\<lparr>tindex := tail, hindex := head\<rparr>)") (auto intro!: keeps_refl[OF g] simp: lesser_def)
qed (auto intro!: keeps_refl simp: lesser_def)

end
