(* ===== verification/Trace_Refinement.thy ===== *)
theory Trace_Refinement
  imports Prelude
begin

text \<open>
  Runs of labelled transition systems, and the contract between an implementation and its
  specification: a map of states under which every step of the implementation is a step of the
  specification with the same label, or an internal step that the specification does not see. From
  that contract every trace of the implementation is a trace of the specification.
\<close>

inductive lts_run :: "('s \<Rightarrow> 'e \<Rightarrow> 's \<Rightarrow> bool) \<Rightarrow> 's \<Rightarrow> 'e list \<Rightarrow> 's \<Rightarrow> bool" for step s where
  run_nil: "lts_run step s [] s"
| run_snoc: "lts_run step s es s' \<Longrightarrow> step s' e s'' \<Longrightarrow> lts_run step s (es @ [e]) s''"

inductive_simps lts_run_Nil [simp]: "lts_run step s [] s'"

definition visible :: "'e \<Rightarrow> 'e list \<Rightarrow> 'e list" where
  "visible tau es = filter (\<lambda>e. e \<noteq> tau) es"

lemma visible_simps [simp]:
  "visible tau [] = []" "visible tau (es @ es') = visible tau es @ visible tau es'"
  "visible tau (e # es) = (if e = tau then visible tau es else e # visible tau es)"
  by (simp_all add: visible_def)

lemma lts_run_one: "step s e s' \<Longrightarrow> lts_run step s [e] s'"
  using lts_run.run_snoc[of step s "[]" s e s'] by simp

lemma lts_run_append: "lts_run step s' es' s'' \<Longrightarrow> lts_run step s es s' \<Longrightarrow> lts_run step s (es @ es') s''"
proof (induction rule: lts_run.induct)
  case (run_snoc es' t e u)
  then show ?case using lts_run.run_snoc[of step s "es @ es'" t e u] by simp
qed simp

lemma lts_run_inv:
  assumes "lts_run step s es s'" "P s" "\<And>s e s'. P s \<Longrightarrow> step s e s' \<Longrightarrow> P s'"
  shows "P s'"
  using assms(1,2) by (induction rule: lts_run.induct) (auto intro: assms(3))

locale trace_refinement =
  fixes cstep :: "'s \<Rightarrow> 'e \<Rightarrow> 's \<Rightarrow> bool"
    and astep :: "'t \<Rightarrow> 'e \<Rightarrow> 't \<Rightarrow> bool"
    and inv :: "'s \<Rightarrow> bool"
    and abs :: "'s \<Rightarrow> 't"
    and tau :: 'e
  assumes inv_step: "inv s \<Longrightarrow> cstep s e s' \<Longrightarrow> inv s'"
    and sim: "inv s \<Longrightarrow> cstep s e s' \<Longrightarrow> astep (abs s) e (abs s') \<or> e = tau \<and> abs s' = abs s"
begin

lemma run_inv: "inv s \<Longrightarrow> lts_run cstep s es s' \<Longrightarrow> inv s'"
  by (rotate_tac, erule lts_run_inv) (auto intro: inv_step)

lemma run_simulated:
  assumes "inv s" "lts_run cstep s es s'"
  shows "\<exists>es'. lts_run astep (abs s) es' (abs s') \<and> visible tau es' = visible tau es"
  using assms(2,1)
proof (induction rule: lts_run.induct)
  case run_nil
  then show ?case using lts_run.run_nil[of astep "abs s"] by (intro exI[of _ "[]"]) simp
next
  case (run_snoc es t e u)
  then obtain es' where es': "lts_run astep (abs s) es' (abs t)" "visible tau es' = visible tau es" by blast
  have "inv t" using run_inv run_snoc by blast
  then consider (move) "astep (abs t) e (abs u)" | (stay) "e = tau" "abs u = abs t" using sim run_snoc.hyps(2) by blast
  then show ?case
  proof cases
    case move
    then show ?thesis using es' lts_run.run_snoc[OF es'(1) move] by (intro exI[of _ "es' @ [e]"]) simp
  next
    case stay
    then show ?thesis using es' by (intro exI[of _ es']) simp
  qed
qed

end

end
