(* ===== verification/Co_Linear.thy ===== *)
theory Co_Linear
  imports Co_Pop_Steps Trace_Refinement
begin

text \<open>
  \<open>CoQueue\<close> under concurrency is a linearizable queue: it refines an object whose operations take effect
  in one step between the call and the return. A push takes effect when it claims an index, a pop when
  it claims one, and a pop that finds nothing when it reads the tail index.
\<close>

section \<open>The invariant holds in every run\<close>

lemma start_apart: "apart (start_of c) u"
  by (cases c) (auto simp: start_of_def apart_def)

lemma start_linv: "linv q lg cs (start_of c)"
  by (cases c) (auto simp: start_of_def spare_good_def)

lemma conc_init_inv: "conc_inv (conc_init h)"
  by (simp add: conc_inv_def conc_init_def ginv_defs chunks_good_def co_new_def apart_def place_def)

lemma thread_step_keeps:
  assumes "ginv q lg cs" "small (length lg)" "linv q lg cs t" "good_alloc al alloc" "thread_step alloc sp t q = Some r"
  shows "good_result q lg cs t r"
  using assms push_step_keeps[OF assms(1,2)] pop_step_keeps[OF assms(1,2)] is_empty_step_keeps[OF assms(1)]
    len_step_keeps[OF assms(1)]
  by (cases t) auto

text \<open>One thread moves and the others keep what they know.\<close>

lemma conc_inv_update:
  assumes s: "conc_inv s" and k: "keeps (sh s) (log s) (laps s) (thr s i) q lg cs t"
  shows "conc_inv \<lparr>sh = q, thr = (thr s)(i := t), log = lg, laps = cs\<rparr>"
proof -
  have g: "ginv (sh s) (log s) (laps s)" and l: "\<And>j. linv (sh s) (log s) (laps s) (thr s j)"
    and a: "\<And>i j. i \<noteq> j \<Longrightarrow> apart (thr s i) (thr s j)"
    using s by (auto simp: conc_inv_def)
  have new: "evolves (sh s) (log s) (laps s) q lg cs (thr s j)" "apart t (thr s j)" if "j \<noteq> i" for j
    using k l[of j] a[of i j] that by (auto simp: keeps_def)
  have "linv q lg cs (((thr s)(i := t)) j)" for j
    using k new(1)[of j] linv_evolves[OF l g] by (cases "j = i") (auto simp: keeps_def)
  moreover have "apart (((thr s)(i := t)) j) (((thr s)(i := t)) j')" if "j \<noteq> j'" for j j'
    using that a new(2) apart_sym[OF new(2)] by (cases "j = i"; cases "j' = i") auto
  ultimately show ?thesis using k by (simp add: conc_inv_def keeps_def)
qed

lemma keeps_still:
  assumes "conc_inv s" "linv (sh s) (log s) (laps s) t" "\<And>u. apart (thr s i) u \<Longrightarrow> apart t u"
  shows "conc_inv (s\<lparr>thr := (thr s)(i := t)\<rparr>)"
proof -
  have "keeps (sh s) (log s) (laps s) (thr s i) (sh s) (log s) (laps s) t"
    using assms by (simp add: keeps_def evolves_refl conc_inv_def)
  from conc_inv_update[OF assms(1) this] show ?thesis by (cases s) simp
qed

lemma conc_step_inv:
  assumes "conc_step alloc s e s'" "conc_inv s" "small (length (log s))" "good_alloc al alloc"
  shows "conc_inv s'"
  using assms
proof (cases rule: conc_step.cases)
  case (conc_run sp i t q n)
  have "good_result (sh s) (log s) (laps s) (thr s i) (Inr (t, q, n))"
    using conc_run assms by (intro thread_step_keeps[OF _ assms(3) _ assms(4)]) (auto simp: conc_inv_def)
  then show ?thesis using conc_run(2) conc_inv_update[OF assms(2)] by simp
next
  case (conc_fail sp i f)
  have "good_result (sh s) (log s) (laps s) (thr s i) (Inl f)"
    using conc_fail assms by (intro thread_step_keeps[OF _ assms(3) _ assms(4)]) (auto simp: conc_inv_def)
  then show ?thesis using conc_fail assms(2) by (auto intro!: keeps_still simp: apart_def)
next
  case (conc_invoke i c)
  then show ?thesis using assms(2) by (auto intro!: keeps_still start_apart start_linv)
next
  case (conc_return i a)
  then show ?thesis using assms(2) by (auto intro!: keeps_still simp: apart_def)
qed

section \<open>The atomic object\<close>

datatype 'a pending = Ready | Asked "'a call" | Replied "'a answer" | Crashed

record 'a object =
  items :: "'a list"
  pend :: "tid \<Rightarrow> 'a pending"

text \<open>
  \<open>is_empty\<close> may answer no at any time and \<open>len\<close> may answer anything; a call crashes only when memory
  runs out in a push or when the arithmetic of \<open>len\<close> overflows.
\<close>

inductive atomic_step :: "'a object \<Rightarrow> 'a event \<Rightarrow> 'a object \<Rightarrow> bool" where
  at_invoke: "pend a i = Ready \<Longrightarrow> atomic_step a (Invoke i c) (a\<lparr>pend := (pend a)(i := Asked c)\<rparr>)"
| at_push: "pend a i = Asked (Call_push x) \<Longrightarrow>
    atomic_step a Internal (a\<lparr>items := items a @ [x], pend := (pend a)(i := Replied Pushed)\<rparr>)"
| at_pop: "pend a i = Asked Call_pop \<Longrightarrow> items a = y # ys \<Longrightarrow>
    atomic_step a Internal (a\<lparr>items := ys, pend := (pend a)(i := Replied (Popped (Some y)))\<rparr>)"
| at_pop_none: "pend a i = Asked Call_pop \<Longrightarrow> items a = [] \<Longrightarrow>
    atomic_step a Internal (a\<lparr>pend := (pend a)(i := Replied (Popped None))\<rparr>)"
| at_is_empty: "pend a i = Asked Call_is_empty \<Longrightarrow> (b \<Longrightarrow> items a = []) \<Longrightarrow>
    atomic_step a Internal (a\<lparr>pend := (pend a)(i := Replied (Emptiness b))\<rparr>)"
| at_len: "pend a i = Asked Call_len \<Longrightarrow>
    atomic_step a Internal (a\<lparr>pend := (pend a)(i := Replied (Length n))\<rparr>)"
| at_crash: "pend a i = Asked c \<Longrightarrow> c = Call_push x \<or> c = Call_len \<Longrightarrow>
    atomic_step a Internal (a\<lparr>pend := (pend a)(i := Crashed)\<rparr>)"
| at_return: "pend a i = Replied r \<Longrightarrow> atomic_step a (Return i r) (a\<lparr>pend := (pend a)(i := Ready)\<rparr>)"

definition atomic_init :: "'a object" where
  "atomic_init = \<lparr>items = [], pend = (\<lambda>_. Ready)\<rparr>"

fun abs_thread :: "'a list \<Rightarrow> 'a thread \<Rightarrow> 'a pending" where
  "abs_thread lg Idle = Ready"
| "abs_thread lg (Push x at r) =
     (if at \<in> {P_index, P_chunk, P_check, P_first, P_cas_chunk, P_head, P_cas} then Asked (Call_push x) else Replied Pushed)"
| "abs_thread lg (Pop at r) =
     (if at \<in> {O_index, O_chunk, O_check, O_tail, O_cas} then Asked Call_pop
      else Replied (Popped (Some (lg ! cnt (place (chead r))))))"
| "abs_thread lg (Emptying h) = Asked Call_is_empty"
| "abs_thread lg (Counting at t h) = Asked Call_len"
| "abs_thread lg (Answered a) = Replied a"
| "abs_thread lg (Failed c f) = Crashed"

definition contents :: "'a co_queue \<Rightarrow> 'a list \<Rightarrow> 'a list" where
  "contents q lg = drop (cnt (hplace q)) lg"

definition conc_abs :: "'a conc \<Rightarrow> 'a object" where
  "conc_abs s = \<lparr>items = contents (sh s) (log s), pend = (\<lambda>i. abs_thread (log s) (thr s i))\<rparr>"

section \<open>What a step does to the abstract queue\<close>

text \<open>The effect of one step of a thread, in terms of the abstract queue.\<close>

fun effect :: "'a list \<Rightarrow> 'a pending \<Rightarrow> 'a list \<Rightarrow> 'a pending \<Rightarrow> bool" where
  "effect xs (Asked (Call_push x)) ys b \<longleftrightarrow>
     ys = xs \<and> b = Asked (Call_push x) \<or> ys = xs @ [x] \<and> b = Replied Pushed"
| "effect xs (Asked Call_pop) ys b \<longleftrightarrow>
     ys = xs \<and> b = Asked Call_pop \<or> ys = xs \<and> xs = [] \<and> b = Replied (Popped None) \<or>
     (\<exists>y. xs = y # ys \<and> b = Replied (Popped (Some y)))"
| "effect xs (Asked Call_is_empty) ys b \<longleftrightarrow>
     ys = xs \<and> (b = Asked Call_is_empty \<or> (\<exists>e. b = Replied (Emptiness e) \<and> (e \<longrightarrow> xs = [])))"
| "effect xs (Asked Call_len) ys b \<longleftrightarrow> ys = xs \<and> (b = Asked Call_len \<or> (\<exists>n. b = Replied (Length n)))"
| "effect xs p ys b \<longleftrightarrow> ys = xs \<and> b = p"

lemma push_effect:
  assumes "ginv q lg cs" "linv q lg cs (Push x at r)" "push_step alloc sp x at r q = Inr (t', q', n)"
  shows "effect (contents q lg) (abs_thread lg (Push x at r)) (contents q' (log_note n lg)) (abs_thread (log_note n lg) t')"
proof -
  have le: "cnt (hplace q) \<le> length lg" using ginvD(5,6)[OF assms(1)] cnt_mono by metis
  show ?thesis
  proof (cases at)
    case P_check
    then show ?thesis using assms(3)
      by (auto simp: push_check_def new_chunk_cases contents_def Let_def split: if_splits option.splits)
  next
    case P_cas_chunk
    then show ?thesis using assms(3)
      by (auto simp: push_cas_chunk_def free_chunk_def contents_def split: if_splits option.splits)
  next
    case P_cas
    then show ?thesis using assms(3) le by (auto simp: push_cas_def contents_def split: if_splits)
  qed (use assms(3) in \<open>auto simp: new_chunk_cases write_slot_cases upd_chunk_def free_chunk_def contents_def split: if_splits option.splits\<close>)
qed

lemma pop_effect:
  assumes "ginv q lg cs" "linv q lg cs (Pop at r)" "pop_step sp at r q = Inr (t', q', n)"
  shows "effect (contents q lg) (abs_thread lg (Pop at r)) (contents q' (log_note n lg)) (abs_thread (log_note n lg) t')"
proof -
  note d = ginvD[OF assms(1)]
  show ?thesis
  proof (cases at)
    case O_check
    then show ?thesis using assms(3) by (auto simp: pop_check_def pop_ready_def contents_def split: if_splits)
  next
    case O_tail
    have "hplace q = tplace q" if "place (chead r) = tplace q"
      using that O_tail assms(2) d(6) place_mono[of "chead r" "hindex q"] by (simp add: seen_head_def)
    then show ?thesis using O_tail assms(3) d(5)
      by (auto simp: pop_tail_def pop_ready_def contents_def drop_eq_iff Let_def split: if_splits)
  next
    case O_cas
    have "hplace q < tplace q \<and> hplace q mod 32 \<noteq> 31 \<and> place (cnhead r) = Suc (hplace q)" if "hindex q = chead r"
      using that O_cas assms(2) by auto
    then have "contents q lg = lg ! cnt (hplace q) # contents (q\<lparr>hindex := cnhead r\<rparr>) lg" if "hindex q = chead r"
      using that d(5) cnt_less[of "hplace q" "tplace q"] by (simp add: contents_def cnt_Suc Cons_nth_drop_Suc)
    then show ?thesis using O_cas assms(3) by (auto simp: pop_cas_def contents_def split: if_splits)
  next
    case O_hindex
    then have "cnt (place (cnidx r)) = cnt (hplace q)"
      using assms(2) by (simp add: turning_def aimed_def cnt_Suc Suc_lap)
    then show ?thesis using O_hindex assms(3) by (auto simp: contents_def)
  qed (use assms(2,3) in \<open>auto simp: contents_def took_item_def read_chunk_def read_slot_def write_slot_cases free_chunk_def
        scan_from_def Let_def split: if_splits option.splits\<close>)
qed


lemma thread_effect:
  assumes "ginv q lg cs" "linv q lg cs t" "thread_step alloc sp t q = Some (Inr (t', q', n))"
  shows "effect (contents q lg) (abs_thread lg t) (contents q' (log_note n lg)) (abs_thread (log_note n lg) t')"
proof (cases t)
  case (Push x at r)
  then show ?thesis using assms push_effect[OF assms(1)] by auto
next
  case (Pop at r)
  then show ?thesis using assms pop_effect[OF assms(1)] by auto
next
  case (Emptying h)
  note d = ginvD[OF assms(1)]
  have "hplace q = tplace q" if "h = Some w" "place w = tplace q" for w
    using that Emptying assms(2) d(6) place_mono[of w "hindex q"] by simp
  then show ?thesis using Emptying assms(3) d(5) by (cases h) (auto simp: contents_def drop_eq_iff)
next
  case (Counting at tl hd)
  then show ?thesis using assms(3) by (cases at) (auto simp: contents_def split: if_splits)
qed (use assms(3) in auto)

text \<open>The other threads look the same: what they have taken stays in the log.\<close>

lemma abs_thread_log:
  assumes "ginv q lg cs" "linv q lg cs u"
  shows "abs_thread (log_note n lg) u = abs_thread lg u"
proof (cases "oclaim u")
  case (Some p)
  have "p mod 32 \<noteq> 31 \<and> p < hplace q" using linv_oclaim[OF assms(2) Some] by simp
  then have "cnt p < length lg" using ginvD(5,6)[OF assms(1)] cnt_less[of p "tplace q"] by simp
  then have "log_note n lg ! cnt p = lg ! cnt p" by (cases n) (simp_all add: nth_append)
  then show ?thesis using Some by (cases u) (auto split: if_splits)
qed (cases u; auto split: if_splits)

lemma effect_step:
  assumes "effect (items a) (pend a i) xs b"
  shows "atomic_step a Internal (a\<lparr>items := xs, pend := (pend a)(i := b)\<rparr>) \<or> xs = items a \<and> b = pend a i"
proof -
  have same: "a\<lparr>items := xs, pend := p\<rparr> = a\<lparr>pend := p\<rparr>" if "items a = xs" for p xs using that by (cases a) simp
  show ?thesis
proof (cases "(items a, pend a i, xs, b)" rule: effect.cases)
  case (1 ys x)
  then show ?thesis using assms at_push[of a i x] by auto
next
  case (2 ys)
  then show ?thesis using assms at_pop[of a i] at_pop_none[of a i] by (auto simp: same)
next
  case (3 ys)
  then show ?thesis using assms at_is_empty[of a i] by (auto simp: same)
next
  case (4 ys)
  then show ?thesis using assms at_len[of a i] by (auto simp: same)
qed (use assms in auto)
qed

lemma conc_run_sim:
  assumes s: "conc_inv s" and st: "thread_step alloc sp (thr s i) (sh s) = Some (Inr (t, q, n))"
  defines "s' \<equiv> \<lparr>sh = q, thr = (thr s)(i := t), log = log_note n (log s), laps = laps_note n (laps s)\<rparr>"
  shows "atomic_step (conc_abs s) Internal (conc_abs s') \<or> conc_abs s' = conc_abs s"
proof -
  have g: "ginv (sh s) (log s) (laps s)" and l: "\<And>j. linv (sh s) (log s) (laps s) (thr s j)"
    using s by (auto simp: conc_inv_def)
  have a: "conc_abs s' = conc_abs s\<lparr>items := contents q (log_note n (log s)),
      pend := (pend (conc_abs s))(i := abs_thread (log_note n (log s)) t)\<rparr>"
    using abs_thread_log[OF g l] by (auto simp: conc_abs_def s'_def)
  have "effect (items (conc_abs s)) (pend (conc_abs s) i) (contents q (log_note n (log s))) (abs_thread (log_note n (log s)) t)"
    using thread_effect[OF g l st] by (simp add: conc_abs_def)
  from effect_step[OF this] show ?thesis unfolding a by (auto simp: fun_upd_idem)
qed

lemma push_out_of_memory:
  "push_step alloc sp x at r q = Inl Out_of_memory \<Longrightarrow> abs_thread lg (Push x at r) = Asked (Call_push x)"
  by (cases at) (auto simp: access_defs box_drop_def split: option.splits if_splits)

lemma conc_fail_asked:
  assumes "thread_step alloc sp t q = Some (Inl f)" "linv q lg cs (Failed (call_of t) f)"
  shows "abs_thread lg t = Asked (call_of t)"
proof (cases t)
  case (Push x at r)
  then show ?thesis using assms push_out_of_memory[of alloc sp x at r q lg] by auto
qed (use assms in auto)

lemma conc_sim:
  assumes st: "conc_step alloc s e s'" and s: "conc_inv s" "conc_inv s'"
  shows "atomic_step (conc_abs s) e (conc_abs s') \<or> e = Internal \<and> conc_abs s' = conc_abs s"
  using st
proof (cases rule: conc_step.cases)
  case (conc_run sp i t q n)
  then show ?thesis using conc_run_sim[OF s(1) conc_run(3)] by simp
next
  case (conc_invoke i c)
  then have "conc_abs s' = conc_abs s\<lparr>pend := (pend (conc_abs s))(i := Asked c)\<rparr>"
    by (cases c) (auto simp: conc_abs_def start_of_def)
  then show ?thesis using conc_invoke at_invoke[of "conc_abs s" i c] by (simp add: conc_abs_def)
next
  case (conc_return i a)
  then have "conc_abs s' = conc_abs s\<lparr>pend := (pend (conc_abs s))(i := Ready)\<rparr>" by (auto simp: conc_abs_def)
  then show ?thesis using conc_return at_return[of "conc_abs s" i a] by (simp add: conc_abs_def)
next
  case (conc_fail sp i f)
  let ?c = "call_of (thr s i)"
  have "linv (sh s') (log s') (laps s') (thr s' i)" using s(2) by (simp add: conc_inv_def)
  then have f: "linv (sh s) (log s) (laps s) (Failed ?c f)" using conc_fail by simp
  then have "(\<exists>x. ?c = Call_push x) \<or> ?c = Call_len" by auto
  moreover have "pend (conc_abs s) i = Asked ?c" using conc_fail_asked[OF conc_fail(3) f] by (simp add: conc_abs_def)
  moreover have "conc_abs s' = conc_abs s\<lparr>pend := (pend (conc_abs s))(i := Crashed)\<rparr>"
    using conc_fail by (auto simp: conc_abs_def)
  ultimately show ?thesis using conc_fail(1) at_crash[of "conc_abs s" i ?c] by metis
qed

section \<open>Runs\<close>

text \<open>
  Indices are exact as long as fewer than \<open>2\<^sup>6\<^sup>0\<close> elements have been pushed; beyond that they would
  wrap around, and the machine is considered up to that point.
\<close>

definition bounded_step :: "'a chunk allocator \<Rightarrow> 'a conc \<Rightarrow> 'a event \<Rightarrow> 'a conc \<Rightarrow> bool" where
  "bounded_step alloc s e s' \<longleftrightarrow> conc_step alloc s e s' \<and> small (length (log s'))"

definition conc_ok :: "usize \<Rightarrow> 'a chunk allocator \<Rightarrow> 'a conc \<Rightarrow> bool" where
  "conc_ok al alloc s \<longleftrightarrow> good_alloc al alloc \<and> conc_inv s \<and> small (length (log s))"

interpretation co_object: trace_refinement "bounded_step alloc" atomic_step "conc_ok al alloc" conc_abs Internal
  for al alloc
proof
  fix s e s'
  assume s: "conc_ok al alloc s" and st: "bounded_step alloc s e s'"
  then show "conc_ok al alloc s'" using conc_step_inv by (auto simp: conc_ok_def bounded_step_def)
  then show "atomic_step (conc_abs s) e (conc_abs s') \<or> e = Internal \<and> conc_abs s' = conc_abs s"
    using s st conc_sim by (auto simp: conc_ok_def bounded_step_def)
qed

lemma log_grows: "conc_step alloc s e s' \<Longrightarrow> length (log s) \<le> length (log s')"
proof (induction rule: conc_step.induct)
  case (conc_run sp s i t q n)
  then show ?case by (cases n) auto
qed auto

lemma bounded_run:
  assumes "lts_run (conc_step alloc) s es s'" "small (length (log s'))"
  shows "lts_run (bounded_step alloc) s es s'"
  using assms
proof (induction rule: lts_run.induct)
  case run_nil
  show ?case by (rule lts_run.run_nil)
next
  case (run_snoc es t e u)
  then have "small (length (log t))" using log_grows[OF run_snoc(2)] small_le by blast
  then have "lts_run (bounded_step alloc) s es t" by (rule run_snoc.IH)
  moreover have "bounded_step alloc t e u" using run_snoc.hyps(2) run_snoc.prems by (simp add: bounded_step_def)
  ultimately show ?case by (rule lts_run.run_snoc)
qed

lemma conc_init_ok: "good_alloc al alloc \<Longrightarrow> conc_ok al alloc (conc_init h)"
  by (simp add: conc_ok_def conc_init_inv) (simp add: conc_init_def small_def)

lemma run_conc_inv:
  assumes "good_alloc al alloc" "lts_run (conc_step alloc) (conc_init h) es s" "small (length (log s))"
  shows "conc_inv s"
  using co_object.run_inv[OF conc_init_ok[OF assms(1)] bounded_run[OF assms(2,3)]] by (simp add: conc_ok_def)

end
