(* ===== verification/Co_Progress.thy ===== *)
theory Co_Progress
  imports Co_Linear
begin

text \<open>
  Whoever waits in \<open>push\<close> or \<open>pop\<close> waits for a thread that is not waiting itself. The places where
  an operation waits are named as duties: the index behind the last slot of a chunk has to be moved on,
  at the tail and at the head, a chunk has to get its link, a claimed slot its value, and the head its
  first chunk. Every duty that is due in a run is the duty of some thread.
\<close>

section \<open>Duties\<close>

datatype duty = Tail_end | Link nat | Write nat | Hand | Head_end

fun due :: "'a co_queue \<Rightarrow> ptr list \<Rightarrow> duty \<Rightarrow> bool" where
  "due q cs Tail_end \<longleftrightarrow> tplace q mod 32 = 31"
| "due q cs (Link k) \<longleftrightarrow> Suc k < length cs \<and> cnext (the (chunks q (cs ! k))) = null"
| "due q cs (Write p) \<longleftrightarrow> p < tplace q \<and> p mod 32 \<noteq> 31 \<and> p div 32 < length cs \<and> sstate (slot_of q cs p) AND WRITE = 0"
| "due q cs Hand \<longleftrightarrow> hchunk q = null \<and> cs \<noteq> []"
| "due q cs Head_end \<longleftrightarrow> hplace q mod 32 = 31"

fun has_duty :: "'a thread \<Rightarrow> duty \<Rightarrow> bool" where
  "has_duty t Tail_end \<longleftrightarrow> extending t"
| "has_duty (Push x at r) (Link k) \<longleftrightarrow> at \<in> {P_tindex, P_next} \<and> place (ctail r) div 32 = k"
| "has_duty t (Link k) \<longleftrightarrow> False"
| "has_duty t (Write p) \<longleftrightarrow> pclaim t = Some p"
| "has_duty t Hand \<longleftrightarrow> handing t"
| "has_duty t Head_end \<longleftrightarrow> advancing t"

definition served :: "'a conc \<Rightarrow> bool" where
  "served s \<longleftrightarrow> (\<forall>d. due (sh s) (laps s) d \<longrightarrow> (\<exists>i. has_duty (thr s i) d))"

text \<open>The obligation of a step: a duty that is due afterwards is taken over, or was due and is someone else's.\<close>

definition passes :: "'a co_queue \<Rightarrow> ptr list \<Rightarrow> 'a thread \<Rightarrow> 'a co_queue \<Rightarrow> ptr list \<Rightarrow> 'a thread \<Rightarrow> bool" where
  "passes q cs t q' cs' t' \<longleftrightarrow> (\<forall>d. due q' cs' d \<longrightarrow> has_duty t' d \<or> due q cs d \<and> \<not> has_duty t d)"

fun good_passing :: "'a co_queue \<Rightarrow> ptr list \<Rightarrow> 'a thread \<Rightarrow> 'a step_result \<Rightarrow> bool" where
  "good_passing q cs t (Inl f) \<longleftrightarrow> (\<forall>d. \<not> has_duty t d)"
| "good_passing q cs t (Inr (t', q', n)) \<longleftrightarrow> passes q cs t q' (laps_note n cs) t'"

lemma passes_same:
  assumes "\<And>d. due q' cs d \<Longrightarrow> due q cs d" "\<And>d. has_duty t d \<Longrightarrow> has_duty t' d"
  shows "passes q cs t q' cs t'"
  using assms by (auto simp: passes_def)

lemma has_duty_cong:
  assumes "extending t = extending t'" "advancing t = advancing t'" "handing t = handing t'" "pclaim t = pclaim t'"
    "\<And>k. has_duty t (Link k) = has_duty t' (Link k)"
  shows "has_duty t d = has_duty t' d"
  using assms by (cases d) auto

lemma due_private:
  assumes "p \<notin> set cs"
  shows "due (q\<lparr>chunks := (chunks q)(p := v)\<rparr>) cs d = due q cs d"
proof -
  have "cs ! k \<noteq> p" if "k < length cs" for k using assms that nth_mem by fastforce
  then show ?thesis by (cases d) (auto simp: slot_of_def dest: Suc_lessD)
qed

text \<open>Pushes and pops without a claim have no duty, apart from handing out the first chunk.\<close>

lemma no_duty:
  "at \<in> {P_index, P_chunk, P_check, P_first, P_cas_chunk, P_cas, P_drop} \<Longrightarrow> \<not> has_duty (Push x at r) d"
  "at' \<notin> {O_wait_next, O_next_next, O_hchunk, O_hindex} \<Longrightarrow> \<not> has_duty (Pop at' r') d"
  "\<not> has_duty Idle d" "\<not> has_duty (Answered a) d" "\<not> has_duty (Failed c f) d"
  "\<not> has_duty (Emptying h) d" "\<not> has_duty (Counting l w v) d"
  by (cases d; auto)+

lemma passes_alloc:
  assumes "ginv q lg cs" "good_alloc al alloc" "alloc (chunks q) = Some p" "\<And>d. \<not> has_duty t d"
  shows "passes q cs t (q\<lparr>chunks := (chunks q)(p \<mapsto> chunk_new)\<rparr>) cs t'"
  using due_private[OF fresh_ptr(1)[OF assms(2,3,1)]] assms(4) by (auto simp: passes_def)

section \<open>Steps of push\<close>

lemma push_passes_early:
  assumes g: "ginv q lg cs" and t: "linv q lg cs (Push x at r)" and al: "good_alloc al alloc"
    and at: "at \<in> {P_index, P_chunk, P_check, P_first, P_drop}"
  shows "good_passing q cs (Push x at r) (push_step alloc sp x at r q)"
proof -
  have nd: "\<not> has_duty (Push x at r) d" for d using at by (intro no_duty) auto
  note pa = passes_alloc[OF g al _ nd]
  have stay: "passes q cs (Push x at r) q cs t'" for t' using nd by (auto intro: passes_same)
  consider "at = P_index \<or> at = P_chunk" | "at = P_check" | "at = P_first" | "at = P_drop" using at by auto
  then show ?thesis
  proof cases
    case 1
    then show ?thesis using stay by auto
  next
    case 2
    then show ?thesis using stay pa nd
      by (auto simp: push_check_def new_chunk_cases Let_def split: option.splits)
  next
    case 3
    then show ?thesis using pa nd by (auto simp: new_chunk_cases split: option.splits)
  next
    case 4
    have "p \<notin> set cs \<and> chunks q p \<noteq> None" if "cspare r = Some p" for p
      using linv_spare[OF t, of p] that 4 by simp
    then show ?thesis using 4 stay nd
      by (auto simp: free_chunk_ok passes_def due_private split: option.splits)
  qed
qed

lemma P_cas_chunk_passes:
  assumes g: "ginv q lg cs" and t: "linv q lg cs (Push x P_cas_chunk r)"
  shows "good_passing q cs (Push x P_cas_chunk r) (push_step alloc sp x P_cas_chunk r q)"
proof (cases "tchunk q = null")
  case True
  note dd = ginvD[OF g]
  have cs: "cs = []" using True dd(8) by simp
  then have h: "hindex q = 0" "tindex q = 0" using dd(10,12,13) by auto
  have "has_duty (Push x P_head r) d" if "due (q\<lparr>tchunk := cnew r\<rparr>) [cnew r] d" for d
    using that h by (cases d) (auto simp: place_def)
  then show ?thesis using True t cs by (simp add: push_cas_chunk_def passes_def)
next
  case False
  have nd: "\<not> has_duty (Push x P_cas_chunk r) d" for d by (rule no_duty) simp
  have "p \<notin> set cs \<and> chunks q p \<noteq> None" if "cspare r = Some p" for p
    using linv_spare[OF t, of p] that by simp
  then show ?thesis using False t nd
    by (cases "cspare r") (auto simp: push_cas_chunk_def free_chunk_ok passes_def due_private)
qed

lemma P_head_passes:
  assumes "linv q lg cs (Push x P_head r)"
  shows "good_passing q cs (Push x P_head r) (push_step alloc sp x P_head r q)"
proof -
  have "due q cs d \<and> \<not> has_duty (Push x P_head r) d" if "due (q\<lparr>hchunk := cnew r\<rparr>) cs d" for d
    using that assms by (cases d) (auto simp: slot_of_def)
  then show ?thesis by (simp add: passes_def)
qed

lemma P_cas_passes:
  assumes g: "ginv q lg cs" and b: "small (length lg)" and t: "linv q lg cs (Push x P_cas r)"
  shows "good_passing q cs (Push x P_cas r) (push_step alloc sp x P_cas r q)"
proof -
  have nd: "\<not> has_duty (Push x P_cas r) d" for d by (rule no_duty) simp
  have "unat (ctail r) \<le> unat (tindex q)" using t by (simp add: seen_tail_def word_le_nat_alt)
  then have un: "unat (ctail r) < 2 ^ 63" using ginv_bounds(1)[OF g b] by simp
  show ?thesis
  proof (cases "\<not> sp \<and> tindex q = ctail r")
    case True
    let ?t = "Push x (if place (ctail r) mod 32 = 30 then P_tchunk else P_value) r"
    have "has_duty ?t d \<or> due q cs d" if "due (q\<lparr>tindex := ctail r + 2\<rparr>) cs d" for d
      using that True place_next[OF un] by (cases d) (auto simp: slot_of_def mod_Suc less_Suc_eq split: if_splits)
    then show ?thesis using True checked_next[OF un] nd
      by (simp add: push_cas_def one_place offset_last_iff passes_def del: push_bit_of_1)
  next
    case False
    then have "push_step alloc sp x P_cas r q = Inr (Push x P_chunk (r\<lparr>ctail := tindex q\<rparr>), q, Quiet)"
      using checked_next[OF un] by (auto simp: push_cas_def one_place simp del: push_bit_of_1)
    then show ?thesis using nd by (simp add: passes_def)
  qed
qed

lemma P_tchunk_passes:
  assumes g: "ginv q lg cs" and t: "linv q lg cs (Push x P_tchunk r)"
  shows "good_passing q cs (Push x P_tchunk r) (push_step alloc sp x P_tchunk r q)"
proof -
  obtain nc where nc: "cspare r = Some nc" using t by auto
  have i: "place (ctail r) mod 32 = 30" "tplace q = Suc (place (ctail r))" "length cs = Suc (tplace q div 32)"
    using t by simp_all
  have "has_duty (Push x P_tindex r) d \<or> due q cs d \<and> \<not> has_duty (Push x P_tchunk r) d"
    if "due (q\<lparr>tchunk := nc\<rparr>) (cs @ [nc]) d" for d
  proof (cases d)
    case (Write p)
    then have "p div 32 \<le> tplace q div 32" using that by (simp add: div_le_mono)
    then have "p div 32 < length cs" using i(3) by simp
    then show ?thesis using Write that by (auto simp: slot_of_def nth_append)
  qed (use that i in \<open>auto simp: nth_append Suc_lap less_Suc_eq\<close>)
  then show ?thesis using nc by (simp add: passes_def)
qed

lemma P_tindex_passes:
  assumes g: "ginv q lg cs" and b: "small (length lg)" and t: "linv q lg cs (Push x P_tindex r)"
  shows "good_passing q cs (Push x P_tindex r) (push_step alloc sp x P_tindex r q)"
proof -
  have i: "place (ctail r) mod 32 = 30" "tplace q = Suc (place (ctail r))" "claimed q lg cs x r" using t by simp_all
  have un: "unat (ctail r) < 2 ^ 62"
    using ginv_bounds(1)[OF g b] i(2,3) even_place[OF ginvD(4)[OF g]] by (simp add: claimed_def Let_def)
  then have u2: "unat (ctail r + 2) < 2 ^ 63" using unat_next[of "ctail r"] by simp
  have pl: "place (ctail r + 2 + 2) = Suc (Suc (place (ctail r)))"
    using place_next[OF u2] place_next[of "ctail r"] un by simp
  have "due q cs d \<and> (has_duty (Push x P_next r) d \<or> \<not> has_duty (Push x P_tindex r) d)"
    if "due (q\<lparr>tindex := ctail r + 2 + 2\<rparr>) cs d" for d
    using that pl i(1,2) by (cases d) (auto simp: slot_of_def Suc_lap less_Suc_eq)
  then show ?thesis by (auto simp: passes_def one_place simp del: push_bit_of_1)
qed

text \<open>Writes to a linked chunk.\<close>

lemma due_linked:
  assumes "distinct cs" "k < length cs" "chunks q (cs ! k) = Some ch"
    and "\<And>j. j < 31 \<Longrightarrow> sstate (cslots ch' ! j) AND WRITE = 0 \<Longrightarrow> sstate (cslots ch ! j) AND WRITE = 0"
    and "cnext ch' = null \<Longrightarrow> cnext ch = null"
    and due: "due (q\<lparr>chunks := (chunks q)(cs ! k \<mapsto> ch')\<rparr>) cs d"
  shows "due q cs d"
proof (cases d)
  case (Link j)
  then show ?thesis using assms nth_eq_iff_index_eq[of cs j k] by (cases "j = k") auto
next
  case (Write p)
  then have p: "p mod 32 \<noteq> 31" "p div 32 < length cs" using due by auto
  have "p mod 32 < 31" using p(1) mod_less_divisor[of 32 p] by linarith
  moreover have "slot_of q cs p = cslots ch ! (p mod 32)" if "p div 32 = k" using that assms(3) by (simp add: slot_of_def)
  ultimately show ?thesis
    using Write due assms(4) by (auto simp: slot_of_upd[OF assms(1,2) p(2)] split: if_splits)
qed (use due in auto)


lemma P_next_passes:
  assumes g: "ginv q lg cs" and t: "linv q lg cs (Push x P_next r)"
  shows "good_passing q cs (Push x P_next r) (push_step alloc sp x P_next r q)"
proof -
  let ?k = "place (ctail r) div 32"
  have n: "cspare r = Some (cs ! Suc ?k)" "Suc ?k < length cs" "claimed q lg cs x r" using t by simp_all
  then have p: "place (ctail r) mod 32 \<noteq> 31" "?k < length cs" "cchunk r = cs ! ?k" by (simp_all add: claimed_def Let_def)
  obtain ch where ch: "chunks q (cs ! ?k) = Some ch" using slot_split[OF g p(1,2)] by metis
  let ?q = "q\<lparr>chunks := (chunks q)(cs ! ?k \<mapsto> ch\<lparr>cnext := cs ! Suc ?k\<rparr>)\<rparr>"
  have nn: "cs ! Suc ?k \<noteq> null" using ginvD(3)[OF g] n(2) nth_mem by metis
  have "due q cs d" if "due ?q cs d" for d
    using that nn by (intro due_linked[OF ginvD(2)[OF g] p(2) ch _ _ that]) auto
  moreover have "d \<noteq> Link ?k" if "due ?q cs d" for d using that nn by auto
  moreover have "has_duty (Push x P_next r) d \<Longrightarrow> d \<noteq> Link ?k \<Longrightarrow> has_duty (Push x P_value (r\<lparr>cspare := None\<rparr>)) d" for d
    by (cases d) auto
  ultimately have "passes q cs (Push x P_next r) ?q cs (Push x P_value (r\<lparr>cspare := None\<rparr>))"
    unfolding passes_def by blast
  then show ?thesis using n(1) p(3) ch by (simp add: upd_chunk_Some)
qed

lemma slot_update_passes:
  assumes g: "ginv q lg cs" and k: "k < length cs" "chunks q (cs ! k) = Some ch" and j: "j < 31"
    and s: "sstate (f (cslots ch ! j)) AND WRITE = 0 \<Longrightarrow> sstate (cslots ch ! j) AND WRITE = 0"
    and t: "\<And>d. has_duty t d \<Longrightarrow> has_duty t' d \<or> d = Write (32 * k + j) \<and> sstate (f (cslots ch ! j)) AND WRITE \<noteq> 0"
  shows "passes q cs t (q\<lparr>chunks := (chunks q)(cs ! k \<mapsto> ch\<lparr>cslots := (cslots ch)[j := f (cslots ch ! j)]\<rparr>)\<rparr>) cs t'"
proof -
  let ?ch = "ch\<lparr>cslots := (cslots ch)[j := f (cslots ch ! j)]\<rparr>"
  let ?q = "q\<lparr>chunks := (chunks q)(cs ! k \<mapsto> ?ch)\<rparr>"
  have len: "j < length (cslots ch)"
    using chunks_good_at[OF ginvD(1)[OF g] k(1)] k(2) j by (metis lap_good_def option.inject)
  have "due q cs d" if "due ?q cs d" for d
    using s len by (intro due_linked[OF ginvD(2)[OF g] k _ _ that]) (auto simp: nth_list_update split: if_splits)
  moreover have "sstate (f (cslots ch ! j)) AND WRITE = 0" if "due ?q cs (Write (32 * k + j))"
    using that len j k(1) by (simp add: slot_of_upd[OF ginvD(2)[OF g] k(1)])
  ultimately show ?thesis using t unfolding passes_def by blast
qed

lemma slot_write_passes:
  assumes g: "ginv q lg cs" and t: "linv q lg cs (Push x at r)" and at: "at = P_value \<or> at = P_write"
  shows "good_passing q cs (Push x at r) (push_step alloc sp x at r q)"
proof -
  let ?p = "place (ctail r)"
  have "claimed q lg cs x r" using t at by auto
  then have p: "?p mod 32 \<noteq> 31" "?p div 32 < length cs" "cchunk r = cs ! (?p div 32)" by (simp_all add: claimed_def Let_def)
  obtain ch where ch: "chunks q (cs ! (?p div 32)) = Some ch" "?p mod 32 < 31" and len: "?p mod 32 < length (cslots ch)"
    using slot_split[OF g p(1,2)] by metis
  have pp: "32 * (?p div 32) + ?p mod 32 = ?p" by simp
  note up = slot_update_passes[OF g p(2) ch, where t = "Push x at r", unfolded pp]
  have v: "has_duty (Push x P_value r) d \<Longrightarrow> has_duty (Push x P_write r) d" for d by (cases d) auto
  have w: "has_duty (Push x P_write r) d \<Longrightarrow> d = Write ?p" for d by (cases d) auto
  have e: "write_slot (cchunk r) (offset_of (ctail r)) f q =
      Inr (q\<lparr>chunks := (chunks q)(cs ! (?p div 32) \<mapsto> ch\<lparr>cslots := (cslots ch)[?p mod 32 := f (cslots ch ! (?p mod 32))]\<rparr>)\<rparr>)" for f
    using ch(1) len p(3) by (simp add: upd_slot_def unat_offset)
  show ?thesis
  proof (cases "at = P_value")
    case True
    then show ?thesis using v up[of "svalue_update (\<lambda>_. Some x)" "Push x P_write r"] by (simp add: e)
  next
    case False
    moreover have "WRITE \<noteq> 0" by (simp add: WRITE_def)
    ultimately show ?thesis using at w up[of "sstate_update (\<lambda>v. v OR WRITE)"] by (simp add: e)
  qed
qed

lemma push_step_passes:
  assumes "ginv q lg cs" "small (length lg)" "linv q lg cs (Push x at r)" "good_alloc al alloc"
  shows "good_passing q cs (Push x at r) (push_step alloc sp x at r q)"
  using assms push_passes_early[OF assms(1,3,4)] slot_write_passes[OF assms(1,3)]
  by (cases at) (metis P_cas_chunk_passes P_head_passes P_cas_passes P_tchunk_passes P_tindex_passes P_next_passes
      insertCI)+

section \<open>Steps of pop\<close>

lemma pop_duty:
  "has_duty (Pop at r) d \<longleftrightarrow> d = Head_end \<and> at \<in> {O_wait_next, O_next_next, O_hchunk, O_hindex}"
  by (cases d) auto

lemma pop_reads_pass:
  assumes "at \<in> {O_index, O_chunk, O_check, O_tail, O_wait_next, O_next_next, O_wait_write, O_read} \<or> (\<exists>i. at = O_scan i)"
    and "good_result q lg cs (Pop at r) (pop_step sp at r q)"
  shows "good_passing q cs (Pop at r) (pop_step sp at r q)"
proof (cases "pop_step sp at r q")
  case (Inl f)
  then show ?thesis using assms(2) by auto
next
  case (Inr z)
  obtain t' q' n where z: "z = (t', q', n)" by (cases z) auto
  have "q' = q \<and> laps_note n cs = cs \<and> (has_duty (Pop at r) Head_end \<longrightarrow> has_duty t' Head_end)"
    using assms(1) Inr z
    by (auto simp: pop_check_def pop_tail_def read_slot_def read_chunk_def Let_def split: if_splits option.splits)
  moreover have "has_duty (Pop at r) d \<Longrightarrow> d = Head_end" for d by (simp add: pop_duty)
  ultimately have "passes q cs (Pop at r) q' (laps_note n cs) t'" using passes_same[of q cs q "Pop at r" t'] by metis
  then show ?thesis using Inr z by simp
qed

lemma O_cas_passes:
  assumes "linv q lg cs (Pop O_cas r)"
  shows "good_passing q cs (Pop O_cas r) (pop_step sp O_cas r q)"
proof -
  have "has_duty (Pop (if place (chead r) mod 32 = 30 then O_wait_next else O_wait_write) r) d \<or> due q cs d"
    if "due (q\<lparr>hindex := cnhead r\<rparr>) cs d" for d
    using that assms by (cases d) (auto simp: slot_of_def mod_Suc)
  then show ?thesis by (auto simp: pop_cas_def offset_last_iff passes_def pop_duty)
qed

lemma O_hchunk_passes:
  assumes g: "ginv q lg cs" and "linv q lg cs (Pop O_hchunk r)"
  shows "good_passing q cs (Pop O_hchunk r) (pop_step sp O_hchunk r q)"
proof -
  have "cnextp r \<noteq> null" using assms(2) ginvD(3)[OF g] nth_mem by (fastforce simp: turned_def)
  then have "due q cs d" if "due (q\<lparr>hchunk := cnextp r\<rparr>) cs d" for d
    using that by (cases d) (auto simp: slot_of_def)
  then show ?thesis by (auto simp: passes_def pop_duty)
qed

lemma O_hindex_passes:
  assumes "linv q lg cs (Pop O_hindex r)"
  shows "good_passing q cs (Pop O_hindex r) (pop_step sp O_hindex r q)"
proof -
  have "due q cs d \<and> d \<noteq> Head_end" if "due (q\<lparr>hindex := cnidx r\<rparr>) cs d" for d
    using that assms by (cases d) (auto simp: slot_of_def aimed_def turning_def mod_Suc)
  then show ?thesis by (auto simp: passes_def pop_duty)
qed

lemma pop_marks_pass:
  assumes g: "ginv q lg cs" and t: "linv q lg cs (Pop at r)" and at: "at = O_mark \<or> at = O_flag i"
  shows "good_passing q cs (Pop at r) (pop_step sp at r q)"
proof -
  let ?k = "place (chead r) div 32"
  let ?j = "if at = O_mark then place (chead r) mod 32 else i"
  have tk: "taken_slot q lg cs r" using t at by auto
  note k = taken_facts[OF tk]
  have j: "?j < 31" using t at k(1) mod_less_divisor[of 32 "place (chead r)"] by (auto simp del: mod_less_divisor)
  obtain ch where ch: "chunks q (cs ! ?k) = Some ch" "read_slot (cs ! ?k) ?j q = Inr (cslots ch ! ?j)"
    using lap_read[OF g k(3)] j by metis
  have nd: "\<not> has_duty (Pop at r) d" for d using at by (auto simp: pop_duty)
  note up = slot_update_passes[OF g k(3) ch(1) j, where t = "Pop at r"]
  have i: "unat (word_of_nat i :: usize) = i" if "at = O_flag i" using that t by (simp add: unat_of_nat)
  show ?thesis
  proof (cases "at = O_mark")
    case True
    then show ?thesis using ch k(4) nd up[of "sstate_update (\<lambda>v. v OR READ)"]
      by (simp add: write_slot_def upd_chunk_Some upd_slot_def unat_offset)
  next
    case False
    then show ?thesis using at i ch k(4) nd up[of "sstate_update (\<lambda>v. v OR DESTROY)"]
      by (auto simp: write_slot_def upd_chunk_Some upd_slot_def)
  qed
qed

lemma pop_step_passes:
  assumes "ginv q lg cs" "small (length lg)" "linv q lg cs (Pop at r)"
  shows "good_passing q cs (Pop at r) (pop_step sp at r q)"
proof (cases at)
  case O_free
  then show ?thesis using assms by simp
qed (use assms O_cas_passes O_hchunk_passes O_hindex_passes pop_marks_pass
      pop_reads_pass[OF _ pop_step_keeps[OF assms]] in \<open>metis insertCI\<close>)+


section \<open>Every duty is served\<close>

lemma thread_step_passes:
  assumes "ginv q lg cs" "small (length lg)" "linv q lg cs t" "good_alloc al alloc" "thread_step alloc sp t q = Some r"
  shows "good_passing q cs t r"
proof (cases t)
  case (Push x at rg)
  then show ?thesis using assms push_step_passes[OF assms(1,2)] by auto
next
  case (Pop at rg)
  then show ?thesis using assms pop_step_passes[OF assms(1,2)] by auto
next
  case (Emptying h)
  then show ?thesis using assms(5) by (cases h) (auto simp: passes_def no_duty)
next
  case (Counting at w v)
  then show ?thesis using assms(5)
    by (cases at; cases "co_len (q\<lparr>tindex := w, hindex := v\<rparr>)") (auto simp: passes_def no_duty split: if_splits)
qed (use assms(5) in auto)

lemma served_update:
  assumes s: "served s" and p: "passes (sh s) (laps s) (thr s i) q cs t"
  shows "served \<lparr>sh = q, thr = (thr s)(i := t), log = lg, laps = cs\<rparr>"
  unfolding served_def
proof (intro allI impI)
  fix d assume "due (sh \<lparr>sh = q, thr = (thr s)(i := t), log = lg, laps = cs\<rparr>) (laps \<lparr>sh = q, thr = (thr s)(i := t), log = lg, laps = cs\<rparr>) d"
  then consider "has_duty t d" | "due (sh s) (laps s) d" "\<not> has_duty (thr s i) d" using p by (auto simp: passes_def)
  then show "\<exists>j. has_duty (thr \<lparr>sh = q, thr = (thr s)(i := t), log = lg, laps = cs\<rparr> j) d"
  proof cases
    case 1
    then show ?thesis by (intro exI[of _ i]) simp
  next
    case 2
    then obtain j where "has_duty (thr s j) d" using s by (auto simp: served_def)
    then show ?thesis using 2 by (intro exI[of _ j]) auto
  qed
qed

lemma served_still:
  assumes "served s" "\<And>d. \<not> has_duty (thr s i) d"
  shows "served (s\<lparr>thr := (thr s)(i := t)\<rparr>)"
proof -
  have "passes (sh s) (laps s) (thr s i) (sh s) (laps s) t" using assms(2) by (auto intro: passes_same)
  from served_update[OF assms(1) this] show ?thesis by (cases s) simp
qed

lemma conc_step_served:
  assumes "conc_step alloc s e s'" "conc_inv s" "small (length (log s))" "good_alloc al alloc" "served s"
  shows "served s'"
  using assms(1)
proof (cases rule: conc_step.cases)
  case (conc_run sp i t q n)
  have "good_passing (sh s) (laps s) (thr s i) (Inr (t, q, n))"
    using conc_run assms by (intro thread_step_passes[OF _ assms(3) _ assms(4)]) (auto simp: conc_inv_def)
  then show ?thesis using conc_run(2) served_update[OF assms(5)] by simp
next
  case (conc_fail sp i f)
  have "good_passing (sh s) (laps s) (thr s i) (Inl f)"
    using conc_fail assms by (intro thread_step_passes[OF _ assms(3) _ assms(4)]) (auto simp: conc_inv_def)
  then show ?thesis using conc_fail(2) by (auto intro!: served_still[OF assms(5)])
next
  case (conc_invoke i c)
  then show ?thesis by (auto intro!: served_still[OF assms(5)] simp: no_duty)
next
  case (conc_return i a)
  then show ?thesis by (auto intro!: served_still[OF assms(5)] simp: no_duty)
qed

lemma conc_init_served: "served (conc_init h)"
proof -
  have "\<not> due (co_new h) [] d" for d by (cases d) (auto simp: co_new_def place_def)
  then show ?thesis by (simp add: served_def conc_init_def)
qed

lemma run_served:
  assumes al: "good_alloc al alloc" and run: "lts_run (conc_step alloc) (conc_init h) es s" and b: "small (length (log s))"
  shows "served s"
proof -
  have "conc_ok al alloc s \<and> served s"
    using bounded_run[OF run b] conc_init_ok[OF al, of h] conc_init_served
  proof (rule_tac lts_run_inv[where P = "\<lambda>s. conc_ok al alloc s \<and> served s"])
    fix s e s' assume s: "conc_ok al alloc s \<and> served s" and st: "bounded_step alloc s e s'"
    have "conc_ok al alloc s'" using co_object.inv_step s st by blast
    moreover have "served s'" using s st conc_step_served by (auto simp: conc_ok_def bounded_step_def)
    ultimately show "conc_ok al alloc s' \<and> served s'" by simp
  qed auto
  then show ?thesis by simp
qed

section \<open>Waiting\<close>

text \<open>A thread is blocked when it cannot get on without a step of another thread.\<close>

fun blocked :: "'a co_queue \<Rightarrow> 'a thread \<Rightarrow> bool" where
  "blocked q (Push x at r) \<longleftrightarrow>
     at \<in> {P_index, P_chunk, P_check, P_first, P_cas_chunk, P_cas} \<and> offset_of (tindex q) = CHUNK_CAP"
| "blocked q (Pop at r) \<longleftrightarrow>
     (case at of
        O_wait_next \<Rightarrow> cnext (the (chunks q (cochunk r))) = null
      | O_wait_write \<Rightarrow> sstate (cslots (the (chunks q (cochunk r))) ! unat (offset_of (chead r))) AND WRITE = 0
      | _ \<Rightarrow> at \<in> {O_index, O_chunk, O_check, O_tail, O_cas} \<and>
          (offset_of (hindex q) = CHUNK_CAP \<or> hchunk q = null \<and> tchunk q \<noteq> null))"
| "blocked q t \<longleftrightarrow> False"

fun working :: "'a thread \<Rightarrow> bool" where
  "working (Push x at r) = True"
| "working (Pop at r) = True"
| "working t = False"

lemma push_duty_free:
  assumes "has_duty t d" "d \<noteq> Head_end"
  shows "working t \<and> \<not> blocked q t"
  using assms by (cases t; cases d) auto

end
