(* ===== verification/Co_Runs.thy ===== *)
theory Co_Runs
  imports Co_Linear
begin

text \<open>
  Runs of the machine, built by driving one thread at a time. \<open>drive\<close> executes steps of a thread with
  compare-exchanges that do not fail spuriously. \<open>batch\<close> describes the states between the operations of
  a single-threaded prefix that stays in the first chunk.
\<close>

fun drive :: "'a chunk allocator \<Rightarrow> tid \<Rightarrow> nat \<Rightarrow> 'a conc \<Rightarrow> 'a conc option" where
  "drive alloc i 0 s = Some s"
| "drive alloc i (Suc k) s =
     (case thread_step alloc False (thr s i) (sh s) of
        Some (Inr (t, q, n)) \<Rightarrow>
          drive alloc i k \<lparr>sh = q, thr = (thr s)(i := t), log = log_note n (log s), laps = laps_note n (laps s)\<rparr>
      | _ \<Rightarrow> None)"

lemma drive_numeral [simp]:
  "drive alloc i (numeral k) s =
     (case thread_step alloc False (thr s i) (sh s) of
        Some (Inr (t, q, n)) \<Rightarrow> drive alloc i (pred_numeral k)
          \<lparr>sh = q, thr = (thr s)(i := t), log = log_note n (log s), laps = laps_note n (laps s)\<rparr>
      | _ \<Rightarrow> None)"
  by (simp add: numeral_eq_Suc)

lemma drive_run: "drive alloc i k s = Some s' \<Longrightarrow> lts_run (conc_step alloc) s (replicate k Internal) s'"
proof (induction k arbitrary: s)
  case (Suc k)
  then obtain t q n where st: "thread_step alloc False (thr s i) (sh s) = Some (Inr (t, q, n))"
    "drive alloc i k \<lparr>sh = q, thr = (thr s)(i := t), log = log_note n (log s), laps = laps_note n (laps s)\<rparr> = Some s'"
    by (auto split: option.splits sum.splits)
  have "lts_run (conc_step alloc) s [Internal]
      \<lparr>sh = q, thr = (thr s)(i := t), log = log_note n (log s), laps = laps_note n (laps s)\<rparr>"
    using conc_run[OF st(1)] by (rule lts_run_one)
  then show ?case using lts_run_append[OF Suc.IH[OF st(2)]] by fastforce
qed simp

lemma invoke_run:
  assumes "thr s i = Idle" "drive alloc i k (s\<lparr>thr := (thr s)(i := start_of c)\<rparr>) = Some s'"
  shows "lts_run (conc_step alloc) s (Invoke i c # replicate k Internal) s'"
proof -
  have "lts_run (conc_step alloc) s [Invoke i c] (s\<lparr>thr := (thr s)(i := start_of c)\<rparr>)"
    using conc_invoke[OF assms(1)] by (rule lts_run_one)
  then show ?thesis using lts_run_append[OF drive_run[OF assms(2)]] by fastforce
qed

text \<open>A whole call: invoke, drive, return.\<close>

lemma call_run:
  assumes "thr s i = Idle" "drive alloc i k (s\<lparr>thr := (thr s)(i := start_of c)\<rparr>) = Some s'" "thr s' i = Answered a"
  shows "lts_run (conc_step alloc) s (Invoke i c # replicate k Internal @ [Return i a]) (s'\<lparr>thr := (thr s')(i := Idle)\<rparr>)"
  using lts_run.run_snoc[OF invoke_run[OF assms(1,2)] conc_return[OF assms(3)]] by simp

definition slots_written :: "nat \<Rightarrow> 'a chunk \<Rightarrow> bool" where
  "slots_written b ch \<longleftrightarrow> length (cslots ch) = 31 \<and> (\<forall>j < 31. sstate (cslots ch ! j) AND DESTROY = 0) \<and>
     (\<forall>j < b. svalue (cslots ch ! j) \<noteq> None \<and> sstate (cslots ch ! j) AND WRITE \<noteq> 0)"

definition batch :: "nat \<Rightarrow> nat \<Rightarrow> 'a conc \<Rightarrow> bool" where
  "batch a b s \<longleftrightarrow> (\<exists>ch. cnext ch = null \<and> slots_written b ch \<and> thr s = (\<lambda>_. Idle) \<and> length (log s) = b \<and>
     sh s = \<lparr>chunks = [8 \<mapsto> ch], hindex = flagged a False, hchunk = 8, tindex = flagged b False, tchunk = 8, chan = []\<rparr>)"

lemma flagged_next: "flagged m fl + 2 = flagged (Suc m) fl"
  by (simp add: flagged_def)

lemma arena_first: "arena_alloc Map.empty = Some 8"
  by (simp add: arena_alloc_def)

lemma checked_flagged: "m < 2 ^ 60 \<Longrightarrow> checked_add (flagged m fl) 2 = Inr (flagged (Suc m) fl)"
  using checked_next[of "flagged m fl"] unat_flagged[of m fl] by (simp add: flagged_next)

text \<open>A push that nobody disturbs and that stays within the current chunk.\<close>

lemma drive_push:
  assumes "offset_of w \<noteq> CHUNK_CAP" "offset_of w + 1 \<noteq> CHUNK_CAP" "checked_add w 2 = Inr w'"
    "tindex q = w" "tchunk q = c" "c \<noteq> null" "chunks q c = Some ch" "thr s = T(i := start_of (Call_push x))" "sh s = q"
    "unat (offset_of w) < length (cslots ch)"
  shows "drive alloc i 6 s =
    Some \<lparr>sh = q\<lparr>tindex := w', chunks := (chunks q)(c \<mapsto> ch\<lparr>cslots := (cslots ch)[unat (offset_of w) :=
             sstate_update (\<lambda>v. v OR WRITE) ((cslots ch ! unat (offset_of w))\<lparr>svalue := Some x\<rparr>)]\<rparr>)\<rparr>,
      thr = T(i := Answered Pushed), log = log s @ [x], laps = laps s\<rparr>"
  using assms
  by (simp add: start_of_def push_check_def push_cas_def Let_def one_place access_defs upd_slot_def del: push_bit_of_1)


lemma written_push:
  assumes "slots_written b ch" "b < 31"
  shows "slots_written (Suc b) (ch\<lparr>cslots := (cslots ch)[b := sstate_update (\<lambda>v. v OR WRITE) ((cslots ch ! b)\<lparr>svalue := Some x\<rparr>)]\<rparr>)"
proof -
  have "(w OR WRITE) AND DESTROY = w AND DESTROY" for w by (simp add: co_consts bit.conj_disj_distrib2)
  moreover have "WRITE \<noteq> 0" by (simp add: WRITE_def)
  ultimately show ?thesis using assms by (auto simp: slots_written_def less_Suc_eq nth_list_update)
qed

lemma batch_push:
  fixes s :: "'a conc" and x :: 'a
  assumes "batch a b s" "b < 30"
  shows "\<exists>es s'. lts_run (conc_step arena_alloc) s es s' \<and> batch a (Suc b) s'"
proof -
  obtain ch where s: "cnext ch = null" "slots_written b ch" "thr s = (\<lambda>_. Idle)" "length (log s) = b"
    "sh s = \<lparr>chunks = [8 \<mapsto> ch], hindex = flagged a False, hchunk = 8, tindex = flagged b False, tchunk = 8, chan = []\<rparr>"
    using assms(1) by (auto simp: batch_def)
  have pl: "place (flagged b False) = b" using assms(2) by (intro place_flagged) simp
  have off: "offset_of (flagged b False) \<noteq> CHUNK_CAP" "offset_of (flagged b False) + 1 \<noteq> CHUNK_CAP"
      "unat (offset_of (flagged b False)) = b"
    using assms(2) pl by (simp_all only: offset_cap_iff offset_last_iff unat_offset) simp_all
  have ck: "checked_add (flagged b False) 2 = Inr (flagged (Suc b) False)" using assms(2) by (intro checked_flagged) simp
  have len: "b < length (cslots ch)" using s(2) assms(2) by (simp add: slots_written_def)
  let ?s = "s\<lparr>thr := (thr s)(0 := start_of (Call_push x))\<rparr>"
  let ?ch = "ch\<lparr>cslots := (cslots ch)[b := sstate_update (\<lambda>v. v OR WRITE) ((cslots ch ! b)\<lparr>svalue := Some x\<rparr>)]\<rparr>"
  obtain s' where d: "drive arena_alloc 0 6 ?s = Some s'" "thr s' = (thr s)(0 := Answered Pushed)"
    "log s' = log s @ [x]" "sh s' = sh s\<lparr>tindex := flagged (Suc b) False, chunks := (chunks (sh s))(8 \<mapsto> ?ch)\<rparr>"
    using drive_push[OF off(1,2) ck, of "sh s" 8 ch ?s "thr s" 0 x arena_alloc] s(5) off(3) len by simp
  have "batch a (Suc b) (s'\<lparr>thr := (thr s')(0 := Idle)\<rparr>)"
    using s d(2-4) written_push[OF s(2), of x] assms(2) unfolding batch_def by (intro exI[of _ ?ch]) auto
  then show ?thesis using call_run[OF _ d(1), of Pushed] s(3) d(2) by auto
qed

lemma drive_pop:
  assumes "offset_of w \<noteq> CHUNK_CAP" "offset_of w + 1 \<noteq> CHUNK_CAP" "checked_add w 2 = Inr w'" "w' AND HAS_NEXT = 0"
    "hindex q = w" "hchunk q = c" "c \<noteq> null" "drop_bit SHIFT w \<noteq> drop_bit SHIFT (tindex q)"
    "drop_bit SHIFT w div LAP = drop_bit SHIFT (tindex q) div LAP"
    "chunks q c = Some ch" "thr s = T(i := start_of Call_pop)" "sh s = q"
    "unat (offset_of w) < length (cslots ch)" "sstate (cslots ch ! unat (offset_of w)) AND WRITE \<noteq> 0"
    "sstate (cslots ch ! unat (offset_of w)) AND DESTROY = 0" "svalue (cslots ch ! unat (offset_of w)) = Some x"
  shows "drive alloc i 8 s =
    Some \<lparr>sh = q\<lparr>hindex := w', chunks := (chunks q)(c \<mapsto> ch\<lparr>cslots := (cslots ch)[unat (offset_of w) :=
             sstate_update (\<lambda>v. v OR READ) (cslots ch ! unat (offset_of w))]\<rparr>)\<rparr>,
      thr = T(i := Answered (Popped (Some x))), log = log s, laps = laps s\<rparr>"
  using assms
  by (simp add: start_of_def pop_check_def pop_tail_def pop_cas_def pop_ready_def
      Let_def one_place access_defs upd_slot_def del: push_bit_of_1)

lemma written_pop:
  assumes "slots_written b ch" "j < 31"
  shows "slots_written b (ch\<lparr>cslots := (cslots ch)[j := sstate_update (\<lambda>v. v OR READ) (cslots ch ! j)]\<rparr>)"
proof -
  have "(w OR READ) AND DESTROY = w AND DESTROY" for w by (simp add: co_consts bit.conj_disj_distrib2)
  then show ?thesis using assms by (auto simp: slots_written_def nth_list_update)
qed

lemma batch_pop:
  assumes "batch a b s" "a < b" "b \<le> 30"
  shows "\<exists>es s'. lts_run (conc_step arena_alloc) s es s' \<and> batch (Suc a) b s'"
proof -
  obtain ch where s: "cnext ch = null" "slots_written b ch" "thr s = (\<lambda>_. Idle)" "length (log s) = b"
    "sh s = \<lparr>chunks = [8 \<mapsto> ch], hindex = flagged a False, hchunk = 8, tindex = flagged b False, tchunk = 8, chan = []\<rparr>"
    using assms(1) by (auto simp: batch_def)
  have pl: "place (flagged a False) = a" "place (flagged b False) = b" using assms(2,3) by (simp_all add: place_flagged)
  have off: "offset_of (flagged a False) \<noteq> CHUNK_CAP" "offset_of (flagged a False) + 1 \<noteq> CHUNK_CAP"
      "unat (offset_of (flagged a False)) = a"
      "drop_bit SHIFT (flagged a False) \<noteq> drop_bit SHIFT (flagged b False)"
      "drop_bit SHIFT (flagged a False) div LAP = drop_bit SHIFT (flagged b False) div LAP"
    using assms(2,3) pl by (simp_all only: offset_cap_iff offset_last_iff unat_offset drop_eq_iff drop_lap_iff) simp_all
  have ck: "checked_add (flagged a False) 2 = Inr (flagged (Suc a) False)" "flagged (Suc a) False AND HAS_NEXT = 0"
    using assms(2,3) by (auto intro!: checked_flagged simp: flagged_and)
  obtain x where w: "a < length (cslots ch)" "sstate (cslots ch ! a) AND WRITE \<noteq> 0" "sstate (cslots ch ! a) AND DESTROY = 0"
      "svalue (cslots ch ! a) = Some x" using s(2) assms(2,3) by (auto simp: slots_written_def)
  let ?s = "s\<lparr>thr := (thr s)(0 := start_of Call_pop)\<rparr>"
  let ?ch = "ch\<lparr>cslots := (cslots ch)[a := sstate_update (\<lambda>v. v OR READ) (cslots ch ! a)]\<rparr>"
  obtain s' where d: "drive arena_alloc 0 8 ?s = Some s'"
    "thr s' = (thr s)(0 := Answered (Popped (Some x)))"
    "log s' = log s" "sh s' = sh s\<lparr>hindex := flagged (Suc a) False, chunks := (chunks (sh s))(8 \<mapsto> ?ch)\<rparr>"
    using drive_pop[OF off(1,2) ck, of "sh s" 8 ch ?s "thr s" 0 x arena_alloc] s(5) off w by simp
  have "batch (Suc a) b (s'\<lparr>thr := (thr s')(0 := Idle)\<rparr>)"
    using s d(2-4) written_pop[OF s(2), of a] assms(2,3) unfolding batch_def by (intro exI[of _ ?ch]) auto
  then show ?thesis using call_run[OF _ d(1), of "Popped (Some x)"] s(3) d(2) by auto
qed


section \<open>The end of a chunk\<close>

lemma zero_offset: "offset_of 0 \<noteq> CHUNK_CAP" "offset_of 0 + 1 \<noteq> CHUNK_CAP" "unat (offset_of 0) = 0"
  by (simp_all only: offset_cap_iff offset_last_iff unat_offset) (simp_all add: place_def)

lemma drive_first:
  fixes x :: 'a
  defines "ch \<equiv> (chunk_new :: 'a chunk)\<lparr>cslots := (cslots chunk_new)[0 :=
     sstate_update (\<lambda>v. v OR WRITE) ((cslots (chunk_new :: 'a chunk) ! 0)\<lparr>svalue := Some x\<rparr>)]\<rparr>"
  assumes "s = (conc_init Map.empty)\<lparr>thr := (thr (conc_init Map.empty))(0 := start_of (Call_push x))\<rparr>"
  shows "drive arena_alloc 0 9 s =
    Some \<lparr>sh = \<lparr>chunks = [8 \<mapsto> ch], hindex = 0, hchunk = 8, tindex = 2, tchunk = 8, chan = []\<rparr>,
      thr = (\<lambda>_. Idle)(0 := Answered Pushed), log = [x], laps = [8]\<rparr>"
  using assms(2) zero_offset
  by (simp add: start_of_def conc_init_def co_new_def push_check_def push_cas_def push_cas_chunk_def new_chunk_cases
      arena_first Let_def one_place access_defs upd_slot_def checked_add_def ch_def del: push_bit_of_1)

lemma conc_init_thr [simp]: "thr (conc_init h) = (\<lambda>_. Idle)"
  by (simp add: conc_init_def)

lemma first_push_run:
  "lts_run (conc_step arena_alloc) (conc_init Map.empty)
     (Invoke 0 (Call_push x) # replicate 9 Internal @ [Return 0 Pushed])
     \<lparr>sh = \<lparr>chunks = [8 \<mapsto> chunk_new\<lparr>cslots := (cslots chunk_new)[0 :=
         sstate_update (\<lambda>v. v OR WRITE) ((cslots chunk_new ! 0)\<lparr>svalue := Some x\<rparr>)]\<rparr>],
        hindex = 0, hchunk = 8, tindex = 2, tchunk = 8, chan = []\<rparr>, thr = (\<lambda>_. Idle), log = [x], laps = [8]\<rparr>"
  using call_run[OF _ drive_first[OF refl, of x], of Pushed] by (simp add: fun_upd_idem)

lemma batch_first:
  fixes x :: 'a
  shows "\<exists>es s. lts_run (conc_step arena_alloc) (conc_init Map.empty :: 'a conc) es s \<and> batch 0 (Suc 0) s"
proof -
  let ?ch = "(chunk_new :: 'a chunk)\<lparr>cslots := (cslots chunk_new)[0 :=
     sstate_update (\<lambda>v. v OR WRITE) ((cslots (chunk_new :: 'a chunk) ! 0)\<lparr>svalue := Some x\<rparr>)]\<rparr>"
  have i: "thr (conc_init Map.empty :: 'a conc) = (\<lambda>_. Idle)" by (simp add: conc_init_def)
  have "slots_written 0 (chunk_new :: 'a chunk)" by (simp add: slots_written_def chunk_new_def CHUNK_CAP_31)
  then have "slots_written (Suc 0) ?ch" using written_push[of 0 "chunk_new :: 'a chunk" x] by simp
  moreover have "cnext ?ch = null" by (simp add: chunk_new_def)
  ultimately have "batch 0 (Suc 0) \<lparr>sh = \<lparr>chunks = [8 \<mapsto> ?ch], hindex = 0, hchunk = 8, tindex = 2, tchunk = 8, chan = []\<rparr>,
      thr = (\<lambda>_. Idle), log = [x], laps = [8]\<rparr>"
    unfolding batch_def by (intro exI[of _ ?ch]) (simp add: flagged_def)
  moreover have "lts_run (conc_step arena_alloc) (conc_init Map.empty :: 'a conc)
      (Invoke 0 (Call_push x) # replicate 9 Internal @ [Return 0 Pushed])
      \<lparr>sh = \<lparr>chunks = [8 \<mapsto> ?ch], hindex = 0, hchunk = 8, tindex = 2, tchunk = 8, chan = []\<rparr>,
       thr = (\<lambda>_. Idle), log = [x], laps = [8]\<rparr>"
    using first_push_run[of x] by simp
  ultimately show ?thesis by blast
qed

lemma batch_pushes: "batch a b s \<Longrightarrow> n + b \<le> 30 \<Longrightarrow> \<exists>es s'. lts_run (conc_step arena_alloc) s es s' \<and> batch a (n + b) s'"
proof (induction n)
  case (Suc n)
  then obtain es s' where "lts_run (conc_step arena_alloc) s es s'" "batch a (n + b) s'" by auto
  moreover obtain es' s'' where "lts_run (conc_step arena_alloc) s' es' s''" "batch a (Suc (n + b)) s''"
    using batch_push[OF \<open>batch a (n + b) s'\<close>] Suc.prems by auto
  ultimately show ?case using lts_run_append by fastforce
qed (auto intro: exI[of _ "[]"])

lemma batch_pops: "batch a b s \<Longrightarrow> n + a \<le> b \<Longrightarrow> b \<le> 30 \<Longrightarrow> \<exists>es s'. lts_run (conc_step arena_alloc) s es s' \<and> batch (n + a) b s'"
proof (induction n)
  case (Suc n)
  then obtain es s' where "lts_run (conc_step arena_alloc) s es s'" "batch (n + a) b s'" by auto
  moreover obtain es' s'' where "lts_run (conc_step arena_alloc) s' es' s''" "batch (Suc (n + a)) b s''"
    using batch_pop[OF \<open>batch (n + a) b s'\<close>] Suc.prems by auto
  ultimately show ?case using lts_run_append by fastforce
qed (auto intro: exI[of _ "[]"])

lemma batch_30:
  "\<exists>es s. lts_run (conc_step arena_alloc) (conc_init Map.empty :: 'a conc) es s \<and> batch 30 30 s"
proof -
  obtain es1 s1 where 1: "lts_run (conc_step arena_alloc) (conc_init Map.empty :: 'a conc) es1 s1" "batch 0 (Suc 0) s1"
    using batch_first by blast
  obtain es2 s2 where 2: "lts_run (conc_step arena_alloc) s1 es2 s2" "batch 0 (29 + Suc 0) s2"
    using batch_pushes[OF 1(2), of 29] by auto
  obtain es3 s3 where 3: "lts_run (conc_step arena_alloc) s2 es3 s3" "batch (30 + 0) (29 + Suc 0) s3"
    using batch_pops[OF 2(2), of 30] by auto
  show ?thesis using lts_run_append[OF 3(1) lts_run_append[OF 2(1) 1(1)]] 3(2) by auto
qed

lemma end_flags:
  "offset_of (flagged 30 False) \<noteq> CHUNK_CAP" "offset_of (flagged 30 False) + 1 = CHUNK_CAP"
  "drop_bit SHIFT (flagged 30 False) \<noteq> drop_bit SHIFT (flagged 31 False)"
  "drop_bit SHIFT (flagged 30 False) div LAP = drop_bit SHIFT (flagged 31 False) div LAP"
  "checked_add (flagged 30 False) 2 = Inr (flagged 31 False)" "flagged 31 False AND HAS_NEXT = 0"
  using checked_flagged[of 30 False]
  by (simp_all only: offset_cap_iff offset_last_iff drop_eq_iff drop_lap_iff flagged_and) (simp_all add: place_flagged)

text \<open>Both indices at the end of the chunk: \<open>len\<close> subtracts a lap from less than a lap.\<close>

lemma co_len_both_at_end: "co_len (q\<lparr>tindex := flagged 31 False, hindex := flagged 31 False\<rparr>) = Inl Panic"
  by (simp add: co_len_def flagged_def erase_low_def co_consts checked_sub_def Let_def)


text \<open>A push that has claimed the last slot of the first chunk, and has not moved the tail on yet.\<close>

lemma drive_claim_last:
  assumes "tindex q = flagged 30 False" "tchunk q = 8" "chunks q = [8 \<mapsto> ch]" "thr s = T(i := start_of (Call_push x))" "sh s = q"
  shows "drive arena_alloc i 4 s =
    Some \<lparr>sh = q\<lparr>tindex := flagged 31 False, chunks := [8 \<mapsto> ch, 16 \<mapsto> chunk_new]\<rparr>,
      thr = T(i := Push x P_tchunk \<lparr>ctail = flagged 30 False, cchunk = 8, cspare = Some 16, cnew = null\<rparr>),
      log = log s @ [x], laps = laps s\<rparr>"
proof -
  have "arena_alloc (chunks q) = Some 16" using assms(3) by (simp add: arena_alloc_def)
  then show ?thesis using assms end_flags
    by (simp add: start_of_def push_check_def push_cas_def new_chunk_cases Let_def one_place del: push_bit_of_1)
qed

lemma drive_take_last:
  assumes "hindex q = flagged 30 False" "hchunk q = 8" "tindex q = flagged 31 False" "thr s = T(i := start_of Call_pop)" "sh s = q"
  shows "drive alloc i 5 s =
    Some \<lparr>sh = q\<lparr>hindex := flagged 31 False\<rparr>, thr = T(i := Pop O_wait_next \<lparr>chead = flagged 30 False, cochunk = 8,
        cnhead = flagged 31 False, cnextp = null, cnidx = 0, citem = None\<rparr>), log = log s, laps = laps s\<rparr>"
  using assms end_flags
  by (simp add: start_of_def pop_check_def pop_tail_def pop_cas_def pop_ready_def Let_def one_place del: push_bit_of_1)

lemma drive_len:
  assumes "thr s = T(i := start_of Call_len)"
  shows "drive alloc i 2 s = Some (s\<lparr>thr := T(i := Counting L_again (tindex (sh s)) (hindex (sh s)))\<rparr>)"
  using assms by (cases s) (simp add: start_of_def)

lemma invoke_drive:
  assumes "lts_run (conc_step alloc) s0 es s" "thr s i = Idle" "drive alloc i k (s\<lparr>thr := (thr s)(i := start_of c)\<rparr>) = Some s'"
  shows "\<exists>es. lts_run (conc_step alloc) s0 es s'"
  using lts_run_append[OF invoke_run[OF assms(2,3)] assms(1)] by blast

lemma end_of_chunk_run:
  fixes x :: 'a
  shows "\<exists>es s. lts_run (conc_step arena_alloc) (conc_init Map.empty :: 'a conc) es s \<and> length (log s) = 31 \<and>
     tindex (sh s) = flagged 31 False \<and> hindex (sh s) = flagged 31 False \<and>
     (\<exists>r. thr s 0 = Push x P_tchunk r \<and> ctail r = flagged 30 False \<and> cspare r = Some 16) \<and> (\<exists>r. thr s 1 = Pop O_wait_next r) \<and> (\<forall>i \<ge> 2. thr s i = Idle)"
proof -
  obtain es s where run: "lts_run (conc_step arena_alloc) (conc_init Map.empty :: 'a conc) es s" "batch 30 30 s"
    using batch_30 by blast
  obtain ch where s: "thr s = (\<lambda>_. Idle)" "length (log s) = 30"
    "sh s = \<lparr>chunks = [8 \<mapsto> ch], hindex = flagged 30 False, hchunk = 8, tindex = flagged 30 False, tchunk = 8, chan = []\<rparr>"
    using run(2) by (auto simp: batch_def)
  let ?r = "\<lparr>ctail = flagged 30 False, cchunk = 8, cspare = Some 16, cnew = null\<rparr>"
  let ?s1 = "s\<lparr>thr := (thr s)(0 := start_of (Call_push x))\<rparr>"
  obtain s2 where d2: "drive arena_alloc 0 4 ?s1 = Some s2" and
    s2: "thr s2 = (thr s)(0 := Push x P_tchunk ?r)" "length (log s2) = 31" "hindex (sh s2) = flagged 30 False"
      "hchunk (sh s2) = 8" "tindex (sh s2) = flagged 31 False"
    using drive_claim_last[of "sh s" ch ?s1 "thr s" 0 x] s by simp
  obtain es2 where r2: "lts_run (conc_step arena_alloc) (conc_init Map.empty) es2 s2"
    using invoke_drive[OF run(1) _ d2] s(1) by auto
  let ?s3 = "s2\<lparr>thr := (thr s2)(1 := start_of Call_pop)\<rparr>"
  obtain r s4 where d4: "drive arena_alloc 1 5 ?s3 = Some s4" and
    s4: "thr s4 = (thr s2)(1 := Pop O_wait_next r)" "log s4 = log s2" "hindex (sh s4) = flagged 31 False"
      "tindex (sh s4) = flagged 31 False"
    using drive_take_last[of "sh s2" ?s3 "thr s2" 1 arena_alloc] s2 by auto
  obtain es4 where "lts_run (conc_step arena_alloc) (conc_init Map.empty) es4 s4"
    using invoke_drive[OF r2 _ d4] s2(1) s(1) by auto
  then show ?thesis using s4 s2(1,2) s(1) by (intro exI[of _ es4] exI[of _ s4]) auto
qed


section \<open>Small runs\<close>

text \<open>A push by one thread, then a pop by another.\<close>

lemma push_pop_run:
  "\<exists>s. lts_run (conc_step arena_alloc) (conc_init Map.empty)
     ((Invoke 0 (Call_push x) # replicate 9 Internal @ [Return 0 Pushed]) @
      (Invoke 1 Call_pop # replicate 8 Internal @ [Return 1 (Popped (Some x))])) s \<and>
     log s = [x] \<and> hindex (sh s) = 2 \<and> thr s = (\<lambda>_. Idle)"
proof -
  define ch where "ch = chunk_new\<lparr>cslots := (cslots chunk_new)[0 :=
         sstate_update (\<lambda>v. v OR WRITE) ((cslots chunk_new ! 0)\<lparr>svalue := Some x\<rparr>)]\<rparr>"
  let ?s = "\<lparr>sh = \<lparr>chunks = [8 \<mapsto> ch], hindex = 0, hchunk = 8, tindex = 2, tchunk = 8, chan = []\<rparr>,
     thr = (\<lambda>_. Idle), log = [x], laps = [8]\<rparr>"
  have l: "length (cslots ch) = 31" "cslots ch ! 0 = \<lparr>svalue = Some x, sstate = WRITE\<rparr>"
    by (simp_all add: ch_def) (simp add: chunk_new_def CHUNK_CAP_31)
  have w: "WRITE AND WRITE \<noteq> 0" "WRITE AND DESTROY = 0" "checked_add 0 2 = Inr 2" "2 AND HAS_NEXT = 0"
    by (simp_all add: co_consts checked_add_def)
  have d: "drop_bit SHIFT 0 \<noteq> drop_bit SHIFT (2 :: usize)" "drop_bit SHIFT 0 div LAP = drop_bit SHIFT (2 :: usize) div LAP"
    by (simp_all add: co_consts)
  obtain s' where d: "drive arena_alloc 1 8 (?s\<lparr>thr := (thr ?s)(1 := start_of Call_pop)\<rparr>) = Some s'"
    "thr s' = (\<lambda>_. Idle)(1 := Answered (Popped (Some x)))" "log s' = [x]" "hindex (sh s') = 2"
    using drive_pop[OF zero_offset(1,2) w(3,4), of "sh ?s" 8 ch "?s\<lparr>thr := (thr ?s)(1 := start_of Call_pop)\<rparr>" "thr ?s" 1 x arena_alloc]
      l w d zero_offset(3) by (simp del: drive.simps drive_numeral)
  let ?s' = "s'\<lparr>thr := (thr s')(1 := Idle)\<rparr>"
  have r: "lts_run (conc_step arena_alloc) ?s (Invoke 1 Call_pop # replicate 8 Internal @
      [Return 1 (Popped (Some x))]) ?s'"
    by (rule call_run[OF _ d(1)]) (simp_all add: d(2))
  show ?thesis by (rule exI[of _ ?s'], intro conjI, rule lts_run_append[OF r first_push_run[of x, folded ch_def]]) (use d in auto)
qed

text \<open>A push that finds no memory for the first chunk.\<close>

lemma out_of_memory_run:
  "\<exists>es s. lts_run (conc_step (\<lambda>_. None)) (conc_init Map.empty) es s \<and> log s = [] \<and>
     thr s 0 = Failed (Call_push x) Out_of_memory"
proof -
  let ?r = "\<lparr>ctail = 0, cchunk = null, cspare = None, cnew = null\<rparr>"
  let ?s = "(conc_init Map.empty)\<lparr>thr := (\<lambda>_. Idle)(0 := Push x P_first ?r)\<rparr>"
  have "drive (\<lambda>_. None) 0 3
      ((conc_init Map.empty)\<lparr>thr := (thr (conc_init Map.empty))(0 := start_of (Call_push x))\<rparr>) = Some ?s"
    using zero_offset by (simp add: start_of_def conc_init_def co_new_def push_check_def Let_def)
  from invoke_run[OF _ this] have r: "lts_run (conc_step (\<lambda>_. None)) (conc_init Map.empty)
      (Invoke 0 (Call_push x) # replicate 3 Internal) ?s" by simp
  have "thread_step (\<lambda>_. None) False (thr ?s 0) (sh ?s) = Some (Inl Out_of_memory)"
    by (simp add: new_chunk_cases)
  then have f: "conc_step (\<lambda>_. None) ?s Internal (?s\<lparr>thr := (\<lambda>_. Idle)(0 := Failed (Call_push x) Out_of_memory)\<rparr>)"
    using conc_fail[of "\<lambda>_. None" False ?s 0 Out_of_memory] by simp
  have "lts_run (conc_step (\<lambda>_. None)) (conc_init Map.empty) ((Invoke 0 (Call_push x) # replicate 3 Internal) @ [Internal])
      (?s\<lparr>thr := (\<lambda>_. Idle)(0 := Failed (Call_push x) Out_of_memory)\<rparr>)"
    using r f by (rule lts_run.run_snoc)
  moreover have "log (?s\<lparr>thr := (\<lambda>_. Idle)(0 := Failed (Call_push x) Out_of_memory)\<rparr>) = []" by (simp add: conc_init_def)
  ultimately show ?thesis by fastforce
qed

text \<open>Two pushes that have both claimed a slot and are about to write.\<close>

lemma two_claims_run:
  "\<exists>es. lts_run (conc_step arena_alloc) (conc_init Map.empty) es
     \<lparr>sh = \<lparr>chunks = [8 \<mapsto> chunk_new], hindex = 0, hchunk = 8, tindex = 4, tchunk = 8, chan = []\<rparr>,
      thr = (\<lambda>_. Idle)(0 := Push x P_value \<lparr>ctail = 0, cchunk = 8, cspare = None, cnew = 8\<rparr>,
                     1 := Push y P_value \<lparr>ctail = 2, cchunk = 8, cspare = None, cnew = null\<rparr>),
      log = [x, y], laps = [8]\<rparr>"
proof -
  let ?s = "\<lparr>sh = \<lparr>chunks = [8 \<mapsto> chunk_new], hindex = 0, hchunk = 8, tindex = 2, tchunk = 8, chan = []\<rparr>,
      thr = (\<lambda>_. Idle)(0 := Push x P_value \<lparr>ctail = 0, cchunk = 8, cspare = None, cnew = 8\<rparr>), log = [x], laps = [8]\<rparr>"
  have 1: "drive arena_alloc 0 7
      ((conc_init Map.empty)\<lparr>thr := (thr (conc_init Map.empty))(0 := start_of (Call_push x))\<rparr>) = Some ?s"
    using zero_offset
    by (simp add: start_of_def conc_init_def co_new_def push_check_def push_cas_def push_cas_chunk_def new_chunk_cases
        arena_first Let_def one_place checked_add_def del: push_bit_of_1)
  have off: "offset_of 2 \<noteq> CHUNK_CAP" "offset_of 2 + 1 \<noteq> CHUNK_CAP"
    by (simp_all only: offset_cap_iff offset_last_iff) (simp_all add: place_def)
  have 2: "drive arena_alloc 1 4 (?s\<lparr>thr := (thr ?s)(1 := start_of (Call_push y))\<rparr>) =
     Some \<lparr>sh = \<lparr>chunks = [8 \<mapsto> chunk_new], hindex = 0, hchunk = 8, tindex = 4, tchunk = 8, chan = []\<rparr>,
      thr = (\<lambda>_. Idle)(0 := Push x P_value \<lparr>ctail = 0, cchunk = 8, cspare = None, cnew = 8\<rparr>,
                     1 := Push y P_value \<lparr>ctail = 2, cchunk = 8, cspare = None, cnew = null\<rparr>),
      log = [x, y], laps = [8]\<rparr>"
    using off by (simp add: start_of_def push_check_def push_cas_def Let_def one_place checked_add_def del: push_bit_of_1)
  have "lts_run (conc_step arena_alloc) (conc_init Map.empty)
      (Invoke 0 (Call_push x) # replicate 7 Internal) ?s"
    by (rule invoke_run[OF _ 1]) (simp add: conc_init_def)
  then show ?thesis by (rule invoke_drive[OF _ _ 2]) simp
qed

end
