(* ===== verification/Co_Conc_Props.thy ===== *)
theory Co_Conc_Props
  imports Co_Progress Co_Runs
begin

text \<open>
  The properties of \<open>CoQueue\<close> under concurrency: it is linearizable, no operation touches memory it
  must not touch, values are never accessed by two threads at once, and whoever waits has someone to
  wait for. Two short runs show what \<open>len\<close> and \<open>is_empty\<close> do not promise.
\<close>

section \<open>Accesses to values\<close>

text \<open>The slot whose value the next step of a thread reads or writes without synchronisation, and whether it writes.\<close>

fun touches :: "'a thread \<Rightarrow> (ptr \<times> nat \<times> bool) option" where
  "touches (Push x P_value r) = Some (cchunk r, unat (offset_of (ctail r)), True)"
| "touches (Pop O_read r) = Some (cochunk r, unat (offset_of (chead r)), False)"
| "touches t = None"

lemma touches_cases:
  assumes "touches t = Some (p, j, w)"
  obtains x r where "t = Push x P_value r" "p = cchunk r" "j = unat (offset_of (ctail r))" "w"
  | r where "t = Pop O_read r" "p = cochunk r" "j = unat (offset_of (chead r))" "\<not> w"
  using assms by (cases t rule: touches.cases) auto

lemma touched_place:
  assumes "ginv q lg cs" "linv q lg cs t" "touches t = Some (p, j, w)"
  shows "\<exists>n. p = cs ! (n div 32) \<and> n div 32 < length cs \<and> j = n mod 32 \<and>
    (if w then pclaim t = Some n else oclaim t = Some n \<and> sstate (slot_of q cs n) AND WRITE \<noteq> 0)"
  using assms(3)
proof (cases rule: touches_cases)
  case (1 x r)
  then show ?thesis using assms(2)
    by (intro exI[of _ "place (ctail r)"]) (auto simp: claimed_def Let_def unat_offset)
next
  case (2 r)
  then show ?thesis using assms(2)
    by (intro exI[of _ "place (chead r)"]) (auto simp: taken_slot_def Let_def unat_offset)
qed

lemma conc_inv_race_free:
  assumes s: "conc_inv s" and ij: "i \<noteq> j"
    and t: "touches (thr s i) = Some (p, k, True)" "touches (thr s j) = Some (p', k', w)"
  shows "(p, k) \<noteq> (p', k')"
proof
  assume eq: "(p, k) = (p', k')"
  have g: "ginv (sh s) (log s) (laps s)" and l: "\<And>j. linv (sh s) (log s) (laps s) (thr s j)"
    and a: "apart (thr s i) (thr s j)" using s ij by (auto simp: conc_inv_def)
  obtain n where n: "p = laps s ! (n div 32)" "n div 32 < length (laps s)" "k = n mod 32" "pclaim (thr s i) = Some n"
    using touched_place[OF g l t(1)] by auto
  obtain m where m: "p' = laps s ! (m div 32)" "m div 32 < length (laps s)" "k' = m mod 32"
      "if w then pclaim (thr s j) = Some m else sstate (slot_of (sh s) (laps s) m) AND WRITE \<noteq> 0"
    using touched_place[OF g l t(2)] by (auto split: if_splits)
  have "n div 32 = m div 32"
    using eq n(1,2) m(1,2) ginvD(2)[OF g] nth_eq_iff_index_eq by auto
  moreover have "n mod 32 = m mod 32" using eq n(3) m(3) by simp
  ultimately have "n = m" by (metis div_mult_mod_eq)
  then show False using a n(4) m(4) linv_pclaim[OF l n(4)] by (auto simp: apart_def split: if_splits)
qed

section \<open>Waiting\<close>

lemma due_unblocked:
  assumes "served s" "due (sh s) (laps s) d" "d \<noteq> Head_end"
  shows "\<exists>j. working (thr s j) \<and> \<not> blocked (sh s) (thr s j)"
  using assms push_duty_free by (metis served_def)

lemma blocked_due:
  assumes g: "ginv q lg cs" and l: "linv q lg cs t" and b: "blocked q t"
  shows "\<exists>d. due q cs d \<and> (d = Head_end \<longrightarrow> \<not> advancing t)"
proof (cases t)
  case (Push x at r)
  then have "due q cs Tail_end" using b by (simp add: offset_cap_iff)
  then show ?thesis by blast
next
  case (Pop at r)
  show ?thesis
  proof (cases "at = O_wait_next \<or> at = O_wait_write")
    case True
    let ?p = "place (chead r)"
    have tk: "taken_slot q lg cs r" using l Pop True by auto
    note k = taken_facts[OF tk]
    show ?thesis
    proof (cases "at = O_wait_next")
      case wn: True
      then have p: "?p mod 32 = 30" "hplace q = Suc ?p" using l Pop by (auto simp: turning_def)
      have le: "Suc ?p \<le> tplace q" using ginvD(6)[OF g] p(2) by simp
      have "due q cs Tail_end \<or> due q cs (Link (?p div 32))"
      proof (cases "tplace q = Suc ?p")
        case False
        then have "Suc (Suc ?p) div 32 \<le> tplace q div 32" using le by (intro div_le_mono) simp
        then have "Suc (?p div 32) \<le> tplace q div 32" using p(1) by (simp add: Suc_lap)
        moreover have "tplace q div 32 < length cs" using g k(3) by (auto simp: ginv_def tail_good_def split: if_splits)
        ultimately show ?thesis using b Pop wn k(4) by simp
      qed (use p in \<open>simp add: Suc_lap\<close>)
      then show ?thesis by blast
    next
      case False
      then have "due q cs (Write ?p)" using True b Pop k ginvD(6)[OF g] by (auto simp: slot_of_def unat_offset)
      then show ?thesis by blast
    qed
  next
    case False
    then have "hplace q mod 32 = 31 \<or> hchunk q = null \<and> cs \<noteq> []" "\<not> advancing t"
      using Pop b ginvD(8)[OF g] by (auto simp: offset_cap_iff split: pop_at.splits)
    then have "due q cs Head_end \<or> due q cs Hand" by simp
    then show ?thesis using \<open>\<not> advancing t\<close> by blast
  qed
qed (use b in auto)

lemma inv_progress:
  assumes s: "conc_inv s" "served s" and w: "working (thr s i)"
  shows "\<exists>j. working (thr s j) \<and> \<not> blocked (sh s) (thr s j)"
proof (rule ccontr)
  assume no: "\<not> ?thesis"
  have g: "ginv (sh s) (log s) (laps s)" and l: "\<And>j. linv (sh s) (log s) (laps s) (thr s j)"
    using s(1) by (auto simp: conc_inv_def)
  have only: "d = Head_end" if "due (sh s) (laps s) d" for d using due_unblocked[OF s(2) that] no by blast
  have "blocked (sh s) (thr s i)" using no w by blast
  then have he: "due (sh s) (laps s) Head_end" using blocked_due[OF g l] only by metis
  then obtain j where "has_duty (thr s j) Head_end" using s(2) unfolding served_def by blast
  then have j: "advancing (thr s j)" by simp
  then have "working (thr s j)" by (cases "thr s j") auto
  then have "blocked (sh s) (thr s j)" using no by blast
  then show False using blocked_due[OF g l] only j by metis
qed


section \<open>A claimed push finishes\<close>

text \<open>How many steps a push whose index is claimed has left; zero for every other thread.\<close>

fun push_rank :: "'a thread \<Rightarrow> nat" where
  "push_rank (Push x at r) =
     (case at of P_tchunk \<Rightarrow> 6 | P_tindex \<Rightarrow> 5 | P_next \<Rightarrow> 4 | P_value \<Rightarrow> 3 | P_write \<Rightarrow> 2 | P_drop \<Rightarrow> 1 | _ \<Rightarrow> 0)"
| "push_rank t = 0"

lemma push_rank_bound: "push_rank t \<le> 6"
  by (cases t) (auto split: push_at.split)

lemma claimed_push_advances:
  assumes "conc_inv s" "good_alloc al alloc" "small (length (log s))" "0 < push_rank (thr s i)"
  shows "\<exists>t q n. thread_step alloc sp (thr s i) (sh s) = Some (Inr (t, q, n)) \<and>
    (t = Answered Pushed \<or> 0 < push_rank t \<and> push_rank t < push_rank (thr s i))"
proof -
  obtain x at r where t: "thr s i = Push x at r" "at \<in> {P_tchunk, P_tindex, P_next, P_value, P_write, P_drop}"
    using assms(4) by (cases "thr s i") (auto split: push_at.splits)
  have l: "linv (sh s) (log s) (laps s) (Push x at r)" and g: "ginv (sh s) (log s) (laps s)"
    using assms(1) t(1) by (auto simp: conc_inv_def dest: spec[of _ i])
  have gr: "good_result (sh s) (log s) (laps s) (Push x at r) (push_step alloc sp x at r (sh s))"
    by (rule push_step_keeps[OF g assms(3) l assms(2)])
  have "push_step alloc sp x at r (sh s) \<noteq> Inl f" for f
    using gr t(2) by (auto simp: access_defs box_drop_def split: option.splits if_splits)
  then obtain t' q n where st: "push_step alloc sp x at r (sh s) = Inr (t', q, n)"
    by (cases "push_step alloc sp x at r (sh s)") auto
  then have "t' = Answered Pushed \<or> 0 < push_rank t' \<and> push_rank t' < push_rank (Push x at r)"
    using t(2) by (auto simp: access_defs box_drop_def split: option.splits if_splits)
  then show ?thesis using st t(1) by simp
qed

section \<open>Properties\<close>

text \<open>
  C7. \<open>CoQueue\<close> is linearizable: whatever calls and returns many threads see when their pushes and pops
  interleave, step by step and with any spurious failures, is what they could have seen of a queue
  whose operations happen at one moment each, first in first out. A yes of \<open>is_empty\<close> is true at one
  moment of the call; when \<open>is_empty\<close> says no is left open, and what \<open>len\<close> answers is shown in \<open>Co_Length\<close>.
\<close>

theorem conc_linearizable:
  assumes "good_alloc al alloc" "lts_run (conc_step alloc) (conc_init h) es s" "small (length (log s))"
  shows "\<exists>es'. lts_run atomic_step atomic_init es' (conc_abs s) \<and> visible Internal es' = visible Internal es"
proof -
  have "conc_abs (conc_init h) = atomic_init"
    by (simp add: conc_abs_def atomic_init_def contents_def) (simp add: conc_init_def)
  then show ?thesis
    using co_object.run_simulated[OF conc_init_ok[OF assms(1)] bounded_run[OF assms(2,3)]] by simp
qed

theorem conc_linearizable_witness:
  "\<exists>es' (a :: nat object). lts_run atomic_step atomic_init es' a \<and>
     visible Internal es' = [Invoke 0 (Call_push 7), Return 0 Pushed, Invoke 1 Call_pop, Return 1 (Popped (Some 7))]"
proof -
  obtain s where s: "lts_run (conc_step arena_alloc) (conc_init Map.empty)
     ((Invoke 0 (Call_push (7 :: nat)) # replicate 9 Internal @ [Return 0 Pushed]) @
      (Invoke 1 Call_pop # replicate 8 Internal @ [Return 1 (Popped (Some 7))])) s" "log s = [7]"
    using push_pop_run[of "7 :: nat"] by blast
  have "small (length (log s))" using s(2) by (simp add: small_def)
  from conc_linearizable[OF arena_alloc_good s(1) this] show ?thesis
    by (auto simp: visible_def filter_replicate)
qed

text \<open>
  C8. No interleaving of pushes, pops, \<open>is_empty\<close> and \<open>len\<close> makes an operation follow a dangling pointer, leave
  a chunk, read a value that was not written, or panic, with two exceptions: a push whose
  allocation fails, and \<open>len\<close>.
\<close>

theorem conc_memory_safe:
  assumes "good_alloc al alloc" "lts_run (conc_step alloc) (conc_init h) es s" "small (length (log s))"
    and "thr s i = Failed c f"
  shows "f = Out_of_memory \<and> (\<exists>x. c = Call_push x) \<or> f = Panic \<and> c = Call_len"
proof -
  have "linv (sh s) (log s) (laps s) (thr s i)" using run_conc_inv[OF assms(1-3)] by (simp add: conc_inv_def)
  then show ?thesis using assms(4) by simp
qed

theorem conc_memory_safe_witness:
  "\<exists>es s. lts_run (conc_step (\<lambda>_. None)) (conc_init Map.empty :: nat conc) es s \<and>
     thr s 0 = Failed (Call_push 7) Out_of_memory \<and>
     (\<forall>i c f. thr s i = Failed c f \<longrightarrow> f = Out_of_memory \<and> (\<exists>x. c = Call_push x) \<or> f = Panic \<and> c = Call_len)"
proof -
  obtain es s where s: "lts_run (conc_step (\<lambda>_. None)) (conc_init Map.empty :: nat conc) es s"
      "log s = []" "thr s 0 = Failed (Call_push 7) Out_of_memory"
    using out_of_memory_run[of "7 :: nat"] by blast
  have a: "good_alloc 8 ((\<lambda>_. None) :: nat chunk allocator)" by (simp add: good_alloc_def)
  have "small (length (log s))" using s(2) by (simp add: small_def)
  from conc_memory_safe[OF a s(1) this] show ?thesis using s(1,3) by blast
qed

text \<open>
  \<open>len\<close> can panic: with a pusher and a popper at the end of the same chunk it subtracts a lap from
  less than a lap.
\<close>

theorem len_can_panic:
  "\<exists>es s. lts_run (conc_step arena_alloc) (conc_init Map.empty :: 'a conc) es s \<and> length (log s) = 31 \<and>
     thr s 2 = Failed Call_len Panic"
proof -
  obtain es s where s: "lts_run (conc_step arena_alloc) (conc_init Map.empty :: 'a conc) es s" "length (log s) = 31"
     "tindex (sh s) = flagged 31 False" "hindex (sh s) = flagged 31 False" "\<forall>i \<ge> 2. thr s i = Idle"
    using end_of_chunk_run by metis
  let ?s = "s\<lparr>thr := (thr s)(2 := Counting L_again (flagged 31 False) (flagged 31 False))\<rparr>"
  have d: "drive arena_alloc 2 2 (s\<lparr>thr := (thr s)(2 := start_of Call_len)\<rparr>) = Some ?s"
    using drive_len[of "s\<lparr>thr := (thr s)(2 := start_of Call_len)\<rparr>" "thr s" 2] s(3,4) by (simp del: drive_numeral)
  obtain es' where r: "lts_run (conc_step arena_alloc) (conc_init Map.empty :: 'a conc) es' ?s"
    using invoke_drive[OF s(1) _ d] s(5) by auto
  have "thread_step arena_alloc False (thr ?s 2) (sh ?s) = Some (Inl Panic)"
    using s(3) co_len_both_at_end[of "sh s"] by simp
  from conc_fail[OF this] have st: "conc_step arena_alloc ?s Internal (?s\<lparr>thr := (thr ?s)(2 := Failed Call_len Panic)\<rparr>)" by simp
  have "lts_run (conc_step arena_alloc) (conc_init Map.empty) (es' @ [Internal]) (?s\<lparr>thr := (thr ?s)(2 := Failed Call_len Panic)\<rparr>)"
    using r st by (rule lts_run.run_snoc)
  then show ?thesis using s(2) by fastforce
qed

text \<open>\<open>is_empty\<close> can answer no although nothing is in the queue: the head is at the end of a chunk and the tail is past it.\<close>

theorem is_empty_can_deny:
  "\<exists>es s. lts_run (conc_step arena_alloc) (conc_init Map.empty :: 'a conc) es s \<and>
     items (conc_abs s) = [] \<and> thr s 2 = Answered (Emptiness False)"
proof -
  obtain es s r and x :: 'a where s: "lts_run (conc_step arena_alloc) (conc_init Map.empty :: 'a conc) es s" "length (log s) = 31"
     "hindex (sh s) = flagged 31 False" "thr s 0 = Push x P_tchunk r" "ctail r = flagged 30 False" "cspare r = Some 16"
     "\<forall>i \<ge> 2. thr s i = Idle"
    using end_of_chunk_run by metis
  let ?q = "(sh s)\<lparr>tchunk := 16, tindex := flagged 32 False\<rparr>"
  let ?s = "\<lparr>sh = ?q, thr = (thr s)(0 := Push x P_next r), log = log s, laps = laps s @ [16]\<rparr>"
  have "drive arena_alloc 0 2 s = Some ?s"
    using s(4-6) by (simp add: one_place flagged_next numeral_eq_Suc del: push_bit_of_1)
  then have r: "lts_run (conc_step arena_alloc) (conc_init Map.empty) (es @ replicate 2 Internal) ?s"
    using lts_run_append[OF drive_run s(1)] by blast
  have "drop_bit SHIFT (flagged 31 False) \<noteq> drop_bit SHIFT (flagged 32 False)"
    by (simp only: drop_eq_iff) (simp add: place_flagged)
  then have d: "drive arena_alloc 2 2 (?s\<lparr>thr := (thr ?s)(2 := start_of Call_is_empty)\<rparr>) =
      Some (?s\<lparr>thr := (thr ?s)(2 := Answered (Emptiness False))\<rparr>)"
    using s(3) by (simp add: start_of_def)
  have "cnt 31 = 31" by (simp add: cnt_def)
  then have "contents ?q (log s) = []" using s(2,3) by (simp add: contents_def place_flagged)
  then show ?thesis using invoke_drive[OF r _ d] s(7) by (fastforce simp: conc_abs_def)
qed

text \<open>
  C19. Values are never raced for: while one thread is about to write the value of a slot, no other
  thread is about to read or write the value of that slot.
\<close>

theorem conc_race_free:
  assumes "good_alloc al alloc" "lts_run (conc_step alloc) (conc_init h) es s" "small (length (log s))"
    and "i \<noteq> j" "touches (thr s i) = Some (p, k, True)" "touches (thr s j) = Some (p', k', w)"
  shows "(p, k) \<noteq> (p', k')"
  using conc_inv_race_free[OF run_conc_inv[OF assms(1-3)] assms(4-6)] .

theorem conc_race_free_witness: "(8 :: ptr, unat (offset_of 0)) \<noteq> (8, unat (offset_of 2))"
proof -
  obtain es where r: "lts_run (conc_step arena_alloc) (conc_init Map.empty) es
     \<lparr>sh = \<lparr>chunks = [8 \<mapsto> chunk_new], hindex = 0, hchunk = 8, tindex = 4, tchunk = 8, chan = []\<rparr>,
      thr = (\<lambda>_. Idle)(0 := Push (7 :: nat) P_value \<lparr>ctail = 0, cchunk = 8, cspare = None, cnew = 8\<rparr>,
                     1 := Push 9 P_value \<lparr>ctail = 2, cchunk = 8, cspare = None, cnew = null\<rparr>),
      log = [7, 9], laps = [8]\<rparr>"
    using two_claims_run[of "7 :: nat" 9] by blast
  show ?thesis by (rule conc_race_free[OF arena_alloc_good r, of 0 1]) (simp_all add: small_def)
qed

text \<open>
  C20. Nobody waits in vain: as long as some push or pop is under way, there is a push or a pop that is
  not blocked. A push is blocked while the tail is at the end of a chunk; a pop while the head is,
  while the first chunk has not been handed to it, and while it waits for a link or a value.
\<close>

theorem conc_progress:
  assumes "good_alloc al alloc" "lts_run (conc_step alloc) (conc_init h) es s" "small (length (log s))"
    and "working (thr s i)"
  shows "\<exists>j. working (thr s j) \<and> \<not> blocked (sh s) (thr s j)"
  using inv_progress[OF run_conc_inv[OF assms(1-3)] run_served[OF assms(1-3)] assms(4)] .

theorem conc_progress_witness:
  "\<exists>es (s :: nat conc). lts_run (conc_step arena_alloc) (conc_init Map.empty) es s \<and>
     (\<exists>r. thr s 1 = Pop O_wait_next r) \<and> (\<exists>j. working (thr s j) \<and> \<not> blocked (sh s) (thr s j))"
proof -
  obtain es and s :: "nat conc" where s: "lts_run (conc_step arena_alloc) (conc_init Map.empty) es s" "length (log s) = 31"
      "\<exists>r. thr s 1 = Pop O_wait_next r"
    using end_of_chunk_run by metis
  then have "working (thr s 1)" by auto
  moreover have "small (length (log s))" using s(2) by (simp add: small_def)
  ultimately show ?thesis using conc_progress[OF arena_alloc_good s(1)] s by blast
qed

text \<open>
  C21. A push that has claimed its index is wait-free: in every reachable state, whatever the other threads have
  done and are about to do, its next step exists, does not fault, and ends the call or brings it closer to
  its end by a rank of its own local state, which is at most six. So it returns after at most
  six more steps of its own thread.
\<close>

theorem claimed_push_wait_free:
  assumes "good_alloc al alloc" "lts_run (conc_step alloc) (conc_init h) es s" "small (length (log s))"
    and "pclaim (thr s i) \<noteq> None \<or> 0 < push_rank (thr s i)"
  shows "push_rank (thr s i) \<le> 6 \<and>
    (\<exists>t q n. thread_step alloc spurious (thr s i) (sh s) = Some (Inr (t, q, n)) \<and>
      (t = Answered Pushed \<or> 0 < push_rank t \<and> push_rank t < push_rank (thr s i)))"
proof -
  have "0 < push_rank (thr s i)" using assms(4) by (cases "thr s i") (auto split: if_splits push_at.splits)
  then show ?thesis
    using push_rank_bound claimed_push_advances[OF run_conc_inv[OF assms(1-3)] assms(1,3)] by blast
qed

theorem claimed_push_wait_free_witness:
  "\<exists>es (s :: nat conc) t q n. lts_run (conc_step arena_alloc) (conc_init Map.empty) es s \<and> log s = [7, 9] \<and>
     thread_step arena_alloc True (thr s 1) (sh s) = Some (Inr (t, q, n)) \<and> (t = Answered Pushed \<or> push_rank t < 6)"
proof -
  obtain es and s :: "nat conc" where s: "lts_run (conc_step arena_alloc) (conc_init Map.empty) es s" "log s = [7, 9]"
      "pclaim (thr s 1) \<noteq> None"
    using two_claims_run[of "7 :: nat" 9] by fastforce
  then have "small (length (log s))" by (simp add: small_def)
  from claimed_push_wait_free[OF arena_alloc_good s(1) this, of 1 True] s show ?thesis
    by (meson less_le_trans)
qed

end
