(* ===== verification/Co_Length.thy ===== *)
theory Co_Length
  imports Co_Runs
begin

text \<open>
  What \<open>len\<close> means when other threads push and pop. It returns the number of elements the queue had at one
  moment of the call: the moment at which it read the head index, if the tail index was then what it
  had read before, and otherwise it tries again.
\<close>

section \<open>Indices only grow\<close>

lemma tindex_grows:
  assumes "conc_step alloc s e s'" "conc_inv s" "small (length (log s))" "good_alloc al alloc"
  shows "tindex (sh s) \<le> tindex (sh s')"
  using assms(1)
proof (cases rule: conc_step.cases)
  case (conc_run sp i t q n)
  have "good_result (sh s) (log s) (laps s) (thr s i) (Inr (t, q, n))"
    using conc_run assms by (intro thread_step_keeps[OF _ assms(3) _ assms(4)]) (auto simp: conc_inv_def)
  then have "evolves (sh s) (log s) (laps s) q (log_note n (log s)) (laps_note n (laps s)) Idle"
    by (auto simp: keeps_def apart_def)
  then show ?thesis using conc_run(2) by (simp add: evolves_def)
qed auto

lemma conc_len:
  assumes "conc_inv s" "small (length (log s))" "co_len (sh s) = Inr n"
  shows "unat n = length (items (conc_abs s))"
proof -
  have g: "ginv (sh s) (log s) (laps s)" using assms(1) by (simp add: conc_inv_def)
  have "n = word_of_nat (length (log s) - cnt (hplace (sh s)))"
    using assms(3) co_len_places[OF ginvD(6)[OF g]] ginvD(5)[OF g] by (auto split: if_splits)
  moreover have "length (log s) < 2 ^ 64" using assms(2) by (simp add: small_def)
  ultimately show ?thesis by (simp add: conc_abs_def contents_def unat_of_nat del: of_nat_diff)
qed

section \<open>The moment\<close>

text \<open>\<open>s1\<close> is a state of the run in which thread \<open>i\<close> was in the call of \<open>len\<close> it is in, or returns from, at the end.\<close>

definition during :: "'a chunk allocator \<Rightarrow> 'a conc \<Rightarrow> tid \<Rightarrow> 'a event list \<Rightarrow> 'a conc \<Rightarrow> 'a conc \<Rightarrow> bool" where
  "during alloc s0 i es s s1 \<longleftrightarrow> (\<exists>es1 es2. es = es1 @ es2 \<and> lts_run (conc_step alloc) s0 es1 s1 \<and>
     lts_run (conc_step alloc) s1 es2 s \<and> (\<forall>c. Invoke i c \<notin> set es2) \<and> (\<exists>at t h. thr s1 i = Counting at t h))"

lemma during_snoc:
  assumes "during alloc s0 i es s s1" "conc_step alloc s e s'" "\<And>c. e \<noteq> Invoke i c"
  shows "during alloc s0 i (es @ [e]) s' s1"
proof -
  obtain es1 es2 where d: "es = es1 @ es2" "lts_run (conc_step alloc) s0 es1 s1" "lts_run (conc_step alloc) s1 es2 s"
      "\<forall>c. Invoke i c \<notin> set es2" "\<exists>at t h. thr s1 i = Counting at t h"
    using assms(1) unfolding during_def by blast
  have "lts_run (conc_step alloc) s1 (es2 @ [e]) s'" using d(3) assms(2) by (rule lts_run.run_snoc)
  then show ?thesis unfolding during_def using d assms(3) by (intro exI[of _ es1] exI[of _ "es2 @ [e]"]) auto
qed

lemma during_now:
  assumes "lts_run (conc_step alloc) s0 es s" "thr s i = Counting at t h"
  shows "during alloc s0 i es s s"
  unfolding during_def using assms lts_run.run_nil[of "conc_step alloc" s] by (intro exI[of _ es] exI[of _ "[]"]) auto

text \<open>What the registers of \<open>len\<close> say about the run so far.\<close>

fun len_knows :: "'a chunk allocator \<Rightarrow> 'a conc \<Rightarrow> tid \<Rightarrow> 'a event list \<Rightarrow> 'a conc \<Rightarrow> 'a thread \<Rightarrow> bool" where
  "len_knows alloc s0 i es s (Counting L_head t h) \<longleftrightarrow> t \<le> tindex (sh s)"
| "len_knows alloc s0 i es s (Counting L_again t h) \<longleftrightarrow> t \<le> tindex (sh s) \<and>
     (\<exists>s1. during alloc s0 i es s s1 \<and> hindex (sh s1) = h \<and> (tindex (sh s1) = t \<or> t < tindex (sh s)))"
| "len_knows alloc s0 i es s (Answered (Length n)) \<longleftrightarrow>
     (\<exists>s1. during alloc s0 i es s s1 \<and> co_len (sh s1) = Inr n)"
| "len_knows alloc s0 i es s (Failed Call_len f) \<longleftrightarrow>
     (\<exists>s1. during alloc s0 i es s s1 \<and> co_len (sh s1) = Inl f)"
| "len_knows alloc s0 i es s t \<longleftrightarrow> True"

lemma len_knows_stays:
  assumes "len_knows alloc s0 i es s t" "conc_step alloc s e s'" "\<And>c. e \<noteq> Invoke i c" "tindex (sh s) \<le> tindex (sh s')"
  shows "len_knows alloc s0 i (es @ [e]) s' t"
proof -
  have d: "during alloc s0 i (es @ [e]) s' s1" if "during alloc s0 i es s s1" for s1
    using that assms(2,3) by (rule during_snoc)
  have le: "x \<le> tindex (sh s')" if "x \<le> tindex (sh s)" for x using that assms(4) by (rule order_trans)
  have less: "x < tindex (sh s')" if "x < tindex (sh s)" for x using that assms(4) by (rule less_le_trans)
  show ?thesis
  proof (cases t)
    case (Counting at x h)
    then show ?thesis using assms(1) by (cases at) (simp_all, metis le, metis d le less)
  next
    case (Answered a)
    then show ?thesis using assms(1) by (cases a) (auto intro: d)
  next
    case (Failed c f)
    then show ?thesis using assms(1) by (cases c) (auto intro: d)
  qed auto
qed

lemma co_len_cong: "tindex q = tindex q' \<Longrightarrow> hindex q = hindex q' \<Longrightarrow> co_len q = co_len q'"
  by (simp add: co_len_def)

text \<open>The steps of \<open>len\<close> itself. The answer, or the panic, is that of the moment when the head index was read.\<close>

lemma len_answer_knows:
  assumes k: "len_knows alloc s0 i es s (Counting L_again x h)" and x: "tindex (sh s) = x"
    and s': "conc_step alloc s Internal s'"
  obtains s1 where "during alloc s0 i (es @ [Internal]) s' s1" "co_len ((sh s)\<lparr>tindex := x, hindex := h\<rparr>) = co_len (sh s1)"
proof -
  obtain s1 where s1: "during alloc s0 i es s s1" "hindex (sh s1) = h" "tindex (sh s1) = x" using k x by auto
  show thesis
  proof (rule that)
    show "during alloc s0 i (es @ [Internal]) s' s1" using during_snoc[OF s1(1) s'] by simp
    show "co_len ((sh s)\<lparr>tindex := x, hindex := h\<rparr>) = co_len (sh s1)" by (rule co_len_cong) (simp_all add: s1)
  qed
qed

lemma len_step_knows:
  assumes k: "len_knows alloc s0 i es s (Counting at x h)"
    and st: "len_step at x h (sh s) = Inr (t, q, n)"
    and s': "conc_step alloc s Internal s'" "lts_run (conc_step alloc) s0 es s" "sh s' = q" "thr s' i = t"
  shows "len_knows alloc s0 i (es @ [Internal]) s' t"
proof (cases at)
  case L_tail
  then show ?thesis using st s'(3) by auto
next
  case L_head
  have "lts_run (conc_step alloc) s0 (es @ [Internal]) s'" using s'(2,1) by (rule lts_run.run_snoc)
  moreover have t: "t = Counting L_again x (hindex (sh s))" "q = sh s" using L_head st by auto
  ultimately have "during alloc s0 i (es @ [Internal]) s' s'" using s'(4) during_now by metis
  moreover have "x \<le> tindex (sh s)" using k L_head by simp
  ultimately show ?thesis using t s'(3) order_le_imp_less_or_eq[of x "tindex (sh s)"] by auto
next
  case L_again
  show ?thesis
  proof (cases "tindex (sh s) = x")
    case True
    obtain s1 where s1: "during alloc s0 i (es @ [Internal]) s' s1" "co_len ((sh s)\<lparr>tindex := x, hindex := h\<rparr>) = co_len (sh s1)"
      using len_answer_knows[OF _ True s'(1)] k L_again by blast
    then show ?thesis using st L_again True by (cases "co_len (sh s1)") auto
  qed (use st L_again in auto)
qed

lemma len_fail_knows:
  assumes k: "len_knows alloc s0 i es s (thr s i)" and st: "thread_step alloc sp (thr s i) (sh s) = Some (Inl f)"
    and s': "conc_step alloc s Internal s'"
  shows "len_knows alloc s0 i (es @ [Internal]) s' (Failed (call_of (thr s i)) f)"
proof (cases "thr s i")
  case (Counting at x h)
  then have l: "len_step at x h (sh s) = Inl f" using st by simp
  then have f: "at = L_again" "tindex (sh s) = x" by (cases at; simp split: if_splits)+
  then have f3: "co_len ((sh s)\<lparr>tindex := x, hindex := h\<rparr>) = Inl f"
    using l by (simp only: len_step.simps refl if_True)
      (cases "co_len ((sh s)\<lparr>tindex := x, hindex := h\<rparr>)", simp_all)
  obtain s1 where "during alloc s0 i (es @ [Internal]) s' s1" "co_len ((sh s)\<lparr>tindex := x, hindex := h\<rparr>) = co_len (sh s1)"
    using len_answer_knows[OF _ f(2) s'] k Counting f(1) by metis
  then show ?thesis using Counting f3 by (intro exI[of _ s1] | simp)+
qed (use st in auto)

text \<open>The steps of the other operations lead neither into \<open>len\<close> nor to an answer or a failure of it.\<close>

definition about_len :: "'a pending \<Rightarrow> bool" where
  "about_len p \<longleftrightarrow> p = Asked Call_len \<or> (\<exists>n. p = Replied (Length n)) \<or> p = Crashed"

lemma effect_about_len: "effect xs p ys p' \<Longrightarrow> about_len p' \<Longrightarrow> about_len p"
  by (cases "(xs, p, ys, p')" rule: effect.cases) (auto simp: about_len_def)

lemma abs_about_len: "about_len (abs_thread lg t) \<longleftrightarrow> (\<exists>at x h. t = Counting at x h) \<or> (\<exists>n. t = Answered (Length n)) \<or>
   (\<exists>c f. t = Failed c f)"
  by (cases t) (auto simp: about_len_def split: if_splits)

lemma len_knows_else: "\<not> about_len (abs_thread lg t) \<Longrightarrow> len_knows alloc s0 i es s t"
  by (cases "(alloc, s0, i, es, s, t)" rule: len_knows.cases) (auto simp: abs_about_len)

lemma own_step_knows:
  assumes k: "len_knows alloc s0 i es s (thr s i)" and inv: "conc_inv s"
    and st: "thread_step alloc sp (thr s i) (sh s) = Some (Inr (t, q, n))"
    and s': "conc_step alloc s Internal s'" "lts_run (conc_step alloc) s0 es s" "sh s' = q" "thr s' i = t"
  shows "len_knows alloc s0 i (es @ [Internal]) s' t"
proof (cases "\<exists>at x h. thr s i = Counting at x h")
  case True
  then show ?thesis using k st len_step_knows[OF _ _ s'] by auto
next
  case False
  then have "\<not> about_len (abs_thread (log s) (thr s i))" using st by (auto simp: abs_about_len)
  then have "\<not> about_len (abs_thread (log_note n (log s)) t)"
    using effect_about_len thread_effect[OF _ _ st] inv unfolding conc_inv_def by blast
  then show ?thesis by (rule len_knows_else)
qed

lemma run_len_knows:
  assumes "lts_run (conc_step alloc) (conc_init h) es s" "good_alloc al alloc" "small (length (log s))"
  shows "len_knows alloc (conc_init h) i es s (thr s i)"
  using assms
proof (induction rule: lts_run.induct)
  case run_nil
  then show ?case by (simp add: conc_init_def)
next
  case (run_snoc es s e s')
  have small: "small (length (log s))" using run_snoc.prems(2) log_grows[OF run_snoc.hyps(2)] small_le by blast
  note k = run_snoc.IH[OF run_snoc.prems(1) small]
  have inv: "conc_inv s" using run_conc_inv[OF run_snoc.prems(1) run_snoc.hyps(1) small] .
  have grow: "tindex (sh s) \<le> tindex (sh s')" using tindex_grows[OF run_snoc.hyps(2) inv small run_snoc.prems(1)] .
  have same: ?case if "thr s' i = thr s i" "\<And>c. e \<noteq> Invoke i c"
    using that len_knows_stays[OF k run_snoc.hyps(2) that(2) grow] by simp
  from run_snoc.hyps(2) show ?case
  proof (cases rule: conc_step.cases)
    case (conc_run sp j t q n)
    have "j = i \<Longrightarrow> ?thesis"
      using own_step_knows[OF k inv, of sp t q n s'] conc_run run_snoc.hyps by simp
    then show ?thesis using same conc_run by (cases "j = i") auto
  next
    case (conc_invoke j c)
    then show ?thesis using same by (cases "j = i"; cases c) (auto simp: start_of_def)
  next
    case (conc_fail sp j f)
    have "j = i \<Longrightarrow> ?thesis" using len_fail_knows[OF k] conc_fail run_snoc.hyps(2) by simp
    then show ?thesis using same conc_fail by (cases "j = i") auto
  next
    case (conc_return j a)
    then show ?thesis using same by (cases "j = i") auto
  qed
qed

lemma run_log_grows: "lts_run (conc_step alloc) s es s' \<Longrightarrow> length (log s) \<le> length (log s')"
  by (induction rule: lts_run.induct) (auto dest: log_grows)

lemma during_inv:
  assumes "during alloc (conc_init h) i es s s1" "good_alloc al alloc" "small (length (log s))"
  shows "conc_inv s1 \<and> small (length (log s1))"
proof -
  obtain es1 es2 where r: "lts_run (conc_step alloc) (conc_init h) es1 s1" "lts_run (conc_step alloc) s1 es2 s"
    using assms(1) unfolding during_def by blast
  have "small (length (log s1))" using run_log_grows[OF r(2)] assms(3) small_le by blast
  then show ?thesis using run_conc_inv[OF assms(2) r(1)] by simp
qed

lemma conc_len_fails:
  assumes "conc_inv s" "co_len (sh s) = Inl f"
  shows "f = Panic \<and> items (conc_abs s) = [] \<and> hplace (sh s) mod 32 = 31"
proof -
  have g: "ginv (sh s) (log s) (laps s)" using assms(1) by (simp add: conc_inv_def)
  then show ?thesis
    using assms(2) co_len_places[OF ginvD(6)[OF g]] ginvD(5)[OF g] by (auto simp: conc_abs_def contents_def split: if_splits)
qed

section \<open>Property\<close>

text \<open>
  C22. \<open>len\<close> is exact: the number it returns is the number of elements the queue had at one moment of the
  call. It panics only if at one moment of the call the queue was empty, with its head at the end of a chunk.
\<close>

theorem conc_len_exact:
  assumes "good_alloc al alloc" "lts_run (conc_step alloc) (conc_init h) es s" "small (length (log s))"
  shows "(\<forall>n. thr s i = Answered (Length n) \<longrightarrow>
      (\<exists>s1. during alloc (conc_init h) i es s s1 \<and> unat n = length (items (conc_abs s1)))) \<and>
    (\<forall>f. thr s i = Failed Call_len f \<longrightarrow>
      (\<exists>s1. during alloc (conc_init h) i es s s1 \<and> items (conc_abs s1) = [] \<and> offset_of (hindex (sh s1)) = CHUNK_CAP))"
proof -
  have k: "len_knows alloc (conc_init h) i es s (thr s i)" using run_len_knows[OF assms(2,1,3)] .
  have i: "conc_inv s1 \<and> small (length (log s1))" if "during alloc (conc_init h) i es s s1" for s1
    using during_inv[OF that assms(1,3)] .
  show ?thesis using k i conc_len conc_len_fails unfolding offset_cap_iff by (auto, blast+)
qed

text \<open>One element is pushed and \<open>len\<close> counts it.\<close>

lemma len_one_run:
  "\<exists>es s. lts_run (conc_step arena_alloc) (conc_init Map.empty :: 'a conc) es s \<and> length (log s) = 1 \<and>
     thr s 1 = Answered (Length 1)"
proof -
  obtain es and s :: "'a conc" where r: "lts_run (conc_step arena_alloc) (conc_init Map.empty) es s" "thr s = (\<lambda>_. Idle)"
      "length (log s) = 1" "tindex (sh s) = 2" "hindex (sh s) = 0"
    using first_push_run by fastforce
  let ?s = "s\<lparr>thr := (thr s)(1 := start_of Call_len)\<rparr>"
  have "co_len ((sh s)\<lparr>tindex := 2, hindex := 0\<rparr>) = Inr 1"
    by (subst co_len_places) (simp_all add: place_def cnt_def)
  then have "drive arena_alloc 1 3 ?s = Some (s\<lparr>thr := (thr s)(1 := Answered (Length 1))\<rparr>)"
    using r(4,5) by (simp add: start_of_def)
  from invoke_drive[OF r(1) _ this] show ?thesis using r(2,3) by fastforce
qed

theorem conc_len_exact_witness:
  "\<exists>es s s1. lts_run (conc_step arena_alloc) (conc_init Map.empty :: nat conc) es s \<and> thr s 1 = Answered (Length 1) \<and>
     during arena_alloc (conc_init Map.empty) 1 es s s1 \<and> length (items (conc_abs s1)) = 1"
proof -
  obtain es and s :: "nat conc" where r: "lts_run (conc_step arena_alloc) (conc_init Map.empty) es s" "length (log s) = 1"
      "thr s 1 = Answered (Length 1)"
    using len_one_run by blast
  have "small (length (log s))" using r(2) by (simp add: small_def)
  from conc_len_exact[OF arena_alloc_good r(1) this] show ?thesis using r by (metis unat_1)
qed

end
