(* ===== verification/Co_Alone.thy ===== *)
theory Co_Alone
  imports Co_Steps Co_Index Trace_Refinement
begin

text \<open>
  The two models of \<open>CoQueue\<close> agree: a thread that executes the steps of \<open>Co_Steps\<close> while the others
  rest does what the functions of \<open>Co_Queue\<close> compute.
\<close>

section \<open>Steps of one thread\<close>

text \<open>A flag for every step says whether a compare-exchange fails spuriously there.\<close>

fun solo :: "'a chunk allocator \<Rightarrow> bool list \<Rightarrow> 'a thread \<Rightarrow> 'a co_queue \<Rightarrow> ('a thread \<times> 'a co_queue) option" where
  "solo alloc [] t q = Some (t, q)"
| "solo alloc (b # bs) t q =
     (case thread_step alloc b t q of Some (Inr (t', q', n)) \<Rightarrow> solo alloc bs t' q' | _ \<Rightarrow> None)"

definition solos :: "'a chunk allocator \<Rightarrow> 'a thread \<Rightarrow> 'a co_queue \<Rightarrow> 'a thread \<Rightarrow> 'a co_queue \<Rightarrow> bool" where
  "solos alloc t q t' q' \<longleftrightarrow> (\<exists>bs. solo alloc bs t q = Some (t', q'))"

lemma solo_append: "solo alloc bs t q = Some (t', q') \<Longrightarrow> solo alloc (bs @ bs') t q = solo alloc bs' t' q'"
  by (induction bs arbitrary: t q) (auto split: option.splits sum.splits)

lemma solosI: "solo alloc bs t q = Some (t', q') \<Longrightarrow> solos alloc t q t' q'"
  by (auto simp: solos_def)

lemma solos_refl: "solos alloc t q t q"
  by (rule solosI[of _ "[]"]) simp

lemma solos_trans: "solos alloc t q t' q' \<Longrightarrow> solos alloc t' q' t'' q'' \<Longrightarrow> solos alloc t q t'' q''"
  unfolding solos_def by (metis solo_append)

lemma solos_step:
  "thread_step alloc b t q = Some (Inr (t', q', n)) \<Longrightarrow> solos alloc t' q' t'' q'' \<Longrightarrow> solos alloc t q t'' q''"
  by (rule solos_trans[of _ _ _ t' q']) (rule solosI[of _ "[b]"], simp_all)

lemma solo_run:
  "solo alloc bs (thr s i) (sh s) = Some (t, q) \<Longrightarrow>
   \<exists>lg cs. lts_run (conc_step alloc) s (replicate (length bs) Internal) \<lparr>sh = q, thr = (thr s)(i := t), log = lg, laps = cs\<rparr>"
proof (induction bs arbitrary: s)
  case Nil
  then have "s = \<lparr>sh = q, thr = (thr s)(i := t), log = log s, laps = laps s\<rparr>" by (cases s) auto
  then show ?case using lts_run.run_nil[of "conc_step alloc" s] by (metis list.size(3) replicate_0)
next
  case (Cons b bs)
  then obtain t1 q1 n where st: "thread_step alloc b (thr s i) (sh s) = Some (Inr (t1, q1, n))"
    "solo alloc bs t1 q1 = Some (t, q)"
    by (auto split: option.splits sum.splits)
  let ?s = "\<lparr>sh = q1, thr = (thr s)(i := t1), log = log_note n (log s), laps = laps_note n (laps s)\<rparr>"
  have one: "lts_run (conc_step alloc) s [Internal] ?s" using conc_run[OF st(1)] by (rule lts_run_one)
  obtain lg cs where "lts_run (conc_step alloc) ?s (replicate (length bs) Internal)
      \<lparr>sh = q, thr = (thr ?s)(i := t), log = lg, laps = cs\<rparr>"
    using Cons.IH[of ?s] st(2) by fastforce
  from lts_run_append[OF this one] have "lts_run (conc_step alloc) s (replicate (length (b # bs)) Internal)
      \<lparr>sh = q, thr = (thr s)(i := t), log = lg, laps = cs\<rparr>" by simp
  then show ?case by blast
qed

lemma solos_call:
  assumes "thr s i = Idle" "solos alloc (start_of c) (sh s) (Answered a) q"
  shows "\<exists>es s'. lts_run (conc_step alloc) s es s' \<and> visible Internal es = [Invoke i c, Return i a] \<and> sh s' = q \<and> thr s' = thr s"
proof -
  let ?s = "s\<lparr>thr := (thr s)(i := start_of c)\<rparr>"
  have inv: "lts_run (conc_step alloc) s [Invoke i c] ?s" using conc_invoke[OF assms(1)] by (rule lts_run_one)
  obtain bs where "solo alloc bs (thr ?s i) (sh ?s) = Some (Answered a, q)" using assms(2) by (auto simp: solos_def)
  then obtain lg cs where run: "lts_run (conc_step alloc) ?s (replicate (length bs) Internal)
      \<lparr>sh = q, thr = (thr ?s)(i := Answered a), log = lg, laps = cs\<rparr>" (is "lts_run _ _ _ ?s1")
    using solo_run by blast
  have "lts_run (conc_step alloc) s (([Invoke i c] @ replicate (length bs) Internal) @ [Return i a])
      (?s1\<lparr>thr := (thr ?s1)(i := Idle)\<rparr>)"
    using lts_run_append[OF run inv] conc_return[of ?s1 i a] by (intro lts_run.run_snoc) auto
  moreover have "(thr ?s1)(i := Idle) = thr s" using assms(1) by auto
  ultimately show ?thesis
    by (intro exI[of _ "([Invoke i c] @ replicate (length bs) Internal) @ [Return i a]"]) (fastforce simp: visible_def)
qed

section \<open>push\<close>

lemma upd_slot_twice:
  "upd_slot i (sstate_update (\<lambda>w. w OR WRITE)) (upd_slot i (svalue_update (\<lambda>_. Some x)) ch) =
   upd_slot i (\<lambda>s. s\<lparr>svalue := Some x, sstate := sstate s OR WRITE\<rparr>) ch"
  by (cases "unat i < length (cslots ch)"; cases "cslots ch ! unat i") (simp_all add: upd_slot_def list_update_beyond)

lemma write_slot_split:
  assumes "write_slot p i (\<lambda>s. s\<lparr>svalue := Some x, sstate := sstate s OR WRITE\<rparr>) q = Inr q'"
  obtains q1 where "write_slot p i (svalue_update (\<lambda>_. Some x)) q = Inr q1"
    "write_slot p i (sstate_update (\<lambda>w. w OR WRITE)) q1 = Inr q'"
proof -
  obtain ch where "chunks q p = Some ch" "unat i < length (cslots ch)" using assms by (auto simp: write_slot_cases)
  then show thesis using assms
    by (intro that[of "q\<lparr>chunks := (chunks q)(p \<mapsto> upd_slot i (svalue_update (\<lambda>_. Some x)) ch)\<rparr>"])
      (auto simp: upd_slot_twice)
qed

text \<open>The registers of the machine for the local variables of an iteration.\<close>

definition push_regs_of :: "push_locals \<Rightarrow> ptr \<Rightarrow> push_regs" where
  "push_regs_of l p = \<lparr>ctail = ptail l, cchunk = pchunk l, cspare = pnext l, cnew = p\<rparr>"

lemma push_regs_of_simps [simp]:
  "ctail (push_regs_of l p) = ptail l" "cchunk (push_regs_of l p) = pchunk l" "cspare (push_regs_of l p) = pnext l"
  "cnew (push_regs_of l p) = p"
  by (simp_all add: push_regs_of_def)

lemma solos_value:
  assumes "write_slot (cchunk r) (offset_of (ctail r)) (\<lambda>s. s\<lparr>svalue := Some x, sstate := sstate s OR WRITE\<rparr>) q = Inr q1"
    and "(case cspare r of None \<Rightarrow> Inr q1 | Some p \<Rightarrow> free_chunk p q1) = Inr q'"
  shows "solos alloc (Push x P_value r) q (Answered Pushed) q'"
proof -
  obtain q0 where q0: "write_slot (cchunk r) (offset_of (ctail r)) (svalue_update (\<lambda>_. Some x)) q = Inr q0"
    "write_slot (cchunk r) (offset_of (ctail r)) (sstate_update (\<lambda>w. w OR WRITE)) q0 = Inr q1"
    using write_slot_split[OF assms(1)] by blast
  show ?thesis
  proof (cases "cspare r")
    case None
    then show ?thesis using q0 assms(2) by (intro solosI[of _ "[False, False]"]) simp
  next
    case (Some p)
    then show ?thesis using q0 assms(2) by (intro solosI[of _ "[False, False, False]"]) simp
  qed
qed

lemma solos_commit:
  assumes c: "push_commit x (offset_of (ptail l)) (ptail l + push_bit SHIFT 1) l q = Inr q1"
    and d: "(if offset_of (ptail l) + 1 = CHUNK_CAP then Inr q1
       else case pnext l of None \<Rightarrow> Inr q1 | Some p \<Rightarrow> free_chunk p q1) = Inr q'"
  shows "solos alloc (Push x (if offset_of (ptail l) + 1 = CHUNK_CAP then P_tchunk else P_value) (push_regs_of l p)) q
    (Answered Pushed) q'"
proof (cases "offset_of (ptail l) + 1 = CHUNK_CAP")
  case False
  then show ?thesis using c d by (auto intro!: solos_value simp: push_commit_def)
next
  case True
  let ?r = "push_regs_of l p"
  obtain nc q0 where nc: "pnext l = Some nc"
    "upd_chunk (pchunk l) (cnext_update (\<lambda>_. nc)) (q\<lparr>tchunk := nc, tindex := ptail l + push_bit SHIFT 1 + push_bit SHIFT 1\<rparr>) = Inr q0"
    "write_slot (pchunk l) (offset_of (ptail l)) (\<lambda>s. s\<lparr>svalue := Some x, sstate := sstate s OR WRITE\<rparr>) q0 = Inr q1"
    using True c by (auto simp: push_commit_def split: option.splits)
  have "solos alloc (Push x P_tchunk ?r) q (Push x P_value (?r\<lparr>cspare := None\<rparr>)) q0"
    using nc by (intro solosI[of _ "[False, False, False]"]) simp
  moreover have "solos alloc (Push x P_value (?r\<lparr>cspare := None\<rparr>)) q0 (Answered Pushed) q'"
    using nc(3) d True by (intro solos_value) auto
  ultimately show ?thesis using True by (auto intro: solos_trans)
qed

text \<open>The compare-exchange of the tail index, and what follows it in the same iteration.\<close>

lemma solos_cas:
  assumes n: "checked_add (ptail l) (push_bit SHIFT 1) = Inr new_tail"
    and c: "pspurious l = 0" "tindex q = ptail l"
    and k: "push_commit x (offset_of (ptail l)) new_tail l (q\<lparr>tindex := new_tail\<rparr>) = Inr q1"
      "(if offset_of (ptail l) + 1 = CHUNK_CAP then Inr q1
        else case pnext l of None \<Rightarrow> Inr q1 | Some p \<Rightarrow> free_chunk p q1) = Inr q'"
  shows "solos alloc (Push x P_cas (push_regs_of l p)) q (Answered Pushed) q'"
proof -
  have nt: "new_tail = ptail l + push_bit SHIFT 1" using n by (simp add: checked_add_def split: if_splits)
  have "thread_step alloc False (Push x P_cas (push_regs_of l p)) q =
      Some (Inr (Push x (if offset_of (ptail l) + 1 = CHUNK_CAP then P_tchunk else P_value) (push_regs_of l p),
        q\<lparr>tindex := new_tail\<rparr>, Enqueued x))"
    using n c by (simp add: push_cas_def)
  then show ?thesis using solos_commit[OF k(1)[unfolded nt] k(2)] nt by (auto intro: solos_step)
qed

lemma solos_cas_again:
  assumes n: "checked_add (ptail l) (push_bit SHIFT 1) = Inr new_tail" and c: "\<not> (pspurious l = 0 \<and> tindex q = ptail l)"
  shows "solos alloc (Push x P_cas (push_regs_of l p)) q
    (Push x P_check (push_regs_of (l\<lparr>ptail := tindex q, pchunk := tchunk q, pspurious := pspurious l - 1\<rparr>) p)) q"
  using n c by (intro solosI[of _ "[True, False]"]) (simp add: push_cas_def push_regs_of_def)

text \<open>From the head of the loop to the compare-exchange, or to the next iteration.\<close>

lemma solos_reload: "solos alloc (Push x P_index (push_regs_of l p)) q (Push x P_check (push_regs_of (push_reload l q) p)) q"
  by (intro solosI[of _ "[False, False]"]) (simp add: push_reload_def push_regs_of_def)

lemma solos_first:
  assumes "first_chunk alloc l q = Inr (go, l', q')"
  shows "\<exists>p'. solos alloc (Push x (if pchunk l = null then P_first else P_cas) (push_regs_of l p)) q
    (Push x (if go then P_cas else P_check) (push_regs_of l' p')) q'"
proof (cases "pchunk l = null")
  case False
  then show ?thesis using assms by (auto simp: first_chunk_def intro: solos_refl)
next
  case True
  then obtain new q1 where n: "new_chunk alloc q = Inr (new, q1)"
    "(if tchunk q1 = null then Inr (True, l\<lparr>pchunk := new\<rparr>, q1\<lparr>tchunk := new, hchunk := new\<rparr>)
      else obind (case pnext l of None \<Rightarrow> Inr q1 | Some old \<Rightarrow> free_chunk old q1) (\<lambda>q.
        Inr (False, push_reload (l\<lparr>pnext := Some new\<rparr>) q, q))) = Inr (go, l', q')"
    using assms by (auto simp: first_chunk_def)
  show ?thesis
  proof (cases "tchunk q1 = null")
    case t: True
    then have "solos alloc (Push x P_first (push_regs_of l p)) q (Push x P_cas (push_regs_of l' new)) q'" "go"
      using n True by (auto intro!: solosI[of _ "[False, False, False]"] simp: push_cas_chunk_def push_regs_of_def)
    then show ?thesis using True by auto
  next
    case False
    then obtain q2 where q2: "(case pnext l of None \<Rightarrow> Inr q1 | Some old \<Rightarrow> free_chunk old q1) = Inr q2"
      "\<not> go" "l' = push_reload (l\<lparr>pnext := Some new\<rparr>) q2" "q' = q2" using n(2) by auto
    have "solos alloc (Push x P_first (push_regs_of l p)) q (Push x P_index (push_regs_of (l\<lparr>pnext := Some new\<rparr>) new)) q2"
      using n(1) q2(1) True False by (intro solosI[of _ "[False, False]"]) (simp add: push_cas_chunk_def push_regs_of_def)
    from solos_trans[OF this solos_reload] show ?thesis using q2 True by auto
  qed
qed

text \<open>One iteration of the loop.\<close>

lemma solos_spare:
  assumes "offset_of (ptail l) \<noteq> CHUNK_CAP"
    and "(if offset_of (ptail l) + 1 = CHUNK_CAP \<and> pnext l = None
       then obind (new_chunk alloc q) (\<lambda>(p, q). Inr (l\<lparr>pnext := Some p\<rparr>, q)) else Inr (l, q)) = Inr (l', q')"
  shows "solos alloc (Push x P_check (push_regs_of l p)) q
      (Push x (if pchunk l' = null then P_first else P_cas) (push_regs_of l' p)) q'"
    "ptail l' = ptail l" "pspurious l' = pspurious l"
  using assms by (auto intro!: solosI[of _ "[False]"] simp: push_check_def push_regs_of_def Let_def split: if_splits)

text \<open>What an iteration leads to from a position of \<open>push\<close>: the answer, or the head of the loop.\<close>

definition push_leads ::
    "'a chunk allocator \<Rightarrow> 'a \<Rightarrow> 'a thread \<Rightarrow> 'a co_queue \<Rightarrow> (push_locals \<times> 'a co_queue) + 'a co_queue \<Rightarrow> bool" where
  "push_leads alloc x t q r \<longleftrightarrow>
    (case r of Inr q' \<Rightarrow> solos alloc t q (Answered Pushed) q'
     | Inl (l', q') \<Rightarrow> \<exists>p'. solos alloc t q (Push x P_check (push_regs_of l' p')) q')"

lemma push_leads_trans: "solos alloc t q t' q' \<Longrightarrow> push_leads alloc x t' q' r \<Longrightarrow> push_leads alloc x t q r"
  by (auto simp: push_leads_def intro: solos_trans split: sum.splits)

lemma cas_leads:
  assumes "obind (checked_add (ptail l) (push_bit SHIFT 1)) (\<lambda>new_tail.
      if pspurious l = 0 \<and> tindex q = ptail l then
        obind (push_commit x (offset_of (ptail l)) new_tail l (q\<lparr>tindex := new_tail\<rparr>)) (\<lambda>q.
        obind (if offset_of (ptail l) + 1 = CHUNK_CAP then Inr q
               else case pnext l of None \<Rightarrow> Inr q | Some p \<Rightarrow> free_chunk p q) (\<lambda>q. Inr (Inr q)))
      else Inr (Inl (l\<lparr>ptail := tindex q, pchunk := tchunk q, pspurious := pspurious l - 1\<rparr>, q))) = Inr r"
  shows "push_leads alloc x (Push x P_cas (push_regs_of l p)) q r"
proof -
  obtain nt where nt: "checked_add (ptail l) (push_bit SHIFT 1) = Inr nt" using assms by auto
  show ?thesis
  proof (cases "pspurious l = 0 \<and> tindex q = ptail l")
    case True
    then show ?thesis using assms nt solos_cas[OF nt] by (auto simp: push_leads_def)
  next
    case False
    then have "r = Inl (l\<lparr>ptail := tindex q, pchunk := tchunk q, pspurious := pspurious l - 1\<rparr>, q)"
      using assms nt by auto
    then show ?thesis using solos_cas_again[OF nt False, of alloc x p] by (auto simp: push_leads_def)
  qed
qed

lemma solos_iter:
  assumes "push_iter alloc x l q = Inr r"
  shows "push_leads alloc x (Push x P_check (push_regs_of l p)) q r"
proof (cases "offset_of (ptail l) = CHUNK_CAP")
  case True
  then have "solos alloc (Push x P_check (push_regs_of l p)) q (Push x P_index (push_regs_of l p)) q"
    by (intro solosI[of _ "[False]"]) (simp add: push_check_def)
  from solos_trans[OF this solos_reload] show ?thesis using assms True by (auto simp: push_iter_def push_leads_def)
next
  case False
  obtain l1 q1 go l2 q2 where 1: "(if offset_of (ptail l) + 1 = CHUNK_CAP \<and> pnext l = None
       then obind (new_chunk alloc q) (\<lambda>(p, q). Inr (l\<lparr>pnext := Some p\<rparr>, q)) else Inr (l, q)) = Inr (l1, q1)"
    and 2: "first_chunk alloc l1 q1 = Inr (go, l2, q2)"
    and r: "(if \<not> go then Inr (Inl (l2, q2)) else obind (checked_add (ptail l2) (push_bit SHIFT 1)) (\<lambda>new_tail.
      if pspurious l2 = 0 \<and> tindex q2 = ptail l2 then
        obind (push_commit x (offset_of (ptail l)) new_tail l2 (q2\<lparr>tindex := new_tail\<rparr>)) (\<lambda>q.
        obind (if offset_of (ptail l) + 1 = CHUNK_CAP then Inr q
               else case pnext l2 of None \<Rightarrow> Inr q | Some p \<Rightarrow> free_chunk p q) (\<lambda>q. Inr (Inr q)))
      else Inr (Inl (l2\<lparr>ptail := tindex q2, pchunk := tchunk q2, pspurious := pspurious l2 - 1\<rparr>, q2)))) = Inr r"
    using assms False unfolding push_iter_def Let_def by (auto split: prod.splits simp del: not_not)
  note s1 = solos_spare[OF False 1]
  obtain p' where s2: "solos alloc (Push x P_check (push_regs_of l p)) q
      (Push x (if go then P_cas else P_check) (push_regs_of l2 p')) q2"
    using solos_first[OF 2] solos_trans[OF s1(1)] by blast
  show ?thesis
  proof (cases go)
    case True
    then have eq: "ptail l2 = ptail l" using 2 s1(2) by (auto simp: first_chunk_def push_reload_def split: if_splits)
    have "push_leads alloc x (Push x P_cas (push_regs_of l2 p')) q2 r"
      by (rule cas_leads) (use r in \<open>simp only: True eq not_True_eq_False if_False\<close>)
    then show ?thesis using s2 True by (auto intro: push_leads_trans)
  qed (use r s2 in \<open>auto simp: push_leads_def\<close>)
qed

lemma solos_push_loop:
  assumes "push_loop alloc x l q = Some r" "r = Inr q'"
  shows "solos alloc (Push x P_check (push_regs_of l p)) q (Answered Pushed) q'"
proof -
  have "\<forall>q' p. r = Inr q' \<longrightarrow> solos alloc (Push x P_check (push_regs_of l p)) q (Answered Pushed) q'"
  proof (rule push_loop.raw_induct[where P = "\<lambda>alloc x l q r. \<forall>q' p. r = Inr q' \<longrightarrow>
      solos alloc (Push x P_check (push_regs_of l p)) q (Answered Pushed) q'", OF _ assms(1)], intro allI impI)
    fix loop and alloc :: "'a chunk allocator" and x l q r q' p
    assume IH: "\<And>alloc x l q r. loop alloc x l q = Some r \<Longrightarrow>
        \<forall>q' p. r = Inr q' \<longrightarrow> solos alloc (Push x P_check (push_regs_of l p)) q (Answered Pushed) q'"
      and r: "(case push_iter alloc x l q of Inl f \<Rightarrow> Some (Inl f) | Inr (Inl (l', q')) \<Rightarrow> loop alloc x l' q'
        | Inr (Inr q') \<Rightarrow> Some (Inr q')) = Some r" "r = Inr q'"
    then obtain it where it: "push_iter alloc x l q = Inr it" by (cases "push_iter alloc x l q") auto
    from solos_iter[OF it, of p] show "solos alloc (Push x P_check (push_regs_of l p)) q (Answered Pushed) q'"
      using r it IH by (auto simp: push_leads_def split: sum.splits) (metis solos_trans)
  qed
  then show ?thesis using assms(2) by blast
qed

lemma solos_push:
  assumes "co_push alloc k x q = Some (Inr q')"
  shows "solos alloc (start_of (Call_push x)) q (Answered Pushed) q'"
proof -
  let ?l = "\<lparr>ptail = tindex q, pchunk = tchunk q, pnext = None, pspurious = k\<rparr>"
  have "solos alloc (start_of (Call_push x)) q (Push x P_check (push_regs_of ?l null)) q"
    by (intro solosI[of _ "[False, False]"]) (simp add: start_of_def push_regs_of_def)
  from solos_trans[OF this solos_push_loop] show ?thesis using assms by (simp add: co_push_def)
qed

section \<open>pop\<close>

definition slots_fit :: "'a co_queue \<Rightarrow> bool" where
  "slots_fit q \<longleftrightarrow> (\<forall>p ch. chunks q p = Some ch \<longrightarrow> length (cslots ch) = 31)"

lemma sstate_or: "sstate_update (\<lambda>w. w OR m) = (\<lambda>s :: 'a slot. s\<lparr>sstate := sstate s OR m\<rparr>)"
proof
  fix s :: "'a slot"
  show "sstate_update (\<lambda>w. w OR m) s = s\<lparr>sstate := sstate s OR m\<rparr>" by (cases s) simp
qed

lemma slots_fit_read:
  "slots_fit q \<Longrightarrow> chunks q p = Some ch \<Longrightarrow> i < 31 \<Longrightarrow> read_slot p i q = Inr (cslots ch ! i)"
  by (simp add: slots_fit_def read_slot_def read_chunk_def)

lemma solos_destroy:
  assumes "destroy_from n i (cochunk r) q = Inr q'" "n + i = 31" "slots_fit q"
  shows "solos alloc (Pop (scan_from i) r) q (Answered (Popped (citem r))) q'"
  using assms(1,2)
proof (induction n arbitrary: i)
  case 0
  then show ?case by (intro solosI[of _ "[False]"]) (simp add: scan_from_def CHUNK_CAP_31)
next
  case (Suc n)
  then obtain ch where ch: "chunks q (cochunk r) = Some ch" by (auto simp: access_defs split: option.splits)
  have i: "scan_from i = O_scan i" "i < 31" using Suc.prems(2) by (simp_all add: scan_from_def CHUNK_CAP_31)
  have rd: "read_slot (cochunk r) i q = Inr (cslots ch ! i)" using slots_fit_read[OF assms(3) ch i(2)] .
  show ?case
  proof (cases "sstate (cslots ch ! i) AND READ = 0")
    case True
    then show ?thesis using Suc.prems(1) ch rd i(1) by (intro solosI[of _ "[False, False]"]) (simp add: sstate_or)
  next
    case False
    then have "thread_step alloc False (Pop (scan_from i) r) q = Some (Inr (Pop (scan_from (Suc i)) r, q, Quiet))"
      using rd i(1) by simp
    then show ?thesis using Suc False rd by (auto intro: solos_step)
  qed
qed

lemma unat_slot: "offset_of w \<noteq> CHUNK_CAP \<Longrightarrow> unat (offset_of w) < 31" "unat (offset_of w + 1) = Suc (unat (offset_of w))"
  using mod_less_divisor[of 32 "place w"] unat_offset_Suc[of w] unat_offset[of w] by (auto simp: offset_cap_iff)

text \<open>Marking the slot as read, and destroying the chunk if another thread left that to this one.\<close>

lemma solos_mark:
  assumes u: "write_slot (cochunk r) (offset_of (chead r)) (\<lambda>s. s\<lparr>sstate := sstate s OR READ\<rparr>) q = Inr q1"
    and d: "(if sstate s AND DESTROY \<noteq> 0 then destroy (cochunk r) (offset_of (chead r) + 1) q1 else Inr q1) = Inr q'"
    and rd: "read_slot (cochunk r) (unat (offset_of (chead r))) q = Inr s"
    and f: "slots_fit q" "offset_of (chead r) \<noteq> CHUNK_CAP"
  shows "solos alloc (Pop O_mark r) q (Answered (Popped (citem r))) q'"
proof (cases "sstate s AND DESTROY = 0")
  case True
  then show ?thesis using u d rd by (intro solosI[of _ "[False]"]) (simp add: sstate_or)
next
  case False
  let ?o = "offset_of (chead r)"
  have "slots_fit q1" using u f(1) by (auto simp: slots_fit_def write_slot_cases upd_slot_def split: if_splits)
  moreover have "destroy_from (31 - unat (?o + 1)) (unat (?o + 1)) (cochunk r) q1 = Inr q'"
    using d False by (simp add: destroy_def CHUNK_CAP_31)
  moreover have "31 - unat (?o + 1) + unat (?o + 1) = 31" using unat_slot[of "chead r"] f(2) by simp
  ultimately have "solos alloc (Pop (scan_from (unat (?o + 1))) r) q1 (Answered (Popped (citem r))) q'"
    by (intro solos_destroy)
  moreover have "thread_step alloc False (Pop O_mark r) q = Some (Inr (Pop (scan_from (unat (?o + 1))) r, q1, Quiet))"
    using u rd False by (simp add: sstate_or)
  ultimately show ?thesis using solos_step by blast
qed

lemma solos_take:
  assumes t: "pop_take (offset_of (chead r)) (cochunk r) q = Some (Inr (x, q'))"
    and f: "slots_fit q" "offset_of (chead r) \<noteq> CHUNK_CAP"
  shows "solos alloc (Pop O_wait_write r) q (Answered (Popped (Some x))) q'"
proof -
  let ?o = "offset_of (chead r)" and ?r = "r\<lparr>citem := Some x\<rparr>"
  obtain ch where ch: "chunks q (cochunk r) = Some ch" "sstate (cslots ch ! unat ?o) AND WRITE \<noteq> 0"
      "svalue (cslots ch ! unat ?o) = Some x"
      "(if ?o + 1 = CHUNK_CAP then destroy (cochunk r) 0 q
        else obind (write_slot (cochunk r) ?o (\<lambda>s. s\<lparr>sstate := sstate s OR READ\<rparr>) q) (\<lambda>q.
          if sstate (cslots ch ! unat ?o) AND DESTROY \<noteq> 0 then destroy (cochunk r) (?o + 1) q else Inr q)) = Inr q'"
    using t by (auto simp: pop_take_def read_slot_def read_chunk_def split: option.splits sum.splits if_splits)
  have rd: "read_slot (cochunk r) (unat ?o) q = Inr (cslots ch ! unat ?o)"
    using slots_fit_read[OF f(1) ch(1) unat_slot(1)[OF f(2)]] .
  have two: "solos alloc (Pop O_wait_write r) q (Pop (if ?o + 1 = CHUNK_CAP then scan_from 0 else O_mark) ?r) q"
    using rd ch(2,3) by (intro solosI[of _ "[False, False]"]) simp
  have "solos alloc (Pop (if ?o + 1 = CHUNK_CAP then scan_from 0 else O_mark) ?r) q (Answered (Popped (Some x))) q'"
  proof (cases "?o + 1 = CHUNK_CAP")
    case True
    then show ?thesis using ch(4) solos_destroy[of 31 0 ?r q q'] f(1) by (simp add: destroy_def CHUNK_CAP_31)
  next
    case False
    then obtain q1 where "write_slot (cochunk r) ?o (\<lambda>s. s\<lparr>sstate := sstate s OR READ\<rparr>) q = Inr q1"
      "(if sstate (cslots ch ! unat ?o) AND DESTROY \<noteq> 0 then destroy (cochunk r) (?o + 1) q1 else Inr q1) = Inr q'"
      using ch(4) by auto
    then show ?thesis using False rd f solos_mark[of ?r q q1 "cslots ch ! unat ?o" q' alloc] by (simp cong: if_cong)
  qed
  with two show ?thesis by (rule solos_trans)
qed

lemma solos_advance:
  assumes "pop_advance (cnhead r) (cochunk r) q = Some (Inr q')"
  shows "\<exists>r'. solos alloc (Pop O_wait_next r) q (Pop O_wait_write r') q' \<and> chead r' = chead r \<and> cochunk r' = cochunk r"
proof -
  obtain ch ch' where "chunks q (cochunk r) = Some ch" "cnext ch \<noteq> null" "chunks q (cnext ch) = Some ch'"
    using assms by (auto simp: pop_advance_def Let_def split: option.splits if_splits)
  then show ?thesis using assms
    by (intro exI[of _ "r\<lparr>cnextp := cnext ch, cnidx := (if cnext ch' \<noteq> null
        then ((cnhead r AND NOT HAS_NEXT) + push_bit SHIFT 1) OR HAS_NEXT
        else (cnhead r AND NOT HAS_NEXT) + push_bit SHIFT 1)\<rparr>"] conjI solosI[of _ "[False, False, False, False]"])
      (simp_all add: pop_advance_def read_chunk_def Let_def)
qed

text \<open>What an iteration leads to from a position of \<open>pop\<close>: the answer, or the head of the loop.\<close>

definition pop_leads ::
    "'a chunk allocator \<Rightarrow> 'a thread \<Rightarrow> 'a co_queue \<Rightarrow> (pop_locals \<times> 'a co_queue) + ('a option \<times> 'a co_queue) \<Rightarrow> bool" where
  "pop_leads alloc t q res \<longleftrightarrow>
    (case res of Inr (v, q') \<Rightarrow> solos alloc t q (Answered (Popped v)) q'
     | Inl (l, q') \<Rightarrow> q' = q \<and> (\<exists>r. solos alloc t q (Pop O_check r) q' \<and> chead r = ohead l \<and> cochunk r = ochunk l))"

lemma pop_leads_trans: "solos alloc t q t' q \<Longrightarrow> pop_leads alloc t' q res \<Longrightarrow> pop_leads alloc t q res"
  by (auto simp: pop_leads_def intro: solos_trans split: sum.splits)

lemma index_leads: "pop_leads alloc (Pop O_index r) q (Inl (pop_reload l q, q))"
  unfolding pop_leads_def by (auto intro!: exI[of _ "r\<lparr>chead := hindex q, cochunk := hchunk q\<rparr>"]
      solosI[of _ "[False, False]"] simp: pop_reload_def)

lemma pop_cas_leads:
  assumes it: "(if ospurious l = 0 \<and> hindex q = ohead l then
       (case (if offset_of (ohead l) + 1 = CHUNK_CAP then pop_advance new_head (ochunk l) (q\<lparr>hindex := new_head\<rparr>)
              else Some (Inr (q\<lparr>hindex := new_head\<rparr>))) of
          None \<Rightarrow> None
        | Some (Inl f) \<Rightarrow> Some (Inl f)
        | Some (Inr q) \<Rightarrow> map_option (\<lambda>r. obind r (\<lambda>(item, q). Inr (Inr (Some item, q)))) (pop_take (offset_of (ohead l)) (ochunk l) q))
     else Some (Inr (Inl (l\<lparr>ohead := hindex q, ochunk := hchunk q, ospurious := ospurious l - 1\<rparr>, q)))) = Some (Inr res)"
    and r: "chead r = ohead l" "cochunk r = ochunk l" "cnhead r = new_head"
    and f: "slots_fit q" "offset_of (ohead l) \<noteq> CHUNK_CAP"
  shows "pop_leads alloc (Pop O_cas r) q res"
proof (cases "ospurious l = 0 \<and> hindex q = ohead l")
  case False
  then show ?thesis using it r unfolding pop_leads_def
    by (auto intro!: exI[of _ "r\<lparr>chead := hindex q, cochunk := hchunk q\<rparr>"] solosI[of _ "[True, False]"] simp: pop_cas_def)
next
  case True
  let ?q = "q\<lparr>hindex := new_head\<rparr>" and ?last = "offset_of (ohead l) + 1 = CHUNK_CAP"
  obtain q1 x q' where q1: "(if ?last then pop_advance new_head (ochunk l) ?q else Some (Inr ?q)) = Some (Inr q1)"
      "pop_take (offset_of (ohead l)) (ochunk l) q1 = Some (Inr (x, q'))" "res = Inr (Some x, q')"
    using it True by (auto split: option.splits sum.splits)
  have cas: "solos alloc (Pop O_cas r) q (Pop (if ?last then O_wait_next else O_wait_write) r) ?q"
    using True r by (intro solosI[of _ "[False]"]) (simp add: pop_cas_def)
  obtain r1 where r1: "solos alloc (Pop (if ?last then O_wait_next else O_wait_write) r) ?q (Pop O_wait_write r1) q1"
      "chead r1 = chead r" "cochunk r1 = cochunk r"
    using q1(1) r solos_advance[of r ?q q1] by (cases ?last) (auto intro: solos_refl)
  have "slots_fit q1" using q1(1) f(1)
    by (auto simp: slots_fit_def pop_advance_def Let_def split: if_splits option.splits)
  then have "solos alloc (Pop O_wait_write r1) q1 (Answered (Popped (Some x))) q'"
    using solos_take[of r1 q1 x q'] q1(2) r r1(2,3) f(2) by simp
  from solos_trans[OF cas solos_trans[OF r1(1) this]] show ?thesis using q1(3) by (simp add: pop_leads_def)
qed

text \<open>The comparison of the head with the tail, and the test that there is a chunk.\<close>

lemma ready_leads:
  assumes r: "chead r = ohead l" "cochunk r = ochunk l" "cnhead r = new_head" and f: "slots_fit q" "offset_of (ohead l) \<noteq> CHUNK_CAP"
    and it: "(if ochunk l = null then Some (Inr (Inl (pop_reload l q, q)))
      else if ospurious l = 0 \<and> hindex q = ohead l then
       (case (if offset_of (ohead l) + 1 = CHUNK_CAP then pop_advance new_head (ochunk l) (q\<lparr>hindex := new_head\<rparr>)
              else Some (Inr (q\<lparr>hindex := new_head\<rparr>))) of
          None \<Rightarrow> None
        | Some (Inl f) \<Rightarrow> Some (Inl f)
        | Some (Inr q) \<Rightarrow> map_option (\<lambda>r. obind r (\<lambda>(item, q). Inr (Inr (Some item, q)))) (pop_take (offset_of (ohead l)) (ochunk l) q))
     else Some (Inr (Inl (l\<lparr>ohead := hindex q, ochunk := hchunk q, ospurious := ospurious l - 1\<rparr>, q)))) = Some (Inr res)"
  shows "pop_leads alloc (pop_ready r) q res"
proof (cases "ochunk l = null")
  case True
  then show ?thesis using it r index_leads by (auto simp: pop_ready_def)
next
  case False
  then have "pop_leads alloc (Pop O_cas r) q res" using it by (intro pop_cas_leads[OF _ r f]) simp
  then show ?thesis using False r(2) by (simp add: pop_ready_def)
qed

lemma pop_iter_leads:
  assumes it: "pop_iter l q = Some (Inr res)" and r: "chead r = ohead l" "cochunk r = ochunk l" and f: "slots_fit q"
  shows "pop_leads alloc (Pop O_check r) q res"
proof (cases "offset_of (ohead l) = CHUNK_CAP")
  case True
  then have "solos alloc (Pop O_check r) q (Pop O_index r) q" "res = Inl (pop_reload l q, q)"
    using it r by (auto intro!: solosI[of _ "[False]"] simp: pop_check_def pop_iter_def)
  then show ?thesis using pop_leads_trans[OF _ index_leads] by simp
next
  case off: False
  obtain nh where nh: "checked_add (ohead l) (push_bit SHIFT 1) = Inr nh"
    using it off by (cases "checked_add (ohead l) (push_bit SHIFT 1)") (auto simp: pop_iter_def Let_def)
  let ?r = "r\<lparr>cnhead := nh\<rparr>" and ?far = "drop_bit SHIFT (ohead l) div LAP \<noteq> drop_bit SHIFT (tindex q) div LAP"
  note it' = it[unfolded pop_iter_def Let_def nh, simplified off if_False sum.case]
  show ?thesis
  proof (cases "nh AND HAS_NEXT = 0")
    case False
    have "solos alloc (Pop O_check r) q (pop_ready ?r) q"
      using off nh r(1) False by (intro solosI[of _ "[False]"]) (simp add: pop_check_def)
    moreover have "pop_leads alloc (pop_ready ?r) q res"
      using it' False r by (intro ready_leads[OF _ _ _ f off]) simp_all
    ultimately show ?thesis by (rule pop_leads_trans)
  next
    case True
    have tail: "solos alloc (Pop O_check r) q (Pop O_tail ?r) q"
      using off nh r(1) True by (intro solosI[of _ "[False]"]) (simp add: pop_check_def)
    have "pop_leads alloc (Pop O_tail ?r) q res"
    proof (cases "drop_bit SHIFT (ohead l) = drop_bit SHIFT (tindex q)")
      case e: True
      then have "res = Inr (None, q)" using it' True by simp
      then show ?thesis using e r(1) by (auto intro!: solosI[of _ "[False]"] simp: pop_leads_def pop_tail_def)
    next
      case ne: False
      let ?n = "if ?far then nh OR HAS_NEXT else nh"
      have "solos alloc (Pop O_tail ?r) q (pop_ready (?r\<lparr>cnhead := ?n\<rparr>)) q"
        using ne r(1) by (intro solosI[of _ "[False]"]) (simp add: pop_tail_def Let_def)
      moreover have "pop_leads alloc (pop_ready (?r\<lparr>cnhead := ?n\<rparr>)) q res"
        using it' True ne r by (intro ready_leads[OF _ _ _ f off]) simp_all
      ultimately show ?thesis by (rule pop_leads_trans)
    qed
    with tail show ?thesis by (rule pop_leads_trans)
  qed
qed

lemma solos_pop_loop:
  assumes "pop_loop l q = Some res" "res = Inr (v, q')" "slots_fit q" "chead r = ohead l" "cochunk r = ochunk l"
  shows "solos alloc (Pop O_check r) q (Answered (Popped v)) q'"
proof -
  let ?P = "\<lambda>l q res. \<forall>v q' r. res = Inr (v, q') \<longrightarrow> slots_fit q \<longrightarrow> chead r = ohead l \<longrightarrow> cochunk r = ochunk l \<longrightarrow>
      solos alloc (Pop O_check r) q (Answered (Popped v)) q'"
  have "?P l q res"
  proof (rule pop_loop.raw_induct[where P = ?P, OF _ assms(1)], intro allI impI)
    fix loop l and q :: "'a co_queue" and res v q' and r :: "'a pop_regs"
    assume IH: "\<And>l q res. loop l q = Some res \<Longrightarrow> ?P l q res"
      and res: "(case pop_iter l q of None \<Rightarrow> None | Some (Inl f) \<Rightarrow> Some (Inl f)
        | Some (Inr (Inl (l', q'))) \<Rightarrow> loop l' q' | Some (Inr (Inr r)) \<Rightarrow> Some (Inr r)) = Some res" "res = Inr (v, q')"
      and q: "slots_fit q" "chead r = ohead l" "cochunk r = ochunk l"
    then obtain it where it: "pop_iter l q = Some (Inr it)" by (auto split: option.splits sum.splits)
    from pop_iter_leads[OF it q(2,3,1), of alloc] show "solos alloc (Pop O_check r) q (Answered (Popped v)) q'"
      using res it IH q(1) by (auto simp: pop_leads_def split: sum.splits) (metis solos_trans)
  qed
  then show ?thesis using assms(2-5) by blast
qed

lemma solos_pop:
  assumes "co_pop k q = Some (Inr (v, q'))" "slots_fit q"
  shows "solos alloc (start_of Call_pop) q (Answered (Popped v)) q'"
proof -
  let ?l = "\<lparr>ohead = hindex q, ochunk = hchunk q, ospurious = k\<rparr>"
  let ?r = "\<lparr>chead = hindex q, cochunk = hchunk q, cnhead = 0, cnextp = null, cnidx = 0, citem = None\<rparr>"
  have "solos alloc (start_of Call_pop) q (Pop O_check ?r) q"
    by (intro solosI[of _ "[False, False]"]) (simp add: start_of_def)
  moreover have "solos alloc (Pop O_check ?r) q (Answered (Popped v)) q'"
    using assms by (intro solos_pop_loop[of ?l]) (simp_all add: co_pop_def)
  ultimately show ?thesis by (rule solos_trans)
qed

section \<open>Property\<close>

text \<open>
  The functions of \<open>Co_Queue\<close> and the steps of \<open>Co_Steps\<close> model the same code: in any state of the machine, a
  thread that runs a whole \<open>push\<close> or \<open>pop\<close> while the others rest can return what the function returns, for any
  number of spurious failures, and leave the queue that the function leaves.
\<close>

theorem alone_is_sequential:
  assumes "thr s i = Idle" "slots_fit (sh s)"
  shows "(\<forall>k x q. co_push alloc k x (sh s) = Some (Inr q) \<longrightarrow>
      (\<exists>es s'. lts_run (conc_step alloc) s es s' \<and> visible Internal es = [Invoke i (Call_push x), Return i Pushed] \<and>
        sh s' = q \<and> thr s' = thr s)) \<and>
    (\<forall>k v q. co_pop k (sh s) = Some (Inr (v, q)) \<longrightarrow>
      (\<exists>es s'. lts_run (conc_step alloc) s es s' \<and> visible Internal es = [Invoke i Call_pop, Return i (Popped v)] \<and>
        sh s' = q \<and> thr s' = thr s))"
  using solos_call[OF assms(1) solos_push] solos_call[OF assms(1) solos_pop[OF _ assms(2)]] by blast

lemma first_push:
  "\<exists>q. co_push arena_alloc 0 x (co_new Map.empty) = Some (Inr q)"
  unfolding co_push_def
  by (subst push_loop.simps) (simp add: push_iter_def first_chunk_def push_commit_def new_chunk_def box_new_def arena_alloc_def
      co_new_def offset_of_def checked_add_def co_consts Let_def)

theorem alone_is_sequential_witness:
  "\<exists>es s. lts_run (conc_step arena_alloc) (conc_init Map.empty) es s \<and>
     visible Internal es = [Invoke 0 (Call_push (7 :: nat)), Return 0 Pushed]"
proof -
  let ?s = "conc_init Map.empty :: nat conc"
  have s: "thr ?s 0 = Idle" "sh ?s = co_new Map.empty" by (simp_all add: conc_init_def)
  have f: "slots_fit (sh ?s)" by (simp add: s slots_fit_def co_new_def)
  obtain q where "co_push arena_alloc 0 7 (sh ?s) = Some (Inr q)" using first_push[of "7 :: nat"] s(2) by auto
  then show ?thesis using alone_is_sequential[OF s(1) f, of arena_alloc] by blast
qed

end
