(* ===== verification/Futex.thy ===== *)
theory Futex
  imports Thread_Parker
begin

text \<open>
  Sleeping and waking of \<open>ThreadParker\<close> (\<open>mutex/deadlock.rs\<close>): the loop of \<open>park\<close> and \<open>park_until\<close> with
  the system call of \<open>futex_wait\<close>, against one thread that executes \<open>unpark_lock\<close> and later \<open>unpark\<close>. The
  kernel is a parameter. \<open>good_kernel\<close> is what the manual page of \<open>futex\<close> promises: a wait blocks only while
  the word has the expected value, the answers of a wait and of a wake are the documented ones, and a
  wake releases as many waiters as it is asked for, if there are that many.
\<close>

section \<open>System calls\<close>

datatype errno = EINTR | EAGAIN | ETIMEDOUT | EFAULT | Other_errno

text \<open>The answer of a system call: its result, and the error number that is meaningful when the result is \<open>-1\<close>.\<close>

type_synonym answer = "int \<times> errno"

definition futex_wait :: "bool \<Rightarrow> answer \<Rightarrow> unit outcome" where
  "futex_wait has_ts a =
    (case a of (r, e) \<Rightarrow>
       if r \<noteq> 0 \<and> r \<noteq> -1 then Inl Panic
       else if r = -1 \<and> \<not> (e = EINTR \<or> e = EAGAIN \<or> has_ts \<and> e = ETIMEDOUT) then Inl Panic
       else Inr ())"

definition unpark :: "answer \<Rightarrow> unit outcome" where
  "unpark a =
    (case a of (r, e) \<Rightarrow>
       if r \<noteq> 0 \<and> r \<noteq> 1 \<and> r \<noteq> -1 then Inl Panic
       else if r = -1 \<and> e \<noteq> EFAULT then Inl Panic
       else Inr ())"

text \<open>
  The kernel: whether a wait may block or answer at once, given the word, the expected value and
  whether there is a timeout; how a blocked wait may end without a wake; and how many of the
  blocked waiters a wake releases, with its answer.
\<close>

record kernel =
  kwait :: "u32 \<Rightarrow> u32 \<Rightarrow> bool \<Rightarrow> answer option \<Rightarrow> bool"
  kresume :: "bool \<Rightarrow> answer \<Rightarrow> bool"
  kwake :: "nat \<Rightarrow> nat \<Rightarrow> nat \<Rightarrow> answer \<Rightarrow> bool"

definition good_kernel :: "kernel \<Rightarrow> bool" where
  "good_kernel K \<longleftrightarrow>
     (\<forall>w v ts. kwait K w v ts None \<longrightarrow> w = v) \<and>
     (\<forall>w v ts r e. kwait K w v ts (Some (r, e)) \<longrightarrow> r = -1 \<and> (e = EAGAIN \<or> e = EINTR)) \<and>
     (\<forall>ts r e. kresume K ts (r, e) \<longrightarrow> r = 0 \<or> r = -1 \<and> (e = EINTR \<or> ts \<and> e = ETIMEDOUT)) \<and>
     (\<forall>n m k r e. kwake K n m k (r, e) \<longrightarrow> k = min n m \<and> (r = int k \<or> n = 0 \<and> r = -1 \<and> e = EFAULT))"

section \<open>The race\<close>

text \<open>
  Where the parking thread is: about to read the word, about to make the system call, blocked in
  it, returned because it was unparked, or returned because the time is over.
\<close>

datatype park_at = K_test | K_call | K_blocked | K_unparked | K_timed_out

text \<open>Where the unparking thread is: about to clear the word, about to make the system call, done.\<close>

datatype unpark_at = V_store | V_wake | V_end

record race =
  parker :: thread_parker
  parking :: park_at
  unparking :: unpark_at
  failed :: "fault option"

definition race_init :: "race \<Rightarrow> bool" where
  "race_init s \<longleftrightarrow> s = \<lparr>parker = prepare_park parker_new, parking = K_test, unparking = V_store, failed = None\<rparr>"

definition answer_with :: "unit outcome \<Rightarrow> race \<Rightarrow> race" where
  "answer_with r s = (case r of Inl f \<Rightarrow> s\<lparr>failed := Some f\<rparr> | Inr _ \<Rightarrow> s)"

inductive race_step :: "kernel \<Rightarrow> bool \<Rightarrow> race \<Rightarrow> race \<Rightarrow> bool" for K ts where
  test_zero: "parking s = K_test \<Longrightarrow> park_returns (parker s) \<Longrightarrow>
    race_step K ts s (s\<lparr>parking := K_unparked\<rparr>)"
| test_time: "parking s = K_test \<Longrightarrow> \<not> park_returns (parker s) \<Longrightarrow> ts \<Longrightarrow>
    race_step K ts s (s\<lparr>parking := K_timed_out\<rparr>)"
| test_wait: "parking s = K_test \<Longrightarrow> \<not> park_returns (parker s) \<Longrightarrow>
    race_step K ts s (s\<lparr>parking := K_call\<rparr>)"
| call_blocks: "parking s = K_call \<Longrightarrow> kwait K (futex (parker s)) 1 ts None \<Longrightarrow>
    race_step K ts s (s\<lparr>parking := K_blocked\<rparr>)"
| call_returns: "parking s = K_call \<Longrightarrow> kwait K (futex (parker s)) 1 ts (Some a) \<Longrightarrow>
    race_step K ts s (answer_with (futex_wait ts a) (s\<lparr>parking := K_test\<rparr>))"
| resume: "parking s = K_blocked \<Longrightarrow> kresume K ts a \<Longrightarrow>
    race_step K ts s (answer_with (futex_wait ts a) (s\<lparr>parking := K_test\<rparr>))"
| store: "unparking s = V_store \<Longrightarrow>
    race_step K ts s (s\<lparr>parker := unpark_lock (parker s), unparking := V_wake\<rparr>)"
| wake: "unparking s = V_wake \<Longrightarrow> kwake K (of_bool (parking s = K_blocked)) 1 k a \<Longrightarrow>
    race_step K ts s (answer_with (unpark a)
      (s\<lparr>unparking := V_end, parking := if k = 0 then parking s else K_test\<rparr>))"

section \<open>Nobody sleeps on\<close>

lemma good_kernel_wait:
  assumes "good_kernel K"
  shows "kwait K w v ts None \<Longrightarrow> w = v"
    and "kwait K w v ts (Some a) \<Longrightarrow> futex_wait ts' a = Inr ()"
    and "kresume K ts a \<Longrightarrow> futex_wait ts a = Inr ()"
proof -
  show "kwait K w v ts None \<Longrightarrow> w = v" using assms unfolding good_kernel_def by blast
  obtain r e where a: "a = (r, e)" by (cases a)
  have "kwait K w v ts (Some (r, e)) \<Longrightarrow> r = -1 \<and> (e = EAGAIN \<or> e = EINTR)"
    using assms unfolding good_kernel_def by blast
  then show "kwait K w v ts (Some a) \<Longrightarrow> futex_wait ts' a = Inr ()" by (auto simp: a futex_wait_def)
  have "kresume K ts (r, e) \<Longrightarrow> r = 0 \<or> r = -1 \<and> (e = EINTR \<or> ts \<and> e = ETIMEDOUT)"
    using assms unfolding good_kernel_def by blast
  then show "kresume K ts a \<Longrightarrow> futex_wait ts a = Inr ()" by (auto simp: a futex_wait_def)
qed

lemma good_kernel_wake:
  assumes "good_kernel K" "kwake K n m k a"
  shows "k = min n m" "m = 1 \<Longrightarrow> unpark a = Inr ()"
proof -
  obtain r e where a: "a = (r, e)" by (cases a)
  have "k = min n m \<and> (r = int k \<or> n = 0 \<and> r = -1 \<and> e = EFAULT)"
    using assms a unfolding good_kernel_def by blast
  then show "k = min n m" "m = 1 \<Longrightarrow> unpark a = Inr ()" by (auto simp: a unpark_def min_def)
qed

definition race_inv :: "kernel \<Rightarrow> race \<Rightarrow> bool" where
  "race_inv K s \<longleftrightarrow> (good_kernel K \<longrightarrow> failed s = None \<and> (unparking s \<noteq> V_store \<longleftrightarrow> park_returns (parker s)) \<and>
     (parking s = K_unparked \<longrightarrow> park_returns (parker s)) \<and> (unparking s = V_end \<longrightarrow> parking s \<noteq> K_blocked))"

interpretation race: inductive_invariant race_init "race_step K ts" "race_inv K" for K ts
proof
  fix s assume "race_init s"
  then show "race_inv K s" by (simp add: race_init_def race_inv_def park_returns_def prepare_park_def)
next
  fix s s' assume i: "race_inv K s" and st: "race_step K ts s s'"
  show "race_inv K s'"
  proof (cases "good_kernel K")
    case True
    note k = good_kernel_wait[OF True]
    have inv: "failed s = None" "unparking s \<noteq> V_store \<longleftrightarrow> park_returns (parker s)"
      "parking s = K_unparked \<longrightarrow> park_returns (parker s)" "unparking s = V_end \<longrightarrow> parking s \<noteq> K_blocked"
      using i True by (auto simp: race_inv_def)
    show ?thesis using st inv
    proof (cases rule: race_step.cases)
      case call_blocks
      then have "futex (parker s) = 1" using k(1) by blast
      then show ?thesis using call_blocks inv by (auto simp: race_inv_def park_returns_def)
    next
      case (wake k' a)
      note w = good_kernel_wake[OF True wake(3)]
      show ?thesis using wake inv w(1) w(2)[OF refl]
        by (auto simp: race_inv_def answer_with_def split: if_splits)
    qed (auto simp: race_inv_def answer_with_def park_returns_def unpark_lock_def k)
  qed (simp add: race_inv_def)
qed

text \<open>How far the loop is from its end when the word is clear.\<close>

fun park_rank :: "park_at \<Rightarrow> nat" where
  "park_rank K_blocked = 3"
| "park_rank K_call = 2"
| "park_rank K_test = 1"
| "park_rank K_unparked = 0"
| "park_rank K_timed_out = 0"

text \<open>
  C23. A thread that was unparked does not sleep on: once \<open>unpark\<close> has returned, the parked thread is not
  blocked in the kernel and every further step takes the loop of \<open>park\<close> or \<open>park_until\<close> closer to its
  end, of which it is at most two steps away. No assertion on the answers of the two system calls
  fails at any time.
\<close>

theorem unparked_thread_wakes:
  assumes "good_kernel K" "reach race_init (race_step K ts) s"
  shows "failed s = None \<and> (unparking s = V_end \<longrightarrow> park_rank (parking s) \<le> 2 \<and>
    (\<forall>s'. race_step K ts s s' \<longrightarrow> park_rank (parking s') < park_rank (parking s)))"
proof -
  have i: "failed s = None" "unparking s \<noteq> V_store \<longleftrightarrow> park_returns (parker s)"
      "unparking s = V_end \<longrightarrow> parking s \<noteq> K_blocked"
    using race.reach_inv[OF assms(2)] assms(1) by (auto simp: race_inv_def)
  have "park_rank (parking s') < park_rank (parking s)" if "unparking s = V_end" "race_step K ts s s'" for s'
  proof -
    have "\<not> kwait K (futex (parker s)) 1 ts None"
      using that(1) i(2) good_kernel_wait(1)[OF assms(1), of 0 1 ts] by (auto simp: park_returns_def)
    then show ?thesis using that(1) i
      by (cases rule: race_step.cases[OF that(2)]) (auto simp: answer_with_def split: sum.split)
  qed
  then show ?thesis using i by (cases "parking s") auto
qed

text \<open>A kernel without spurious wake-ups, and a run in which the parked thread blocks before it is unparked.\<close>

definition plain_kernel :: kernel where
  "plain_kernel = \<lparr>kwait = (\<lambda>w v ts a. if w = v then a = None else a = Some (-1, EAGAIN)),
     kresume = (\<lambda>_ _. False), kwake = (\<lambda>n m k a. k = min n m \<and> a = (int k, Other_errno))\<rparr>"

lemma plain_kernel_good: "good_kernel plain_kernel"
  by (simp add: good_kernel_def plain_kernel_def)

lemma plain_race:
  "reach race_init (race_step plain_kernel False)
     \<lparr>parker = \<lparr>futex = 0\<rparr>, parking = K_test, unparking = V_end, failed = None\<rparr>"
proof -
  let ?s = "\<lambda>f p u. \<lparr>parker = \<lparr>futex = f\<rparr>, parking = p, unparking = u, failed = None\<rparr>"
  let ?st = "race_step plain_kernel False"
  have "reach race_init ?st (?s 1 K_test V_store)"
    by (rule reach_init) (simp add: race_init_def prepare_park_def parker_new_def)
  moreover have "?st (?s 1 K_test V_store) (?s 1 K_call V_store)"
    using test_wait[of "?s 1 K_test V_store"] by (simp add: park_returns_def)
  moreover have "?st (?s 1 K_call V_store) (?s 1 K_blocked V_store)"
    using call_blocks[of "?s 1 K_call V_store"] by (simp add: plain_kernel_def)
  moreover have "?st (?s 1 K_blocked V_store) (?s 0 K_blocked V_wake)"
    using store[of "?s 1 K_blocked V_store"] by (simp add: unpark_lock_def)
  moreover have "?st (?s 0 K_blocked V_wake) (?s 0 K_test V_end)"
    using wake[of "?s 0 K_blocked V_wake" plain_kernel 1 "(1, Other_errno)"]
    by (simp add: plain_kernel_def answer_with_def unpark_def)
  ultimately show ?thesis by (meson reach_step)
qed

theorem unparked_thread_wakes_witness:
  "\<exists>s. reach race_init (race_step plain_kernel False) s \<and> unparking s = V_end \<and> parking s = K_test \<and>
     {park_rank (parking s') | s'. race_step plain_kernel False s s'} = {0}"
proof -
  let ?s = "\<lparr>parker = \<lparr>futex = 0\<rparr>, parking = K_test, unparking = V_end, failed = None\<rparr>"
  have "race_step plain_kernel False ?s (?s\<lparr>parking := K_unparked\<rparr>)"
    by (rule test_zero) (simp_all add: park_returns_def)
  moreover have "\<forall>s'. race_step plain_kernel False ?s s' \<longrightarrow> park_rank (parking s') = 0"
    using unparked_thread_wakes[OF plain_kernel_good plain_race] by simp
  ultimately have "{park_rank (parking s') | s'. race_step plain_kernel False ?s s'} = {0}"
    by (auto intro!: exI[of _ "?s\<lparr>parking := K_unparked\<rparr>"])
  then show ?thesis using plain_race by (intro exI[of _ ?s]) simp
qed

end
