(* ===== verification/Cache_Pad.thy ===== *)
theory Cache_Pad
  imports Prelude
begin

text \<open>
  \<open>CachePad\<close> (\<open>cahch_pad.rs\<close>): a value with the alignment of a cache line. The layout of a type is its size and
  its alignment; \<open>repr(align(N))\<close> on a structure with a single field raises the alignment to at least
  \<open>N\<close> and rounds the size up to a multiple of the alignment. The target decides the length of a line.
\<close>

section \<open>Layout\<close>

record layout =
  size_of :: nat
  align_of :: nat

text \<open>What the language guarantees of every type.\<close>

definition good_layout :: "layout \<Rightarrow> bool" where
  "good_layout l \<longleftrightarrow> (\<exists>k. align_of l = 2 ^ k) \<and> align_of l dvd size_of l"

definition line_len :: "bool \<Rightarrow> nat" where
  "line_len x86_64 = (if x86_64 then 128 else 64)"

definition round_up :: "nat \<Rightarrow> nat \<Rightarrow> nat" where
  "round_up n a = (n + a - 1) div a * a"

definition pad_layout :: "bool \<Rightarrow> layout \<Rightarrow> layout" where
  "pad_layout x86_64 l =
    (let a = max (line_len x86_64) (align_of l) in \<lparr>size_of = round_up (size_of l) a, align_of = a\<rparr>)"

section \<open>Values\<close>

record 'a cache_pad =
  pvalue :: 'a

definition pad_new :: "'a \<Rightarrow> 'a cache_pad" where
  "pad_new t = \<lparr>pvalue = t\<rparr>"

definition pad_into_inner :: "'a cache_pad \<Rightarrow> 'a" where
  "pad_into_inner p = pvalue p"

definition pad_deref :: "'a cache_pad \<Rightarrow> 'a" where
  "pad_deref p = pvalue p"

text \<open>A use of the mutable reference that \<open>deref_mut\<close> gives is a function on the value.\<close>

definition pad_deref_mut :: "('a \<Rightarrow> 'a) \<Rightarrow> 'a cache_pad \<Rightarrow> 'a cache_pad" where
  "pad_deref_mut f p = p\<lparr>pvalue := f (pvalue p)\<rparr>"

definition pad_from :: "'a \<Rightarrow> 'a cache_pad" where
  "pad_from t = pad_new t"

lemma pad_value_access [simp]:
  "pad_into_inner (pad_new t) = t" "pad_deref (pad_from t) = t"
  "pad_deref (pad_deref_mut f p) = f (pad_deref p)" "pad_new (pad_into_inner p) = p"
  by (simp_all add: pad_new_def pad_into_inner_def pad_deref_def pad_deref_mut_def pad_from_def)

section \<open>The documented layout\<close>

lemma round_up_least:
  assumes "0 < a"
  shows "a dvd round_up n a" "n \<le> round_up n a" "a dvd m \<Longrightarrow> n \<le> m \<Longrightarrow> round_up n a \<le> m"
proof -
  show "a dvd round_up n a" by (simp add: round_up_def)
  have "n + a - 1 = (n + a - 1) div a * a + (n + a - 1) mod a" by simp
  moreover have "(n + a - 1) mod a < a" using assms by simp
  ultimately show "n \<le> round_up n a" unfolding round_up_def by linarith
  assume "a dvd m" "n \<le> m"
  then obtain q where q: "m = q * a" by (metis dvd_def mult.commute)
  have "n + a - 1 < Suc q * a" using \<open>n \<le> m\<close> assms q by auto
  then have "(n + a - 1) div a < Suc q" using assms by (simp add: div_less_iff_less_mult)
  then show "round_up n a \<le> m" unfolding q round_up_def by simp
qed

lemma line_len_cases: "line_len x = 2 ^ (if x then 7 else 6)"
  by (simp add: line_len_def)

lemma line_len_dvd:
  assumes "good_layout l"
  shows "line_len x dvd max (line_len x) (align_of l)"
proof -
  obtain k where "align_of l = 2 ^ k" using assms by (auto simp: good_layout_def)
  moreover have "(2 :: nat) ^ m dvd max (2 ^ m) (2 ^ k)" for m
    by (simp add: max_def le_imp_power_dvd)
  ultimately show ?thesis by (simp only: line_len_cases)
qed

lemma pad_size_line:
  assumes l: "good_layout l" and m: "line_len x dvd m" "size_of l \<le> m"
  shows "size_of (pad_layout x l) \<le> m"
proof (cases "align_of l \<le> line_len x")
  case True
  then show ?thesis using round_up_least(3)[OF _ m] by (simp add: pad_layout_def Let_def max_absorb1 line_len_cases)
next
  case False
  then have "0 < align_of l" "align_of l dvd size_of l" using l by (auto simp: good_layout_def)
  then have "round_up (size_of l) (align_of l) \<le> size_of l" by (simp add: round_up_least(3))
  then show ?thesis using False m(2) by (simp add: pad_layout_def Let_def max_absorb2)
qed

text \<open>Addresses of two aligned blocks, one behind the other, are in different lines.\<close>

lemma blocks_apart:
  fixes n :: nat
  assumes n: "0 < n" "n dvd b" and i: "i < b" and j: "b \<le> j"
  shows "i div n \<noteq> j div n"
proof -
  have "i div n < b div n" using n i by (simp add: div_less_iff_less_mult)
  also have "\<dots> \<le> j div n" using j by (rule div_le_mono)
  finally show ?thesis by simp
qed

lemma pad_good:
  assumes "good_layout l"
  shows "good_layout (pad_layout x l)" "size_of l \<le> size_of (pad_layout x l)" "line_len x dvd size_of (pad_layout x l)"
proof -
  let ?a = "max (line_len x) (align_of l)"
  have "0 < ?a" by (simp add: line_len_cases max_def)
  note up = round_up_least[OF this, of "size_of l"]
  have "\<exists>k. ?a = 2 ^ k" using assms by (auto simp: good_layout_def line_len_cases max_def)
  then show "good_layout (pad_layout x l)" using up(1) by (simp add: good_layout_def pad_layout_def Let_def)
  show "size_of l \<le> size_of (pad_layout x l)" using up(2) by (simp add: pad_layout_def Let_def)
  show "line_len x dvd size_of (pad_layout x l)"
    using dvd_trans[OF line_len_dvd[OF assms] up(1)] by (simp add: pad_layout_def Let_def)
qed

lemma pads_apart:
  assumes "good_layout l" "good_layout l'"
    and b: "align_of (pad_layout x l') dvd b" "a + size_of (pad_layout x l) \<le> b" "i < size_of l"
  shows "(a + i) div line_len x \<noteq> (b + j) div line_len x"
proof (rule blocks_apart)
  show "0 < line_len x" by (simp add: line_len_def)
  show "line_len x dvd b"
    using dvd_trans[OF line_len_dvd[OF assms(2)]] b(1) by (simp add: pad_layout_def Let_def)
qed (use b(2,3) pad_good(2)[OF assms(1), of x] in simp_all)

text \<open>
  C39. The type \<open>CachePad<T>\<close> has the layout its documentation states, with a line of \<open>N = 128\<close> bytes on x86-64 and
  \<open>N = 64\<close> on all other targets: its alignment is the maximum of \<open>N\<close> and the alignment of \<open>T\<close>, its size is the
  smallest multiple of \<open>N\<close> that holds a \<open>T\<close>. So no byte of a padded value shares a line of \<open>N\<close> bytes with another
  padded value that does not overlap it, such as the tail and the head of a \<open>CoQueue\<close>.
\<close>

theorem cache_pad_layout:
  assumes "good_layout l" "good_layout l'" "N = (if x86_64 then 128 else 64)"
  shows "good_layout (pad_layout x86_64 l) \<and>
    align_of (pad_layout x86_64 l) = max N (align_of l) \<and>
    size_of l \<le> size_of (pad_layout x86_64 l) \<and> N dvd size_of (pad_layout x86_64 l) \<and>
    (\<forall>m. N dvd m \<and> size_of l \<le> m \<longrightarrow> size_of (pad_layout x86_64 l) \<le> m) \<and>
    (\<forall>a b i j. align_of (pad_layout x86_64 l') dvd b \<and> a + size_of (pad_layout x86_64 l) \<le> b \<and> i < size_of l \<longrightarrow>
       (a + i) div N \<noteq> (b + j) div N)"
proof -
  have "N = line_len x86_64" by (simp add: line_len_def assms(3))
  then show ?thesis using pad_good[OF assms(1)] pad_size_line[OF assms(1)] pads_apart[OF assms(1,2)]
    by (auto simp: pad_layout_def Let_def)
qed

text \<open>The two segments of a \<open>CoQueue\<close>, two words each, on a 64-bit target.\<close>

definition segment_layout :: layout where
  "segment_layout = \<lparr>size_of = 16, align_of = 8\<rparr>"

theorem cache_pad_layout_witness:
  "size_of (pad_layout True segment_layout) = 128 \<and> align_of (pad_layout False segment_layout) = 64 \<and>
   (4096 + 15) div 128 \<noteq> ((4224 + 0) div 128 :: nat)"
proof -
  have g: "good_layout segment_layout" by (simp add: good_layout_def segment_layout_def) (rule exI[of _ 3], simp)
  have s: "size_of (pad_layout True segment_layout) = 128" "align_of (pad_layout True segment_layout) = 128"
    by (simp_all add: pad_layout_def segment_layout_def line_len_def round_up_def)
  have "\<forall>a b i j. 128 dvd b \<and> a + 128 \<le> b \<and> i < 16 \<longrightarrow> (a + i) div 128 \<noteq> (b + j :: nat) div 128"
    using cache_pad_layout[OF g g, of 128 True] s by (simp add: segment_layout_def)
  from this[rule_format, of 4224 4096 15 0] have "(4096 + 15) div 128 \<noteq> ((4224 + 0) div 128 :: nat)" by simp
  moreover have "align_of (pad_layout False segment_layout) = max 64 (align_of segment_layout)"
    using cache_pad_layout[OF g g, of 64 False] by simp
  ultimately show ?thesis using s by (simp add: segment_layout_def)
qed

end
