(* ===== verification/Mutex_Lot.thy ===== *)
theory Mutex_Lot
  imports Raw_Mutex Parking_Lot
begin

text \<open>
  Any number of \<open>RawMutex\<close>es of \<open>mutex/raw_mutex.rs\<close> on top of the one parking lot of \<open>mutex/deadlock.rs\<close>, as the crate
  composes them. A thread makes one call of \<open>lock\<close> or \<open>unlock\<close> at a time, on a mutex of its choice. The accesses to the
  state byte are the steps of \<open>Raw_Mutex\<close> on the byte of that mutex; \<open>park\<close>, \<open>unpark_one\<close> and the registration of a thread with
  \<open>with_thread_data\<close> are the steps of \<open>Parking_Lot\<close>. The callbacks that were answers of the environment there are the
  closures of \<open>lock_slow\<close> and \<open>unlock_slow\<close> here: \<open>validate\<close> reads the byte and \<open>unlock_cb\<close> writes it, both under the
  lock of the bucket. The resources of a thread are those of its \<open>ThreadData\<close>. A thread neither locks a mutex that it holds,
  which would wait for itself, nor exits while it holds one.
\<close>

section \<open>State\<close>

text \<open>
  The position in a call is that of \<open>Raw_Mutex\<close>, with two of its names used for a whole call into the lot: \<open>Parked w\<close> from the
  call of \<open>park\<close> until it returns, \<open>Unpark_scan\<close> from the call of \<open>unpark_one\<close> until it returns. \<open>guards\<close> are the mutexes whose
  \<open>lock\<close> has returned and whose \<open>unlock\<close> has not been called.
\<close>

record mutexes =
  the_lot :: lot_sys
  bytes :: "usize \<Rightarrow> u8"
  calls :: "ptr \<Rightarrow> (usize \<times> mpc) option"
  guards :: "ptr \<Rightarrow> usize set"

definition mutexes_init :: mutexes where
  "mutexes_init = \<lparr>the_lot = lot_init, bytes = (\<lambda>_. 0), calls = (\<lambda>_. None), guards = (\<lambda>_. {})\<rparr>"

definition set_call :: "ptr \<Rightarrow> (usize \<times> mpc) option \<Rightarrow> mutexes \<Rightarrow> mutexes" where
  "set_call t x c = c\<lparr>calls := (calls c)(t := x)\<rparr>"

definition set_resources :: "(resources \<Rightarrow> resources) \<Rightarrow> ptr \<Rightarrow> mutexes \<Rightarrow> mutexes" where
  "set_resources f t c =
    c\<lparr>the_lot := (the_lot c)\<lparr>store := (store (the_lot c))(t := map_option (owned_update f) (store (the_lot c) t))\<rparr>\<rparr>"

section \<open>The state byte\<close>

text \<open>One step of \<open>Raw_Mutex\<close> by a thread that sees only the byte and its own position.\<close>

definition alone :: "u8 \<Rightarrow> mpc \<Rightarrow> mutex_sys" where
  "alone st pc = \<lparr>state = st, bucket_holder = None, waiters = [], pcs = (\<lambda>_. pc), res = (\<lambda>_. [])\<rparr>"

definition byte_step :: "bool \<Rightarrow> ptr \<Rightarrow> usize \<Rightarrow> mpc \<Rightarrow> mutexes \<Rightarrow> mutexes option" where
  "byte_step spurious t a pc c =
    map_option (\<lambda>m. set_call t (if pcs m 0 = Idle then None else Some (a, pcs m 0)) (c\<lparr>bytes := (bytes c)(a := state m)\<rparr>))
      (run_step a spurious False 0 (alone (bytes c a) pc))"

section \<open>Calls into the lot\<close>

definition of_lot :: "ptr \<Rightarrow> (usize \<times> mpc) option \<Rightarrow> mutexes \<Rightarrow> lot_sys outcome option \<Rightarrow> mutexes outcome option" where
  "of_lot t x c r = map_option (\<lambda>r. obind r (\<lambda>s. Inr (set_call t x (c\<lparr>the_lot := s\<rparr>)))) r"

text \<open>\<open>with_thread_data\<close>: a thread that has no record yet makes one before \<open>go\<close> runs.\<close>

definition with_thread_data ::
    "nat \<Rightarrow> ptr \<Rightarrow> mutexes \<Rightarrow> mutexes outcome option \<Rightarrow> mutexes outcome option" where
  "with_thread_data now t c go =
    (case lpcs (the_lot c) t of
       L_new \<Rightarrow> of_lot t (calls c t) c (lot_step L_register t (the_lot c))
     | L_ready r \<Rightarrow> go
     | _ \<Rightarrow> of_lot t (calls c t) c (lot_step (L_run False DEFAULT_UNPARK_TOKEN now) t (the_lot c)))"

text \<open>\<open>park\<close>, as \<open>lock_slow\<close> calls it: no timeout, and the state byte decides whether the thread may sleep.\<close>

definition park_returned :: "spin_wait \<Rightarrow> park_result option \<Rightarrow> mpc" where
  "park_returned w r =
    (case r of
       Some (Unparked tok) \<Rightarrow> Woken w tok
     | Some TimedOut \<Rightarrow> Acquired
     | _ \<Rightarrow> relock w)"

definition parking_step :: "nat \<Rightarrow> ptr \<Rightarrow> usize \<Rightarrow> spin_wait \<Rightarrow> mutexes \<Rightarrow> mutexes outcome option" where
  "parking_step now t a w c =
    (case lpcs (the_lot c) t of
       L_ready r \<Rightarrow> Some (Inr (set_call t (Some (a, park_returned w r)) c))
     | _ \<Rightarrow> of_lot t (calls c t) c
              (lot_step (L_run (validate (bytes c a)) DEFAULT_UNPARK_TOKEN now) t (the_lot c)))"

text \<open>\<open>unpark_one\<close>, as \<open>unlock_slow\<close> calls it: its callback runs under the bucket lock and sets the state byte.\<close>

definition unlock_in_bucket :: "nat \<Rightarrow> ptr \<Rightarrow> usize \<Rightarrow> usize \<Rightarrow> nat \<Rightarrow> mutexes \<Rightarrow> mutexes outcome option" where
  "unlock_in_bucket now t a k n c =
    (let s = the_lot c in
     case bucket_of k n s of
       Inl f \<Rightarrow> Some (Inl f)
     | Inr i \<Rightarrow>
         map_option (\<lambda>r. obind r (\<lambda>(_, S, b, st).
             Inr (c\<lparr>the_lot := lgoto t (L_out n i (Return None)) (set_bucket n i S b s), bytes := (bytes c)(a := st)\<rparr>)))
           (unpark_one k unlock_cb now (store s) (entries (tables s ! n) ! i) (bytes c a)))"

definition unparking_step :: "nat \<Rightarrow> ptr \<Rightarrow> usize \<Rightarrow> mutexes \<Rightarrow> mutexes outcome option" where
  "unparking_step now t a c =
    (case lpcs (the_lot c) t of
       L_ready r \<Rightarrow> Some (Inr (set_call t None c))
     | L_in op k n \<Rightarrow> unlock_in_bucket now t a k n c
     | _ \<Rightarrow> of_lot t (calls c t) c (lot_step (L_run False DEFAULT_UNPARK_TOKEN now) t (the_lot c)))"

section \<open>The machine\<close>

datatype mutexes_action = Do_lock usize | Do_unlock usize | Do_exit | Do_run bool nat

definition call_run_step :: "bool \<Rightarrow> nat \<Rightarrow> ptr \<Rightarrow> usize \<Rightarrow> mpc \<Rightarrow> mutexes \<Rightarrow> mutexes outcome option" where
  "call_run_step spurious now t a pc c =
    (case pc of
       Park_call w \<Rightarrow>
         with_thread_data now t c
           (of_lot t (Some (a, Parked w)) c (lot_step (L_park a DEFAULT_PARK_TOKEN False) t (the_lot c)))
     | Parked w \<Rightarrow> parking_step now t a w c
     | Unpark_call \<Rightarrow>
         of_lot t (Some (a, Unpark_scan)) c (lot_step (L_unpark a) t (the_lot c))
     | Unpark_scan \<Rightarrow> unparking_step now t a c
     | Acquired \<Rightarrow>
         with_thread_data now t c
           (Some (Inr (set_call t None
             (set_resources (acquire_resource a) t (c\<lparr>guards := (guards c)(t := insert a (guards c t))\<rparr>)))))
     | _ \<Rightarrow> map_option Inr (byte_step spurious t a pc c))"

fun mutexes_step :: "mutexes_action \<Rightarrow> ptr \<Rightarrow> mutexes \<Rightarrow> mutexes outcome option" where
  "mutexes_step (Do_lock a) t c =
     (if t \<noteq> null \<and> calls c t = None \<and> a \<notin> guards c t then Some (Inr (set_call t (Some (a, Lock_fast)) c)) else None)"
| "mutexes_step (Do_unlock a) t c =
     (if calls c t = None \<and> a \<in> guards c t
      then Some (Inr (set_call t (Some (a, Unlock_cas))
        (set_resources (release_resource a) t (c\<lparr>guards := (guards c)(t := guards c t - {a})\<rparr>))))
      else None)"
| "mutexes_step Do_exit t c =
     (if calls c t = None \<and> guards c t = {} then of_lot t None c (lot_step L_exit t (the_lot c)) else None)"
| "mutexes_step (Do_run spurious now) t c =
     (case calls c t of None \<Rightarrow> None | Some (a, pc) \<Rightarrow> call_run_step spurious now t a pc c)"

inductive mutexes_trans :: "mutexes \<Rightarrow> mutexes \<Rightarrow> bool" where
  "mutexes_step x t c = Some (Inr c') \<Longrightarrow> unat (num_threads (the_lot c')) < 2 ^ 29 \<Longrightarrow> mutexes_trans c c'"

inductive_cases mutexes_transE: "mutexes_trans c c'"

fun mutexes_actions :: "(mutexes_action \<times> ptr) list \<Rightarrow> mutexes \<Rightarrow> mutexes outcome option" where
  "mutexes_actions [] c = Some (Inr c)"
| "mutexes_actions ((x, t) # xs) c =
     (case mutexes_step x t c of
        None \<Rightarrow> None
      | Some (Inl f) \<Rightarrow> Some (Inl f)
      | Some (Inr c') \<Rightarrow> if unat (num_threads (the_lot c')) < 2 ^ 29 then mutexes_actions xs c' else None)"

end
