(* ===== verification/Lot_Frame.thy ===== *)
theory Lot_Frame
  imports Lot_Props
begin

text \<open>
  What a step of the parking lot leaves alone. A client of the lot sees of a thread the phase of its call and, in the thread's record,
  the key, the parker, the token and the resources. A step changes the phase of the thread that takes it and of no other, and the only
  record that it changes for the client is, in \<open>unpark_one\<close>, that of the thread that is woken.
\<close>

section \<open>Phases of a call\<close>

datatype phase = Away | Before lot_op | Asleep bool | After "park_result option"

fun want_phase :: "want \<Rightarrow> phase" where
  "want_phase (For_op op) = Before op"
| "want_phase (For_grow m) = Away"

fun after_phase :: "after \<Rightarrow> phase" where
  "after_phase (Return r) = After r"
| "after_phase (Sleep w) = Asleep w"
| "after_phase (Again op) = Before op"

fun phase_of :: "lpc \<Rightarrow> phase" where
  "phase_of (L_ready r) = After r"
| "phase_of (L_table w) = want_phase w"
| "phase_of (L_create w) = want_phase w"
| "phase_of (L_key op n) = Before op"
| "phase_of (L_lock op k n) = Before op"
| "phase_of (L_check op k n) = Before op"
| "phase_of (L_in op k n) = Before op"
| "phase_of (L_out n i a) = after_phase a"
| "phase_of (L_sleep w) = Asleep w"
| "phase_of _ = Away"

text \<open>The part of a record that a client of the lot can see.\<close>

definition sight :: "thread_data \<Rightarrow> usize \<times> thread_parker \<times> unpark_token \<times> resources" where
  "sight td = (key td, parker td, unpark_token td, owned td)"

definition seen :: "lot_sys \<Rightarrow> ptr \<Rightarrow> (usize \<times> thread_parker \<times> unpark_token \<times> resources) option" where
  "seen s u = map_option sight (store s u)"

lemma sight_next [simp]: "sight (td\<lparr>next_in_queue := p\<rparr>) = sight td"
  by (simp add: sight_def)

lemma seen_lgoto [simp]: "seen (lgoto t pc s) = seen s" "seen (set_lock n i h s) = seen s"
  by (simp_all add: seen_def fun_eq_iff)

lemma same_but_next_sight: "same_but_next S S' \<Longrightarrow> map_option sight (S' u) = map_option sight (S u)"
  by (cases "S u") (auto simp: same_but_next_None elim: same_but_next_get)

lemma seen_awaiting: "seen s' u = seen s u \<Longrightarrow> awaiting (store s') u \<longleftrightarrow> awaiting (store s) u"
  by (cases "store s u"; cases "store s' u") (auto simp: seen_def sight_def awaiting_def)

section \<open>Steps that do not use a bucket\<close>

definition untouched :: "ptr \<Rightarrow> lot_sys \<Rightarrow> lot_sys \<Rightarrow> bool" where
  "untouched t s s' \<longleftrightarrow> (\<forall>u. u \<noteq> t \<longrightarrow> lpcs s' u = lpcs s u \<and> seen s' u = seen s u)"

lemma untouched_goto [simp]:
  "untouched t s (lgoto t pc s') \<longleftrightarrow> untouched t s s'" "untouched t s (set_lock n i h s') \<longleftrightarrow> untouched t s s'" "untouched t s s"
  by (auto simp: untouched_def)

lemma untouched_registered [simp]: "untouched t s (registered t s)"
  by (simp add: untouched_def registered_def seen_def)

text \<open>A step between calls and bucket sections, on the way to the bucket or back, or while the thread registers.\<close>

definition passes :: "ptr \<Rightarrow> lot_sys \<Rightarrow> lot_sys \<Rightarrow> bool" where
  "passes t s s' \<longleftrightarrow> untouched t s s' \<and>
    (phase_of (lpcs s' t) = phase_of (lpcs s t) \<and> seen s' t = seen s t \<or>
     phase_of (lpcs s t) = Away \<and> lpcs s' t = L_ready None \<and> seen s' t = Some (sight thread_data_new))"

lemma passes_goto:
  "phase_of pc = phase_of (lpcs s t) \<Longrightarrow> passes t s (lgoto t pc s)"
  "phase_of pc = phase_of (lpcs s t) \<Longrightarrow> passes t s (lgoto t pc (set_lock n i h s))"
  by (simp_all add: passes_def)

lemma passes_registered: "phase_of (lpcs s t) = Away \<Longrightarrow> passes t s (registered t s)"
  by (simp add: passes_def) (simp add: registered_def seen_def)

lemma have_table_phase [simp]: "phase_of (have_table w n) = want_phase w"
  by (cases w) (simp_all add: have_table_def)

lemma publish_passes:
  assumes "lot_at q s" "lpcs s t = G_publish m n" "publish_step now m n t s = Some (Inr s')"
  shows "passes t s s'"
proof -
  note pc = lot_at_pc[OF assms(1), of t, unfolded assms(2)]
  have n: "table_ok (store s) (tables s ! n) q" and f: "fits m" using lot_at_table[OF assms(1)] pc by (simp_all add: pc_ok_def)
  obtain t0 S' tab where "hash_table_new m now = Inr t0" "rehash_all (entries (tables s ! n)) (store s) t0 = Some (Inr (S', tab))"
    "same_but_next (store s) S'"
    using rehash_table[OF n, of m now] f unfolding fits_def by blast
  then show ?thesis using assms(2,3) same_but_next_sight[of "store s" S']
    by (auto simp: publish_step_def passes_def untouched_def seen_def)
qed

text \<open>Every position but the bucket section and the sleep.\<close>

fun passing :: "lpc \<Rightarrow> bool" where
  "passing (L_in op k n) = False"
| "passing (L_sleep w) = False"
| "passing _ = True"

lemma obind_Inr: "obind r f = Inr y \<longleftrightarrow> (\<exists>x. r = Inr x \<and> f x = Inr y)"
  by (cases r) auto

lemma run_passes:
  assumes "lot_at q s" "lot_run_step yes tok now t s = Some (Inr s')" "passing (lpcs s t)"
  shows "passes t s s'"
proof (cases "lpcs s t")
  case (L_create w)
  then show ?thesis using assms(2) unfolding passes_def untouched_def
    by (auto simp: lot_run_step_def create_step_def Let_def obind_Inr seen_def split: option.splits)
next
  case (G_publish m n)
  then show ?thesis using assms by (auto simp: lot_run_step_def intro: publish_passes)
qed (use assms(2,3) in \<open>auto simp: lot_run_step_def table_step_def key_step_def lock_step_def check_step_def out_step_def size_step_def
    lock_all_step_def grow_check_step_def unlock_all_step_def acquire_def obind_Inr
    intro!: passes_goto passes_registered split: option.splits sum.splits if_splits after.splits\<close>)

section \<open>Parking\<close>

lemma in_park_effect:
  assumes "in_step yes tok now (Op_park k' ptok w) k n t s = Some (Inr s')"
  shows "untouched t s s'"
    "\<not> yes \<Longrightarrow> phase_of (lpcs s' t) = After (Some Invalid) \<and> seen s' t = seen s t"
    "yes \<Longrightarrow> phase_of (lpcs s' t) = Asleep w \<and>
      (\<exists>td tok. store s t = Some td \<and> seen s' t = Some (k, prepare_park (parker td), tok, owned td))"
proof -
  obtain i where i: "bucket_of k n s = Inr i" using assms by (cases "bucket_of k n s") (auto simp: in_step_def)
  show "untouched t s s'"
    "\<not> yes \<Longrightarrow> phase_of (lpcs s' t) = After (Some Invalid) \<and> seen s' t = seen s t"
    "yes \<Longrightarrow> phase_of (lpcs s' t) = Asleep w \<and>
      (\<exists>td tok. store s t = Some td \<and> seen s' t = Some (k, prepare_park (parker td), tok, owned td))"
    using assms by (auto simp: in_step_def i Let_def obind_Inr park_enqueue_def set_next_def set_bucket_def untouched_def seen_def
        sight_def set_parked_def awaiting_def futex_parker.prepared_times_out split: if_splits option.splits)
qed

section \<open>Unparking\<close>

text \<open>A callback that only looks at the result may be replaced by its answer.\<close>

lemma unpark_one_answer:
  assumes "unpark_one k cb now S b e = Some (Inr (r, S', b', e'))"
  shows "e' = snd (cb r e)" "unpark_one k (\<lambda>_ x. (fst (cb r e), x)) now S b x = Some (Inr (r, S', b', x))"
  using assms by (auto simp: unpark_one_def Let_def obind_Inr case_prod_unfold split: option.splits sum.splits)

lemma unlink_same:
  assumes "unlink k l pr t S b = Some (Inr (others, S', b'))"
  shows "same_but_next S S'"
  using assms by (auto simp: unlink_def set_link_def set_next_def obind_Inr Let_def intro!: same_but_next_upd
      split: option.splits sum.splits link.splits if_splits)

lemma unpark_one_sights:
  assumes "unpark_one k cb now S b e = Some (Inr (r, S', b', e'))"
    "unpark_find S k Head_link null (queue_head b) = Some (Inr (Some (l, pr, t)))"
  shows "map_option sight (S' u) =
    (if u = t then map_option (\<lambda>td. (key td, unpark_lock (parker td), fst (cb r e), owned td)) (S t) else map_option sight (S u))"
proof -
  obtain others S1 b1 where u: "unlink k l pr t S b = Some (Inr (others, S1, b1))" "wake t (fst (cb r e)) S1 = Inr S'"
    using assms by (auto simp: unpark_one_def Let_def obind_Inr case_prod_unfold split: option.splits sum.splits)
  note sb = unlink_same[OF u(1)]
  have "S t \<noteq> None" using u(1) by (auto simp: unlink_def split: option.splits)
  then obtain td where td: "S t = Some td" by auto
  obtain p where p: "S1 t = Some (td\<lparr>next_in_queue := p\<rparr>)" by (rule same_but_next_get[OF sb td])
  show ?thesis
    using u(2) same_but_next_sight[OF sb, of u] by (auto simp: wake_def p td sight_def)
qed

lemma in_unpark_effect:
  assumes "lot_at q s" "lpcs s t = L_in (Op_unpark k') k n"
  defines "b \<equiv> entries (tables s ! n) ! bucket_at k (tables s ! n)"
  shows "waiting_of s q k = [] \<Longrightarrow>
      unpark_one k cb now (store s) b e = Some (Inr (unpark_result_default, store s, b, snd (cb unpark_result_default e)))"
    "waiting_of s q k = w # ws \<Longrightarrow> \<exists>fr r S' b' td.
      r = unpark_result_default\<lparr>have_more_threads := ws \<noteq> [], unparked_threads := 1, be_fair := fr\<rparr> \<and>
      unpark_one k cb now (store s) b e = Some (Inr (r, S', b', snd (cb r e))) \<and> store s w = Some td \<and>
      (\<forall>u. map_option sight (S' u) = (if u = w then Some (key td, unpark_lock (parker td), fst (cb r e), owned td) else seen s u))"
proof -
  note f = in_bucket[OF assms(1,2)]
  let ?xs = "q (bucket_at k (tables s ! n))"
  note bl = table_bucket(1)[OF f(2,6), folded b_def]
  show "unpark_one k cb now (store s) b e = Some (Inr (unpark_result_default, store s, b, snd (cb unpark_result_default e)))"
    if "waiting_of s q k = []"
    using that by (intro unpark_one_none[OF bl]) (simp add: f(11) filter_empty_conv)
  assume "waiting_of s q k = w # ws"
  then obtain ys zs where x: "?xs = ys @ w # zs" "\<forall>y \<in> set ys. \<not> waits_on (store s) k y" "waits_on (store s) k w"
    "ws = filter (waits_on (store s) k) zs"
    by (auto simp: f(11) filter_eq_Cons_iff)
  obtain fr ft where st: "should_timeout now (fair b) = (fr, ft)" by fastforce
  define r where "r = unpark_result_default\<lparr>have_more_threads := list_ex (waits_on (store s) k) zs, unparked_threads := 1, be_fair := fr\<rparr>"
  have more: "list_ex (waits_on (store s) k) zs \<longleftrightarrow> ws \<noteq> []" by (auto simp: x(4) list_ex_iff filter_empty_conv)
  obtain tok e' where cb: "cb r e = (tok, e')" by fastforce
  obtain S' b' where u: "unpark_one k cb now (store s) b e = Some (Inr (r, S', b', e'))"
    using unpark_one_found[where callback = cb and e = e, OF bl[unfolded x(1)] x(3,2) st r_def cb] by blast
  have "unpark_find (store s) k Head_link null (queue_head b) =
      Some (Inr (Some (if ys = [] then Head_link else Next_link (last ys), if ys = [] then null else last ys, w)))"
    using bl x by (subst unpark_find_list[of _ _ ?xs]) (auto simp: bucket_list_def extract_append_Cons)
  note sg = unpark_one_sights[OF u this]
  obtain td where "store s w = Some td" using x(3) by (auto simp: waits_on_def)
  then show "\<exists>fr r S' b' td.
      r = unpark_result_default\<lparr>have_more_threads := ws \<noteq> [], unparked_threads := 1, be_fair := fr\<rparr> \<and>
      unpark_one k cb now (store s) b e = Some (Inr (r, S', b', snd (cb r e))) \<and> store s w = Some td \<and>
      (\<forall>u. map_option sight (S' u) = (if u = w then Some (key td, unpark_lock (parker td), fst (cb r e), owned td) else seen s u))"
    using u sg cb r_def more by (intro exI[of _ fr] exI[of _ r] exI[of _ S'] exI[of _ b'] exI[of _ td]) (simp add: seen_def)
qed

section \<open>Resources\<close>

lemma bucket_list_owned:
  "bucket_list (S(t := map_option (owned_update f) (S t))) b xs \<longleftrightarrow> bucket_list S b xs"
proof -
  have "next_of (S(t := map_option (owned_update f) (S t))) = next_of S" by (auto simp: next_of_def fun_eq_iff split: option.splits)
  moreover have "dom (S(t := map_option (owned_update f) (S t))) = dom S" by auto
  ultimately show ?thesis by (simp only: bucket_list_def)
qed

lemma lot_at_owned:
  fixes t :: ptr and f :: "resources \<Rightarrow> resources"
  assumes "lot_at q s"
  defines "S' \<equiv> (store s)(t := map_option (owned_update f) (store s t))"
  shows "lot_at q (s\<lparr>store := S'\<rparr>)" "waiting_of (s\<lparr>store := S'\<rparr>) q = waiting_of s q"
proof -
  have k: "map_option key (S' u) = map_option key (store s u)" for u by (cases "store s u") (auto simp: S'_def)
  have a: "awaiting S' u = awaiting (store s) u" for u by (intro awaiting_cong) (cases "store s u"; auto simp: S'_def)
  have n: "S' u = None \<longleftrightarrow> store s u = None" for u by (auto simp: S'_def)
  have "table_ok S' tab q \<longleftrightarrow> table_ok (store s) tab q" for tab
    using slot_key[of S' _ "store s", OF k] by (simp add: table_ok_def table_rep_def S'_def bucket_list_owned)
  moreover have "pc_ok B H S' u pc \<longleftrightarrow> pc_ok B H (store s) u pc" for B H u pc by (simp add: pc_ok_def k n)
  ultimately show "lot_at q (s\<lparr>store := S'\<rparr>)" using assms(1) a by (simp add: lot_at_def inv_pcs_def inv_queues_def shape_def)
  show "waiting_of (s\<lparr>store := S'\<rparr>) q = waiting_of s q"
    using filter_waits_cong[of _ S' "store s", OF k] by (simp add: waiting_of_def fun_eq_iff split: option.split)
qed

end
