(* ===== verification/Mutex_Lot_Sim.thy ===== *)
theory Mutex_Lot_Sim
  imports Mutex_Lot Lot_Frame Mutex_Safety
begin

text \<open>
  Every mutex of \<open>Mutex_Lot\<close> runs as \<open>Raw_Mutex\<close> says. \<open>mutex_view a\<close> forgets the other mutexes and the table, and sees of the lot only
  the queue of key \<open>a\<close>. A step of the composed system is, in the view of each mutex, no step or a few steps of \<open>lock_unlock\<close>:
  the section under the bucket lock, which is one step of the lot, is the sequence of steps that \<open>Raw_Mutex\<close> has for it.
\<close>

section \<open>The view of one mutex\<close>

definition by_tid :: "'a \<Rightarrow> (ptr \<Rightarrow> 'a) \<Rightarrow> tid \<Rightarrow> 'a" where
  "by_tid d f n = (if n < 2 ^ 64 then f (word_of_nat n) else d)"

lemma unat_below: "unat (t :: ptr) < 2 ^ 64"
proof -
  have "unat t < 2 ^ LENGTH(64)" by (rule unsigned_less)
  then show ?thesis by simp
qed

lemma by_tid_unat [simp]: "by_tid d f (unat t) = f t"
  using unat_below[of t] by (simp add: by_tid_def)

lemma tid_word: "n < 2 ^ 64 \<Longrightarrow> (word_of_nat n :: ptr) = t \<longleftrightarrow> n = unat t"
  by (auto simp: unsigned_of_nat take_bit_nat_eq_self)

lemma by_tid_upd [simp]: "by_tid d (f(t := x)) = (by_tid d f)(unat t := x)"
  using unat_below[of t] tid_word[of _ t] by (auto simp: by_tid_def fun_eq_iff)

type_synonym sighting = "(usize \<times> thread_parker \<times> unpark_token \<times> resources) option"

definition sleep_pc :: "spin_wait \<Rightarrow> sighting \<Rightarrow> mpc" where
  "sleep_pc w x = (case x of None \<Rightarrow> Parked w | Some (k, p, tok, rs) \<Rightarrow> if park_returns p then Woken w tok else Parked w)"

fun park_pc :: "spin_wait \<Rightarrow> phase \<Rightarrow> sighting \<Rightarrow> mpc" where
  "park_pc w (Before op) x = Park_call w"
| "park_pc w (Asleep b) x = sleep_pc w x"
| "park_pc w (After r) x = park_returned w r"
| "park_pc w Away x = Park_call w"

fun unpark_pc :: "phase \<Rightarrow> mpc" where
  "unpark_pc (After r) = Idle"
| "unpark_pc _ = Unpark_call"

definition call_pc :: "mpc \<Rightarrow> phase \<Rightarrow> sighting \<Rightarrow> mpc" where
  "call_pc pc ph x = (case pc of Parked w \<Rightarrow> park_pc w ph x | Unpark_scan \<Rightarrow> unpark_pc ph | _ \<Rightarrow> pc)"

fun view_of :: "usize \<Rightarrow> usize set \<Rightarrow> (usize \<times> mpc) option \<Rightarrow> phase \<Rightarrow> sighting \<Rightarrow> mpc" where
  "view_of a G None ph x = (if a \<in> G then Held else Idle)"
| "view_of a G (Some (b, pc)) ph x = (if b = a then call_pc pc ph x else if a \<in> G then Held else Idle)"

definition view_pc :: "usize \<Rightarrow> mutexes \<Rightarrow> ptr \<Rightarrow> mpc" where
  "view_pc a c t = view_of a (guards c t) (calls c t) (phase_of (lpcs (the_lot c) t)) (seen (the_lot c) t)"

definition rsc :: "sighting \<Rightarrow> resources" where
  "rsc x = (case x of None \<Rightarrow> [] | Some (k, p, tok, rs) \<Rightarrow> rs)"

lemma rsc_simps [simp]: "rsc None = []" "rsc (Some (k, p, tok, rs)) = rs"
  by (simp_all add: rsc_def)

definition view_res :: "usize \<Rightarrow> mutexes \<Rightarrow> ptr \<Rightarrow> resources" where
  "view_res a c t = filter ((=) a) (rsc (seen (the_lot c) t))"

definition mutex_view :: "usize \<Rightarrow> ptr list \<Rightarrow> mutexes \<Rightarrow> mutex_sys" where
  "mutex_view a ws c =
    \<lparr>state = bytes c a, bucket_holder = None, waiters = map unat ws,
     pcs = by_tid Idle (view_pc a c), res = by_tid [] (view_res a c)\<rparr>"

lemma mutex_view_sel [simp]:
  "state (mutex_view a ws c) = bytes c a" "bucket_holder (mutex_view a ws c) = None" "waiters (mutex_view a ws c) = map unat ws"
  "pcs (mutex_view a ws c) (unat t) = view_pc a c t" "res (mutex_view a ws c) (unat t) = view_res a c t"
  by (simp_all add: mutex_view_def)

lemma view_state [simp]: "(mutex_view a ws c)\<lparr>state := bytes c a\<rparr> = mutex_view a ws c"
  by (simp add: mutex_view_def)

lemma bytes_same: "c\<lparr>bytes := (bytes c)(a := bytes c a)\<rparr> = c"
  by (cases c) simp

lemma mutex_view_init: "mutex_view a [] mutexes_init = mutex_init"
  by (simp add: mutex_view_def mutexes_init_def mutex_init_def view_pc_def view_res_def by_tid_def lot_init_def seen_def fun_eq_iff)

section \<open>A bucket section in steps of the mutex\<close>

abbreviation runs :: "usize \<Rightarrow> mutex_sys \<Rightarrow> mutex_sys \<Rightarrow> bool" where
  "runs a \<equiv> (lock_unlock a)\<^sup>*\<^sup>*"

lemma runs_step: "run_step a sp fr t m = Some m' \<Longrightarrow> runs a m m'"
  using lock_unlock.intros[of a "Run sp fr" t m m'] by auto

lemma runs_then: "run_step a sp fr t m = Some m' \<Longrightarrow> runs a m' m'' \<Longrightarrow> runs a m m''"
  using runs_step rtranclp_trans by metis

lemma goto_goto [simp]: "goto t pc (goto t pc' m) = goto t pc m"
  by (simp add: goto_def)

lemma drop_holder: "bucket_holder m = None \<Longrightarrow> m\<lparr>bucket_holder := None\<rparr> = m"
  by (cases m) simp

lemma runs_invalid:
  assumes "bucket_holder m = None" "pcs m t = Park_call w" "\<not> validate (state m)"
  shows "runs a m (goto t (relock w) m)"
proof -
  let ?m = "goto t (Park_validate w) (m\<lparr>bucket_holder := Some t\<rparr>)"
  have "run_step a False False t m = Some ?m" using assms by (simp add: run_step_def lock_bucket_step_def)
  moreover have "run_step a False False t ?m = Some (goto t (relock w) m)"
    using assms by (cases m) (simp add: run_step_def park_validate_step_def goto_def)
  ultimately show ?thesis using runs_step runs_then by metis
qed

lemma runs_park:
  assumes "bucket_holder m = None" "pcs m t = Park_call w" "validate (state m)"
  shows "runs a m (goto t (Parked w) (m\<lparr>waiters := waiters m @ [t]\<rparr>))"
proof -
  let ?m = "goto t (Park_validate w) (m\<lparr>bucket_holder := Some t\<rparr>)" and ?n = "goto t (Park_append w) (m\<lparr>bucket_holder := Some t\<rparr>)"
  have "run_step a False False t m = Some ?m" using assms by (simp add: run_step_def lock_bucket_step_def)
  moreover have "run_step a False False t ?m = Some ?n"
    using assms by (simp add: run_step_def park_validate_step_def goto_def)
  moreover have "run_step a False False t ?n = Some (goto t (Parked w) (m\<lparr>waiters := waiters m @ [t]\<rparr>))"
    using assms by (cases m) (simp add: run_step_def park_append_step_def goto_def)
  ultimately show ?thesis using runs_step runs_then by metis
qed

lemma runs_unpark_none:
  assumes "bucket_holder m = None" "pcs m t = Unpark_call" "waiters m = []"
  shows "runs a m (goto t Idle (m\<lparr>state := snd (unlock_cb unpark_result_default (state m))\<rparr>))"
proof -
  let ?m = "goto t Unpark_scan (m\<lparr>bucket_holder := Some t\<rparr>)" and ?n = "goto t Unpark_callback_none (m\<lparr>bucket_holder := Some t\<rparr>)"
  have "run_step a False False t m = Some ?m" using assms by (simp add: run_step_def lock_bucket_step_def)
  moreover have "run_step a False False t ?m = Some ?n"
    using assms by (simp add: run_step_def unpark_scan_step_def list_unpark_all goto_def)
  moreover have "run_step a False False t ?n = Some (goto t Idle (m\<lparr>state := snd (unlock_cb unpark_result_default (state m))\<rparr>))"
    using assms by (cases m) (simp add: run_step_def unpark_none_step_def goto_def)
  ultimately show ?thesis using runs_step runs_then by metis
qed

lemma runs_unpark:
  assumes "bucket_holder m = None" "pcs m t = Unpark_call" "waiters m = v # vs" "pcs m v = Parked w" "v \<noteq> t"
    and r: "r = unpark_result_default\<lparr>have_more_threads := vs \<noteq> [], unparked_threads := 1, be_fair := fr\<rparr>"
    and cb: "unlock_cb r (state m) = (tok, st)"
  shows "runs a m (goto t Idle (goto v (Woken w tok) (m\<lparr>state := st, waiters := vs\<rparr>)))"
proof -
  let ?h = "m\<lparr>bucket_holder := Some t\<rparr>"
  let ?m = "goto t Unpark_scan ?h" and ?n = "goto t (Unpark_callback v r) (?h\<lparr>waiters := vs\<rparr>)"
  let ?k = "goto t (Unpark_wake v tok) (?h\<lparr>state := st, waiters := vs\<rparr>)"
  have "run_step a False False t m = Some ?m" using assms by (simp add: run_step_def lock_bucket_step_def)
  moreover have "run_step a False fr t ?m = Some ?n"
    using assms by (simp add: run_step_def unpark_scan_step_def list_unpark_all goto_def)
  moreover have "run_step a False False t ?n = Some ?k"
    using cb by (simp add: run_step_def unpark_callback_step_def goto_def)
  moreover have "run_step a False False t ?k = Some (goto t Idle (goto v (Woken w tok) (m\<lparr>state := st, waiters := vs\<rparr>)))"
    using assms(1,4,5) by (cases m) (simp add: run_step_def unpark_wake_step_def goto_def)
  ultimately show ?thesis using runs_step runs_then by metis
qed

section \<open>Invariant\<close>

text \<open>The position of a thread in its call agrees with its position in the lot, and its resources are the mutexes it holds.\<close>

definition ready :: "lpc \<Rightarrow> bool" where
  "ready pc \<longleftrightarrow> (\<exists>r. pc = L_ready r)"

definition resting :: "lpc \<Rightarrow> bool" where
  "resting pc \<longleftrightarrow> pc = L_new \<or> ready pc"

lemma ready_simps [simp]: "ready (L_ready r)" "\<not> ready L_new" "resting (L_ready r)" "resting L_new"
  by (auto simp: ready_def resting_def)

lemma resting_away: "resting pc \<Longrightarrow> phase_of pc = Away \<or> ready pc" "ready pc \<Longrightarrow> resting pc"
  by (auto simp: resting_def)

fun roams :: "mpc \<Rightarrow> lpc \<Rightarrow> bool" where
  "roams Lock_fast pc = resting pc"
| "roams (Slow_load w) pc = resting pc"
| "roams (Slow_top w st) pc = resting pc"
| "roams (Park_call w) pc = (phase_of pc = Away \<or> ready pc)"
| "roams (Woken w tok) pc = resting pc"
| "roams Acquired pc = (phase_of pc = Away \<or> ready pc)"
| "roams Unlock_cas pc = ready pc"
| "roams Unpark_call pc = ready pc"
| "roams _ pc = False"

fun parking_ok :: "usize \<Rightarrow> phase \<Rightarrow> sighting \<Rightarrow> bool" where
  "parking_ok a (Before op) x = (op = Op_park a DEFAULT_PARK_TOKEN False)"
| "parking_ok a (Asleep b) x = (\<not> b \<and> (\<exists>p tok rs. x = Some (a, p, tok, rs)))"
| "parking_ok a (After r) x = (\<exists>y. r = Some y \<and> y \<noteq> TimedOut)"
| "parking_ok a Away x = False"

definition at_ok :: "usize \<Rightarrow> mpc \<Rightarrow> lpc \<Rightarrow> sighting \<Rightarrow> bool" where
  "at_ok a at pc x =
    (case at of
       Parked w \<Rightarrow> parking_ok a (phase_of pc) x
     | Unpark_scan \<Rightarrow> phase_of pc = Before (Op_unpark a) \<or> phase_of pc = After None
     | _ \<Rightarrow> roams at pc)"

definition tracks :: "usize set \<Rightarrow> resources \<Rightarrow> bool" where
  "tracks G rs \<longleftrightarrow> (\<forall>b. count (mset rs) b = (if b \<in> G then 1 else 0))"

definition call_ok :: "usize set \<Rightarrow> (usize \<times> mpc) option \<Rightarrow> lpc \<Rightarrow> sighting \<Rightarrow> bool" where
  "call_ok G y pc x \<longleftrightarrow> (G \<noteq> {} \<longrightarrow> phase_of pc \<noteq> Away) \<and> tracks G (rsc x) \<and>
    (case y of None \<Rightarrow> resting pc | Some (a, at) \<Rightarrow> a \<notin> G \<and> at_ok a at pc x)"

definition mutexes_at :: "(nat \<Rightarrow> ptr list) \<Rightarrow> mutexes \<Rightarrow> bool" where
  "mutexes_at q c \<longleftrightarrow> lot_at q (the_lot c) \<and>
    (\<forall>t. call_ok (guards c t) (calls c t) (lpcs (the_lot c) t) (seen (the_lot c) t))"

definition simulates :: "(nat \<Rightarrow> ptr list) \<Rightarrow> mutexes \<Rightarrow> (nat \<Rightarrow> ptr list) \<Rightarrow> mutexes \<Rightarrow> bool" where
  "simulates q c q' c' \<longleftrightarrow> mutexes_at q' c' \<and>
    (\<forall>a. runs a (mutex_view a (waiting_of (the_lot c) q a) c) (mutex_view a (waiting_of (the_lot c') q' a) c'))"

definition good :: "(nat \<Rightarrow> ptr list) \<Rightarrow> mutexes \<Rightarrow> mutexes outcome option \<Rightarrow> bool" where
  "good q c r \<longleftrightarrow>
    (case r of
       None \<Rightarrow> True
     | Some (Inl f) \<Rightarrow> False
     | Some (Inr c') \<Rightarrow> unat (num_threads (the_lot c')) < 2 ^ 29 \<longrightarrow> (\<exists>q'. simulates q c q' c'))"

lemma good_simps [simp]:
  "good q c None" "\<not> good q c (Some (Inl f))"
  "good q c (Some (Inr c')) \<longleftrightarrow> (unat (num_threads (the_lot c')) < 2 ^ 29 \<longrightarrow> (\<exists>q'. simulates q c q' c'))"
  by (simp_all add: good_def)

lemma mutexes_atD:
  assumes "mutexes_at q c"
  shows "lot_at q (the_lot c)" "call_ok (guards c t) (calls c t) (lpcs (the_lot c) t) (seen (the_lot c) t)"
  using assms by (simp_all add: mutexes_at_def)

lemma mutexes_at_init: "mutexes_at q mutexes_init"
  by (simp add: mutexes_at_def mutexes_init_def lot_at_init call_ok_def) (simp add: lot_init_def seen_def tracks_def)

section \<open>One thread moves\<close>

definition moved :: "ptr \<Rightarrow> mutexes \<Rightarrow> mutexes \<Rightarrow> bool" where
  "moved t c c' \<longleftrightarrow> untouched t (the_lot c) (the_lot c') \<and>
    (\<forall>u. u \<noteq> t \<longrightarrow> calls c' u = calls c u \<and> guards c' u = guards c u)"

lemma view_cong:
  assumes "calls c' u = calls c u" "guards c' u = guards c u" "lpcs (the_lot c') u = lpcs (the_lot c) u"
    "seen (the_lot c') u = seen (the_lot c) u"
  shows "view_pc b c' u = view_pc b c u" "view_res b c' u = view_res b c u"
  by (simp_all add: view_pc_def view_res_def assms)

lemma view_moved:
  assumes "moved t c c'"
  shows "mutex_view b ws' c' =
    goto (unat t) (view_pc b c' t) ((mutex_view b ws c)\<lparr>state := bytes c' b, waiters := map unat ws',
      res := (res (mutex_view b ws c))(unat t := view_res b c' t)\<rparr>)"
proof -
  have "view_pc b c' u = view_pc b c u \<and> view_res b c' u = view_res b c u" if "u \<noteq> t" for u
    using assms that view_cong[of c' u c b] by (simp add: moved_def untouched_def)
  then have "view_pc b c' = (view_pc b c)(t := view_pc b c' t)" "view_res b c' = (view_res b c)(t := view_res b c' t)"
    by (simp_all add: fun_eq_iff)
  then have "by_tid Idle (view_pc b c') = (by_tid Idle (view_pc b c))(unat t := view_pc b c' t)"
    "by_tid [] (view_res b c') = (by_tid [] (view_res b c))(unat t := view_res b c' t)"
    by (metis by_tid_upd)+
  then show ?thesis by (simp add: mutex_view_def goto_def)
qed

lemma view_goto:
  assumes "moved t c c'" "view_res b c' t = view_res b c t"
  shows "mutex_view b ws' c' =
    goto (unat t) (view_pc b c' t) ((mutex_view b ws c)\<lparr>state := bytes c' b, waiters := map unat ws'\<rparr>)"
proof -
  have "(res (mutex_view b ws c))(unat t := view_res b c t) = res (mutex_view b ws c)" by (metis fun_upd_triv mutex_view_sel(5))
  then show ?thesis by (simp add: view_moved[OF assms(1), where ws = ws] assms(2))
qed

lemma view_still:
  assumes "moved t c c'" "bytes c' b = bytes c b" "view_pc b c' t = view_pc b c t" "view_res b c' t = view_res b c t"
  shows "mutex_view b ws c' = mutex_view b ws c"
proof -
  have "(by_tid Idle (view_pc b c))(unat t := view_pc b c t) = by_tid Idle (view_pc b c)"
    "(by_tid [] (view_res b c))(unat t := view_res b c t) = by_tid [] (view_res b c)"
    by (metis by_tid_unat fun_upd_triv)+
  then show ?thesis using assms(2-4) by (simp add: view_moved[OF assms(1), where ws = ws]) (simp add: mutex_view_def goto_def)
qed

lemma mutexes_at_moved:
  assumes "mutexes_at q c" "moved t c c'" "lot_at q' (the_lot c')"
    "call_ok (guards c' t) (calls c' t) (lpcs (the_lot c') t) (seen (the_lot c') t)"
  shows "mutexes_at q' c'"
proof -
  have "call_ok (guards c' u) (calls c' u) (lpcs (the_lot c') u) (seen (the_lot c') u)" for u
    using assms(2,4) mutexes_atD(2)[OF assms(1), of u] by (cases "u = t") (simp_all add: moved_def untouched_def)
  then show ?thesis using assms(3) by (simp add: mutexes_at_def)
qed

text \<open>A thread works on one mutex at a time: the others see nothing of its step.\<close>

definition works_on :: "usize \<Rightarrow> (usize \<times> mpc) option \<Rightarrow> bool" where
  "works_on a y \<longleftrightarrow> (\<forall>b pc. y = Some (b, pc) \<longrightarrow> b = a)"

lemma works_on_simps [simp]: "works_on a None" "works_on a (Some (b, pc)) \<longleftrightarrow> b = a"
  by (auto simp: works_on_def)

lemma view_other:
  assumes "works_on a (calls c t)" "works_on a (calls c' t)" "b \<noteq> a" "b \<in> guards c' t \<longleftrightarrow> b \<in> guards c t"
  shows "view_pc b c' t = view_pc b c t"
  using assms by (cases "calls c t"; cases "calls c' t") (auto simp: view_pc_def works_on_def)

lemma simulates_moved:
  assumes "mutexes_at q c" "moved t c c'" "lot_at q' (the_lot c')"
    "call_ok (guards c' t) (calls c' t) (lpcs (the_lot c') t) (seen (the_lot c') t)"
    "works_on a (calls c t)" "works_on a (calls c' t)"
    and o: "\<And>b. b \<noteq> a \<Longrightarrow> bytes c' b = bytes c b \<and> (b \<in> guards c' t \<longleftrightarrow> b \<in> guards c t) \<and> view_res b c' t = view_res b c t \<and>
      waiting_of (the_lot c') q' b = waiting_of (the_lot c) q b"
    and a: "runs a (mutex_view a (waiting_of (the_lot c) q a) c) (mutex_view a (waiting_of (the_lot c') q' a) c')"
  shows "simulates q c q' c'"
proof -
  have "runs b (mutex_view b (waiting_of (the_lot c) q b) c) (mutex_view b (waiting_of (the_lot c') q' b) c')" for b
  proof (cases "b = a")
    case False
    then have "mutex_view b (waiting_of (the_lot c') q' b) c' = mutex_view b (waiting_of (the_lot c) q b) c"
      using o[of b] view_other[OF assms(5,6) False] view_still[OF assms(2)] by simp
    then show ?thesis by simp
  qed (simp add: a)
  then show ?thesis using mutexes_at_moved[OF assms(1-4)] by (simp add: simulates_def)
qed

section \<open>Steps on the state byte\<close>

lemma set_call_sel [simp]:
  "the_lot (set_call t x c) = the_lot c" "bytes (set_call t x c) = bytes c" "calls (set_call t x c) = (calls c)(t := x)"
  "guards (set_call t x c) = guards c"
  by (simp_all add: set_call_def)

lemma view_res_lot: "the_lot c' = the_lot c \<Longrightarrow> view_res b c' u = view_res b c u"
  by (simp add: view_res_def)

text \<open>A step that changes only the byte and the position of the call.\<close>

lemma good_call:
  assumes "mutexes_at q c" "works_on a (calls c t)" "works_on a y"
    "call_ok (guards c t) y (lpcs (the_lot c) t) (seen (the_lot c) t)"
    and a: "\<And>ws. runs a (mutex_view a ws c)
      (goto (unat t) (view_pc a (set_call t y c) t) ((mutex_view a ws c)\<lparr>state := st\<rparr>))"
  shows "good q c (Some (Inr (set_call t y (c\<lparr>bytes := (bytes c)(a := st)\<rparr>))))"
proof -
  let ?c = "set_call t y (c\<lparr>bytes := (bytes c)(a := st)\<rparr>)"
  have m: "moved t c ?c" by (simp add: moved_def)
  have v: "view_pc a ?c t = view_pc a (set_call t y c) t" by (simp add: view_pc_def)
  have "simulates q c q ?c"
  proof (intro simulates_moved[OF assms(1) m, where a = a])
    show "runs a (mutex_view a (waiting_of (the_lot c) q a) c) (mutex_view a (waiting_of (the_lot ?c) q a) ?c)"
      using a[of "waiting_of (the_lot c) q a"] view_res_lot[of ?c c a t]
      by (simp add: view_goto[OF m, where ws = "waiting_of (the_lot c) q a"] v) (simp add: mutex_view_def)
  qed (use assms(2-4) mutexes_atD(1)[OF assms(1)] in \<open>simp_all add: view_res_def\<close>)
  then show ?thesis by auto
qed

text \<open>The positions whose step is an access to the byte.\<close>

fun at_byte :: "mpc \<Rightarrow> bool" where
  "at_byte Lock_fast = True"
| "at_byte (Slow_load w) = True"
| "at_byte (Slow_top w st) = True"
| "at_byte (Woken w tok) = True"
| "at_byte Unlock_cas = True"
| "at_byte _ = False"

lemma run_alone:
  assumes "at_byte pc" "pcs m t = pc"
  obtains m' where "run_step a sp fr 0 (alone (state m) pc) = Some m'"
    "run_step a sp fr t m = Some (goto t (pcs m' 0) (m\<lparr>state := state m'\<rparr>))"
proof (cases m)
  case (fields st h ws f r)
  have "\<exists>m'. run_step a sp fr 0 (alone (state m) pc) = Some m' \<and>
      run_step a sp fr t m = Some (goto t (pcs m' 0) (m\<lparr>state := state m'\<rparr>))"
    using assms by (cases pc) (auto simp: fields step_defs alone_def goto_def split: prod.splits)
  then show thesis using that by blast
qed

lemma alone_result:
  assumes "at_byte pc" "roams pc l" "run_step a sp fr 0 (alone st pc) = Some m"
  shows "pcs m 0 = Idle \<or> roams (pcs m 0) l"
  using assms by (cases pc) (auto simp: step_defs alone_def goto_def resting_away split: prod.splits if_splits)

lemma roams_pc: "roams pc l \<Longrightarrow> call_pc pc ph x = pc \<and> (at_ok a pc l x \<longleftrightarrow> roams pc l)"
  by (cases pc) (simp_all add: call_pc_def at_ok_def)

lemma at_byte_ok: "at_byte pc \<Longrightarrow> at_ok a pc l x = roams pc l"
  by (cases pc) (simp_all add: at_ok_def)

lemma byte_good:
  assumes "mutexes_at q c" "calls c t = Some (a, pc)" "at_byte pc"
  shows "good q c (map_option Inr (byte_step sp t a pc c))"
proof -
  note ok = mutexes_atD(2)[OF assms(1), of t]
  have r: "roams pc (lpcs (the_lot c) t)" "a \<notin> guards c t" using ok assms(2,3) by (simp_all add: call_ok_def at_byte_ok)
  have v: "pcs (mutex_view a ws c) (unat t) = pc" for ws using assms(2) roams_pc[OF r(1)] by (simp add: view_pc_def)
  obtain m where m: "run_step a sp False 0 (alone (bytes c a) pc) = Some m"
    using run_alone[OF assms(3) v, of a sp False] by auto
  let ?y = "if pcs m 0 = Idle then None else Some (a, pcs m 0)"
  have res: "pcs m 0 = Idle \<or> roams (pcs m 0) (lpcs (the_lot c) t)" by (rule alone_result[OF assms(3) r(1) m])
  have "good q c (Some (Inr (set_call t ?y (c\<lparr>bytes := (bytes c)(a := state m)\<rparr>))))"
  proof (rule good_call[OF assms(1)])
    show "call_ok (guards c t) ?y (lpcs (the_lot c) t) (seen (the_lot c) t)"
      using ok res r roams_pc assms(2,3) by (cases pc) (auto simp: call_ok_def resting_def)
    have "view_pc a (set_call t ?y c) t = pcs m 0" using res r(2) roams_pc by (auto simp: view_pc_def)
    moreover have "run_step a sp False (unat t) (mutex_view a ws c) = Some (goto (unat t) (pcs m 0) ((mutex_view a ws c)\<lparr>state := state m\<rparr>))"
      for ws
      using run_alone[OF assms(3) v[of ws], of a sp False] m by auto
    ultimately show "runs a (mutex_view a ws c)
      (goto (unat t) (view_pc a (set_call t ?y c) t) ((mutex_view a ws c)\<lparr>state := state m\<rparr>))" for ws
      using runs_step by metis
  qed (use assms(2) in auto)
  then show ?thesis by (simp add: byte_step_def m)
qed

text \<open>The calls and the returns of \<open>park\<close> and \<open>unpark_one\<close>.\<close>

lemma good_set_call:
  assumes "mutexes_at q c" "works_on a (calls c t)" "works_on a y"
    "call_ok (guards c t) y (lpcs (the_lot c) t) (seen (the_lot c) t)" "view_pc a (set_call t y c) t = view_pc a c t"
  shows "good q c (Some (Inr (set_call t y c)))"
proof -
  have "goto (unat t) (view_pc a c t) ((mutex_view a ws c)\<lparr>state := bytes c a\<rparr>) = mutex_view a ws c" for ws
    by (simp add: goto_def mutex_view_def) (metis by_tid_unat fun_upd_triv)
  then show ?thesis using good_call[OF assms(1-4), where st = "bytes c a"] assms(5) by (simp add: bytes_same)
qed

lemma lock_called:
  assumes "mutexes_at q c" "calls c t = None" "a \<notin> guards c t"
  shows "good q c (Some (Inr (set_call t (Some (a, Lock_fast)) c)))"
proof -
  have "pcs (mutex_view a ws c) (unat t) = Idle" for ws using assms(2,3) by (simp add: view_pc_def)
  then have "lock_unlock a (mutex_view a ws c) (goto (unat t) Lock_fast (mutex_view a ws c))" for ws
    using lock_unlock.intros[of a Call_lock "unat t" "mutex_view a ws c"] by auto
  then have "good q c (Some (Inr (set_call t (Some (a, Lock_fast)) (c\<lparr>bytes := (bytes c)(a := bytes c a)\<rparr>))))"
    using mutexes_atD(2)[OF assms(1), of t] assms(2,3)
    by (intro good_call[OF assms(1)]) (auto simp: view_pc_def call_pc_def call_ok_def at_ok_def simp del: good_simps)
  then show ?thesis by (simp only: bytes_same)
qed

end
