(* ===== verification/Mutex_Lot_Steps.thy ===== *)
theory Mutex_Lot_Steps
  imports Mutex_Lot_Sim
begin

text \<open>The steps of the composed system that enter the parking lot, and with them the simulation of every step.\<close>

section \<open>Resources\<close>

lemma tracks_Nil: "tracks {} rs \<longleftrightarrow> rs = []"
  by (auto simp: tracks_def simp flip: mset_zero_iff intro!: multiset_eqI)

lemma tracks_acquire: "tracks G rs \<Longrightarrow> a \<notin> G \<Longrightarrow> tracks (insert a G) (acquire_resource a rs)"
  by (simp add: tracks_def del: count_mset_0_iff)

lemma tracks_release: "tracks G rs \<Longrightarrow> a \<in> G \<Longrightarrow> tracks (G - {a}) (release_resource a rs)"
  by (simp add: tracks_def mset_release del: count_mset_0_iff)

lemma filter_acquire: "filter ((=) b) (acquire_resource a rs) = (if b = a then acquire_resource a (filter ((=) b) rs) else filter ((=) b) rs)"
  by (simp add: acquire_resource_def)

lemma filter_release: "filter ((=) b) (release_resource a rs) = (if b = a then release_resource a (filter ((=) b) rs) else filter ((=) b) rs)"
proof -
  have "set_mset (mset (release_resource a (filter ((=) a) rs))) \<subseteq> {a}" unfolding mset_release by (auto dest: in_diffD)
  then have "filter ((=) a) (release_resource a (filter ((=) a) rs)) = release_resource a (filter ((=) a) rs)"
    by (intro filter_True) auto
  moreover have "filter ((=) a) (release_resource a (filter ((=) a) rs)) = filter ((=) a) (release_resource a rs)"
    unfolding replicate_count_mset_eq_filter_eq[symmetric] by (simp add: mset_release mset_filter)
  moreover have "filter ((=) b) (release_resource a rs) = filter ((=) b) rs" if "b \<noteq> a"
    using that unfolding replicate_count_mset_eq_filter_eq[symmetric] by (simp add: mset_release)
  ultimately show ?thesis by auto
qed

lemma set_resources_sel [simp]:
  "bytes (set_resources f t c) = bytes c" "calls (set_resources f t c) = calls c" "guards (set_resources f t c) = guards c"
  "lpcs (the_lot (set_resources f t c)) = lpcs (the_lot c)" "num_threads (the_lot (set_resources f t c)) = num_threads (the_lot c)"
  by (simp_all add: set_resources_def)

lemma seen_resources:
  "seen (the_lot (set_resources f t c)) u =
    (if u = t then map_option (\<lambda>(k, p, tok, rs). (k, p, tok, f rs)) (seen (the_lot c) t) else seen (the_lot c) u)"
  by (cases "store (the_lot c) t") (auto simp: set_resources_def seen_def sight_def)

lemma lot_at_resources:
  "lot_at q (the_lot c) \<Longrightarrow> lot_at q (the_lot (set_resources f t c)) \<and> waiting_of (the_lot (set_resources f t c)) q = waiting_of (the_lot c) q"
  using lot_at_owned[of q "the_lot c" t f] by (simp add: set_resources_def)

lemma good_resources:
  assumes "mutexes_at q c" "works_on a (calls c t)" "works_on a y" "seen (the_lot c) t = Some (k, p, tok, rs)"
    "call_ok G y (lpcs (the_lot c) t) (Some (k, p, tok, f rs))"
    and o: "\<And>b. b \<noteq> a \<Longrightarrow> filter ((=) b) (f rs) = filter ((=) b) rs \<and> (b \<in> G \<longleftrightarrow> b \<in> guards c t)"
    and a: "\<And>ws. lock_unlock a (mutex_view a ws c) (goto (unat t) (view_of a G y (phase_of (lpcs (the_lot c) t)) (Some (k, p, tok, f rs)))
      ((mutex_view a ws c)\<lparr>res := (res (mutex_view a ws c))(unat t := filter ((=) a) (f rs))\<rparr>))"
  shows "good q c (Some (Inr (set_call t y (set_resources f t (c\<lparr>guards := (guards c)(t := G)\<rparr>)))))"
proof -
  let ?d = "set_resources f t (c\<lparr>guards := (guards c)(t := G)\<rparr>)"
  let ?c = "set_call t y ?d"
  have s: "seen (the_lot ?d) t = Some (k, p, tok, f rs)" using assms(4) by (simp add: seen_resources)
  have l: "lot_at q (the_lot ?d)" "waiting_of (the_lot ?d) q = waiting_of (the_lot c) q"
    using lot_at_resources[of q "c\<lparr>guards := (guards c)(t := G)\<rparr>"] mutexes_atD(1)[OF assms(1)] by simp_all
  have m: "moved t c ?c" by (simp add: moved_def untouched_def seen_resources)
  have "simulates q c q ?c"
  proof (intro simulates_moved[OF assms(1) m, where a = a])
    show "bytes ?c b = bytes c b \<and> (b \<in> guards ?c t \<longleftrightarrow> b \<in> guards c t) \<and> view_res b ?c t = view_res b c t \<and>
      waiting_of (the_lot ?c) q b = waiting_of (the_lot c) q b" if "b \<noteq> a" for b
      using o[OF that] l(2) s assms(4) by (simp add: view_res_def)
    have "view_pc a ?c t = view_of a G y (phase_of (lpcs (the_lot c) t)) (Some (k, p, tok, f rs))" "view_res a ?c t = filter ((=) a) (f rs)"
      using s by (simp_all add: view_pc_def view_res_def)
    then show "runs a (mutex_view a (waiting_of (the_lot c) q a) c) (mutex_view a (waiting_of (the_lot ?c) q a) ?c)"
      using a[of "waiting_of (the_lot c) q a"] l(2)
      by (simp add: view_moved[OF m, where ws = "waiting_of (the_lot c) q a"]) (simp add: mutex_view_def r_into_rtranclp)
  qed (use assms(2,3,5) l(1) s in simp_all)
  then show ?thesis by auto
qed

lemma ready_seen:
  assumes "mutexes_at q c" "ready (lpcs (the_lot c) t)"
  obtains k p tok rs where "seen (the_lot c) t = Some (k, p, tok, rs)"
proof -
  have "store (the_lot c) t \<noteq> None"
    using lot_at_pc[OF mutexes_atD(1)[OF assms(1)], of t] assms(2) by (auto simp: pc_ok_def ready_def)
  then show thesis using that by (auto simp: seen_def sight_def)
qed

lemma acquired_good:
  assumes "mutexes_at q c" "calls c t = Some (a, Acquired)" "ready (lpcs (the_lot c) t)"
  shows "good q c (Some (Inr (set_call t None (set_resources (acquire_resource a) t (c\<lparr>guards := (guards c)(t := insert a (guards c t))\<rparr>)))))"
proof -
  obtain k p tok rs where s: "seen (the_lot c) t = Some (k, p, tok, rs)" by (rule ready_seen[OF assms(1,3)])
  have ok: "a \<notin> guards c t" "tracks (guards c t) rs"
    using mutexes_atD(2)[OF assms(1), of t] assms(2) s by (simp_all add: call_ok_def)
  have "lock_unlock a (mutex_view a ws c) (goto (unat t) Held ((mutex_view a ws c)\<lparr>res := (res (mutex_view a ws c))(unat t := filter ((=) a) (acquire_resource a rs))\<rparr>))" for ws
    using lock_unlock.intros[of a "Run False False" "unat t" "mutex_view a ws c"] assms(2) s
    by (simp add: run_step_def view_pc_def call_pc_def filter_acquire view_res_def)
  then show ?thesis using assms(2,3) ok
    by (intro good_resources[OF assms(1) _ _ s]) (auto simp: call_ok_def filter_acquire ready_def tracks_acquire)
qed

lemma unlock_called:
  assumes "mutexes_at q c" "calls c t = None" "a \<in> guards c t"
  shows "good q c (Some (Inr (set_call t (Some (a, Unlock_cas)) (set_resources (release_resource a) t (c\<lparr>guards := (guards c)(t := guards c t - {a})\<rparr>)))))"
proof -
  note ok = mutexes_atD(2)[OF assms(1), of t]
  have r: "ready (lpcs (the_lot c) t)" using ok assms(2,3) by (auto simp: call_ok_def resting_def)
  obtain k p tok rs where s: "seen (the_lot c) t = Some (k, p, tok, rs)" by (rule ready_seen[OF assms(1) r])
  have "lock_unlock a (mutex_view a ws c) (goto (unat t) Unlock_cas ((mutex_view a ws c)\<lparr>res := (res (mutex_view a ws c))(unat t := filter ((=) a) (release_resource a rs))\<rparr>))" for ws
    using lock_unlock.intros[of a Call_unlock "unat t" "mutex_view a ws c"] assms(2,3) s
    by (simp add: view_pc_def filter_release view_res_def)
  then show ?thesis using assms(2,3) ok r s
    by (intro good_resources[OF assms(1) _ _ s]) (auto simp: call_ok_def filter_release ready_def at_ok_def call_pc_def tracks_release)
qed

section \<open>On the way to the bucket and back\<close>

lemma of_lot_simps [simp]: "of_lot t y c None = None" "of_lot t y c (Some (Inl f)) = Some (Inl f)"
  "of_lot t y c (Some (Inr s)) = Some (Inr (set_call t y (c\<lparr>the_lot := s\<rparr>)))"
  by (simp_all add: of_lot_def)

lemma good_lot:
  fixes c :: mutexes and t :: ptr
  defines "s \<equiv> the_lot c"
  assumes "mutexes_at q c" "works_on a (calls c t)" "works_on a y" "\<And>A. lot_effect x (lpcs s t) t A = A"
    and l: "\<And>s'. lot_step x t s = Some (Inr s') \<Longrightarrow> untouched t s s' \<and> call_ok (guards c t) y (lpcs s' t) (seen s' t) \<and>
      rsc (seen s' t) = rsc (seen s t) \<and> view_of a (guards c t) y (phase_of (lpcs s' t)) (seen s' t) = view_pc a c t"
  shows "good q c (of_lot t y c (lot_step x t s))"
proof (cases "lot_step x t s")
  case (Some r)
  note at = mutexes_atD(1)[OF assms(2)]
  note k = step_keeps[OF at, of x t, folded s_def]
  obtain s' where s': "r = Inr s'" using k Some by (cases r) simp_all
  note l' = l[OF Some[unfolded s']]
  let ?c = "set_call t y (c\<lparr>the_lot := s'\<rparr>)"
  have "\<exists>q'. simulates q c q' ?c" if n: "unat (num_threads s') < 2 ^ 29"
  proof -
    obtain q' where q': "lot_at q' s'" "waiting_of s' q' = waiting_of s q" using k Some s' n assms(5) by auto
    have m: "moved t c ?c" using l' by (simp add: moved_def s_def)
    have v: "view_pc a ?c t = view_pc a c t" "view_res b ?c t = view_res b c t" for b
      using l' by (simp_all add: view_pc_def view_res_def s_def)
    have "mutex_view a (waiting_of (the_lot ?c) q' a) ?c = mutex_view a (waiting_of (the_lot c) q a) c"
      using q'(2) v view_still[OF m] by (simp add: s_def)
    then have "simulates q c q' ?c" using assms(3,4) l' q' v
      by (intro simulates_moved[OF assms(2) m, where a = a]) (simp_all add: s_def)
    then show ?thesis by blast
  qed
  then show ?thesis by (simp add: Some s')
qed simp

lemma rsc_new: "rsc (Some (sight thread_data_new)) = []"
  by (simp add: sight_def thread_data_new_def)

lemma away_seen:
  assumes "mutexes_at q c" "phase_of (lpcs (the_lot c) t) = Away"
  shows "seen (the_lot c) t = None" "guards c t = {}"
proof -
  have "grows (lpcs (the_lot c) t)"
  proof (cases "lpcs (the_lot c) t")
    case (L_out n i r)
    then show ?thesis using assms(2) by (cases r) simp_all
  next
    case (L_table w)
    then show ?thesis using assms(2) by (cases w) simp_all
  next
    case (L_create w)
    then show ?thesis using assms(2) by (cases w) simp_all
  qed (use assms(2) in simp_all)
  then show "seen (the_lot c) t = None" "guards c t = {}"
    using lot_at_pc[OF mutexes_atD(1)[OF assms(1)], of t] mutexes_atD(2)[OF assms(1), of t] assms(2)
    by (auto simp: pc_ok_def seen_def call_ok_def)
qed

lemma register_good:
  assumes "mutexes_at q c" "calls c t = Some (a, pc)" "pc = Acquired \<or> (\<exists>w. pc = Park_call w)" "phase_of (lpcs (the_lot c) t) = Away"
    "x = (if lpcs (the_lot c) t = L_new then L_register else L_run yes tok now)"
  shows "good q c (of_lot t (calls c t) c (lot_step x t (the_lot c)))"
proof (intro good_lot[OF assms(1), where a = a])
  let ?s = "the_lot c"
  note aw = away_seen[OF assms(1,4)] and ok = mutexes_atD(2)[OF assms(1), of t]
  have "passing (lpcs ?s t)" using assms(4) by (cases "lpcs ?s t") simp_all
  then show "lot_effect x (lpcs ?s t) t A = A" for A using assms(5) by (cases "lpcs ?s t") simp_all
  fix s' assume st: "lot_step x t ?s = Some (Inr s')"
  have p: "passes t ?s s'"
  proof (cases "lpcs ?s t = L_new")
    case True
    then show ?thesis using st assms(5)
      by (auto simp: new_step_def Let_def passes_def untouched_def seen_def split: if_splits)
  next
    case False
    then show ?thesis using st assms(5) \<open>passing _\<close> run_passes[OF mutexes_atD(1)[OF assms(1)]] by simp
  qed
  have "phase_of (lpcs s' t) = Away \<and> seen s' t = None \<or> lpcs s' t = L_ready None \<and> seen s' t = Some (sight thread_data_new)"
    using p assms(4) aw(1) by (auto simp: passes_def)
  then show "untouched t ?s s' \<and> call_ok (guards c t) (calls c t) (lpcs s' t) (seen s' t) \<and> rsc (seen s' t) = rsc (seen ?s t) \<and>
      view_of a (guards c t) (calls c t) (phase_of (lpcs s' t)) (seen s' t) = view_pc a c t"
    using p assms(2-4) aw ok roams_pc rsc_new
    by (cases pc) (auto simp: passes_def call_ok_def view_pc_def at_ok_def call_pc_def ready_def)
qed (simp_all add: assms(2))

lemma with_thread_data_good:
  assumes "mutexes_at q c" "calls c t = Some (a, pc)" "pc = Acquired \<or> (\<exists>w. pc = Park_call w)"
    "ready (lpcs (the_lot c) t) \<Longrightarrow> good q c go"
  shows "good q c (with_thread_data now t c go)"
proof -
  have r: "phase_of (lpcs (the_lot c) t) = Away \<or> ready (lpcs (the_lot c) t)"
    using mutexes_atD(2)[OF assms(1), of t] assms(2,3) by (auto simp: call_ok_def at_ok_def)
  show ?thesis
  proof (cases "ready (lpcs (the_lot c) t)")
    case True
    then show ?thesis using assms(4) by (auto simp: with_thread_data_def ready_def)
  next
    case False
    then have "good q c (of_lot t (calls c t) c
        (lot_step (if lpcs (the_lot c) t = L_new then L_register else L_run False DEFAULT_UNPARK_TOKEN now) t (the_lot c)))"
      using register_good[OF assms(1-3)] r by blast
    then show ?thesis using False
      by (cases "lpcs (the_lot c) t") (simp_all add: with_thread_data_def ready_def del: lot_step.simps)
  qed
qed

lemma enter_good:
  assumes "mutexes_at q c" "calls c t = Some (a, pc)" "ready (lpcs (the_lot c) t)"
    "pc = Park_call w \<and> pc' = Parked w \<and> x = L_park a DEFAULT_PARK_TOKEN False \<or> pc = Unpark_call \<and> pc' = Unpark_scan \<and> x = L_unpark a"
  shows "good q c (of_lot t (Some (a, pc')) c (lot_step x t (the_lot c)))"
proof (intro good_lot[OF assms(1), where a = a])
  let ?s = "the_lot c"
  show "lot_effect x (lpcs ?s t) t A = A" for A using assms(4) by auto
  fix s' assume "lot_step x t ?s = Some (Inr s')"
  then show "untouched t ?s s' \<and> call_ok (guards c t) (Some (a, pc')) (lpcs s' t) (seen s' t) \<and> rsc (seen s' t) = rsc (seen ?s t) \<and>
      view_of a (guards c t) (Some (a, pc')) (phase_of (lpcs s' t)) (seen s' t) = view_pc a c t"
    using assms(2-4) mutexes_atD(2)[OF assms(1), of t]
    by (auto simp: call_step_def ready_def call_ok_def at_ok_def view_pc_def call_pc_def)
qed (simp_all add: assms(2))

lemma exit_good:
  assumes "mutexes_at q c" "calls c t = None" "guards c t = {}"
  shows "good q c (of_lot t None c (lot_step L_exit t (the_lot c)))"
proof (intro good_lot[OF assms(1), where a = 0])
  let ?s = "the_lot c"
  note ok = mutexes_atD(2)[OF assms(1), of t]
  then have z: "rsc (seen ?s t) = []" using assms(3) by (simp add: call_ok_def tracks_Nil)
  fix s' assume st: "lot_step L_exit t ?s = Some (Inr s')"
  then obtain r where "lpcs ?s t = L_ready r" by (auto split: lpc.splits)
  then have "untouched t ?s s'" "lpcs s' t = L_new" "seen s' t = None"
    using st by (auto simp: untouched_def seen_def)
  then show "untouched t ?s s' \<and> call_ok (guards c t) None (lpcs s' t) (seen s' t) \<and> rsc (seen s' t) = rsc (seen ?s t) \<and>
      view_of 0 (guards c t) None (phase_of (lpcs s' t)) (seen s' t) = view_pc 0 c t"
    using z ok assms by (simp add: call_ok_def view_pc_def)
qed (simp_all add: assms(2))

text \<open>Inside a call into the lot, outside the bucket section and the sleep.\<close>

lemma passing_good:
  assumes "mutexes_at q c" "calls c t = Some (a, pc)" "pc = Unpark_scan \<or> (\<exists>w. pc = Parked w)" "passing (lpcs (the_lot c) t)"
  shows "good q c (of_lot t (calls c t) c (lot_step (L_run yes tok now) t (the_lot c)))"
proof (intro good_lot[OF assms(1), where a = a])
  let ?s = "the_lot c"
  show "lot_effect (L_run yes tok now) (lpcs ?s t) t A = A" for A using assms(4) by (cases "lpcs ?s t") simp_all
  note ok = mutexes_atD(2)[OF assms(1), of t]
  have na: "phase_of (lpcs ?s t) \<noteq> Away" using ok assms(2,3) by (auto simp: call_ok_def at_ok_def)
  fix s' assume "lot_step (L_run yes tok now) t ?s = Some (Inr s')"
  then have "passes t ?s s'" using run_passes[OF mutexes_atD(1)[OF assms(1)]] assms(4) by simp
  then show "untouched t ?s s' \<and> call_ok (guards c t) (calls c t) (lpcs s' t) (seen s' t) \<and> rsc (seen s' t) = rsc (seen ?s t) \<and>
      view_of a (guards c t) (calls c t) (phase_of (lpcs s' t)) (seen s' t) = view_pc a c t"
    using na ok assms(2,3) by (auto simp: passes_def call_ok_def at_ok_def view_pc_def)
qed (simp_all add: assms(2))

lemma sleep_good:
  assumes "mutexes_at q c" "calls c t = Some (a, Parked w)" "lpcs (the_lot c) t = L_sleep b"
  shows "good q c (of_lot t (calls c t) c (lot_step (L_run yes tok now) t (the_lot c)))"
proof (intro good_lot[OF assms(1), where a = a])
  let ?s = "the_lot c"
  show "lot_effect (L_run yes tok now) (lpcs ?s t) t A = A" for A using assms(3) by simp
  note ok = mutexes_atD(2)[OF assms(1), of t]
  then have b: "\<not> b" using assms(2,3) by (auto simp: call_ok_def at_ok_def)
  fix s' assume "lot_step (L_run yes tok now) t ?s = Some (Inr s')"
  then obtain td where "store ?s t = Some td" "park_returns (parker td)" "s' = lgoto t (L_ready (Some (Unparked (unpark_token td)))) ?s"
    using assms(3) b by (auto simp: lot_run_step_def sleep_step_def split: option.splits if_splits)
  then show "untouched t ?s s' \<and> call_ok (guards c t) (calls c t) (lpcs s' t) (seen s' t) \<and> rsc (seen s' t) = rsc (seen ?s t) \<and>
      view_of a (guards c t) (calls c t) (phase_of (lpcs s' t)) (seen s' t) = view_pc a c t"
    using ok assms(2,3)
    by (auto simp: call_ok_def at_ok_def view_pc_def call_pc_def sleep_pc_def park_returned_def seen_def sight_def)
qed (simp_all add: assms(2))

section \<open>Parking in the bucket\<close>

lemma in_key:
  assumes "mutexes_at q c" "lpcs (the_lot c) t = L_in op k n"
  shows "op = Op_park a tok b \<Longrightarrow> k = a" "op = Op_unpark a \<Longrightarrow> k = a"
  using lot_at_pc[OF mutexes_atD(1)[OF assms(1)], of t] assms(2) by (auto simp: pc_ok_def key_of_def)

lemma park_good:
  assumes "mutexes_at q c" "calls c t = Some (a, Parked w)" "lpcs (the_lot c) t = L_in op k n"
  shows "good q c (of_lot t (calls c t) c (lot_step (L_run (validate (bytes c a)) tok now) t (the_lot c)))"
proof -
  let ?s = "the_lot c" and ?v = "validate (bytes c a)"
  let ?ws = "waiting_of ?s q" and ?r = "lot_step (L_run ?v tok now) t ?s"
  note at = mutexes_atD(1)[OF assms(1)] and ok = mutexes_atD(2)[OF assms(1), of t]
  have op: "op = Op_park a DEFAULT_PARK_TOKEN False" using ok assms(2,3) by (simp add: call_ok_def at_ok_def)
  note k = in_key(1)[OF assms(1,3) op]
  note keeps = step_keeps[OF at, of "L_run ?v tok now" t, unfolded assms(3) op k lot_effect.simps op_effect.simps]
  show ?thesis
  proof (cases ?r)
    case (Some r)
    obtain s' where s': "r = Inr s'" using keeps Some by (cases r) simp_all
    note e = in_park_effect[of ?v tok now a DEFAULT_PARK_TOKEN False a n t ?s s']
    have st: "in_step ?v tok now (Op_park a DEFAULT_PARK_TOKEN False) a n t ?s = Some (Inr s')"
      using Some s' assms(3) op k by (simp add: lot_run_step_def)
    let ?c = "set_call t (calls c t) (c\<lparr>the_lot := s'\<rparr>)"
    have m: "moved t c ?c" using e(1)[OF st] by (simp add: moved_def)
    have "\<exists>q'. simulates q c q' ?c" if n: "unat (num_threads s') < 2 ^ 29"
    proof -
      obtain q' where q': "lot_at q' s'" "waiting_of s' q' = (if ?v then ?ws(a := ?ws a @ [t]) else ?ws)"
        using keeps Some s' n by auto
      have pc: "view_pc a c t = Park_call w" using assms(2,3) by (simp add: view_pc_def call_pc_def)
      have rs: "rsc (seen s' t) = rsc (seen ?s t)"
        and pc': "view_pc a ?c t = (if ?v then Parked w else relock w)"
        and ok': "call_ok (guards c t) (calls c t) (lpcs s' t) (seen s' t)"
        using e(2,3)[OF st] assms(2,3) ok
        by (cases ?v; auto simp: view_pc_def call_pc_def sleep_pc_def park_returned_def seen_def sight_def call_ok_def at_ok_def
            futex_parker.prepare_blocks)+
      have "runs a (mutex_view a (?ws a) c) (mutex_view a (waiting_of s' q' a) ?c)"
        using runs_park[of "mutex_view a (?ws a) c" "unat t" w a] runs_invalid[of "mutex_view a (?ws a) c" "unat t" w a] pc pc' q'(2)
          view_goto[OF m, of a "waiting_of s' q' a" "?ws a"] rs
        by (simp add: view_res_def) (simp add: mutex_view_def)
      then have "simulates q c q' ?c" using q' rs ok' assms(2)
        by (intro simulates_moved[OF assms(1) m, where a = a]) (simp_all add: view_res_def)
      then show ?thesis by blast
    qed
    then show ?thesis by (simp add: Some[unfolded s'] del: lot_step.simps)
  qed (simp del: lot_step.simps)
qed

section \<open>Unparking in the bucket\<close>

lemma parkedish_phase: "parkedish pc \<Longrightarrow> (\<exists>b. phase_of pc = Asleep b) \<or> phase_of pc = Before Op_timeout"
  by (cases pc) (auto split: after.splits)

lemma waiter:
  assumes "mutexes_at q c" "v \<in> set (waiting_of (the_lot c) q a)"
  obtains w p tok rs where "calls c v = Some (a, Parked w)" "phase_of (lpcs (the_lot c) v) = Asleep False"
    "seen (the_lot c) v = Some (a, p, tok, rs)" "\<not> park_returns p"
proof -
  let ?s = "the_lot c"
  note at = mutexes_atD(1)[OF assms(1)] and ok = mutexes_atD(2)[OF assms(1), of v]
  obtain n where n: "HASHTABLE ?s = Some n" "v \<in> set (q (bucket_at a (tables ?s ! n)))" "waits_on (store ?s) a v"
    using assms(2) by (cases "HASHTABLE ?s") (auto simp: waiting_of_def)
  have pa: "parkedish (lpcs ?s v)" "awaiting (store ?s) v"
    using bucket_queued[OF at n(1,2)] lot_atD(4)[OF at] by (simp_all add: inv_queues_def)
  obtain td where td: "store ?s v = Some td" "key td = a" "\<not> park_returns (parker td)"
    using n(3) pa(2) by (auto simp: waits_on_def awaiting_def futex_parker.timed_iff)
  obtain b pc where y: "calls c v = Some (b, pc)" using parkedish_phase[OF pa(1)] ok pa(1) by (cases "calls c v") (auto simp: call_ok_def resting_def ready_def)
  obtain w where w: "pc = Parked w" using parkedish_phase[OF pa(1)] ok y pa(1) by (cases pc) (auto simp: call_ok_def at_ok_def resting_def ready_def)
  have "phase_of (lpcs ?s v) = Asleep False" "b = a"
    using parkedish_phase[OF pa(1)] ok y w td by (auto simp: call_ok_def at_ok_def seen_def sight_def)
  then show thesis using that[of w "parker td" "unpark_token td" "owned td"] y w td by (simp add: seen_def sight_def)
qed

lemma unparks_own:
  assumes "mutexes_at q c" "calls c t = Some (a, Unpark_scan)" "lpcs (the_lot c) t = L_in op k n"
  shows "op = Op_unpark a" "k = a"
proof -
  show "op = Op_unpark a" using mutexes_atD(2)[OF assms(1), of t] assms(2,3) by (simp add: call_ok_def at_ok_def)
  then show "k = a" by (rule in_key(2)[OF assms(1,3)])
qed

lemma bucket_unparked:
  assumes "mutexes_at q c" "calls c t = Some (a, Unpark_scan)" "lpcs (the_lot c) t = L_in op k n"
    and u: "unpark_one a unlock_cb now (store (the_lot c)) (entries (tables (the_lot c) ! n) ! bucket_at a (tables (the_lot c) ! n)) (bytes c a) =
      Some (Inr (r, S, b, st))"
  obtains c' q' where "unlock_in_bucket now t a k n c = Some (Inr c')" "the_lot c' = lgoto t (L_out n (bucket_at a (tables (the_lot c) ! n)) (Return None))
      (set_bucket n (bucket_at a (tables (the_lot c) ! n)) S b (the_lot c))" "bytes c' = (bytes c)(a := st)" "calls c' = calls c" "guards c' = guards c"
    "lot_at q' (the_lot c')" "waiting_of (the_lot c') q' = (waiting_of (the_lot c) q)(a := tl (waiting_of (the_lot c) q a))"
proof -
  let ?s = "the_lot c" let ?i = "bucket_at a (tables ?s ! n)"
  note at = mutexes_atD(1)[OF assms(1)]
  note op = unparks_own(1)[OF assms(1-3)] and k = unparks_own(2)[OF assms(1-3)]
  note f = Lot_Data.in_bucket[OF at assms(3), unfolded k]
  define s' where "s' = lgoto t (L_out n ?i (Return None)) (set_bucket n ?i S b ?s)"
  define c' where "c' = c\<lparr>the_lot := s', bytes := (bytes c)(a := st)\<rparr>"
  let ?tok = "fst (unlock_cb r (bytes c a))"
  have st: "in_step False ?tok now op k n t ?s = Some (Inr s')"
    using unpark_one_answer(2)[OF u, of "()"] by (simp add: in_step_def op k f(4) Let_def s'_def)
  have "num_threads s' = num_threads ?s" by (simp add: s'_def set_bucket_def)
  then obtain q' where "lot_at q' s'" "waiting_of s' q' = (waiting_of ?s q)(a := tl (waiting_of ?s q a))"
    using step_keeps[OF at, of "L_run False ?tok now" t] lot_atD(5)[OF at] st assms(3) op k by (auto simp: lot_run_step_def)
  moreover have "unlock_in_bucket now t a k n c = Some (Inr c')"
    using u by (simp add: unlock_in_bucket_def Let_def k f(4) c'_def s'_def)
  ultimately show thesis using that[of c' q'] by (simp add: c'_def s'_def)
qed

lemma mutex_view_eqI:
  assumes "bytes c' b = bytes c b" "\<And>u. view_pc b c' u = view_pc b c u" "\<And>u. view_res b c' u = view_res b c u"
  shows "mutex_view b ws c' = mutex_view b ws c"
proof -
  have "view_pc b c' = view_pc b c" "view_res b c' = view_res b c" using assms(2,3) by blast+
  then show ?thesis using assms(1) by (simp add: mutex_view_def)
qed

text \<open>The two outcomes of the section: nobody waits, or the first waiter \<open>v\<close> is woken.\<close>

lemma unlock_none:
  assumes "mutexes_at q c" "calls c t = Some (a, Unpark_scan)" "lpcs (the_lot c) t = L_in op k n" "waiting_of (the_lot c) q a = []"
  shows "good q c (unlock_in_bucket now t a k n c)"
proof -
  let ?s = "the_lot c" let ?b = "entries (tables ?s ! n) ! bucket_at a (tables ?s ! n)"
  note at = mutexes_atD(1)[OF assms(1)] and ok = mutexes_atD(2)[OF assms(1), of t]
  note op = unparks_own(1)[OF assms(1-3)] and k = unparks_own(2)[OF assms(1-3)]
  note u = in_unpark_effect(1)[OF at assms(3)[unfolded op k] assms(4), of unlock_cb now "bytes c a"]
  obtain c' q' where c': "unlock_in_bucket now t a k n c = Some (Inr c')"
    "the_lot c' = lgoto t (L_out n (bucket_at a (tables ?s ! n)) (Return None)) (set_bucket n (bucket_at a (tables ?s ! n)) (store ?s) ?b ?s)"
    "bytes c' = (bytes c)(a := snd (unlock_cb unpark_result_default (bytes c a)))" "calls c' = calls c" "guards c' = guards c"
    "lot_at q' (the_lot c')" "waiting_of (the_lot c') q' = (waiting_of ?s q)(a := tl (waiting_of ?s q a))"
    by (rule bucket_unparked[OF assms(1-3) u])
  have sn: "seen (the_lot c') = seen ?s" by (simp add: c'(2) seen_def set_bucket_def fun_eq_iff)
  have m: "moved t c c'" unfolding moved_def untouched_def sn c'(4,5) by (simp add: c'(2) set_bucket_def)
  have rs: "view_res b c' t = view_res b c t" for b by (simp add: view_res_def sn)
  have pc: "view_pc a c t = Unpark_call" "view_pc a c' t = Idle"
    using assms(2,3) op by (simp_all add: view_pc_def call_pc_def c'(2,4,5))
  have "runs a (mutex_view a (waiting_of ?s q a) c) (mutex_view a (waiting_of (the_lot c') q' a) c')"
    using runs_unpark_none[of "mutex_view a (waiting_of ?s q a) c" "unat t" a] pc assms(4)
    by (simp add: view_goto[OF m rs, of a _ "[]"] c'(3,7)) (simp add: mutex_view_def)
  then have "simulates q c q' c'" using assms(2) ok c'(6) rs sn
    by (intro simulates_moved[OF assms(1) m, where a = a]) (simp_all add: c'(3,4,5,7), simp_all add: c'(2) call_ok_def at_ok_def)
  then show ?thesis unfolding c'(1) by auto
qed

lemma unlock_some:
  assumes "mutexes_at q c" "calls c t = Some (a, Unpark_scan)" "lpcs (the_lot c) t = L_in op k n" "waiting_of (the_lot c) q a = v # vs"
  shows "good q c (unlock_in_bucket now t a k n c)"
proof -
  let ?s = "the_lot c" let ?b = "entries (tables ?s ! n) ! bucket_at a (tables ?s ! n)"
  note at = mutexes_atD(1)[OF assms(1)] and ok = mutexes_atD(2)[OF assms(1), of t]
  note op = unparks_own(1)[OF assms(1-3)] and k = unparks_own(2)[OF assms(1-3)]
  obtain w p tk rs where v: "calls c v = Some (a, Parked w)" "phase_of (lpcs ?s v) = Asleep False" "seen ?s v = Some (a, p, tk, rs)" "\<not> park_returns p"
    by (rule waiter[OF assms(1), of v a]) (use assms(4) in simp_all)
  have vt: "v \<noteq> t" using v(1) assms(2) by auto
  then have vt': "unat v \<noteq> unat t" by (metis unsigned_word_eqI)
  obtain fr r S b td where r: "r = unpark_result_default\<lparr>have_more_threads := vs \<noteq> [], unparked_threads := 1, be_fair := fr\<rparr>"
    and u: "unpark_one a unlock_cb now (store ?s) ?b (bytes c a) = Some (Inr (r, S, b, snd (unlock_cb r (bytes c a))))" "store ?s v = Some td"
    "\<forall>u. map_option sight (S u) = (if u = v then Some (key td, unpark_lock (parker td), fst (unlock_cb r (bytes c a)), owned td) else seen ?s u)"
    using in_unpark_effect(2)[OF at assms(3)[unfolded op k] assms(4), of unlock_cb now "bytes c a"] by blast
  obtain c' q' where c': "unlock_in_bucket now t a k n c = Some (Inr c')"
    "the_lot c' = lgoto t (L_out n (bucket_at a (tables ?s ! n)) (Return None)) (set_bucket n (bucket_at a (tables ?s ! n)) S b ?s)"
    "bytes c' = (bytes c)(a := snd (unlock_cb r (bytes c a)))" "calls c' = calls c" "guards c' = guards c"
    "lot_at q' (the_lot c')" "waiting_of (the_lot c') q' = (waiting_of ?s q)(a := tl (waiting_of ?s q a))"
    by (rule bucket_unparked[OF assms(1-3) u(1)])
  let ?tok = "fst (unlock_cb r (bytes c a))"
  have sn: "seen (the_lot c') x = (if x = v then Some (a, unpark_lock p, ?tok, rs) else seen ?s x)" for x
    using u(2,3) v(3) by (simp add: c'(2) seen_def[of "lgoto _ _ _"] set_bucket_def) (simp add: seen_def sight_def)
  have lp: "lpcs (the_lot c') = (lpcs ?s)(t := L_out n (bucket_at a (tables ?s ! n)) (Return None))" by (simp add: c'(2) set_bucket_def)
  have "call_ok (guards c' x) (calls c' x) (lpcs (the_lot c') x) (seen (the_lot c') x)" for x
    using mutexes_atD(2)[OF assms(1), of x] assms(2) v vt by (auto simp: sn lp c'(4,5) call_ok_def at_ok_def)
  then have inv: "mutexes_at q' c'" using c'(6) by (simp add: mutexes_at_def)
  have rs: "view_res b c' x = view_res b c x" for b x using v(3) by (simp add: view_res_def sn)
  have other: "view_pc b c' x = view_pc b c x" if "b \<noteq> a \<or> x \<noteq> t \<and> x \<noteq> v" for b x
    using that assms(2) v(1) by (auto simp: view_pc_def c'(4,5) lp sn)
  have "view_pc a c t = Unpark_call" "view_pc a c' t = Idle" "view_pc a c v = Parked w" "view_pc a c' v = Woken w ?tok"
    using assms(2,3) op v vt by (simp_all add: view_pc_def call_pc_def sleep_pc_def lp sn c'(4,5) futex_parker.unpark_releases)
  moreover from this have "view_pc a c' = (view_pc a c)(v := Woken w ?tok, t := Idle)" using other by (auto simp: fun_eq_iff)
  moreover have "view_res a c' = view_res a c" using rs by blast
  ultimately have "runs a (mutex_view a (waiting_of ?s q a) c) (mutex_view a (waiting_of (the_lot c') q' a) c')"
    using runs_unpark[of "mutex_view a (waiting_of ?s q a) c" "unat t" "unat v" "map unat vs" w r fr ?tok "snd (unlock_cb r (bytes c a))" a] assms(4) vt' r
    by (simp add: c'(3,7)) (simp add: mutex_view_def goto_def c'(3))
  then have "runs d (mutex_view d (waiting_of ?s q d) c) (mutex_view d (waiting_of (the_lot c') q' d) c')" for d
    using mutex_view_eqI[of c' d c] other[of d] rs by (cases "d = a") (simp_all add: c'(3,7))
  then show ?thesis using inv unfolding c'(1) by (auto simp: simulates_def)
qed

section \<open>Every step\<close>

lemma parking_good:
  assumes "mutexes_at q c" "calls c t = Some (a, Parked w)"
  shows "good q c (parking_step now t a w c)"
proof (cases "lpcs (the_lot c) t")
  case (L_ready r)
  have "good q c (Some (Inr (set_call t (Some (a, park_returned w r)) c)))"
    using mutexes_atD(2)[OF assms(1), of t] assms(2) L_ready
    by (intro good_set_call[OF assms(1), where a = a])
      (auto simp: call_ok_def at_ok_def park_returned_def view_pc_def call_pc_def relock_def ready_def split: park_result.splits)
  then show ?thesis by (simp add: parking_step_def L_ready)
qed (use passing_good[OF assms] park_good[OF assms] sleep_good[OF assms] in \<open>simp_all add: parking_step_def del: lot_step.simps\<close>)

lemma unparking_good:
  assumes "mutexes_at q c" "calls c t = Some (a, Unpark_scan)"
  shows "good q c (unparking_step now t a c)"
proof (cases "lpcs (the_lot c) t")
  case (L_ready r)
  have "good q c (Some (Inr (set_call t None c)))"
    using mutexes_atD(2)[OF assms(1), of t] assms(2) L_ready
    by (intro good_set_call[OF assms(1), where a = a]) (auto simp: call_ok_def view_pc_def call_pc_def ready_def)
  then show ?thesis by (simp add: unparking_step_def L_ready)
next
  case (L_in op k n)
  then show ?thesis using unlock_none[OF assms] unlock_some[OF assms]
    by (cases "waiting_of (the_lot c) q a") (simp_all add: unparking_step_def)
next
  case (L_sleep b)
  then show ?thesis using mutexes_atD(2)[OF assms(1), of t] assms(2) by (simp add: call_ok_def at_ok_def)
qed (use passing_good[OF assms] in \<open>simp_all add: unparking_step_def del: lot_step.simps\<close>)

lemma call_run_good:
  assumes "mutexes_at q c" "calls c t = Some (a, pc)"
  shows "good q c (call_run_step sp now t a pc c)"
proof -
  have ok: "at_ok a pc (lpcs (the_lot c) t) (seen (the_lot c) t)" using mutexes_atD(2)[OF assms(1), of t] assms(2) by (simp add: call_ok_def)
  show ?thesis
  proof (cases "at_byte pc")
    case True
    then show ?thesis using byte_good[OF assms True] by (cases pc) (simp_all add: call_run_step_def)
  next
    case False
    then show ?thesis
      using ok assms(2) with_thread_data_good[OF assms] enter_good[OF assms] acquired_good[OF assms(1)]
        parking_good[OF assms(1)] unparking_good[OF assms(1)]
      by (cases pc) (simp_all add: call_run_step_def at_ok_def del: lot_step.simps)
  qed
qed

lemma mutexes_step_good:
  assumes "mutexes_at q c"
  shows "good q c (mutexes_step x t c)"
  using lock_called[OF assms] unlock_called[OF assms] exit_good[OF assms] call_run_good[OF assms]
  by (cases x) (auto split: option.splits simp del: lot_step.simps good_simps(3))

end
