(* ===== verification/Lot_Progress.thy ===== *)
theory Lot_Progress
  imports Lot_Frame
begin

text \<open>
  The parking lot does not deadlock on its own locks. A thread waits inside an operation only for a bucket, the holder of one
  bucket never waits for another, and a thread that grows the table takes the buckets in the order of their numbers.
\<close>

fun working :: "lpc \<Rightarrow> bool" where
  "working L_new = False"
| "working (L_ready r) = False"
| "working (L_sleep w) = False"
| "working _ = True"

fun locking :: "lpc \<Rightarrow> bool" where
  "locking (L_lock op k n) = True"
| "locking (G_lock m n i) = True"
| "locking _ = False"

definition runnable :: "lot_sys \<Rightarrow> ptr \<Rightarrow> bool" where
  "runnable s t \<longleftrightarrow> (\<forall>yes tok now. \<exists>s'. lot_step (L_run yes tok now) t s = Some (Inr s'))"

lemma runnableI:
  assumes "lot_at q s" "\<And>yes tok now. lot_run_step yes tok now t s \<noteq> None"
  shows "runnable s t"
  unfolding runnable_def
proof (intro allI)
  fix yes tok now
  obtain r where "lot_run_step yes tok now t s = Some r" using assms(2)[of yes tok now] by blast
  then show "\<exists>s'. lot_step (L_run yes tok now) t s = Some (Inr s')"
    using step_keeps[OF assms(1), of "L_run yes tok now" t] by (cases r) auto
qed

lemma in_step_runs:
  assumes "lot_at q s" "lpcs s t = L_in op k n"
  shows "in_step yes tok now op k n t s \<noteq> None"
proof (cases op)
  case (Op_park k' ptok w)
  then show ?thesis by (simp add: in_step_def Let_def split: sum.split)
next
  case Op_timeout
  obtain td where td: "store s t = Some td" "key td = k" "t \<in> set (q (bucket_at k (tables s ! n))) \<longleftrightarrow> timed_out (parker td)"
    by (rule timeout_queued[OF assms[unfolded Op_timeout]])
  note f = Lot_Data.in_bucket[OF assms]
  show ?thesis using table_timeout[OF f(2) td(1)] td(3) unfolding td(2) by (auto simp: Op_timeout in_step_def f(4) Let_def)
next
  case (Op_unpark k')
  note f = Lot_Data.in_bucket[OF assms]
  show ?thesis using in_unpark_effect[OF assms[unfolded Op_unpark], where cb = "\<lambda>r e. (tok, e)" and e = "()" and now = now]
    by (cases "waiting_of s q k") (auto simp: Op_unpark in_step_def f(4) Let_def)
qed

lemma publish_runs:
  assumes "lot_at q s" "lpcs s t = G_publish m n"
  shows "publish_step now m n t s \<noteq> None"
proof -
  note pc = lot_at_pc[OF assms(1), of t, unfolded assms(2)]
  have n: "table_ok (store s) (tables s ! n) q" and f: "fits m" using lot_at_table[OF assms(1)] pc by (simp_all add: pc_ok_def)
  obtain t0 S' tab where "hash_table_new m now = Inr t0" "rehash_all (entries (tables s ! n)) (store s) t0 = Some (Inr (S', tab))"
    using rehash_table[OF n, of m now] f unfolding fits_def by blast
  then show ?thesis by (simp add: publish_step_def)
qed

lemma working_runnable:
  assumes "lot_at q s" "working (lpcs s t)" "\<not> locking (lpcs s t)"
  shows "runnable s t"
  using assms(2,3) in_step_runs[OF assms(1)] publish_runs[OF assms(1)]
  by (intro runnableI[OF assms(1)]; cases "lpcs s t") (simp_all add: lot_run_step_def)

text \<open>Whoever holds the bucket that a thread waits for is at work.\<close>

lemma owner_works: "owns B pc n i \<Longrightarrow> working pc \<and> (locking pc \<longrightarrow> (\<exists>m j. pc = G_lock m n j \<and> i < j))"
  by (cases pc) auto

lemma bucket_owner:
  assumes "lot_at q s" "locks s n i = Some u"
  shows "owns (shape s) (lpcs s u) n i"
  using lot_atD(2)[OF assms(1)] assms(2) by (simp add: inv_locks_def)

lemma growing_progress:
  assumes "lot_at q s" "lpcs s t = G_lock m n i"
  shows "\<exists>u. runnable s u"
  using assms(2)
proof (induction "2 ^ (shape s ! n) - i" arbitrary: t m i rule: less_induct)
  case less
  have n: "n < length (tables s)" using lot_at_pc[OF assms(1), of t] less.prems by (simp add: pc_ok_def)
  note g = good_shape[OF assms(1) n]
  show ?case
  proof (cases "i < 2 ^ (shape s ! n) \<and> locks s n i \<noteq> None")
    case True
    then obtain u where "locks s n i = Some u" by auto
    then have o: "working (lpcs s u)" "locking (lpcs s u) \<longrightarrow> (\<exists>m j. lpcs s u = G_lock m n j \<and> i < j)"
      using owner_works[OF bucket_owner[OF assms(1)]] by blast+
    show ?thesis
    proof (cases "locking (lpcs s u)")
      case False
      then show ?thesis using working_runnable[OF assms(1) o(1)] by blast
    next
      case l: True
      then obtain m' j where "lpcs s u = G_lock m' n j" "i < j" using o(2) by blast
      then show ?thesis using less.hyps[of j u m'] True by (auto intro: diff_less_mono2)
    qed
  next
    case False
    then have "runnable s t" using less.prems g
      by (intro runnableI[OF assms(1)]) (auto simp: lot_run_step_def lock_all_step_def acquire_def)
    then show ?thesis by blast
  qed
qed

lemma lot_progress:
  assumes "lot_at q s" "working (lpcs s t)"
  shows "\<exists>u. runnable s u"
proof (cases "\<exists>op k n. lpcs s t = L_lock op k n")
  case True
  then obtain op k n where pc: "lpcs s t = L_lock op k n" by blast
  have n: "n < length (tables s)" using lot_at_pc[OF assms(1), of t] pc by (simp add: pc_ok_def)
  note b = bucket_of_ok[OF assms(1) n, of k]
  let ?i = "unat (hash_raw k (shape s ! n))"
  show ?thesis
  proof (cases "locks s n ?i")
    case None
    then have "runnable s t" by (intro runnableI[OF assms(1)]) (simp add: lot_run_step_def pc lock_step_def b acquire_def)
    then show ?thesis by blast
  next
    case (Some u)
    have o: "working (lpcs s u)" "locking (lpcs s u) \<longrightarrow> (\<exists>m j. lpcs s u = G_lock m n j \<and> ?i < j)"
      using owner_works[OF bucket_owner[OF assms(1) Some]] by blast+
    then show ?thesis using working_runnable[OF assms(1) o(1)] growing_progress[OF assms(1)] by blast
  qed
next
  case False
  then have "\<not> locking (lpcs s t) \<or> (\<exists>m n i. lpcs s t = G_lock m n i)" by (cases "lpcs s t") simp_all
  then show ?thesis using working_runnable[OF assms] growing_progress[OF assms(1)] by blast
qed

text \<open>
  C15. The parking lot never deadlocks: in every reachable state in which some thread is inside an operation and not asleep, be it on its
  way to a bucket, at work in one or growing the table, some thread can take its next step, whatever the callbacks and
  the clock answer, and that step runs without a fault.
\<close>

theorem lot_never_deadlocks:
  assumes "reach (\<lambda>s. s = lot_init) lot_trans s" "working (lpcs s t)"
  shows "\<exists>u. \<forall>yes tok now. \<exists>s'. lot_step (L_run yes tok now) u s = Some (Inr s')"
proof -
  obtain q where "lot_at q s" using lot_runs.reach_inv[OF assms(1)] by (auto simp: lot_inv_def)
  then show ?thesis using lot_progress[of q s t] assms(2) by (simp add: runnable_def)
qed

theorem lot_never_deadlocks_witness:
  "\<exists>u. \<forall>yes tok now. \<exists>s'. lot_step (L_run yes tok now) u lot_demo = Some (Inr s')"
  by (rule lot_never_deadlocks[OF lot_demo_facts(1), of 8]) (simp add: lot_demo_facts(2))

end
