(* ===== verification/Mutex_Lot_Props.thy ===== *)
theory Mutex_Lot_Props
  imports Mutex_Lot_Steps Lot_Progress
begin

text \<open>Mutual exclusion and the other guarantees of the mutexes on the real parking lot, read off the simulation.\<close>

section \<open>Runs\<close>

abbreviation mutexes_reach :: "mutexes \<Rightarrow> bool" where
  "mutexes_reach \<equiv> reach (\<lambda>c. c = mutexes_init) mutexes_trans"

definition mutexes_inv :: "mutexes \<Rightarrow> bool" where
  "mutexes_inv c \<longleftrightarrow> (\<exists>q. mutexes_at q c \<and> calls c null = None \<and>
    (\<forall>a. reach (\<lambda>m. m = mutex_init) (lock_unlock a) (mutex_view a (waiting_of (the_lot c) q a) c)))"

lemma reach_runs: "runs a m m' \<Longrightarrow> reach (\<lambda>m. m = mutex_init) (lock_unlock a) m \<Longrightarrow> reach (\<lambda>m. m = mutex_init) (lock_unlock a) m'"
  by (induction rule: rtranclp_induct) (auto intro: reach_step)

lemma of_lot_calls: "of_lot t y c r = Some (Inr c') \<Longrightarrow> calls c' = (calls c)(t := y)"
  by (auto simp: of_lot_def obind_Inr)

lemma run_calls:
  assumes "call_run_step sp now t a pc c = Some (Inr c')" "u \<noteq> t"
  shows "calls c' u = calls c u"
proof (cases pc)
  case (Park_call w)
  then show ?thesis using assms by (auto simp: call_run_step_def with_thread_data_def simp del: lot_step.simps dest!: of_lot_calls split: lpc.splits)
next
  case (Parked w)
  then show ?thesis using assms by (auto simp: call_run_step_def parking_step_def simp del: lot_step.simps dest!: of_lot_calls split: lpc.splits)
next
  case Acquired
  then show ?thesis using assms by (auto simp: call_run_step_def with_thread_data_def simp del: lot_step.simps dest!: of_lot_calls split: lpc.splits)
next
  case Unpark_scan
  then show ?thesis using assms by (auto simp: call_run_step_def unparking_step_def unlock_in_bucket_def Let_def obind_Inr simp del: lot_step.simps
        dest!: of_lot_calls split: lpc.splits sum.splits)
qed (use assms in \<open>auto simp: call_run_step_def byte_step_def simp del: lot_step.simps dest!: of_lot_calls\<close>)

lemma guard_not_null:
  assumes "mutexes_at q c" "a \<in> guards c t"
  shows "t \<noteq> null"
proof -
  have "lpcs (the_lot c) t \<noteq> L_new" using mutexes_atD(2)[OF assms(1), of t] assms(2) by (auto simp: call_ok_def)
  then show ?thesis using lot_at_pc[OF mutexes_atD(1)[OF assms(1)], of t] by (simp add: pc_ok_def)
qed

lemma step_null:
  assumes "mutexes_at q c" "mutexes_step x t c = Some (Inr c')" "calls c null = None"
  shows "calls c' null = None"
proof (cases x)
  case (Do_run sp now)
  then obtain a pc where "calls c t = Some (a, pc)" "call_run_step sp now t a pc c = Some (Inr c')"
    using assms(2) by (auto split: option.splits)
  then show ?thesis using run_calls[of sp now t a pc c c' null] assms(3) by (cases "t = null") simp_all
qed (use assms guard_not_null in \<open>auto simp del: lot_step.simps dest!: of_lot_calls split: if_splits\<close>)

interpretation mutexes_runs: inductive_invariant "\<lambda>c. c = mutexes_init" mutexes_trans mutexes_inv
proof
  show "mutexes_inv c" if "c = mutexes_init" for c
    using that mutexes_at_init[of "\<lambda>_. []"] mutex_view_init
    by (auto simp: mutexes_inv_def waiting_of_def mutexes_init_def lot_init_def intro!: exI[of _ "\<lambda>_. []"] reach_init)
  show "mutexes_inv c'" if "mutexes_inv c" "mutexes_trans c c'" for c c'
  proof -
    obtain q where q: "mutexes_at q c" "calls c null = None"
      "\<forall>a. reach (\<lambda>m. m = mutex_init) (lock_unlock a) (mutex_view a (waiting_of (the_lot c) q a) c)"
      using \<open>mutexes_inv c\<close> by (auto simp: mutexes_inv_def)
    obtain x t where "mutexes_step x t c = Some (Inr c')" "unat (num_threads (the_lot c')) < 2 ^ 29"
      using \<open>mutexes_trans c c'\<close> by (rule mutexes_trans.cases) blast
    then obtain q' where "simulates q c q' c'" "calls c' null = None" using mutexes_step_good[OF q(1), of x t] step_null[OF q(1) _ q(2)] by auto
    then show ?thesis using q(3) reach_runs unfolding simulates_def mutexes_inv_def by blast
  qed
qed

lemma mutexes_actions_reach: "mutexes_reach c \<Longrightarrow> mutexes_actions xs c = Some (Inr c') \<Longrightarrow> mutexes_reach c'"
proof (induction xs c rule: mutexes_actions.induct)
  case (2 x t xs c)
  then obtain d where "mutexes_step x t c = Some (Inr d)" "unat (num_threads (the_lot d)) < 2 ^ 29" "mutexes_actions xs d = Some (Inr c')"
    by (auto simp del: mutexes_step.simps split: option.splits sum.splits if_splits)
  then show ?case using 2(1)[OF _ refl] reach_step[OF 2(2) mutexes_trans.intros] by simp
qed simp

text \<open>A run for the witnesses: thread 8 locks the mutex at address 5 and registers on the way.\<close>

definition mutexes_run :: "(mutexes_action \<times> ptr) list" where
  "mutexes_run = (let r = (Do_run False 0, 8) in [(Do_lock 5, 8), r, r, r, r, r, r])"

definition mutexes_demo :: mutexes where
  "mutexes_demo = (case mutexes_actions mutexes_run mutexes_init of Some (Inr c) \<Rightarrow> c | _ \<Rightarrow> mutexes_init)"

lemmas mutexes_step_defs = call_run_step_def byte_step_def alone_def run_step_def Raw_Mutex.lock_step_def goto_def set_call_def
  with_thread_data_def of_lot_def set_resources_def

lemma mutexes_run_facts:
  "\<exists>c. mutexes_actions mutexes_run mutexes_init = Some (Inr c) \<and> guards c = (\<lambda>_. {})(8 := {5}) \<and> calls c = (\<lambda>_. None) \<and>
    num_threads (the_lot c) = 1"
  by (rule first_table) (simp add: mutexes_run_def mutexes_init_def mutexes_step_defs lot_init_def lot_step_defs Let_def checked_mul_one
      LOCKED_BIT_def fun_eq_iff)

lemma mutexes_demo_facts:
  "mutexes_reach mutexes_demo" "guards mutexes_demo = (\<lambda>_. {})(8 := {5})" "calls mutexes_demo = (\<lambda>_. None)"
  using mutexes_run_facts mutexes_actions_reach[OF reach_init, of mutexes_init mutexes_run]
  by (auto simp: mutexes_demo_def)





section \<open>Progress\<close>









section \<open>Properties\<close>

lemma guard_held: "mutexes_at q c \<Longrightarrow> a \<in> guards c t \<Longrightarrow> view_pc a c t = Held"
  using mutexes_atD(2)[of q c t] by (cases "calls c t") (auto simp: view_pc_def call_ok_def)

lemma guards_unique:
  assumes "mutexes_inv c" "a \<in> guards c t"
  shows "a \<in> guards c u \<Longrightarrow> u = t" "locked (bytes c a)"
proof -
  obtain q where q: "mutexes_at q c" "reach (\<lambda>m. m = mutex_init) (lock_unlock a) (mutex_view a (waiting_of (the_lot c) q a) c)"
    using assms(1) by (auto simp: mutexes_inv_def)
  note inv = mutex_reach_inv[OF q(2), unfolded mutex_inv_def inv_owner_def]
  have h: "Mutex_Safety.owns (pcs (mutex_view a (waiting_of (the_lot c) q a) c) (unat u))" if "a \<in> guards c u" for u
    using guard_held[OF q(1) that] by simp
  show "u = t" if "a \<in> guards c u" using inv h[OF that] h[OF assms(2)] by (metis unsigned_word_eqI)
  show "locked (bytes c a)" using inv h[OF assms(2)] by (metis mutex_view_sel(1))
qed


text \<open>
  C4. Every mutex on the parking lot is a \<open>RawMutex\<close>. However many threads lock and unlock however many mutexes, while the lot
  registers threads, hashes the keys of all mutexes into common buckets and replaces its table, the state byte, the queue and
  the threads' positions of each mutex are at any time a state that the single mutex of \<open>Raw_Mutex\<close> reaches on its own: what
  is proved of that machine holds for the composed program. And no step of any thread faults, be it a dangling pointer, an overflow or a failed assertion.
\<close>

theorem mutexes_refine_raw_mutex:
  assumes "reach (\<lambda>c. c = mutexes_init) mutexes_trans c"
  shows "(\<exists>A. lot_queues (the_lot c) A \<and> (\<forall>a. reach (\<lambda>m. m = mutex_init) (lock_unlock a) (mutex_view a (A a) c))) \<and>
    (\<forall>x t f. mutexes_step x t c \<noteq> Some (Inl f))"
proof -
  obtain q where q: "mutexes_at q c" "\<forall>a. reach (\<lambda>m. m = mutex_init) (lock_unlock a) (mutex_view a (waiting_of (the_lot c) q a) c)"
    using mutexes_runs.reach_inv[OF assms] by (auto simp: mutexes_inv_def)
  have "mutexes_step x t c \<noteq> Some (Inl f)" for x t f using mutexes_step_good[OF q(1), of x t] by auto
  then show ?thesis using lot_queues_at[OF mutexes_atD(1)[OF q(1)]] q(2) by blast
qed

theorem mutexes_refine_raw_mutex_witness:
  "\<exists>A. lot_queues (the_lot mutexes_demo) A \<and> (\<forall>a. reach (\<lambda>m. m = mutex_init) (lock_unlock a) (mutex_view a (A a) mutexes_demo)) \<and>
    pcs (mutex_view 5 (A 5) mutexes_demo) 8 = Held"
proof -
  have "view_pc 5 mutexes_demo 8 = Held" using mutexes_demo_facts by (simp add: view_pc_def)
  then have "pcs (mutex_view 5 ws mutexes_demo) 8 = Held" for ws using mutex_view_sel(4)[of 5 ws mutexes_demo 8] by simp
  then show ?thesis using mutexes_refine_raw_mutex[OF mutexes_demo_facts(1)] by auto
qed

text \<open>
  C2. Mutual exclusion on the real parking lot: while a thread holds a mutex, no other thread holds it, the locked bit of its state
  byte is set, and the resources recorded for the holder contain its address exactly once.
\<close>

theorem guards_exclusive:
  assumes "reach (\<lambda>c. c = mutexes_init) mutexes_trans c" "a \<in> guards c t"
  shows "(\<forall>u. a \<in> guards c u \<longrightarrow> u = t) \<and> bytes c a AND LOCKED_BIT \<noteq> 0 \<and>
    (\<exists>td. store (the_lot c) t = Some td \<and> count (mset (owned td)) a = 1)"
proof -
  have inv: "mutexes_inv c" by (rule mutexes_runs.reach_inv[OF assms(1)])
  then obtain q where q: "mutexes_at q c" by (auto simp: mutexes_inv_def)
  have "tracks (guards c t) (rsc (seen (the_lot c) t))" using mutexes_atD(2)[OF q, of t] by (simp add: call_ok_def)
  then have "count (mset (rsc (seen (the_lot c) t))) a = 1" using assms(2) by (simp add: tracks_def)
  then show ?thesis using guards_unique[OF inv assms(2)] unfolding locked_def
    by (cases "store (the_lot c) t") (auto simp: seen_def sight_def)
qed

theorem guards_exclusive_witness:
  "bytes mutexes_demo 5 AND LOCKED_BIT \<noteq> 0 \<and> (\<exists>td. store (the_lot mutexes_demo) 8 = Some td \<and> count (mset (owned td)) 5 = 1)"
  using guards_exclusive[OF mutexes_demo_facts(1), of 5 8] mutexes_demo_facts(2) by simp



end
