(* ===== verification/Mootex.thy ===== *)
theory Mootex
  imports Mutex_Lot_Props
begin

text \<open>
  \<open>Mootex\<close> of \<open>mutex/mod.rs\<close>, a \<open>SmallMutex\<close> over a \<open>RawMutex\<close>, in a program of many threads: the data behind any number of mutexes on the
  parking lot of \<open>Mutex_Lot\<close>. \<open>lock\<close> returns a guard, whose \<open>deref\<close> and \<open>deref_mut\<close> reach the data through the \<open>UnsafeCell\<close> with no check at all, and
  whose \<open>Drop\<close> calls \<open>unlock\<close>. An update of the data is two steps, a read of the cell and a later write of what was computed from
  it, so two threads that could both be between them would lose an update.
\<close>

section \<open>Data behind mutexes\<close>

text \<open>
  A \<open>SmallMutex\<close> is known by the address of its raw mutex. \<open>loans\<close> holds what a thread has read through a reference from \<open>deref_mut\<close> that is still alive;
  the borrow checker keeps a guard from being dropped during that time. \<open>history\<close> is written and never read.
\<close>

record 'd mootexes =
  sys :: mutexes
  cells :: "usize \<Rightarrow> 'd"
  loans :: "ptr \<Rightarrow> usize \<Rightarrow> 'd option"
  history :: "usize \<Rightarrow> ('d \<Rightarrow> 'd) list"

definition mootex_new :: "(usize \<Rightarrow> 'd) \<Rightarrow> 'd mootexes" where
  "mootex_new val = \<lparr>sys = mutexes_init, cells = val, loans = (\<lambda>_ _. None), history = (\<lambda>_. [])\<rparr>"

definition set_loan :: "ptr \<Rightarrow> usize \<Rightarrow> 'd option \<Rightarrow> 'd mootexes \<Rightarrow> 'd mootexes" where
  "set_loan t a v m = m\<lparr>loans := (loans m)(t := (loans m t)(a := v))\<rparr>"

text \<open>\<open>deref_mut\<close> of a guard and the read through the reference it returns.\<close>

definition borrow_step :: "usize \<Rightarrow> ptr \<Rightarrow> 'd mootexes \<Rightarrow> 'd mootexes option" where
  "borrow_step a t m =
    (if a \<in> guards (sys m) t \<and> loans m t a = None then Some (set_loan t a (Some (cells m a)) m) else None)"

text \<open>The write through the reference, of a value computed from the one read, and the end of its life.\<close>

definition assign_step :: "usize \<Rightarrow> ('d \<Rightarrow> 'd) \<Rightarrow> ptr \<Rightarrow> 'd mootexes \<Rightarrow> 'd mootexes option" where
  "assign_step a f t m =
    map_option (\<lambda>v. set_loan t a None (m\<lparr>cells := (cells m)(a := f v), history := (history m)(a := history m a @ [f])\<rparr>))
      (loans m t a)"

fun borrowed :: "mutexes_action \<Rightarrow> ptr \<Rightarrow> 'd mootexes \<Rightarrow> bool" where
  "borrowed (Do_unlock a) t m = (loans m t a \<noteq> None)"
| "borrowed _ t m = False"

datatype 'd mootex_action = Call mutexes_action | Borrow usize | Assign usize "'d \<Rightarrow> 'd"

fun mootex_step :: "'d mootex_action \<Rightarrow> ptr \<Rightarrow> 'd mootexes \<Rightarrow> 'd mootexes outcome option" where
  "mootex_step (Call x) t m =
     (if borrowed x t m then None
      else map_option (\<lambda>r. obind r (\<lambda>c. Inr (m\<lparr>sys := c\<rparr>))) (mutexes_step x t (sys m)))"
| "mootex_step (Borrow a) t m = map_option Inr (borrow_step a t m)"
| "mootex_step (Assign a f) t m = map_option Inr (assign_step a f t m)"

inductive mootex_trans :: "'d mootexes \<Rightarrow> 'd mootexes \<Rightarrow> bool" where
  "mootex_step x t m = Some (Inr m') \<Longrightarrow> unat (num_threads (the_lot (sys m'))) < 2 ^ 29 \<Longrightarrow> mootex_trans m m'"

inductive_cases mootex_transE: "mootex_trans m m'"

section \<open>Invariant\<close>

definition mootex_inv :: "(usize \<Rightarrow> 'd) \<Rightarrow> 'd mootexes \<Rightarrow> bool" where
  "mootex_inv val m \<longleftrightarrow> mutexes_inv (sys m) \<and>
     (\<forall>t a v. loans m t a = Some v \<longrightarrow> a \<in> guards (sys m) t \<and> v = cells m a) \<and>
     (\<forall>a. cells m a = fold (\<lambda>f. f) (history m a) (val a))"

lemma mootex_invD:
  assumes "mootex_inv val m"
  shows "mutexes_inv (sys m)" "loans m t a = Some v \<Longrightarrow> a \<in> guards (sys m) t" "loans m t a = Some v \<Longrightarrow> v = cells m a"
    "cells m a = fold (\<lambda>f. f) (history m a) (val a)"
  using assms unfolding mootex_inv_def by blast+

lemma mootex_invI:
  assumes "mutexes_inv (sys m)" "\<And>t a v. loans m t a = Some v \<Longrightarrow> a \<in> guards (sys m) t"
    "\<And>t a v. loans m t a = Some v \<Longrightarrow> v = cells m a" "\<And>a. cells m a = fold (\<lambda>f. f) (history m a) (val a)"
  shows "mootex_inv val m"
  using assms unfolding mootex_inv_def by blast

lemma set_loan_sel [simp]:
  "sys (set_loan t a v m) = sys m" "cells (set_loan t a v m) = cells m" "history (set_loan t a v m) = history m"
  "loans (set_loan t a v m) = (loans m)(t := (loans m t)(a := v))"
  by (simp_all add: set_loan_def)

text \<open>A thread keeps its guards until it unlocks them itself.\<close>

lemma of_lot_guards: "of_lot t y c r = Some (Inr c') \<Longrightarrow> guards c' = guards c"
  by (auto simp: of_lot_def obind_Inr)

lemma run_guards:
  assumes "call_run_step sp now t b pc c = Some (Inr c')" "a \<in> guards c u"
  shows "a \<in> guards c' u"
proof (cases pc)
  case (Parked w)
  then show ?thesis using assms by (auto simp: call_run_step_def parking_step_def simp del: lot_step.simps dest!: of_lot_guards split: lpc.splits)
next
  case Unpark_scan
  then show ?thesis using assms by (auto simp: call_run_step_def unparking_step_def unlock_in_bucket_def Let_def obind_Inr simp del: lot_step.simps
        dest!: of_lot_guards split: lpc.splits sum.splits)
qed (use assms in \<open>auto simp: call_run_step_def with_thread_data_def byte_step_def simp del: lot_step.simps dest!: of_lot_guards split: lpc.splits\<close>)

lemma step_guards:
  assumes "mutexes_step x t c = Some (Inr c')" "a \<in> guards c u"
  shows "a \<in> guards c' u \<or> u = t \<and> x = Do_unlock a"
proof (cases x)
  case (Do_run sp now)
  then obtain b pc where "call_run_step sp now t b pc c = Some (Inr c')" using assms(1) by (auto split: option.splits)
  then show ?thesis using run_guards assms(2) by blast
qed (use assms in \<open>auto simp del: lot_step.simps dest!: of_lot_guards split: if_splits\<close>)

lemma call_keeps_inv:
  assumes "mootex_inv val m" "mutexes_step x t (sys m) = Some (Inr c)" "\<not> borrowed x t m" "unat (num_threads (the_lot c)) < 2 ^ 29"
  shows "mootex_inv val (m\<lparr>sys := c\<rparr>)"
proof (rule mootex_invI)
  note inv = mootex_invD[OF assms(1)]
  show "mutexes_inv (sys (m\<lparr>sys := c\<rparr>))" using mutexes_runs.inv_step[OF inv(1) mutexes_trans.intros[OF assms(2,4)]] by simp
  show "a \<in> guards (sys (m\<lparr>sys := c\<rparr>)) u" if "loans (m\<lparr>sys := c\<rparr>) u a = Some v" for u a v
    using step_guards[OF assms(2) inv(2), of u a v] assms(3) that by auto
qed (use mootex_invD(3,4)[OF assms(1)] in simp_all)

lemma borrow_keeps:
  assumes "mootex_inv val m" "borrow_step a t m = Some m'"
  shows "mootex_inv val m'"
  using mootex_invD[OF assms(1)] assms(2) by (intro mootex_invI) (auto simp: borrow_step_def split: if_splits)

lemma loan_unique:
  assumes "mootex_inv val m" "loans m t a = Some v" "u \<noteq> t"
  shows "loans m u a = None"
  using mootex_invD(1,2)[OF assms(1)] guards_unique(1)[of "sys m" a t u] assms(2,3) by (cases "loans m u a") auto

lemma assign_keeps:
  assumes "mootex_inv val m" "assign_step a f t m = Some m'"
  shows "mootex_inv val m'"
proof (rule mootex_invI)
  note inv = mootex_invD[OF assms(1)]
  obtain v where v: "loans m t a = Some v"
    "m' = set_loan t a None (m\<lparr>cells := (cells m)(a := f v), history := (history m)(a := history m a @ [f])\<rparr>)"
    using assms(2) by (auto simp: assign_step_def)
  show "mutexes_inv (sys m')" using inv(1) v(2) by simp
  show "b \<in> guards (sys m') u" if "loans m' u b = Some w" for u b w
    using that inv(2) v(2) by (auto split: if_splits)
  show "w = cells m' b" if "loans m' u b = Some w" for u b w
    using that inv(3)[of u b w] loan_unique[OF assms(1) v(1), of u] v(2) by (auto split: if_splits)
  show "cells m' b = fold (\<lambda>f. f) (history m' b) (val b)" for b
    using inv(4)[of b] inv(3)[OF v(1)] v(2) by (cases "b = a") simp_all
qed

interpretation mootex_runs: inductive_invariant "\<lambda>m. m = mootex_new val" mootex_trans "mootex_inv val" for val
proof
  show "mootex_inv val m" if "m = mootex_new val" for m
    using that mutexes_runs.inv_init by (simp add: mootex_inv_def mootex_new_def)
  show "mootex_inv val m'" if inv: "mootex_inv val m" and tr: "mootex_trans m m'" for m m'
  proof -
    obtain x t where s: "mootex_step x t m = Some (Inr m')" "unat (num_threads (the_lot (sys m'))) < 2 ^ 29"
      using tr by (rule mootex_trans.cases) blast
    show ?thesis
    proof (cases x)
      case (Call y)
      then show ?thesis using s call_keeps_inv[OF inv, of y t] by (auto simp: obind_Inr split: if_splits)
    next
      case (Borrow a)
      then show ?thesis using s borrow_keeps[OF inv] by auto
    next
      case (Assign a f)
      then show ?thesis using s assign_keeps[OF inv] by auto
    qed
  qed
qed

section \<open>Property\<close>

text \<open>
  C5. \<open>Mootex\<close> protects its data. However threads interleave their calls and their reads and writes through guards, the data behind a mutex is the result of all updates made
  so far, one after the other and none lost, and while a thread works with a value it has read, that value is the current one, the thread holds the
  mutex, and no other thread has a reference to the same data.
\<close>

theorem mootex_updates_atomic:
  assumes "reach (\<lambda>m. m = mootex_new val) mootex_trans m"
  shows "cells m a = fold (\<lambda>f. f) (history m a) (val a) \<and>
    (\<forall>t v. loans m t a = Some v \<longrightarrow> v = cells m a \<and> a \<in> guards (sys m) t \<and> (\<forall>u. u \<noteq> t \<longrightarrow> loans m u a = None))"
proof -
  have inv: "mootex_inv val m" by (rule mootex_runs.reach_inv[OF assms])
  show ?thesis using mootex_invD(2,3,4)[OF inv] loan_unique[OF inv] by blast
qed

text \<open>A run for the witness: thread 8 locks the mutex at address 5 and increments the number behind it.\<close>

fun mootex_actions :: "('d mootex_action \<times> ptr) list \<Rightarrow> 'd mootexes \<Rightarrow> 'd mootexes outcome option" where
  "mootex_actions [] m = Some (Inr m)"
| "mootex_actions ((x, t) # xs) m =
     (case mootex_step x t m of
        None \<Rightarrow> None
      | Some (Inl f) \<Rightarrow> Some (Inl f)
      | Some (Inr m') \<Rightarrow> if unat (num_threads (the_lot (sys m'))) < 2 ^ 29 then mootex_actions xs m' else None)"

lemma mootex_actions_reach:
  "reach (\<lambda>m. m = mootex_new val) mootex_trans m \<Longrightarrow> mootex_actions xs m = Some (Inr m') \<Longrightarrow> reach (\<lambda>m. m = mootex_new val) mootex_trans m'"
proof (induction xs m rule: mootex_actions.induct)
  case (2 x t xs m)
  then obtain d where "mootex_step x t m = Some (Inr d)" "unat (num_threads (the_lot (sys d))) < 2 ^ 29" "mootex_actions xs d = Some (Inr m')"
    by (auto simp del: mootex_step.simps split: option.splits sum.splits if_splits)
  then show ?case using 2(1)[OF _ refl] reach_step[OF 2(2) mootex_trans.intros] by simp
qed simp

lemma mootex_calls:
  "mutexes_actions xs (sys m) = Some (Inr c) \<Longrightarrow> (\<And>a. (Do_unlock a, t) \<notin> set xs) \<Longrightarrow> \<forall>(x, u) \<in> set xs. u = t \<Longrightarrow>
   mootex_actions (map (\<lambda>(x, u). (Call x, u)) xs) m = Some (Inr (m\<lparr>sys := c\<rparr>))"
proof (induction xs "sys m" arbitrary: m rule: mutexes_actions.induct)
  case (2 x u xs)
  then obtain d where d: "mutexes_step x u (sys m) = Some (Inr d)" "unat (num_threads (the_lot d)) < 2 ^ 29" "mutexes_actions xs d = Some (Inr c)"
    by (auto simp del: mutexes_step.simps split: option.splits sum.splits if_splits)
  have "\<not> borrowed x u m" using 2(3,4) by (cases x) auto
  then show ?case using d 2(1)[OF d(1), of "m\<lparr>sys := d\<rparr>"] 2(3,4) by (simp del: mutexes_step.simps)
qed simp

lemma mootex_actions_append:
  "mootex_actions xs m = Some (Inr d) \<Longrightarrow> mootex_actions (xs @ ys) m = mootex_actions ys d"
  by (induction xs m rule: mootex_actions.induct) (auto simp del: mootex_step.simps split: option.splits sum.splits if_splits)

definition increment_run :: "(nat mootex_action \<times> ptr) list" where
  "increment_run = map (\<lambda>(x, u). (Call x, u)) mutexes_run @ [(Borrow 5, 8), (Assign 5 Suc, 8), (Borrow 5, 8)]"

definition mootex_demo :: "nat mootexes" where
  "mootex_demo = (case mootex_actions increment_run (mootex_new (\<lambda>_. 0)) of Some (Inr m) \<Rightarrow> m | _ \<Rightarrow> mootex_new (\<lambda>_. 0))"

lemma mootex_demo_facts:
  "reach (\<lambda>m. m = mootex_new (\<lambda>_. 0)) mootex_trans mootex_demo" "loans mootex_demo 8 5 = Some 1" "history mootex_demo 5 = [Suc]"
proof -
  let ?m = "mootex_new (\<lambda>_. 0) :: nat mootexes"
  obtain c where c: "mutexes_actions mutexes_run (sys ?m) = Some (Inr c)" "guards c = (\<lambda>_. {})(8 := {5})" "num_threads (the_lot c) = 1"
    using mutexes_run_facts by (auto simp: mootex_new_def)
  have "mootex_actions (map (\<lambda>(x, u). (Call x, u)) mutexes_run) ?m = Some (Inr (?m\<lparr>sys := c\<rparr>))"
    by (rule mootex_calls[OF c(1), where t = 8]) (auto simp: mutexes_run_def Let_def)
  from mootex_actions_append[OF this, of "[(Borrow 5, 8), (Assign 5 Suc, 8), (Borrow 5, 8)]"]
  have r: "mootex_actions increment_run ?m = Some (Inr \<lparr>sys = c, cells = (\<lambda>_. 0)(5 := 1), loans = (\<lambda>_ _. None)(8 := [5 \<mapsto> 1]), history = (\<lambda>_. [])(5 := [Suc])\<rparr>)"
    using c(2,3) by (simp add: increment_run_def borrow_step_def assign_step_def set_loan_def mootex_new_def)
  show "reach (\<lambda>m. m = mootex_new (\<lambda>_. 0)) mootex_trans mootex_demo" "loans mootex_demo 8 5 = Some 1" "history mootex_demo 5 = [Suc]"
    using mootex_actions_reach[OF reach_init r] by (simp_all add: mootex_demo_def r)
qed

theorem mootex_updates_atomic_witness:
  "cells mootex_demo 5 = 1 \<and> 5 \<in> guards (sys mootex_demo) 8 \<and> loans mootex_demo 16 5 = None"
  using mootex_updates_atomic[OF mootex_demo_facts(1), of 5] mootex_demo_facts(2,3) by auto

end
