(* ===== verification/Shift_Queue.thy ===== *)
theory Shift_Queue
  imports Queue_Fifo
begin

text \<open>
  The public type \<open>ShiftQueue\<close> of \<open>queue/mod.rs\<close>: a \<open>RawQueue\<close> in a struct, every method passed on to it, and interpreted into
  \<open>fifo_queue\<close> like the queue inside. The waiting \<open>pop\<close> is \<open>shift_pop\<close> on the queue inside.
\<close>

record 'a shift_queue =
  raw :: "'a raw_queue"

definition shift_new ::
    "usize \<Rightarrow> 'a qnode allocator \<Rightarrow> usize \<Rightarrow> usize \<Rightarrow> (nat \<Rightarrow> ptr option) \<Rightarrow> usize \<Rightarrow> usize option
      \<Rightarrow> 'a qnode heap \<Rightarrow> ('a shift_queue \<times> usize option) outcome" where
  "shift_new al alloc gal gsz galloc cpus threads h =
    obind (raw_new al alloc gal gsz galloc cpus threads h) (\<lambda>(q, threads'). Inr (\<lparr>raw = q\<rparr>, threads'))"

definition shift_default ::
    "usize \<Rightarrow> 'a qnode allocator \<Rightarrow> usize \<Rightarrow> usize \<Rightarrow> (nat \<Rightarrow> ptr option) \<Rightarrow> usize \<Rightarrow> usize option
      \<Rightarrow> 'a qnode heap \<Rightarrow> ('a shift_queue \<times> usize option) outcome" where
  "shift_default al alloc gal gsz galloc cpus threads h = shift_new al alloc gal gsz galloc cpus threads h"

definition shift_with_threads ::
    "usize \<Rightarrow> 'a qnode allocator \<Rightarrow> usize \<Rightarrow> usize \<Rightarrow> (nat \<Rightarrow> ptr option) \<Rightarrow> usize \<Rightarrow> 'a qnode heap
      \<Rightarrow> 'a shift_queue outcome" where
  "shift_with_threads al alloc gal gsz galloc threads h =
    obind (raw_with_threads al alloc gal gsz galloc threads h) (\<lambda>q. Inr \<lparr>raw = q\<rparr>)"

definition shift_is_empty :: "usize \<Rightarrow> 'a shift_queue \<Rightarrow> bool outcome" where
  "shift_is_empty al s = raw_is_empty al (raw s)"

definition shift_push :: "usize \<Rightarrow> 'a qnode allocator \<Rightarrow> 'a \<Rightarrow> 'a shift_queue \<Rightarrow> 'a shift_queue outcome option" where
  "shift_push al alloc v s = map_option (\<lambda>r. obind r (\<lambda>q. Inr (s\<lparr>raw := q\<rparr>))) (raw_push al alloc v (raw s))"

definition shift_try_pop :: "usize \<Rightarrow> 'a shift_queue \<Rightarrow> ('a option \<times> 'a shift_queue) outcome option" where
  "shift_try_pop al s = map_option (\<lambda>r. obind r (\<lambda>(x, q). Inr (x, s\<lparr>raw := q\<rparr>))) (raw_try_pop al (raw s))"

definition shift_rep ::
    "usize \<Rightarrow> 'a qnode allocator \<Rightarrow> nat \<Rightarrow> usize \<Rightarrow> 'a shift_queue \<Rightarrow> 'a list \<Rightarrow> nat \<Rightarrow> nat \<Rightarrow> bool" where
  "shift_rep al alloc N c s xs e d \<longleftrightarrow> raw_rep al alloc N c (raw s) xs e d"

interpretation shift_fifo: fifo_queue "shift_push al alloc" "shift_try_pop al" "shift_rep al alloc N c" for al alloc N c
proof
  show "\<exists>s'. shift_push al alloc v s = Some (Inr s') \<and> shift_rep al alloc N c s' (xs @ [v]) e d"
    if "shift_rep al alloc N c s xs (Suc e) d" for s :: "'a shift_queue" and xs e d v
    using raw_fifo.enq_back that[unfolded shift_rep_def] by (fastforce simp: shift_rep_def shift_push_def)
  show "\<exists>s'. shift_try_pop al s = Some (Inr (Some x, s')) \<and> shift_rep al alloc N c s' xs e d"
    if "shift_rep al alloc N c s (x # xs) e (Suc d)" for s :: "'a shift_queue" and x xs e d
    using raw_fifo.deq_front that[unfolded shift_rep_def] by (fastforce simp: shift_rep_def shift_try_pop_def)
  show "\<exists>s'. shift_try_pop al s = Some (Inr (None, s')) \<and> shift_rep al alloc N c s' [] e d"
    if "shift_rep al alloc N c s [] e d" for s :: "'a shift_queue" and e d
    using raw_fifo.deq_none that[unfolded shift_rep_def] by (fastforce simp: shift_rep_def shift_try_pop_def)
qed

text \<open>A history on the struct gives the answers of the list specification.\<close>

lemma shift_rep_new:
  assumes "shift_with_threads al alloc gal gsz galloc threads h = Inr s" "good_alloc al alloc"
    "roomy alloc N" "card (dom h) + 1 + e = N"
  shows "shift_rep al alloc N threads s [] e (unat threads)"
  using assms raw_rep_new[OF _ assms(2-4)]
  by (cases "raw_with_threads al alloc gal gsz galloc threads h") (auto simp: shift_with_threads_def shift_rep_def)

lemma shift_history:
  assumes "shift_with_threads al alloc gal gsz galloc threads h = Inr s" "good_alloc al alloc"
    "roomy alloc (card (dom h) + 1 + enqs ops)" "taken ops [] \<le> unat threads"
  shows "\<exists>s'. run_ops (shift_push al alloc) (shift_try_pop al) ops s = Some (Inr (fst (spec_run ops []), s'))"
proof -
  have "shift_rep al alloc (card (dom h) + 1 + enqs ops) threads s [] (enqs ops + 0) (taken ops [] + (unat threads - taken ops []))"
    using shift_rep_new[OF assms(1-3), of "enqs ops"] assms(4) by simp
  from shift_fifo.run_ops_spec[OF this] show ?thesis by blast
qed

end
