(* ===== verification/Waker.thy ===== *)
theory Waker
  imports Prelude
begin

text \<open>
  \<open>waker.rs\<close>: the waker that the iterator of \<open>CoQueue\<close> polls with. A \<open>RawWaker\<close> is a data pointer and a pointer to a table of functions; the
  crate has one table, so the pointer is its name, and calling through a waker is a look-up in that table. What \<open>Waker\<close> does with
  the table is the documented contract of \<open>std::task\<close>: \<open>clone\<close> makes a waker of the raw waker the table returns, \<open>wake\<close> consumes
  the waker, \<open>wake_by_ref\<close> does not, and dropping a waker calls \<open>drop\<close>. The world \<open>'w\<close> is whatever the functions could change.
\<close>

datatype vtable_name = VTABLE

record raw_waker =
  data :: ptr
  vtable :: vtable_name

definition RAW_WAKER :: raw_waker where
  "RAW_WAKER = \<lparr>data = null, vtable = VTABLE\<rparr>"

definition clone :: "ptr \<Rightarrow> 'w \<Rightarrow> raw_waker \<times> 'w" where
  "clone p w = (RAW_WAKER, w)"

definition wake :: "ptr \<Rightarrow> 'w \<Rightarrow> 'w" where
  "wake p w = w"

definition wake_by_ref :: "ptr \<Rightarrow> 'w \<Rightarrow> 'w" where
  "wake_by_ref p w = w"

definition drop_waker :: "ptr \<Rightarrow> 'w \<Rightarrow> 'w" where
  "drop_waker p w = w"

record 'w vtable_fns =
  clone_fn :: "ptr \<Rightarrow> 'w \<Rightarrow> raw_waker \<times> 'w"
  wake_fn :: "ptr \<Rightarrow> 'w \<Rightarrow> 'w"
  wake_by_ref_fn :: "ptr \<Rightarrow> 'w \<Rightarrow> 'w"
  drop_fn :: "ptr \<Rightarrow> 'w \<Rightarrow> 'w"

fun vtable_of :: "vtable_name \<Rightarrow> 'w vtable_fns" where
  "vtable_of VTABLE = \<lparr>clone_fn = clone, wake_fn = wake, wake_by_ref_fn = wake_by_ref, drop_fn = drop_waker\<rparr>"

datatype waker = Waker raw_waker

definition create :: waker where
  "create = Waker RAW_WAKER"

text \<open>A program that owns some wakers and uses the one at a position of its list; a position that it does not have is no call.\<close>

datatype waker_call = Create | Clone nat | Wake nat | Wake_by_ref nat | Drop nat

definition remove_nth :: "nat \<Rightarrow> 'a list \<Rightarrow> 'a list" where
  "remove_nth i xs = take i xs @ drop (Suc i) xs"

fun waker_use :: "waker_call \<Rightarrow> waker list \<times> 'w \<Rightarrow> waker list \<times> 'w" where
  "waker_use Create (ws, w) = (ws @ [create], w)"
| "waker_use (Clone i) (ws, w) =
     (if i < length ws
      then case ws ! i of Waker r \<Rightarrow> (case clone_fn (vtable_of (vtable r)) (data r) w of (r', w') \<Rightarrow> (ws @ [Waker r'], w'))
      else (ws, w))"
| "waker_use (Wake i) (ws, w) =
     (if i < length ws then case ws ! i of Waker r \<Rightarrow> (remove_nth i ws, wake_fn (vtable_of (vtable r)) (data r) w) else (ws, w))"
| "waker_use (Wake_by_ref i) (ws, w) =
     (if i < length ws then case ws ! i of Waker r \<Rightarrow> (ws, wake_by_ref_fn (vtable_of (vtable r)) (data r) w) else (ws, w))"
| "waker_use (Drop i) (ws, w) =
     (if i < length ws then case ws ! i of Waker r \<Rightarrow> (remove_nth i ws, drop_fn (vtable_of (vtable r)) (data r) w) else (ws, w))"

lemma set_remove_nth: "set (remove_nth i xs) \<subseteq> set xs"
  using set_take_subset[of i xs] set_drop_subset[of "Suc i" xs] by (auto simp: remove_nth_def)

lemma waker_use_inert:
  assumes "set ws \<subseteq> {create}"
  shows "set (fst (waker_use c (ws, w))) \<subseteq> {create} \<and> snd (waker_use c (ws, w)) = w"
proof -
  have i: "ws ! i = Waker RAW_WAKER" if "i < length ws" for i using assms nth_mem[OF that] by (auto simp: create_def)
  show ?thesis using assms set_remove_nth[of _ ws]
    by (cases c) (auto simp: i clone_def wake_def wake_by_ref_def drop_waker_def create_def RAW_WAKER_def)
qed

text \<open>
  Every waker that comes from \<open>create\<close>, by any sequence of clones, wakes and drops, is the same inert waker, and no such sequence changes anything:
  a task that is polled with it is never woken by it, so the loop of \<open>CoQueIntoIter::next\<close> has to poll again by itself, and does.
\<close>

theorem wakers_inert:
  "set (fst (fold waker_use cs ([], w))) \<subseteq> {create} \<and> snd (fold waker_use cs ([], w)) = w"
proof -
  have "set (fst (fold waker_use cs (ws, w))) \<subseteq> {create} \<and> snd (fold waker_use cs (ws, w)) = w" if "set ws \<subseteq> {create}" for ws
    using that
  proof (induction cs arbitrary: ws)
    case (Cons c cs)
    obtain ws' w' where u: "waker_use c (ws, w) = (ws', w')" by fastforce
    then have "set ws' \<subseteq> {create}" "w' = w" using waker_use_inert[OF Cons.prems, of c w] by simp_all
    then show ?case using Cons.IH u by simp
  qed simp
  then show ?thesis by simp
qed

end
