(* ===== verification/Spec2Isabelle.thy ===== *)
theory Spec2Isabelle
  imports Mutex_Safety Small_Mutex Queue_Race Queue_Spsc Hash_Table Blocking Lot_Props Word_Lock_Props Backoff
    Co_Conc_Props Co_Length Co_Alone Futex Cache_Pad Mootex Shift_Queue Waker
begin

text \<open>
  A verification of the Rust crate \<open>co_queue\<close> (\<open>src/src\<close>): concurrent queues, and the mutex with its parking lot that
  one of them is built on.

  \<^bold>\<open>The program.\<close> There are three layers.
  \<^item> \<open>mutex/\<close>: \<open>Mootex\<close> (\<open>mod.rs\<close>) is data behind a \<open>RawMutex\<close> (\<open>raw_mutex.rs\<close>), one byte with a locked and a parked bit. A thread
    that cannot get the mutex parks in the parking lot of \<open>deadlock.rs\<close>: a global hash table from addresses to queues of
    sleeping \<open>ThreadData\<close> records. Its buckets are protected by \<open>WordLock\<close>, which has a wait queue of its own, and a thread
    sleeps on the futex of its \<open>ThreadParker\<close>. \<open>SpinWait\<close>, \<open>FairTimeout\<close> and the deadlock bookkeeping belong to it.
  \<^item> \<open>queue/\<close>: \<open>ShiftQueue\<close> and \<open>RawQueue\<close> (\<open>mod.rs\<close>), a linked queue over the tagged pointers of \<open>own_ref.rs\<close>; nodes that were
    taken out are retired into a \<open>PtrGuard\<close> (\<open>shift_guard.rs\<close>).
  \<^item> \<open>lockless_queue.rs\<close>: \<open>CoQueue\<close>, a queue of chunks of 31 slots, with the stream and iterator of \<open>stream.rs\<close> and the
    \<open>BlockingQueue\<close> of \<open>blocking_col.rs\<close> on top of it, and \<open>Backoff\<close> and \<open>CachePad\<close>. \<open>lib.rs\<close> comments these modules out; they are modelled all the same.

  \<^bold>\<open>Conventions.\<close> \<open>usize\<close>, \<open>u32\<close> and \<open>u8\<close> are words of 64, 32 and 8 bits. Raw pointers are \<open>usize\<close> addresses into stores (maps from
    addresses to records). An operation returns an \<open>outcome\<close>: a value or a fault, where \<open>Panic\<close> is a Rust panic (overflow checks
    included, as in a debug build) and \<open>Dangling\<close>, \<open>Uninitialised\<close> and \<open>Out_of_bounds\<close> are the accesses that Rust calls undefined
    behaviour; nothing excludes them but proofs. A loop that may not end is a \<open>partial_function (option)\<close>, \<open>None\<close> being the
    run that does not return; there is no fuel, and that a loop returns is part of every property about it. Concurrent code
    is a machine whose steps are the atomic accesses of the source; a position (\<open>mpc\<close>, \<open>wpc\<close>, \<open>lpc\<close>, \<open>push_pc\<close> ...) is the
    code location of a thread with its local variables, and arguments of the step function resolve what the hardware or
    the environment decides: a spurious failure of a weak compare-exchange, the clock, an address, a callback's answer. The memory
    model is sequential consistency. Allocators and \<open>num_cpus\<close> are parameters; \<open>good_alloc\<close> says that an allocator returns fresh,
    aligned addresses and \<open>roomy\<close> that it has space left, and \<open>arena_alloc\<close> is one that does both. The kernel behind the futex is a parameter
    too; \<open>good_kernel\<close> is the contract of its manual page, and \<open>plain_kernel\<close> keeps it.

  \<^bold>\<open>Theories.\<close>
  \<^item> \<open>Prelude\<close>: types, outcomes, list segments in a store, reachability and the locale \<open>inductive_invariant\<close>, into which every
    machine of the development is interpreted.
  \<^item> \<open>Thread_Parker\<close> (\<open>ThreadParkerT\<close> as the locale \<open>parker_contract\<close>, interpreted for the futex parker), \<open>Spin_Wait\<close>, \<open>Fair_Timeout\<close>, \<open>Deadlock_Data\<close>
    (\<open>deadlock_impl\<close>), \<open>Backoff\<close>: the small state machines. Shown: bounds of the counters, the xorshift generator is a permutation
    without fixed point zero among the non-zero seeds, the deadline moves by less than a millisecond, releasing removes the last acquisition.
  \<^item> \<open>Park_Queue\<close>: \<open>ThreadData\<close>, \<open>Bucket\<close>, and the bodies of \<open>park\<close> and \<open>unpark_one\<close> under the bucket lock on linked records. Shown: the
    loops end, never leave the list, and implement appending and removing on the list of waiting threads.
  \<^item> \<open>Hash_Table\<close>, \<open>Table_Ops\<close>: \<open>HashTable::new\<close>, \<open>hash\<close>, \<open>rehash_bucket_into\<close>, \<open>grow_hashtable\<close>, and the bucket operations lifted to a table. Shown: sizes,
    hash values in range, growth keeps the queue of every key.
  \<^item> \<open>Parking_Lot\<close> (model), \<open>Lot_Safety\<close>, \<open>Lot_Data\<close> (invariant), \<open>Lot_Props\<close>: the parking lot as a whole, any number of threads that register, park,
    unpark, time out and exit on any keys while the table is replaced. Shown: it refines a map from keys to
    queues and never faults, buckets are used exclusively and only in the current table, no sleeper is forgotten. The number of registered
    threads is assumed to stay below \<open>2 ^ 29\<close>, the size up to which the seeds and the sizes of the table do not overflow. \<open>Lot_Frame\<close> says what a step leaves alone, for the
    clients of the lot, and \<open>Lot_Progress\<close> that the lot never deadlocks on its bucket locks.
  \<^item> \<open>Word_Lock\<close> (model), \<open>Word_Lock_Bits\<close>, \<open>Word_Queue\<close>, \<open>Word_Lock_Safety\<close> (word, list and machine invariant), \<open>Word_Lock_Props\<close>: the bucket lock. Shown: mutual
    exclusion, no access to a record that is gone, no stuck sleeper, and a thread inside \<open>unlock\<close> returns once it runs alone. \<open>Parking_Lot\<close> and
    \<open>Raw_Mutex\<close> use it as an optional holder of a bucket.
  \<^item> \<open>Raw_Mutex\<close> (model), \<open>Mutex_Safety\<close>: \<open>lock\<close>, \<open>unlock\<close>, \<open>try_lock\<close> with their slow paths, one mutex and its queue in the parking lot. Shown: mutual
    exclusion, every row of the state table of the documentation, no lost wake-up, fair hand-over, the detector's resources; and that \<open>try_lock\<close>
    does not exclude, and \<open>force_unlock\<close> frees a mutex that another thread holds. \<open>Small_Mutex\<close>: \<open>Mutexable\<close> as a locale, \<open>SmallMutex\<close> and the guards over it, interpreted for \<open>RawMutex\<close>.
  \<^item> \<open>Mutex_Lot\<close> (model): the composition of the two, any number of mutexes and threads on the one parking lot. The accesses to a state byte are the steps of
    \<open>Raw_Mutex\<close>, the calls of \<open>park\<close> and \<open>unpark_one\<close> those of \<open>Parking_Lot\<close>, and the callbacks are the closures of \<open>lock_slow\<close> and \<open>unlock_slow\<close>.
    \<open>Mutex_Lot_Sim\<close> and \<open>Mutex_Lot_Steps\<close> project a composed state to each mutex (\<open>mutex_view\<close>) and show that every step is a sequence of steps of \<open>Raw_Mutex\<close> there.
    \<open>Mutex_Lot_Props\<close> shows: the refinement, mutual exclusion of the guards, no fault, no stranded sleeper. \<open>Mootex\<close>
    puts data behind the mutexes, read and written through guards in separate steps. Shown: no update is lost and no two threads have references to the same data.
  \<^item> \<open>Own_Ref\<close>, \<open>Shift_Guard\<close>, \<open>Raw_Queue\<close>: tagged pointers and boxes, \<open>PtrGuard\<close>, \<open>RawQueue\<close> and \<open>ShiftQueue\<close> at the level of single accesses.
    \<open>Fifo_Spec\<close>: the specification of a queue as a list and the locale \<open>fifo_queue\<close>, interpreted for \<open>RawQueue\<close> in \<open>Queue_Fifo\<close>, for the
    struct \<open>ShiftQueue\<close> in \<open>Shift_Queue\<close> and for \<open>CoQueue\<close> in \<open>Co_Fifo\<close>.
    \<open>Queue_Spsc\<close>: one producer and one consumer in any interleaving, up to the removal that finds the guard of \<open>pop\<close> full. \<open>Queue_Race\<close>: with two producers the
    element of a \<open>push\<close> that returned is not in the queue and the other producer panics. Shown besides: the limits
    after which the guard overflows, and what dropping a queue leaks.
  \<^item> \<open>Co_Queue\<close> (model), \<open>Co_Index\<close> (index words as positions), \<open>Co_Fifo\<close>: \<open>CoQueue\<close> of one thread, with any number of spurious failures. \<open>Co_Stream\<close>:
    \<open>poll\<close>, \<open>poll_next\<close> and \<open>next\<close> with the channel. \<open>Blocking\<close>: \<open>BlockingQueue\<close> used by one thread, with the poisoning of its lock. Shown: first in first out, \<open>len\<close>, leaked
    chunks, what \<open>next\<close> answers for every content of queue and channel, on both queues. Fewer than \<open>2 ^ 60\<close> insertions
    keep the index words from overflowing.
  \<^item> \<open>Co_Steps\<close> (model): \<open>push\<close>, \<open>pop\<close>, \<open>is_empty\<close> and \<open>len\<close> of \<open>CoQueue\<close> run by any number of threads at once, every access to shared memory a step; two
    history variables (elements in the order of their indices, chunks in the order of their links) are written and never read. \<open>Co_Conc\<close> is the invariant,
    a part on the shared words and a part for every position of a thread; \<open>Co_Keeps\<close>, \<open>Co_Push_Steps\<close> and \<open>Co_Pop_Steps\<close> show that each step keeps it,
    \<open>Co_Progress\<close> that whatever a thread waits for is the duty of another one. \<open>Trace_Refinement\<close> is the locale of refinement between labelled machines, which
    \<open>Co_Linear\<close> interprets for \<open>CoQueue\<close> and a queue with atomic operations. \<open>Co_Runs\<close> builds concrete runs. \<open>Co_Conc_Props\<close> shows: linearizability of \<open>push\<close>
    and \<open>pop\<close>, memory safety, no data race on a value, absence of deadlock, a \<open>push\<close> that has claimed its index is wait-free; and that \<open>len\<close> can panic and \<open>is_empty\<close> can deny that
    a queue is empty. \<open>Co_Length\<close> shows that \<open>len\<close>, when it returns, gives the number of elements at one moment of the call. \<open>Co_Alone\<close> connects the two models of
    \<open>CoQueue\<close>: a thread that runs alone in \<open>Co_Steps\<close> does what the functions of \<open>Co_Queue\<close> compute. The bound of \<open>2 ^ 60\<close> insertions is the same.
  \<^item> \<open>Futex\<close>: \<open>futex_wait\<close>, \<open>unpark\<close> and the race between the loop of \<open>park\<close> or \<open>park_until\<close> and a thread that unparks it. Shown: the parked thread does not sleep on and no
    assertion on a system call fails. \<open>Cache_Pad\<close>: \<open>CachePad\<close> and its layout. Shown: size and alignment are the documented ones, with lines of 128 bytes on x86-64 and 64 elsewhere, and separate cache lines.
    \<open>Waker\<close>: the waker of \<open>waker.rs\<close> and its table of functions. Shown: it is inert.

  \<^bold>\<open>Interaction.\<close> \<open>Mutex_Safety\<close> treats one mutex with the list operations that \<open>Park_Queue\<close> proves for \<open>unpark_one\<close>; \<open>Mutex_Lot_Props\<close> carries its results over to
    many mutexes on the parking lot of \<open>Parking_Lot\<close>, whose own guarantees are in \<open>Lot_Props\<close>. \<open>Word_Lock_Props\<close> justifies the bucket locks. \<open>Blocking\<close> rests on \<open>Co_Stream\<close>, and this on the interpretation of \<open>fifo_queue\<close> in \<open>Co_Fifo\<close>. The machines of the
    mutex and of the locks let a parked thread go on when its futex word is zero, which \<open>Futex\<close> justifies.

  \<^bold>\<open>Not modelled.\<close> Memory orderings weaker than sequential consistency. \<open>Debug\<close> output except where it moves values,
    tests, and \<open>lib.rs\<close>. Dropping a \<open>CoQueue\<close>, its stream and its iterator have the queue for themselves, as \<open>&mut self\<close> requires, and are run
    by one thread only; so is \<open>BlockingQueue\<close>, whose \<open>RwLock\<close> is then always free. Messages that reach a channel while \<open>next\<close> runs. The system call of \<open>unpark\<close> in the machines of the
    locks, which touches no memory of the program (\<open>Futex\<close> has it). Mapped guards are modelled up to \<open>map\<close>; they have no destructor, so nothing unlocks. The abstract queue that \<open>CoQueue\<close> is compared with leaves open when \<open>is_empty\<close> answers no; \<open>Co_Length\<close> treats
    \<open>len\<close> on its own, because only its last read decides whether the moment of its answer has passed. In \<open>Parking_Lot\<close> a thread has registered before it unparks another one, as \<open>RawMutex\<close> makes sure by acquiring its resource first;
    \<open>Mutex_Lot\<close> has that registration. Its runs leave out \<open>try_lock\<close>, which breaks mutual exclusion already for one mutex, threads that lock a mutex they hold, threads that exit while
    they hold one, and calls from destructors of thread-local data, where \<open>with_thread_data\<close> makes a second record on the stack.
\<close>

end
